(* ===== verification/Prelude.thy ===== *)
theory Prelude
  imports Main "HOL-Library.Word" "HOL-Library.Code_Target_Nat"
begin

text \<open>
  Shared vocabulary of the emp-tool development.

  \<^item> \<open>error\<close>: every fatal \<open>expecting(cond, message)\<close> of the modelled sources
    (\<open>runtime/core/error.h\<close>) is one constructor, so that a process exit is a value.
    \<open>UndefinedBehaviour\<close> stands for an access the C++ program must not make (an index past
    the end of a buffer, a read of an unset variable): theorems show it is not reached.
  \<^item> \<open>'a res\<close>: a computation that may exit; \<open>res_bind\<close> sequences, the first error wins.
  \<^item> \<open>('s, 'a) gm\<close>: a gate computation, that is a computation over the state \<open>'s\<close> of a
    Boolean context which returns an \<open>'a\<close> or exits.
  \<^item> \<open>bits_val\<close>: the number a little-endian bit list stands for.
  Wire ids and counts are \<open>nat\<close>; where the C++ code truncates or may wrap at 32 bits the
  reduction is written out with \<open>u32\<close>.
\<close>

section \<open>Errors and results\<close>

datatype operand = In0 | In1

datatype error =
    UndefinedBehaviour
    \<comment> \<open>validate.h\<close>
  | NumInputsExceedNumWires
  | NotOperandNotCanonical nat nat
  | ConstOperandsNotCanonical nat nat
  | UnknownGateOp
  | ReuseTooManyWires
  | NotDenseCount
  | ReadOutOfRange operand nat nat
  | ReadBeforeWritten operand nat nat
  | ReadBeforeDefined operand nat nat
  | GateOutOutOfRange
  | GateWritesInput
  | DefinedTwice
  | OutputOutOfRange
  | OutputNeverWritten
  | OutputNeverDefined
    \<comment> \<open>execute.h, passes.h, schedule.h, transform.h\<close>
  | InputCountMismatch
  | OutputCountMismatch
  | RequiresDense
  | StalePlan
  | CompactTargetNone
  | CompactInputNotDense
    \<comment> \<open>empbc.h\<close>
  | EmpbcTruncated
  | EmpbcBadMagic
  | EmpbcBadVersion
  | EmpbcBadIndexWidth
  | EmpbcUnknownFlags
  | EmpbcReservedReuse
  | EmpbcSizeMismatch
  | EmpbcUnknownOp
    \<comment> \<open>the recording contexts\<close>
  | InputAfterGate
  | ZeroWidthInput
  | WireIdOverflow
  | NumInputsOverflow
  | OperandNeverAllocated
    \<comment> \<open>typed values and sessions\<close>
  | NegativeShift
  | WidthNotPositive
  | DifferentWidths
    \<comment> \<open>artifacts, circuit functions and compositions\<close>
  | ArtifactInputOverflow
  | ArtifactInputMismatch
  | ArtifactReturnMismatch
  | CircuitArity
  | CircuitArgWidth
  | CircuitReturnWidth
  | RunArity
  | RunInputMismatch
    \<comment> \<open>bit packing, blocks, generators, channels and test mode\<close>
  | NegativeCount
  | BitIndexOutOfRange
  | ByteCountOverflow
  | CounterOverflow
  | FsEnabledTwice
  | FsNotEnabled
  | NetBlocked
  | NetReadFailed
  | NetWriteFailed
  | TraceWriteFailed
  | MisalignedData
  | EntropyUnavailable
  | SecondLane0Thread

type_synonym 'a res = "error + 'a"

definition expecting :: "bool \<Rightarrow> error \<Rightarrow> unit res" where
  "expecting c e = (if c then Inr () else Inl e)"

definition res_bind :: "'a res \<Rightarrow> ('a \<Rightarrow> 'b res) \<Rightarrow> 'b res" where
  "res_bind r f = (case r of Inl e \<Rightarrow> Inl e | Inr x \<Rightarrow> f x)"

definition res_then :: "unit res \<Rightarrow> 'b res \<Rightarrow> 'b res" where
  "res_then r k = res_bind r (\<lambda>_. k)"

primrec res_each :: "('a \<Rightarrow> unit res) \<Rightarrow> 'a list \<Rightarrow> unit res" where
  "res_each f [] = Inr ()"
| "res_each f (x # xs) = res_then (f x) (res_each f xs)"

section \<open>Gate computations\<close>

type_synonym ('s, 'a) gm = "'s \<Rightarrow> error + 'a \<times> 's"

definition ret :: "'a \<Rightarrow> ('s, 'a) gm" where
  "ret x = (\<lambda>s. Inr (x, s))"

definition fail :: "error \<Rightarrow> ('s, 'a) gm" where
  "fail e = (\<lambda>s. Inl e)"

definition bind :: "('s, 'a) gm \<Rightarrow> ('a \<Rightarrow> ('s, 'b) gm) \<Rightarrow> ('s, 'b) gm" where
  "bind m f = (\<lambda>s. case m s of Inl e \<Rightarrow> Inl e | Inr (x, s') \<Rightarrow> f x s')"

definition check :: "bool \<Rightarrow> error \<Rightarrow> ('s, 'a) gm \<Rightarrow> ('s, 'a) gm" where
  "check c e m = (if c then m else fail e)"

primrec map_gm :: "('a \<Rightarrow> ('s, 'b) gm) \<Rightarrow> 'a list \<Rightarrow> ('s, 'b list) gm" where
  "map_gm f [] = ret []"
| "map_gm f (x # xs) = bind (f x) (\<lambda>y. bind (map_gm f xs) (\<lambda>ys. ret (y # ys)))"

fun map2_gm :: "('a \<Rightarrow> 'b \<Rightarrow> ('s, 'c) gm) \<Rightarrow> 'a list \<Rightarrow> 'b list \<Rightarrow> ('s, 'c list) gm" where
  "map2_gm f [] [] = ret []"
| "map2_gm f (x # xs) (y # ys) =
     bind (f x y) (\<lambda>z. bind (map2_gm f xs ys) (\<lambda>zs. ret (z # zs)))"
| "map2_gm f _ _ = fail UndefinedBehaviour"

primrec fold_gm :: "('a \<Rightarrow> 'b \<Rightarrow> ('s, 'b) gm) \<Rightarrow> 'a list \<Rightarrow> 'b \<Rightarrow> ('s, 'b) gm" where
  "fold_gm f [] acc = ret acc"
| "fold_gm f (x # xs) acc = bind (f x acc) (\<lambda>acc'. fold_gm f xs acc')"

text \<open>A read of \<open>xs[i]\<close>.\<close>

definition rd :: "'a list \<Rightarrow> nat \<Rightarrow> ('s, 'a) gm" where
  "rd xs i = check (i < length xs) UndefinedBehaviour (ret (xs ! i))"

text \<open>A ripple loop: one result per position, with a value carried from one to the next.\<close>

fun ripple_gm ::
  "('a \<Rightarrow> 'a \<Rightarrow> 'c \<Rightarrow> ('s, 'd \<times> 'c) gm) \<Rightarrow> 'a list \<Rightarrow> 'a list \<Rightarrow> 'c \<Rightarrow> ('s, 'd list \<times> 'c) gm" where
  "ripple_gm f [] [] c = ret ([], c)"
| "ripple_gm f (x # xs) (y # ys) c =
     bind (f x y c) (\<lambda>(d, c'). bind (ripple_gm f xs ys c') (\<lambda>(ds, c''). ret (d # ds, c'')))"
| "ripple_gm f _ _ c = fail UndefinedBehaviour"

section \<open>Machine integers and bit lists\<close>

definition u32 :: "nat \<Rightarrow> nat" where
  "u32 n = n mod 2 ^ 32"

definition UINT32_MAX :: nat where
  "UINT32_MAX = 2 ^ 32 - 1"

primrec bits_val :: "bool list \<Rightarrow> nat" where
  "bits_val [] = 0"
| "bits_val (b # bs) = of_bool b + 2 * bits_val bs"

section \<open>Results: rules\<close>

named_theorems gm_simps \<open>equations that run a gate computation\<close>

lemma expecting_Inr [simp]: "expecting c e = Inr u \<longleftrightarrow> c"
  by (simp add: expecting_def)

lemma expecting_True [simp]: "expecting True e = Inr ()"
  by (simp add: expecting_def)

lemma expecting_False [simp]: "expecting False e = Inl e"
  by (simp add: expecting_def)

lemma res_bind_Inr [simp]: "res_bind (Inr x) f = f x"
  by (simp add: res_bind_def)

lemma res_bind_Inl [simp]: "res_bind (Inl e) f = Inl e"
  by (simp add: res_bind_def)

lemma res_bind_eq_Inr [simp]:
  "res_bind r f = Inr y \<longleftrightarrow> (\<exists>x. r = Inr x \<and> f x = Inr y)"
  by (cases r) auto

lemma res_then_Inr [simp]: "res_then (Inr u) k = k"
  by (simp add: res_then_def)

lemma res_then_Inl [simp]: "res_then (Inl e) k = Inl e"
  by (simp add: res_then_def)

lemma res_then_eq_Inr [simp]: "res_then r k = Inr y \<longleftrightarrow> r = Inr () \<and> k = Inr y"
  by (cases r) auto

lemma res_each_eq_Inr [simp]: "res_each f xs = Inr u \<longleftrightarrow> (\<forall>x \<in> set xs. f x = Inr ())"
  by (induction xs) auto

lemma bind_ret [simp]: "bind (ret x) f = f x"
  by (simp add: bind_def ret_def)

lemma ret_eq_iff [simp]: "ret x = ret y \<longleftrightarrow> x = y"
  by (simp add: ret_def fun_eq_iff)

lemma bind_fail [simp]: "bind (fail e) f = fail e"
  by (simp add: bind_def fail_def)

lemma ret_apply [gm_simps]: "ret x s = Inr (x, s)"
  by (simp add: ret_def)

lemma fail_apply [gm_simps]: "fail e s = Inl e"
  by (simp add: fail_def)

lemma bind_Inr [gm_simps]: "m s = Inr (x, s') \<Longrightarrow> bind m f s = f x s'"
  by (simp add: bind_def)

lemma bind_Inl [gm_simps]: "m s = Inl e \<Longrightarrow> bind m f s = Inl e"
  by (simp add: bind_def)

lemma bind_eq_Inr:
  "bind m f s = Inr (y, s'') \<longleftrightarrow> (\<exists>x s'. m s = Inr (x, s') \<and> f x s' = Inr (y, s''))"
  by (auto simp: bind_def split: sum.splits prod.splits)

lemma bind_assoc: "bind (bind m f) g = bind m (\<lambda>x. bind (f x) g)"
  by (rule ext) (auto simp: bind_def split: sum.splits)

lemma fold_gm_append: "fold_gm f (xs @ ys) a = bind (fold_gm f xs a) (fold_gm f ys)"
  by (induction xs arbitrary: a) (auto simp: bind_assoc)

lemma check_True [simp]: "check True e m = m"
  by (simp add: check_def)

lemma check_False [simp]: "check False e m = fail e"
  by (simp add: check_def)

lemma rd_ok [simp]: "i < length xs \<Longrightarrow> rd xs i = ret (xs ! i)"
  by (simp add: rd_def)

section \<open>Bit lists: rules\<close>

lemma bits_val_less: "bits_val bs < 2 ^ length bs"
  by (induction bs) (auto simp: of_bool_def)

lemma bits_val_append: "bits_val (xs @ ys) = bits_val xs + 2 ^ length xs * bits_val ys"
  by (induction xs) (auto simp: algebra_simps)

lemma bits_val_replicate_False [simp]: "bits_val (replicate n False) = 0"
  by (induction n) auto

lemma bits_val_take_mod: "bits_val (take n bs) = bits_val bs mod 2 ^ n"
proof (cases "n \<le> length bs")
  case True
  have "bits_val bs = bits_val (take n bs) + 2 ^ n * bits_val (drop n bs)"
    using bits_val_append [of "take n bs" "drop n bs"] True by simp
  moreover have "bits_val (take n bs) < 2 ^ n"
    using bits_val_less [of "take n bs"] True by simp
  ultimately show ?thesis by simp
next
  case False
  then have "bits_val bs < 2 ^ n"
    using bits_val_less [of bs] power_increasing [of "length bs" n "2::nat"] by linarith
  with False show ?thesis by simp
qed

lemma bits_val_drop_div: "bits_val (drop n bs) = bits_val bs div 2 ^ n"
proof (cases "n \<le> length bs")
  case True
  have "bits_val bs = bits_val (take n bs) + 2 ^ n * bits_val (drop n bs)"
    using bits_val_append [of "take n bs" "drop n bs"] True by simp
  moreover have "bits_val (take n bs) < 2 ^ n"
    using bits_val_less [of "take n bs"] True by simp
  ultimately show ?thesis by simp
next
  case False
  then have "bits_val bs < 2 ^ n"
    using bits_val_less [of bs] power_increasing [of "length bs" n "2::nat"] by linarith
  with False show ?thesis by simp
qed

lemma bits_val_inj: "length xs = length ys \<Longrightarrow> bits_val xs = bits_val ys \<Longrightarrow> xs = ys"
proof (induction xs ys rule: list_induct2)
  case Nil
  then show ?case by simp
next
  case (Cons x xs y ys)
  then have "x = y" by (cases x; cases y; simp; presburger)
  with Cons show ?case by simp
qed

primrec to_bits :: "nat \<Rightarrow> nat \<Rightarrow> bool list" where
  "to_bits 0 k = []"
| "to_bits (Suc n) k = odd k # to_bits n (k div 2)"

lemma length_to_bits [simp]: "length (to_bits n k) = n"
  by (induction n arbitrary: k) auto

lemma bits_val_to_bits [simp]: "bits_val (to_bits n k) = k mod 2 ^ n"
proof (induction n arbitrary: k)
  case (Suc n)
  have "k mod 2 ^ Suc n = k mod 2 + 2 * (k div 2 mod 2 ^ n)" by (simp add: mod_mult2_eq)
  with Suc show ?case by (simp add: odd_iff_mod_2_eq_one of_bool_def)
qed simp

lemma to_bits_eqI: "length bs = n \<Longrightarrow> bits_val bs = k mod 2 ^ n \<Longrightarrow> bs = to_bits n k"
  by (rule bits_val_inj) simp_all

lemma to_bits_bits_val [simp]: "length bs = n \<Longrightarrow> to_bits n (bits_val bs) = bs"
  by (rule sym, rule to_bits_eqI) (use bits_val_less [of bs] in auto)

lemma to_bits_mod [simp]: "to_bits n (k mod 2 ^ n) = to_bits n k"
  by (rule to_bits_eqI) auto

lemma to_bits_cong: "j mod 2 ^ n = k mod 2 ^ n \<Longrightarrow> to_bits n j = to_bits n k"
  by (rule to_bits_eqI) auto

lemma to_bits_eq_iff: "to_bits n j = to_bits n k \<longleftrightarrow> j mod 2 ^ n = k mod 2 ^ n"
  using to_bits_cong bits_val_to_bits by metis

lemma to_bits_nth: "i < n \<Longrightarrow> to_bits n k ! i = odd (k div 2 ^ i)"
  by (induction n arbitrary: k i) (auto simp: nth_Cons div_mult2_eq split: nat.split)

lemma bits_val_nth: "i < length bs \<Longrightarrow> bs ! i = odd (bits_val bs div 2 ^ i)"
  using to_bits_nth [of i "length bs" "bits_val bs"] by simp

lemma take_to_bits: "take m (to_bits n k) = to_bits (min m n) k"
  by (rule nth_equalityI) (auto simp: to_bits_nth)

lemma drop_to_bits: "drop m (to_bits n k) = to_bits (n - m) (k div 2 ^ m)"
  by (rule nth_equalityI) (auto simp: to_bits_nth power_add div_mult2_eq)

lemma to_bits_0 [simp]: "to_bits n 0 = replicate n False"
  by (induction n) auto

lemma bits_val_snoc: "bits_val (bs @ [b]) = bits_val bs + of_bool b * 2 ^ length bs"
  by (simp add: bits_val_append)

end
