(* ===== verification/Program.thy ===== *)
theory Program
  imports Prelude
begin

text \<open>
  The Boolean-circuit IR of \<open>ir/program.h\<close> and the gate walk of \<open>ir/visit.h\<close>: the gate
  operations, gates, programs with their wire-reuse mode, and \<open>for_each_gate\<close>, which
  dispatches every gate, in order, to a visitor.
\<close>

section \<open>Gates and programs\<close>

text \<open>
  \<open>enum class Op : uint8_t\<close>. An enum object may hold a byte outside its enumerators (a gate
  built from a raw byte); \<open>OpOther\<close> is such a value.
\<close>

datatype Op = OpAnd | OpXor | OpNot | OpConst0 | OpConst1 | OpOther nat

record Gate =
  in0 :: nat
  in1 :: nat
  out :: nat
  op :: Op

definition is_and :: "Gate \<Rightarrow> bool" where
  "is_and g \<longleftrightarrow> op g = OpAnd"

definition is_xor :: "Gate \<Rightarrow> bool" where
  "is_xor g \<longleftrightarrow> op g = OpXor"

definition is_not :: "Gate \<Rightarrow> bool" where
  "is_not g \<longleftrightarrow> op g = OpNot"

definition is_const :: "Gate \<Rightarrow> bool" where
  "is_const g \<longleftrightarrow> op g = OpConst0 \<or> op g = OpConst1"

definition is_linear :: "Gate \<Rightarrow> bool" where
  "is_linear g \<longleftrightarrow> op g = OpXor \<or> op g = OpNot"

datatype WireReuse = ReuseNone | ReuseLinear | ReuseFull

record BooleanProgram =
  num_wires :: nat
  num_inputs :: nat
  wire_reuse :: WireReuse
  gates :: "Gate list"
  outputs :: "nat list"

definition total_input_bits :: "BooleanProgram \<Rightarrow> nat" where
  "total_input_bits p = num_inputs p"

definition total_output_bits :: "BooleanProgram \<Rightarrow> nat" where
  "total_output_bits p = u32 (length (outputs p))"

definition num_gate :: "BooleanProgram \<Rightarrow> nat" where
  "num_gate p = u32 (length (gates p))"

section \<open>The gate walk\<close>

record 'v visitor =
  visit_and :: "nat \<Rightarrow> nat \<Rightarrow> nat \<Rightarrow> 'v \<Rightarrow> 'v res"
  visit_xor :: "nat \<Rightarrow> nat \<Rightarrow> nat \<Rightarrow> 'v \<Rightarrow> 'v res"
  visit_not :: "nat \<Rightarrow> nat \<Rightarrow> 'v \<Rightarrow> 'v res"
  visit_const :: "nat \<Rightarrow> bool \<Rightarrow> 'v \<Rightarrow> 'v res"

text \<open>The defaultless switch does nothing for a byte outside the enumerators.\<close>

definition visit_gate :: "'v visitor \<Rightarrow> Gate \<Rightarrow> 'v \<Rightarrow> 'v res" where
  "visit_gate V g v =
     (case op g of
        OpAnd \<Rightarrow> visit_and V (out g) (in0 g) (in1 g) v
      | OpXor \<Rightarrow> visit_xor V (out g) (in0 g) (in1 g) v
      | OpNot \<Rightarrow> visit_not V (out g) (in0 g) v
      | OpConst0 \<Rightarrow> visit_const V (out g) False v
      | OpConst1 \<Rightarrow> visit_const V (out g) True v
      | OpOther _ \<Rightarrow> Inr v)"

primrec for_each_gate :: "Gate list \<Rightarrow> 'v visitor \<Rightarrow> 'v \<Rightarrow> 'v res" where
  "for_each_gate [] V v = Inr v"
| "for_each_gate (g # gs) V v = res_bind (visit_gate V g v) (for_each_gate gs V)"

section \<open>What a gate reads, and the width of the C++ types\<close>

text \<open>
  The wires a gate reads: the operands that are meaningful for its operation.
\<close>

definition reads :: "Gate \<Rightarrow> nat list" where
  "reads g =
     (case op g of
        OpAnd \<Rightarrow> [in0 g, in1 g]
      | OpXor \<Rightarrow> [in0 g, in1 g]
      | OpNot \<Rightarrow> [in0 g]
      | _ \<Rightarrow> [])"

definition u32_program :: "BooleanProgram \<Rightarrow> bool" where
  "u32_program p \<longleftrightarrow> num_wires p < 2 ^ 32 \<and> num_inputs p < 2 ^ 32 \<and>
     length (gates p) < 2 ^ 32 \<and> length (outputs p) < 2 ^ 32"

lemmas op_tests = is_and_def is_xor_def is_not_def is_const_def is_linear_def

lemma num_gate_eq [simp]: "length (gates p) < 2 ^ 32 \<Longrightarrow> num_gate p = length (gates p)"
  by (simp add: num_gate_def u32_def)

lemma for_each_gate_append:
  "for_each_gate (xs @ ys) V v = res_bind (for_each_gate xs V v) (for_each_gate ys V)"
  by (induction xs arbitrary: v) (auto simp: res_bind_def split: sum.splits)

end
