(* ===== verification/Validate.thy ===== *)
theory Validate
  imports Program
begin

text \<open>
  \<open>ir/validate.h\<close>: the one structural check run before an externally supplied program is
  used. \<open>validate_program\<close> follows the source: the shared input-count check, then the reuse
  branch (\<open>validate_reuse_gates\<close>) or the dense branch (\<open>validate_dense_gates\<close>), each with
  its bitmap of non-input wires, and the output loop. \<open>wf_program\<close> is the declarative
  structural contract the check decides: every read is of an available wire, gates write non-input
  wires in range, dense programs define every wire once. \<open>documented_ir\<close> adds the order of ids that
  \<open>program.h\<close> documents and the check leaves out.
\<close>

section \<open>The check\<close>

definition validate_gate_operands :: "Gate \<Rightarrow> nat \<Rightarrow> unit res" where
  "validate_gate_operands g gi =
     (case op g of
        OpAnd \<Rightarrow> Inr ()
      | OpXor \<Rightarrow> Inr ()
      | OpNot \<Rightarrow> expecting (in1 g = 0) (NotOperandNotCanonical gi (in1 g))
      | OpConst0 \<Rightarrow> expecting (in0 g = 0 \<and> in1 g = 0) (ConstOperandsNotCanonical gi (out g))
      | OpConst1 \<Rightarrow> expecting (in0 g = 0 \<and> in1 g = 0) (ConstOperandsNotCanonical gi (out g))
      | OpOther _ \<Rightarrow> Inl UnknownGateOp)"

text \<open>
  The lambda \<open>chk_read\<close>: range first, then availability; \<open>bm\<close> is the bitmap over the
  non-input wires, \<open>E\<close> the message of the branch.
\<close>

definition chk_read ::
  "nat \<Rightarrow> nat \<Rightarrow> (operand \<Rightarrow> nat \<Rightarrow> nat \<Rightarrow> error) \<Rightarrow> bool list \<Rightarrow> nat \<Rightarrow> operand \<Rightarrow> nat \<Rightarrow> unit res" where
  "chk_read NW ni E bm gi what w =
     res_then (expecting (w < NW) (ReadOutOfRange what gi w))
       (expecting (w < ni \<or> bm ! (w - ni)) (E what gi w))"

definition chk_operands ::
  "nat \<Rightarrow> nat \<Rightarrow> (operand \<Rightarrow> nat \<Rightarrow> nat \<Rightarrow> error) \<Rightarrow> bool list \<Rightarrow> nat \<Rightarrow> Gate \<Rightarrow> unit res" where
  "chk_operands NW ni E bm gi g =
     (if op g = OpAnd \<or> op g = OpXor
      then res_then (chk_read NW ni E bm gi In0 (in0 g)) (chk_read NW ni E bm gi In1 (in1 g))
      else if op g = OpNot then chk_read NW ni E bm gi In0 (in0 g)
      else Inr ())"

primrec validate_reuse_gates ::
  "nat \<Rightarrow> nat \<Rightarrow> Gate list \<Rightarrow> nat \<Rightarrow> bool list \<Rightarrow> bool list res" where
  "validate_reuse_gates NW ni [] gi written = Inr written"
| "validate_reuse_gates NW ni (g # gs) gi written =
     res_then (validate_gate_operands g gi)
     (res_then (chk_operands NW ni ReadBeforeWritten written gi g)
     (res_then (expecting (out g < NW) GateOutOutOfRange)
     (res_then (expecting (ni \<le> out g) GateWritesInput)
     (validate_reuse_gates NW ni gs (Suc gi) (written[out g - ni := True])))))"

primrec validate_dense_gates ::
  "nat \<Rightarrow> nat \<Rightarrow> Gate list \<Rightarrow> nat \<Rightarrow> bool list \<Rightarrow> bool list res" where
  "validate_dense_gates NW ni [] gi defined = Inr defined"
| "validate_dense_gates NW ni (g # gs) gi defined =
     res_then (validate_gate_operands g gi)
     (res_then (chk_operands NW ni ReadBeforeDefined defined gi g)
     (res_then (expecting (out g < NW) GateOutOutOfRange)
     (res_then (expecting (ni \<le> out g) GateWritesInput)
     (res_then (expecting (\<not> defined ! (out g - ni)) DefinedTwice)
     (validate_dense_gates NW ni gs (Suc gi) (defined[out g - ni := True]))))))"

definition validate_outputs ::
  "nat \<Rightarrow> nat \<Rightarrow> error \<Rightarrow> bool list \<Rightarrow> nat list \<Rightarrow> unit res" where
  "validate_outputs NW ni E bm ws =
     res_each (\<lambda>w. res_then (expecting (w < NW) OutputOutOfRange)
                     (expecting (w < ni \<or> bm ! (w - ni)) E)) ws"

definition validate_program :: "BooleanProgram \<Rightarrow> unit res" where
  "validate_program p =
     (let NW = num_wires p; ni = num_inputs p in
      res_then (expecting (ni \<le> NW) NumInputsExceedNumWires)
      (if wire_reuse p \<noteq> ReuseNone then
         res_then (expecting (NW \<le> ni + length (gates p)) ReuseTooManyWires)
         (res_bind (validate_reuse_gates NW ni (gates p) 0 (replicate (NW - ni) False))
            (\<lambda>written. validate_outputs NW ni OutputNeverWritten written (outputs p)))
       else
         res_then (expecting (length (gates p) = NW - ni) NotDenseCount)
         (res_bind (validate_dense_gates NW ni (gates p) 0 (replicate (NW - ni) False))
            (\<lambda>defined. validate_outputs NW ni OutputNeverDefined defined (outputs p)))))"

section \<open>The contract\<close>

definition canonical :: "Gate \<Rightarrow> bool" where
  "canonical g =
     (case op g of
        OpAnd \<Rightarrow> True
      | OpXor \<Rightarrow> True
      | OpNot \<Rightarrow> in1 g = 0
      | OpConst0 \<Rightarrow> in0 g = 0 \<and> in1 g = 0
      | OpConst1 \<Rightarrow> in0 g = 0 \<and> in1 g = 0
      | OpOther _ \<Rightarrow> False)"

text \<open>\<open>wf_gates ssa ni NW A gs\<close>: the gate list is executable when the wires \<open>A\<close> hold values.\<close>

primrec wf_gates :: "bool \<Rightarrow> nat \<Rightarrow> nat \<Rightarrow> nat set \<Rightarrow> Gate list \<Rightarrow> bool" where
  "wf_gates ssa ni NW A [] \<longleftrightarrow> True"
| "wf_gates ssa ni NW A (g # gs) \<longleftrightarrow>
     canonical g \<and> set (reads g) \<subseteq> A \<and> ni \<le> out g \<and> out g < NW \<and>
     (ssa \<longrightarrow> out g \<notin> A) \<and> wf_gates ssa ni NW (insert (out g) A) gs"

definition wf_program :: "BooleanProgram \<Rightarrow> bool" where
  "wf_program p \<longleftrightarrow>
     num_inputs p \<le> num_wires p \<and>
     (if wire_reuse p = ReuseNone then length (gates p) = num_wires p - num_inputs p
      else num_wires p \<le> num_inputs p + length (gates p)) \<and>
     wf_gates (wire_reuse p = ReuseNone) (num_inputs p) (num_wires p)
       {..<num_inputs p} (gates p) \<and>
     set (outputs p) \<subseteq> {..<num_inputs p} \<union> out ` set (gates p)"

section \<open>The check decides the contract\<close>

text \<open>\<open>bm_set ni bm\<close>: the wires that are inputs or marked in the bitmap.\<close>

definition bm_set :: "nat \<Rightarrow> bool list \<Rightarrow> nat set" where
  "bm_set ni bm = {..<ni} \<union> {w. ni \<le> w \<and> w - ni < length bm \<and> bm ! (w - ni)}"

lemma bm_set_replicate [simp]: "bm_set ni (replicate n False) = {..<ni}"
  by (auto simp: bm_set_def)

lemma bm_set_update:
  assumes "ni \<le> w" and "w - ni < length bm"
  shows "bm_set ni (bm[w - ni := True]) = insert w (bm_set ni bm)"
  using assms by (auto simp: bm_set_def nth_list_update)

lemma validate_gate_operands_ok [simp]: "validate_gate_operands g gi = Inr u \<longleftrightarrow> canonical g"
  by (simp add: validate_gate_operands_def canonical_def split: Op.split)

lemma chk_read_ok:
  assumes "ni \<le> NW" and "length bm = NW - ni"
  shows "chk_read NW ni E bm gi what w = Inr u \<longleftrightarrow> w \<in> bm_set ni bm"
  using assms by (auto simp: chk_read_def bm_set_def)

lemma chk_operands_ok:
  assumes "ni \<le> NW" and "length bm = NW - ni"
  shows "chk_operands NW ni E bm gi g = Inr u \<longleftrightarrow> set (reads g) \<subseteq> bm_set ni bm"
  using assms by (auto simp: chk_operands_def reads_def chk_read_ok split: Op.split)

lemma marked_iff:
  assumes "ni \<le> w" and "w < NW" and "length bm = NW - ni"
  shows "bm ! (w - ni) \<longleftrightarrow> w \<in> bm_set ni bm"
  using assms by (auto simp: bm_set_def)

lemma validate_reuse_gates_ok:
  assumes "ni \<le> NW" and "length bm = NW - ni"
  shows "(\<exists>bm'. validate_reuse_gates NW ni gs gi bm = Inr bm') \<longleftrightarrow>
           wf_gates False ni NW (bm_set ni bm) gs"
    and "validate_reuse_gates NW ni gs gi bm = Inr bm' \<Longrightarrow>
           length bm' = NW - ni \<and> bm_set ni bm' = bm_set ni bm \<union> out ` set gs"
  using assms
  by (induction gs arbitrary: gi bm)
    (auto simp: chk_operands_ok bm_set_update)

lemma validate_dense_gates_ok:
  assumes "ni \<le> NW" and "length bm = NW - ni"
  shows "(\<exists>bm'. validate_dense_gates NW ni gs gi bm = Inr bm') \<longleftrightarrow>
           wf_gates True ni NW (bm_set ni bm) gs"
    and "validate_dense_gates NW ni gs gi bm = Inr bm' \<Longrightarrow>
           length bm' = NW - ni \<and> bm_set ni bm' = bm_set ni bm \<union> out ` set gs"
  using assms
  by (induction gs arbitrary: gi bm)
    (auto simp: chk_operands_ok bm_set_update marked_iff)

lemma validate_outputs_ok:
  assumes "ni \<le> NW" and "length bm = NW - ni"
  shows "validate_outputs NW ni E bm ws = Inr u \<longleftrightarrow> set ws \<subseteq> bm_set ni bm"
  using assms by (auto simp: validate_outputs_def bm_set_def)

lemma validate_wf: "validate_program p = Inr () \<longleftrightarrow> wf_program p"
proof (cases "num_inputs p \<le> num_wires p")
  case True
  let ?bm = "replicate (num_wires p - num_inputs p) False"
  show ?thesis
    using True
      validate_reuse_gates_ok [OF True, of ?bm "gates p" 0]
      validate_dense_gates_ok [OF True, of ?bm "gates p" 0]
      validate_outputs_ok [OF True]
    by (auto simp: validate_program_def wf_program_def Let_def)
next
  case False
  then show ?thesis by (simp add: validate_program_def wf_program_def)
qed

section \<open>What the check does not decide\<close>

text \<open>
  \<open>program.h\<close> documents one more invariant of dense programs, that wire ids are monotonic in emission order; the
  check does not look at it. Two independent gates whose output ids are swapped pass.
\<close>

definition ids_monotonic :: "BooleanProgram \<Rightarrow> bool" where
  "ids_monotonic p \<longleftrightarrow> sorted_wrt (<) (map out (gates p))"

definition documented_ir :: "BooleanProgram \<Rightarrow> bool" where
  "documented_ir p \<longleftrightarrow> wf_program p \<and> (wire_reuse p = ReuseNone \<longrightarrow> ids_monotonic p)"

definition swapped_ids :: BooleanProgram where
  "swapped_ids =
     \<lparr>num_wires = 4, num_inputs = 2, wire_reuse = ReuseNone,
      gates = [\<lparr>in0 = 0, in1 = 1, out = 3, op = OpXor\<rparr>, \<lparr>in0 = 0, in1 = 0, out = 2, op = OpNot\<rparr>],
      outputs = [2, 3]\<rparr>"

text \<open>
  (C1) \<open>validate_program\<close> accepts a program exactly when it satisfies the structural contract \<open>wf_program\<close>: inputs
  fit, the wire count matches the reuse mode, every gate reads only available wires, writes a non-input wire in
  range (once, when dense) and has canonical operands, and every output is available. \<open>program.h\<close> documents more
  of dense programs, the order of their ids: what is documented is accepted, and the converse fails exactly at
  that order, as a concrete accepted program shows. (That a reuse program recycles an id only once it is dead,
  and in \<open>Linear\<close> mode no AND output, is left to the producer: \<open>validate.h\<close> says that it cannot verify this.)
\<close>

theorem validate_program_iff:
  "(validate_program p = Inr () \<longleftrightarrow> wf_program p) \<and>
   (documented_ir p \<longleftrightarrow> validate_program p = Inr () \<and> (wire_reuse p \<noteq> ReuseNone \<or> ids_monotonic p)) \<and>
   validate_program swapped_ids = Inr () \<and> \<not> documented_ir swapped_ids"
proof -
  have "validate_program swapped_ids = Inr ()" by code_simp
  moreover have "\<not> documented_ir swapped_ids"
    by (simp add: documented_ir_def ids_monotonic_def swapped_ids_def)
  ultimately show ?thesis by (auto simp: validate_wf documented_ir_def)
qed

lemma validate_program_iff_witness:
  "(validate_program swapped_ids = Inr () \<longleftrightarrow> wf_program swapped_ids) \<and> validate_program swapped_ids = Inr () \<and> \<not> documented_ir swapped_ids"
  using validate_program_iff [of swapped_ids] by blast

text \<open>A half adder, for concrete instances.\<close>

definition half_adder :: BooleanProgram where
  "half_adder =
     \<lparr>num_wires = 4, num_inputs = 2, wire_reuse = ReuseNone,
      gates = [\<lparr>in0 = 0, in1 = 1, out = 2, op = OpXor\<rparr>, \<lparr>in0 = 0, in1 = 1, out = 3, op = OpAnd\<rparr>],
      outputs = [2, 3]\<rparr>"

lemma validate_half_adder: "validate_program half_adder = Inr ()"
  by code_simp

end
