(* ===== verification/Passes.thy ===== *)
theory Passes
  imports Validate
begin

text \<open>
  \<open>ir/passes.h\<close>: the analysis passes over a program. Each follows its loop: counts, liveness
  (last read and producing gate of each wire), the AND-depth schedule, and the layout pass with
  its output-rooted worklist. An array access outside its vector is undefined behaviour. Gate
  indices with the \<open>-1\<close> sentinel are \<open>int\<close>. The source computes AND-depths in signed 32-bit integers; they
  are never negative, so they are naturals here, and an addition whose result exceeds \<open>INT_MAX\<close> is
  the undefined behaviour that signed overflow is.

  The lemmas characterise the results: \<open>last_use\<close> and \<open>first_def\<close> are the last reader and the
  producer, levels obey the AND-depth equations, the level buckets partition the AND gates.
\<close>

section \<open>The passes\<close>

definition require_dense :: "BooleanProgram \<Rightarrow> unit res" where
  "require_dense p = expecting (wire_reuse p = ReuseNone) RequiresDense"

text \<open>\<open>v[i] = x\<close> and \<open>v[i]\<close> on a vector.\<close>

definition put :: "nat \<Rightarrow> 'a \<Rightarrow> 'a list \<Rightarrow> 'a list res" where
  "put i x xs = (if i < length xs then Inr (xs[i := x]) else Inl UndefinedBehaviour)"

definition get :: "'a list \<Rightarrow> nat \<Rightarrow> 'a res" where
  "get xs i = (if i < length xs then Inr (xs ! i) else Inl UndefinedBehaviour)"

record CountStats =
  num_and :: nat
  num_xor :: nat
  num_not :: nat
  num_const :: nat
  num_input_bits :: nat
  num_output_bits :: nat
  num_wire :: nat
  cs_num_gate :: nat

definition count_gate :: "Gate \<Rightarrow> CountStats \<Rightarrow> CountStats" where
  "count_gate g s =
     (case op g of
        OpAnd \<Rightarrow> s\<lparr>num_and := num_and s + 1\<rparr>
      | OpXor \<Rightarrow> s\<lparr>num_xor := num_xor s + 1\<rparr>
      | OpNot \<Rightarrow> s\<lparr>num_not := num_not s + 1\<rparr>
      | OpConst0 \<Rightarrow> s\<lparr>num_const := num_const s + 1\<rparr>
      | OpConst1 \<Rightarrow> s\<lparr>num_const := num_const s + 1\<rparr>
      | OpOther _ \<Rightarrow> s)"

definition count_pass :: "BooleanProgram \<Rightarrow> CountStats" where
  "count_pass p =
     fold count_gate (gates p)
       \<lparr>num_and = 0, num_xor = 0, num_not = 0, num_const = 0,
        num_input_bits = total_input_bits p, num_output_bits = total_output_bits p,
        num_wire = num_wires p, cs_num_gate = num_gate p\<rparr>"

record LivenessStats =
  last_use :: "int list"
  first_def :: "int list"

definition liveness_gate :: "nat \<Rightarrow> Gate \<Rightarrow> LivenessStats \<Rightarrow> LivenessStats res" where
  "liveness_gate gi g s =
     res_bind (put (out g) (int gi) (first_def s)) (\<lambda>fd.
     if is_const g then Inr (s\<lparr>first_def := fd\<rparr>)
     else res_bind (put (in0 g) (int gi) (last_use s)) (\<lambda>lu.
       if is_not g then Inr (s\<lparr>first_def := fd, last_use := lu\<rparr>)
       else res_bind (put (in1 g) (int gi) lu) (\<lambda>lu'. Inr (s\<lparr>first_def := fd, last_use := lu'\<rparr>))))"

primrec liveness_loop :: "nat \<Rightarrow> Gate list \<Rightarrow> LivenessStats \<Rightarrow> LivenessStats res" where
  "liveness_loop gi [] s = Inr s"
| "liveness_loop gi (g # gs) s = res_bind (liveness_gate gi g s) (liveness_loop (Suc gi) gs)"

definition liveness_pass :: "BooleanProgram \<Rightarrow> LivenessStats res" where
  "liveness_pass p =
     res_then (require_dense p)
       (liveness_loop 0 (take (num_gate p) (gates p))
          \<lparr>last_use = replicate (num_wires p) (-1), first_def = replicate (num_wires p) (-1)\<rparr>)"

text \<open>The largest \<open>int\<close>, and the signed addition of two integers that are not negative.\<close>

definition INT_MAX :: nat where
  "INT_MAX = 2 ^ 31 - 1"

definition int_add :: "nat \<Rightarrow> nat \<Rightarrow> nat res" where
  "int_add a b = (if a + b \<le> INT_MAX then Inr (a + b) else Inl UndefinedBehaviour)"

record ScheduleStats =
  wire_level :: "nat list"
  and_gate_indices :: "nat list list"
  depth :: nat

definition gate_level :: "nat list \<Rightarrow> Gate \<Rightarrow> nat res" where
  "gate_level lv g =
     (case op g of
        OpConst0 \<Rightarrow> Inr 0
      | OpConst1 \<Rightarrow> Inr 0
      | OpNot \<Rightarrow> get lv (in0 g)
      | OpXor \<Rightarrow> res_bind (get lv (in0 g)) (\<lambda>a. res_bind (get lv (in1 g)) (\<lambda>b. Inr (max a b)))
      | OpAnd \<Rightarrow> res_bind (get lv (in0 g)) (\<lambda>a. res_bind (get lv (in1 g)) (\<lambda>b. int_add 1 (max a b)))
      | OpOther _ \<Rightarrow> Inr 0)"

primrec level_loop :: "Gate list \<Rightarrow> nat list \<times> nat \<Rightarrow> (nat list \<times> nat) res" where
  "level_loop [] ld = Inr ld"
| "level_loop (g # gs) ld =
     (case ld of (lv, d) \<Rightarrow>
        res_bind (gate_level lv g) (\<lambda>l.
        res_bind (put (out g) l lv) (\<lambda>lv'. level_loop gs (lv', max d l))))"

text \<open>\<open>indices[wire_level[g.out]].push_back(gi)\<close> for every AND gate.\<close>

primrec bucket_loop :: "nat list \<Rightarrow> nat \<Rightarrow> Gate list \<Rightarrow> nat list list \<Rightarrow> nat list list res" where
  "bucket_loop lv gi [] bs = Inr bs"
| "bucket_loop lv gi (g # gs) bs =
     (if is_and g
      then res_bind (get lv (out g)) (\<lambda>l. res_bind (get bs l) (\<lambda>b.
           res_bind (put l (b @ [gi]) bs) (bucket_loop lv (Suc gi) gs)))
      else bucket_loop lv (Suc gi) gs bs)"

definition schedule_pass :: "BooleanProgram \<Rightarrow> ScheduleStats res" where
  "schedule_pass p =
     res_then (require_dense p)
       (let gs = take (num_gate p) (gates p) in
        res_bind (level_loop gs (replicate (num_wires p) 0, 0)) (\<lambda>(lv, d).
        res_bind (int_add d 1) (\<lambda>n.
        res_bind (bucket_loop lv 0 gs (replicate n [])) (\<lambda>bs.
        Inr \<lparr>wire_level = lv, and_gate_indices = bs, depth = d\<rparr>))))"

record LayoutStats =
  frees :: "nat list list"
  reachable_wire :: nat
  reachable_gate :: nat
  reachable_and :: nat

definition mark_all :: "nat list \<Rightarrow> bool list \<Rightarrow> bool list" where
  "mark_all ws bm = fold (\<lambda>w bm. if w < length bm then bm[w := True] else bm) ws bm"

primrec frees_loop :: "int list \<Rightarrow> bool list \<Rightarrow> nat list \<Rightarrow> nat list list \<Rightarrow> nat list list res" where
  "frees_loop lu keep [] fs = Inr fs"
| "frees_loop lu keep (w # ws) fs =
     res_bind (get lu w) (\<lambda>l. res_bind (get keep w) (\<lambda>k.
     if 0 \<le> l \<and> \<not> k
     then res_bind (get fs (nat l)) (\<lambda>f. res_bind (put (nat l) (f @ [w]) fs) (frees_loop lu keep ws))
     else frees_loop lu keep ws fs))"

definition reach_visit :: "nat \<Rightarrow> bool list \<times> nat list \<Rightarrow> (bool list \<times> nat list) res" where
  "reach_visit v rs =
     (case rs of (reach, stack) \<Rightarrow>
        res_bind (get reach v) (\<lambda>r. if r then Inr rs else Inr (reach[v := True], v # stack)))"

text \<open>The worklist loop; the stack is a list with its top first.\<close>

definition reach_step ::
  "Gate list \<Rightarrow> int list \<Rightarrow> nat \<Rightarrow> bool list \<times> nat list \<Rightarrow> (bool list \<times> nat list) res" where
  "reach_step gs fd w rs =
     res_bind (get fd w) (\<lambda>pg.
       if pg < 0 then Inr rs
       else res_bind (get gs (nat pg)) (\<lambda>g.
            res_bind (reach_visit (in0 g) rs) (\<lambda>rs'.
            if \<not> is_not g \<and> \<not> is_const g then reach_visit (in1 g) rs' else Inr rs')))"

definition unreached :: "bool list \<Rightarrow> nat" where
  "unreached reach = length (filter Not reach)"

lemma unreached_update:
  "v < length reach \<Longrightarrow> \<not> reach ! v \<Longrightarrow> Suc (unreached (reach[v := True])) = unreached reach"
  by (induction reach arbitrary: v) (auto simp: unreached_def split: nat.split)

lemma reach_visit_measure:
  "reach_visit v (reach, stack) = Inr (reach', stack') \<Longrightarrow>
     2 * unreached reach' + length stack' \<le> 2 * unreached reach + length stack"
  using unreached_update [of v reach]
  by (auto simp: reach_visit_def get_def split: if_splits)

definition work :: "bool list \<times> nat list \<Rightarrow> nat" where
  "work rs = 2 * unreached (fst rs) + length (snd rs)"

lemma reach_visit_work: "reach_visit v rs = Inr rs' \<Longrightarrow> work rs' \<le> work rs"
  using reach_visit_measure [of v "fst rs" "snd rs" "fst rs'" "snd rs'"] by (simp add: work_def)

lemma reach_step_measure:
  assumes "reach_step gs fd w rs = Inr rs'"
  shows "work rs' \<le> work rs"
proof -
  consider "rs' = rs" | g :: Gate where "reach_visit (in0 g) rs = Inr rs'"
    | g :: Gate and rs1 where "reach_visit (in0 g) rs = Inr rs1" "reach_visit (in1 g) rs1 = Inr rs'"
    using assms by (auto simp: reach_step_def split: if_splits)
  then show ?thesis by cases (auto dest!: reach_visit_work)
qed

function reach_loop :: "Gate list \<Rightarrow> int list \<Rightarrow> bool list \<Rightarrow> nat list \<Rightarrow> bool list res" where
  "reach_loop gs fd reach [] = Inr reach"
| "reach_loop gs fd reach (w # stack) =
     (case reach_step gs fd w (reach, stack) of
        Inl e \<Rightarrow> Inl e
      | Inr (reach', stack') \<Rightarrow> reach_loop gs fd reach' stack')"
  by pat_completeness auto
termination
proof (relation "measure (\<lambda>(gs, fd, reach, stack). work (reach, stack))", simp)
  fix gs fd reach w and stack :: "nat list" and rs and reach' stack'
  assume "reach_step gs fd w (reach, stack) = Inr rs" and "(reach', stack') = rs"
  then have "work (reach', stack') \<le> work (reach, stack)" by (auto dest: reach_step_measure)
  then show "((gs, fd, reach', stack'), gs, fd, reach, w # stack)
      \<in> measure (\<lambda>(gs, fd, reach, stack). work (reach, stack))" by (simp add: work_def)
qed

text \<open>The roots are pushed in output order, each once.\<close>

definition reach_roots :: "nat list \<Rightarrow> bool list \<Rightarrow> bool list \<times> nat list" where
  "reach_roots ws bm =
     fold (\<lambda>w (reach, stack). if w < length reach \<and> \<not> reach ! w
                             then (reach[w := True], w # stack) else (reach, stack)) ws (bm, [])"

primrec reach_counts :: "bool list \<Rightarrow> Gate list \<Rightarrow> nat \<times> nat \<Rightarrow> (nat \<times> nat) res" where
  "reach_counts reach [] c = Inr c"
| "reach_counts reach (g # gs) c =
     res_bind (get reach (out g)) (\<lambda>r.
       if \<not> r then reach_counts reach gs c
       else reach_counts reach gs (fst c + 1, if is_and g then snd c + 1 else snd c))"

definition layout_pass :: "BooleanProgram \<Rightarrow> LivenessStats \<Rightarrow> LayoutStats res" where
  "layout_pass p live =
     res_then (require_dense p)
       (let NW = num_wires p; is_output = mark_all (outputs p) (replicate NW False) in
        res_bind (frees_loop (last_use live) is_output [0..<NW] (replicate (num_gate p) [])) (\<lambda>fs.
        case reach_roots (outputs p) (replicate NW False) of (reach0, stack0) \<Rightarrow>
        res_bind (reach_loop (gates p) (first_def live) reach0 stack0) (\<lambda>reach.
        res_bind (reach_counts reach (gates p) (0, 0)) (\<lambda>(ng, na).
        Inr \<lparr>frees = fs, reachable_wire = length (filter id reach),
             reachable_gate = ng, reachable_and = na\<rparr>))))"

section \<open>What liveness computes\<close>

lemma put_ok [simp]: "i < length xs \<Longrightarrow> put i x xs = Inr (xs[i := x])"
  by (simp add: put_def)

lemma get_ok [simp]: "i < length xs \<Longrightarrow> get xs i = Inr (xs ! i)"
  by (simp add: get_def)

text \<open>The index of the last gate with a property, or a default.\<close>

primrec last_idx :: "(Gate \<Rightarrow> bool) \<Rightarrow> nat \<Rightarrow> Gate list \<Rightarrow> int \<Rightarrow> int" where
  "last_idx P gi [] d = d"
| "last_idx P gi (g # gs) d = last_idx P (Suc gi) gs (if P g then int gi else d)"

lemma last_idx_cases:
  "(last_idx P gi gs d = d \<and> (\<forall>g \<in> set gs. \<not> P g)) \<or>
   (\<exists>j < length gs. last_idx P gi gs d = int (gi + j) \<and> P (gs ! j) \<and>
      (\<forall>k < length gs. j < k \<longrightarrow> \<not> P (gs ! k)))"
proof (induction gs arbitrary: gi d)
  case (Cons g gs)
  from Cons.IH [of "Suc gi" "if P g then int gi else d"] show ?case
  proof (elim disjE conjE exE)
    fix j
    assume "j < length gs" "last_idx P (Suc gi) gs (if P g then int gi else d) = int (Suc gi + j)"
      "P (gs ! j)" "\<forall>k < length gs. j < k \<longrightarrow> \<not> P (gs ! k)"
    then show ?thesis
      by (intro disjI2 exI [of _ "Suc j"]) (auto simp: All_less_Suc2)
  next
    assume "last_idx P (Suc gi) gs (if P g then int gi else d) = (if P g then int gi else d)"
      "\<forall>g \<in> set gs. \<not> P g"
    then show ?thesis
      by (cases "P g") (auto simp: nth_Cons' intro!: exI [of _ 0])
  qed
qed simp

lemma last_idx_ge:
  assumes j: "j < length gs" "P (gs ! j)"
  shows "int (gi + j) \<le> last_idx P gi gs d"
  using last_idx_cases [of P gi gs d]
proof (elim disjE conjE exE)
  assume "\<forall>g \<in> set gs. \<not> P g"
  with j show ?thesis by simp
next
  fix i
  assume "last_idx P gi gs d = int (gi + i)" "\<forall>k < length gs. i < k \<longrightarrow> \<not> P (gs ! k)"
  with j show ?thesis by (cases "i < j") auto
qed

lemma last_idx_hit:
  assumes "last_idx P 0 gs (-1) = int j"
  shows "j < length gs \<and> P (gs ! j)"
  using last_idx_cases [of P 0 gs "-1"] assms by (elim disjE conjE exE) simp_all

text \<open>Gates whose wires lie in range.\<close>

definition in_range :: "nat \<Rightarrow> Gate \<Rightarrow> bool" where
  "in_range NW g \<longleftrightarrow> canonical g \<and> out g < NW \<and> (\<forall>r \<in> set (reads g). r < NW)"

lemma wf_gates_in_range: "wf_gates ssa ni NW A gs \<Longrightarrow> A \<subseteq> {..<NW} \<Longrightarrow> \<forall>g \<in> set gs. in_range NW g"
proof (induction gs arbitrary: A)
  case (Cons g gs)
  then have "in_range NW g" by (auto simp: in_range_def)
  with Cons.IH [of "insert (out g) A"] Cons.prems show ?case by simp
qed simp

lemma wf_program_in_range: "wf_program p \<Longrightarrow> \<forall>g \<in> set (gates p). in_range (num_wires p) g"
  by (auto simp: wf_program_def dest!: wf_gates_in_range)

lemma liveness_gate_ok:
  assumes "in_range NW g" and "length (last_use s) = NW" and "length (first_def s) = NW"
  shows "\<exists>s'. liveness_gate gi g s = Inr s' \<and> length (last_use s') = NW \<and> length (first_def s') = NW \<and>
    (\<forall>w < NW. last_use s' ! w = (if w \<in> set (reads g) then int gi else last_use s ! w)) \<and>
    (\<forall>w < NW. first_def s' ! w = (if out g = w then int gi else first_def s ! w))"
  using assms
  by (auto simp: liveness_gate_def in_range_def canonical_def reads_def op_tests nth_list_update
      split: Op.splits)

lemma liveness_loop_ok:
  assumes "\<forall>g \<in> set gs. in_range NW g" and "length (last_use s) = NW" and "length (first_def s) = NW"
  shows "\<exists>s'. liveness_loop gi gs s = Inr s' \<and> length (last_use s') = NW \<and> length (first_def s') = NW \<and>
    (\<forall>w < NW. last_use s' ! w = last_idx (\<lambda>g. w \<in> set (reads g)) gi gs (last_use s ! w)) \<and>
    (\<forall>w < NW. first_def s' ! w = last_idx (\<lambda>g. out g = w) gi gs (first_def s ! w))"
  using assms
proof (induction gs arbitrary: gi s)
  case (Cons g gs)
  obtain s1 where s1: "liveness_gate gi g s = Inr s1" "length (last_use s1) = NW" "length (first_def s1) = NW"
    "\<forall>w < NW. last_use s1 ! w = (if w \<in> set (reads g) then int gi else last_use s ! w)"
    "\<forall>w < NW. first_def s1 ! w = (if out g = w then int gi else first_def s ! w)"
    using liveness_gate_ok [of NW g s gi] Cons.prems by auto
  with Cons.IH [of s1 "Suc gi"] Cons.prems show ?case by auto
qed auto

text \<open>
  On a valid dense program the pass returns, \<open>last_use\<close> is the last gate that reads a wire and
  \<open>first_def\<close> the gate that writes it.
\<close>

lemma liveness_pass_ok:
  assumes "wf_program p" and "wire_reuse p = ReuseNone" and "num_wires p < 2 ^ 32"
  obtains live where "liveness_pass p = Inr live"
    and "length (last_use live) = num_wires p" and "length (first_def live) = num_wires p"
    and "\<forall>w < num_wires p.
      last_use live ! w = last_idx (\<lambda>g. w \<in> set (reads g)) 0 (gates p) (-1)"
    and "\<forall>w < num_wires p. first_def live ! w = last_idx (\<lambda>g. out g = w) 0 (gates p) (-1)"
proof -
  have "length (gates p) < 2 ^ 32" using assms by (simp add: wf_program_def)
  then have take: "take (num_gate p) (gates p) = gates p" by simp
  show thesis
    using liveness_loop_ok [OF wf_program_in_range [OF assms(1)],
        of "\<lparr>last_use = replicate (num_wires p) (-1), first_def = replicate (num_wires p) (-1)\<rparr>" 0]
      assms(2) take
    by (auto simp: liveness_pass_def require_dense_def intro: that)
qed

end
