(* ===== verification/Context.thy ===== *)
theory Context
  imports Prelude
begin

text \<open>
  The \<open>BooleanContext\<close> contract (\<open>ir/context/concept.h\<close>) and plaintext evaluation
  (\<open>ir/context/clear.h\<close>).

  A context is a record of its gate operations; each runs on the context's state, returns a
  wire and may exit. A circuit kernel is a HOL function of a context, exactly as the C++
  kernels are templates over \<open>Ctx\<close>.

  The locale \<open>ctx_sim\<close> is the interface of two contexts related by a simulation: related
  operands give related results under every gate call. \<open>sim\<close> is a relator on gate
  computations, so the parametricity of every circuit kernel is proved with the transfer
  package from the rules of this theory; kernels and program replay inherit every
  simulation, which is the library's promise that one circuit source has one meaning on
  every context. \<open>bool_ctx\<close> is the reference meaning: wires are truth values.
\<close>

section \<open>Contexts\<close>

record ('s, 'w) ctx =
  public_bit :: "bool \<Rightarrow> ('s, 'w) gm"
  and_gate :: "'w \<Rightarrow> 'w \<Rightarrow> ('s, 'w) gm"
  xor_gate :: "'w \<Rightarrow> 'w \<Rightarrow> ('s, 'w) gm"
  not_gate :: "'w \<Rightarrow> ('s, 'w) gm"
  wire_init :: 'w

text \<open>A \<open>BulkBooleanContext\<close> has in addition a whole AND layer as one call.\<close>

record ('s, 'w) bulk_ctx = "('s, 'w) ctx" +
  and_many :: "'w list \<Rightarrow> 'w list \<Rightarrow> ('s, 'w list) gm"

text \<open>The reference meaning of a circuit.\<close>

definition bool_ctx :: "(unit, bool) bulk_ctx" where
  "bool_ctx =
     \<lparr>public_bit = ret,
      and_gate = (\<lambda>a b. ret (a \<and> b)),
      xor_gate = (\<lambda>a b. ret (a \<noteq> b)),
      not_gate = (\<lambda>a. ret (\<not> a)),
      wire_init = False,
      and_many = map2_gm (\<lambda>a b. ret (a \<and> b))\<rparr>"

unbundle bit_operations_syntax

text \<open>\<open>ClearCtx\<close>: the wire is a \<open>uint8_t\<close>.\<close>

definition ClearCtx :: "(unit, 8 word) bulk_ctx" where
  "ClearCtx =
     \<lparr>public_bit = (\<lambda>v. ret (if v then 1 else 0)),
      and_gate = (\<lambda>a b. ret (a AND b)),
      xor_gate = (\<lambda>a b. ret (a XOR b)),
      not_gate = (\<lambda>a. ret (a XOR 1)),
      wire_init = 0,
      and_many = map2_gm (\<lambda>a b. ret (a AND b))\<rparr>"

section \<open>Simulation of gate computations\<close>

text \<open>
  \<open>sim ok R E P m n\<close>: whenever \<open>m\<close> returns, \<open>n\<close> run from a related state either returns a
  \<open>P\<close>-related result and a related state, or exits with an error in \<open>E\<close>. Only runs of \<open>m\<close>
  that end in an \<open>ok\<close> state count, and these must also start in one: with \<open>ok\<close> as "is a prefix
  of the finished recording" the wire relation may speak of the finished recording.
\<close>

definition sim ::
  "('s \<Rightarrow> bool) \<Rightarrow> ('s \<Rightarrow> 't \<Rightarrow> bool) \<Rightarrow> (error \<Rightarrow> bool) \<Rightarrow> ('a \<Rightarrow> 'b \<Rightarrow> bool) \<Rightarrow>
   ('s, 'a) gm \<Rightarrow> ('t, 'b) gm \<Rightarrow> bool" where
  "sim ok R E P m n \<longleftrightarrow>
     (\<forall>s x s'. m s = Inr (x, s') \<longrightarrow> ok s' \<longrightarrow> ok s \<and>
        (\<forall>t. R s t \<longrightarrow>
           (case n t of Inl e \<Rightarrow> E e | Inr (y, t') \<Rightarrow> R s' t' \<and> P x y)))"

text \<open>Result relations that a bound computation may have: total, unless every state is \<open>ok\<close>.\<close>

definition tot :: "('s \<Rightarrow> bool) \<Rightarrow> ('a \<Rightarrow> 'b \<Rightarrow> bool) \<Rightarrow> bool" where
  "tot ok P \<longleftrightarrow> left_total P \<or> (\<forall>s. ok s)"

lemma tot_rules [transfer_rule]:
  "tot ok P \<Longrightarrow> tot ok (list_all2 P)"
  "tot ok P \<Longrightarrow> tot ok Q \<Longrightarrow> tot ok (rel_prod P Q)"
  "tot ok P \<Longrightarrow> tot ok (rel_option P)"
  "tot ok (=)"
  by (auto simp: tot_def list.left_total_rel prod.left_total_rel option.left_total_rel left_total_eq)

lemma simI:
  assumes "\<And>s x s'. m s = Inr (x, s') \<Longrightarrow> ok s' \<Longrightarrow> ok s"
    and "\<And>s x s' t. m s = Inr (x, s') \<Longrightarrow> ok s' \<Longrightarrow> R s t \<Longrightarrow>
      (\<exists>e. n t = Inl e \<and> E e) \<or> (\<exists>y t'. n t = Inr (y, t') \<and> R s' t' \<and> P x y)"
  shows "sim ok R E P m n"
  unfolding sim_def
proof (intro allI impI conjI)
  fix s x s' t
  assume m: "m s = Inr (x, s')" and ok: "ok s'"
  show "ok s" using assms(1) [OF m ok] .
  assume "R s t"
  from assms(2) [OF m ok this] show "case n t of Inl e \<Rightarrow> E e | Inr (y, t') \<Rightarrow> R s' t' \<and> P x y"
    by auto
qed

lemma simD:
  assumes "sim ok R E P m n" and "m s = Inr (x, s')" and "ok s'" and "R s t"
  obtains (error) e where "n t = Inl e" "E e"
    | (returns) y t' where "n t = Inr (y, t')" "R s' t'" "P x y"
proof -
  have *: "case n t of Inl e \<Rightarrow> E e | Inr (y, t') \<Rightarrow> R s' t' \<and> P x y"
    using assms unfolding sim_def by blast
  show ?thesis
  proof (cases "n t")
    case (Inl e)
    with * error show ?thesis by auto
  next
    case (Inr r)
    with * returns show ?thesis by (cases r) auto
  qed
qed

lemma sim_ok: "sim ok R E P m n \<Longrightarrow> m s = Inr (x, s') \<Longrightarrow> ok s' \<Longrightarrow> ok s"
  by (auto simp: sim_def)

lemma sim_fail [simp, intro]: "sim ok R E P (fail e) n"
  by (simp add: sim_def fail_def)

lemma sim_ret: "P x y \<Longrightarrow> sim ok R E P (ret x) (ret y)"
  by (simp add: sim_def ret_def)

lemma sim_mono:
  "sim ok R E P m n \<Longrightarrow> (\<And>x y. P x y \<Longrightarrow> Q x y) \<Longrightarrow> sim ok R E Q m n"
  unfolding sim_def by (fastforce split: sum.splits)

lemma sim_bind:
  assumes tot: "tot ok P" and m: "sim ok R E P m n"
    and k: "\<And>x y. P x y \<Longrightarrow> sim ok R E Q (f x) (g y)"
  shows "sim ok R E Q (bind m f) (bind n g)"
proof (rule simI)
  fix s z s''
  assume run: "bind m f s = Inr (z, s'')" and ok: "ok s''"
  then obtain x s' where ms: "m s = Inr (x, s')" and fs: "f x s' = Inr (z, s'')"
    by (auto simp: bind_eq_Inr)
  have ok': "ok s'"
    using tot k fs ok unfolding tot_def left_total_def by (meson sim_ok)
  show "ok s" using sim_ok [OF m ms ok'] .
  fix t
  assume "R s t"
  from m ms ok' this show "(\<exists>e. bind n g t = Inl e \<and> E e) \<or>
      (\<exists>y t'. bind n g t = Inr (y, t') \<and> R s'' t' \<and> Q z y)"
  proof (cases rule: simD)
    case (returns y t')
    from k [OF returns(3)] fs ok returns(2) show ?thesis
      by (cases rule: simD) (simp_all add: bind_def returns(1))
  qed (simp add: bind_def)
qed

text \<open>A step that only repacks the result needs no totality.\<close>

lemma sim_bind_ret:
  assumes m: "sim ok R E P m n" and "\<And>x y. P x y \<Longrightarrow> Q (f x) (g y)"
  shows "sim ok R E Q (bind m (\<lambda>x. ret (f x))) (bind n (\<lambda>y. ret (g y)))"
  using assms unfolding sim_def bind_def ret_def by (fastforce split: sum.splits)

section \<open>Transfer rules for the gate monad\<close>

lemma bind_transfer [transfer_rule]:
  "tot ok P \<Longrightarrow> (rel_fun (sim ok R E P) (rel_fun (rel_fun P (sim ok R E Q)) (sim ok R E Q))) bind bind"
  by (intro rel_funI, rule sim_bind [where P = P]) (auto dest: rel_funD)

lemma ret_transfer [transfer_rule]: "(rel_fun P (sim ok R E P)) ret ret"
  by (intro rel_funI sim_ret)

lemma fail_transfer [transfer_rule]: "(rel_fun (=) (sim ok R E P)) fail fail"
  by (intro rel_funI sim_fail)

lemma check_transfer [transfer_rule]:
  "(rel_fun (=) (rel_fun (=) (rel_fun (sim ok R E P) (sim ok R E P)))) check check"
  by (auto simp: rel_fun_def check_def)

lemma rd_transfer [transfer_rule]: "(rel_fun (list_all2 P) (rel_fun (=) (sim ok R E P))) rd rd"
  by (auto simp: rel_fun_def rd_def check_def list_all2_lengthD intro!: sim_ret list_all2_nthD2)

lemma map_gm_transfer [transfer_rule]:
  assumes "tot ok Q"
  shows "(rel_fun (rel_fun P (sim ok R E Q)) (rel_fun (list_all2 P) (sim ok R E (list_all2 Q)))) map_gm map_gm"
proof (intro rel_funI)
  fix f g xs ys
  assume fg: "(rel_fun P (sim ok R E Q)) f g" and "list_all2 P xs ys"
  from this(2) show "sim ok R E (list_all2 Q) (map_gm f xs) (map_gm g ys)"
    by (induction rule: list_all2_induct)
      (auto intro!: sim_ret sim_bind [OF assms] sim_bind [OF tot_rules(1) [OF assms]]
        dest: rel_funD [OF fg])
qed

lemma map2_gm_transfer [transfer_rule]:
  assumes "tot ok Q"
  shows "(rel_fun (rel_fun P (rel_fun P' (sim ok R E Q))) (rel_fun (list_all2 P) (rel_fun (list_all2 P') (sim ok R E (list_all2 Q))))) map2_gm map2_gm"
proof (intro rel_funI)
  fix f g xs ys xs' ys'
  assume fg: "(rel_fun P (rel_fun P' (sim ok R E Q))) f g" and "list_all2 P xs ys" and "list_all2 P' xs' ys'"
  from this(2,3) show "sim ok R E (list_all2 Q) (map2_gm f xs xs') (map2_gm g ys ys')"
  proof (induction arbitrary: xs' ys' rule: list_all2_induct)
    case Nil
    then show ?case by (cases xs'; cases ys') (auto intro: sim_ret)
  next
    case (Cons x xs y ys)
    then show ?case
      by (cases xs'; cases ys')
        (auto intro!: sim_ret sim_bind [OF assms] sim_bind [OF tot_rules(1) [OF assms]]
          dest: rel_funD [OF rel_funD [OF fg]])
  qed
qed

lemma fold_gm_transfer [transfer_rule]:
  assumes "tot ok Q"
  shows "(rel_fun (rel_fun P (rel_fun Q (sim ok R E Q))) (rel_fun (list_all2 P) (rel_fun Q (sim ok R E Q)))) fold_gm fold_gm"
proof (intro rel_funI)
  fix f g xs ys a b
  assume fg: "(rel_fun P (rel_fun Q (sim ok R E Q))) f g" and "list_all2 P xs ys" and "Q a b"
  from this(2,3) show "sim ok R E Q (fold_gm f xs a) (fold_gm g ys b)"
    by (induction arbitrary: a b rule: list_all2_induct)
      (auto intro!: sim_ret sim_bind [OF assms] dest: rel_funD [OF rel_funD [OF fg]])
qed

lemma ripple_gm_transfer [transfer_rule]:
  assumes "tot ok Q" and "tot ok A"
  shows "(rel_fun (rel_fun P (rel_fun P (rel_fun A (sim ok R E (rel_prod Q A))))) (rel_fun (list_all2 P) (rel_fun (list_all2 P) (rel_fun A (sim ok R E (rel_prod (list_all2 Q) A)))))) ripple_gm ripple_gm"
proof (intro rel_funI)
  fix f g xs ys xs' ys' c d
  assume fg: "(rel_fun P (rel_fun P (rel_fun A (sim ok R E (rel_prod Q A))))) f g"
    and "list_all2 P xs ys" and "list_all2 P xs' ys'" and "A c d"
  from this(2-4) show "sim ok R E (rel_prod (list_all2 Q) A) (ripple_gm f xs xs' c) (ripple_gm g ys ys' d)"
  proof (induction arbitrary: xs' ys' c d rule: list_all2_induct)
    case Nil
    then show ?case by (cases xs'; cases ys') (auto intro: sim_ret)
  next
    case (Cons x xs y ys)
    then show ?case
      by (cases xs'; cases ys')
        (auto intro!: sim_ret sim_bind [OF tot_rules(2) [OF assms]]
          sim_bind [OF tot_rules(2) [OF tot_rules(1) [OF assms(1)] assms(2)]]
          dest: rel_funD [OF rel_funD [OF rel_funD [OF fg]]])
  qed
qed

section \<open>Simulations of contexts\<close>

locale ctx_sim =
  fixes C :: "('s, 'w, 'cz) ctx_scheme"
    and D :: "('t, 'v, 'dz) ctx_scheme"
    and ok :: "'s \<Rightarrow> bool"
    and R :: "'s \<Rightarrow> 't \<Rightarrow> bool"
    and E :: "error \<Rightarrow> bool"
    and W :: "'w \<Rightarrow> 'v \<Rightarrow> bool"
  assumes tot_W [transfer_rule]: "tot ok W"
    and public_bit_transfer [transfer_rule]: "(rel_fun (=) (sim ok R E W)) (public_bit C) (public_bit D)"
    and and_gate_transfer [transfer_rule]: "(rel_fun W (rel_fun W (sim ok R E W))) (and_gate C) (and_gate D)"
    and xor_gate_transfer [transfer_rule]: "(rel_fun W (rel_fun W (sim ok R E W))) (xor_gate C) (xor_gate D)"
    and not_gate_transfer [transfer_rule]: "(rel_fun W (sim ok R E W)) (not_gate C) (not_gate D)"
begin

abbreviation Ws :: "'w list \<Rightarrow> 'v list \<Rightarrow> bool" where
  "Ws \<equiv> list_all2 W"

abbreviation S :: "('a \<Rightarrow> 'b \<Rightarrow> bool) \<Rightarrow> ('s, 'a) gm \<Rightarrow> ('t, 'b) gm \<Rightarrow> bool" where
  "S \<equiv> sim ok R E"

end

section \<open>Plaintext evaluation satisfies the contract\<close>

text \<open>A clear wire stands for its low bit; conversely a truth value is sent to \<open>0\<close> or \<open>1\<close>.\<close>

definition clear_rel :: "8 word \<Rightarrow> bool \<Rightarrow> bool" where
  "clear_rel w b \<longleftrightarrow> b = bit w 0"

interpretation clear: ctx_sim ClearCtx bool_ctx "\<lambda>_. True" "\<lambda>_ _. True" "\<lambda>_. False" clear_rel
  by unfold_locales
    (auto simp: clear_rel_def ClearCtx_def bool_ctx_def sim_def ret_def tot_def rel_fun_def
      bit_simps)

interpretation bool_clear: ctx_sim bool_ctx ClearCtx "\<lambda>_. True" "\<lambda>_ _. True" "\<lambda>_. False"
    "\<lambda>b w. w = of_bool b"
  by unfold_locales (auto simp: ClearCtx_def bool_ctx_def sim_def ret_def tot_def rel_fun_def)

lemma bool_ctx_simps [simp]:
  "public_bit bool_ctx c = ret c"
  "and_gate bool_ctx a b = ret (a \<and> b)"
  "xor_gate bool_ctx a b = ret (a \<noteq> b)"
  "not_gate bool_ctx a = ret (\<not> a)"
  "wire_init bool_ctx = False"
  by (simp_all add: bool_ctx_def)

end
