(* ===== verification/Execute.thy ===== *)
theory Execute
  imports Validate Context
begin

text \<open>
  \<open>ir/execute.h\<close>: replay of an IR program over wire slots. \<open>replay_visitor\<close> is the bridge
  from wire ids to slots with the context adapter inside it; an index outside the slot
  buffer is undefined behaviour and is a value of the model. The slot buffer is the caller's
  reusable scratch, whose old contents stay in place.
  The library lemmas: replay of a well-formed program never leaves the buffer and equals the
  plain recursion \<open>run_gates\<close>; only the values of the wires that are read matter
  (\<open>gate_out_cong\<close>), so old scratch contents do not; replay preserves every simulation of
  contexts.
\<close>

section \<open>Replay\<close>

definition ensure :: "'w \<Rightarrow> nat \<Rightarrow> 'w list \<Rightarrow> 'w list" where
  "ensure d n wires = (if length wires < n then wires @ replicate (n - length wires) d else wires)"

definition store :: "nat \<Rightarrow> 'w list \<Rightarrow> ('s, 'w) gm \<Rightarrow> ('s, 'w list) gm" where
  "store i w m = bind m (\<lambda>x. ret (w[i := x]))"

definition replay_visitor :: "('s, 'w, 'z) ctx_scheme \<Rightarrow> ('w list \<times> 's) visitor" where
  "replay_visitor C =
     \<lparr>visit_and = (\<lambda>i a b (w, s).
        if i < length w \<and> a < length w \<and> b < length w
        then store i w (and_gate C (w ! a) (w ! b)) s else Inl UndefinedBehaviour),
      visit_xor = (\<lambda>i a b (w, s).
        if i < length w \<and> a < length w \<and> b < length w
        then store i w (xor_gate C (w ! a) (w ! b)) s else Inl UndefinedBehaviour),
      visit_not = (\<lambda>i a (w, s).
        if i < length w \<and> a < length w
        then store i w (not_gate C (w ! a)) s else Inl UndefinedBehaviour),
      visit_const = (\<lambda>i v (w, s).
        if i < length w then store i w (public_bit C v) s else Inl UndefinedBehaviour)\<rparr>"

definition read_slots :: "'w list \<Rightarrow> nat list \<Rightarrow> ('s, 'w list) gm" where
  "read_slots w is =
     (if \<forall>i \<in> set is. i < length w then ret (map ((!) w) is) else fail UndefinedBehaviour)"

text \<open>The low-level primitive: outputs and the scratch buffer it leaves.\<close>

definition execute_program_into ::
  "('s, 'w, 'z) ctx_scheme \<Rightarrow> BooleanProgram \<Rightarrow> 'w list \<Rightarrow> nat \<Rightarrow> 'w list \<Rightarrow>
   ('s, 'w list \<times> 'w list) gm" where
  "execute_program_into C p inputs num_out scratch =
     check (length inputs = num_inputs p) InputCountMismatch
     (check (num_out = length (outputs p)) OutputCountMismatch
     (let buf = ensure (wire_init C) (num_wires p) scratch in
      check (length inputs \<le> length buf) UndefinedBehaviour
      (bind (\<lambda>s. for_each_gate (gates p) (replay_visitor C)
                   (inputs @ drop (length inputs) buf, s))
        (\<lambda>w. bind (read_slots w (outputs p)) (\<lambda>os. ret (os, w))))))"

text \<open>The workspace form resizes \<open>ws.out\<close> to the program's output count.\<close>

definition execute_program_ws ::
  "('s, 'w, 'z) ctx_scheme \<Rightarrow> BooleanProgram \<Rightarrow> 'w list \<Rightarrow> 'w list \<Rightarrow>
   ('s, 'w list \<times> 'w list) gm" where
  "execute_program_ws C p inputs scratch =
     execute_program_into C p inputs (length (outputs p)) scratch"

text \<open>The convenience form allocates a workspace and drops it.\<close>

definition execute_program ::
  "('s, 'w, 'z) ctx_scheme \<Rightarrow> BooleanProgram \<Rightarrow> 'w list \<Rightarrow> ('s, 'w list) gm" where
  "execute_program C p inputs =
     bind (execute_program_ws C p inputs []) (\<lambda>(os, scratch). ret os)"

section \<open>Replay as a plain recursion\<close>

definition gate_out :: "('s, 'w, 'z) ctx_scheme \<Rightarrow> Gate \<Rightarrow> 'w list \<Rightarrow> ('s, 'w) gm" where
  "gate_out C g w =
     (case op g of
        OpAnd \<Rightarrow> and_gate C (w ! in0 g) (w ! in1 g)
      | OpXor \<Rightarrow> xor_gate C (w ! in0 g) (w ! in1 g)
      | OpNot \<Rightarrow> not_gate C (w ! in0 g)
      | OpConst0 \<Rightarrow> public_bit C False
      | OpConst1 \<Rightarrow> public_bit C True
      | OpOther _ \<Rightarrow> fail UndefinedBehaviour)"

primrec run_gates :: "('s, 'w, 'z) ctx_scheme \<Rightarrow> Gate list \<Rightarrow> 'w list \<Rightarrow> ('s, 'w list) gm" where
  "run_gates C [] w = ret w"
| "run_gates C (g # gs) w = bind (gate_out C g w) (\<lambda>x. run_gates C gs (w[out g := x]))"

lemma gate_out_cong:
  "op g = op h \<Longrightarrow> map ((!) w) (reads g) = map ((!) v) (reads h) \<Longrightarrow>
     gate_out C g w = gate_out C h v"
  by (auto simp: gate_out_def reads_def split: Op.splits)

lemma ensure_length [simp]: "length (ensure d n xs) = max n (length xs)"
  by (auto simp: ensure_def)

lemma visit_gate_replay:
  assumes "canonical g" and "out g < length w" and "\<forall>r \<in> set (reads g). r < length w"
  shows "visit_gate (replay_visitor C) g (w, s) = store (out g) w (gate_out C g w) s"
  using assms
  by (auto simp: visit_gate_def replay_visitor_def gate_out_def reads_def canonical_def
      split: Op.splits)

lemma for_each_gate_run:
  assumes "wf_gates ssa ni NW A gs" and "A \<subseteq> {..<NW}" and "NW \<le> length w"
  shows "for_each_gate gs (replay_visitor C) (w, s) = run_gates C gs w s"
  using assms
proof (induction gs arbitrary: A w s)
  case Nil
  then show ?case by (simp add: ret_def)
next
  case (Cons g gs)
  have g: "visit_gate (replay_visitor C) g (w, s) = store (out g) w (gate_out C g w) s"
    using Cons.prems by (intro visit_gate_replay) auto
  have IH: "for_each_gate gs (replay_visitor C) (w[out g := x], s') = run_gates C gs (w[out g := x]) s'"
    for x s' using Cons.prems by (intro Cons.IH [of "insert (out g) A"]) auto
  show ?case
    using IH by (auto simp: g store_def res_bind_def bind_def ret_def split: sum.splits)
qed

lemma run_gates_length:
  "run_gates C gs w s = Inr (w', s') \<Longrightarrow> length w' = length w"
  by (induction gs arbitrary: w s) (auto simp: bind_eq_Inr ret_def)

lemma run_gates_append:
  "run_gates C (xs @ ys) w = bind (run_gates C xs w) (run_gates C ys)"
  by (induction xs arbitrary: w) (auto simp: bind_assoc)

section \<open>Well-formed programs\<close>

lemma wf_gates_outs: "wf_gates ssa ni NW A gs \<Longrightarrow> out ` set gs \<subseteq> {ni..<NW}"
  by (induction gs arbitrary: A) fastforce+

lemma wf_program_outputs: "wf_program p \<Longrightarrow> set (outputs p) \<subseteq> {..<num_wires p}"
  using wf_gates_outs by (fastforce simp: wf_program_def)

lemma wf_program_inputs: "wf_program p \<Longrightarrow> num_inputs p \<le> num_wires p"
  by (simp add: wf_program_def)

text \<open>The replay of a well-formed program, with no bounds check left.\<close>

lemma execute_program_ws_run:
  assumes wf: "wf_program p" and len: "length inputs = num_inputs p"
  shows "execute_program_ws C p inputs scratch =
    bind (run_gates C (gates p)
            (inputs @ drop (length inputs) (ensure (wire_init C) (num_wires p) scratch)))
      (\<lambda>w. ret (map ((!) w) (outputs p), w))" (is "_ = bind (run_gates C _ ?w) ?k")
proof -
  have le: "num_inputs p \<le> num_wires p" using wf by (rule wf_program_inputs)
  have w_len: "num_wires p \<le> length ?w" using le len by simp
  have wfg: "wf_gates (wire_reuse p = ReuseNone) (num_inputs p) (num_wires p)
      {..<num_inputs p} (gates p)" using wf by (simp add: wf_program_def)
  have run: "for_each_gate (gates p) (replay_visitor C) (?w, s) = run_gates C (gates p) ?w s" for s
    by (rule for_each_gate_run [OF wfg _ w_len]) (use le in auto)
  have slots: "read_slots w (outputs p) = ret (map ((!) w) (outputs p))"
    if "length w = length ?w" for w :: "'w list"
    using wf_program_outputs [OF wf] w_len that by (auto simp: read_slots_def)
  have "bind (\<lambda>s. for_each_gate (gates p) (replay_visitor C) (?w, s))
      (\<lambda>w. bind (read_slots w (outputs p)) (\<lambda>os. ret (os, w)))
      = bind (run_gates C (gates p) ?w) ?k"
  proof (rule ext)
    fix s
    show "bind (\<lambda>s. for_each_gate (gates p) (replay_visitor C) (?w, s))
      (\<lambda>w. bind (read_slots w (outputs p)) (\<lambda>os. ret (os, w))) s
      = bind (run_gates C (gates p) ?w) ?k s"
    proof (cases "run_gates C (gates p) ?w s")
      case (Inr r)
      obtain w' s' where r: "r = (w', s')" by (cases r)
      with Inr have "length w' = length ?w" by (auto dest: run_gates_length)
      then show ?thesis using Inr r by (simp add: bind_def run slots ret_def)
    qed (simp add: bind_def run)
  qed
  then show ?thesis
    using le len by (simp add: execute_program_ws_def execute_program_into_def Let_def le_max_iff_disj)
qed

lemma run_gates_agree:
  assumes "wf_gates ssa ni NW A gs" and "A \<subseteq> {..<NW}"
    and "NW \<le> length w" and "NW \<le> length v" and "\<forall>i \<in> A. w ! i = v ! i"
    and "run_gates C gs w s = Inr (w', s')"
  shows "\<exists>v'. run_gates C gs v s = Inr (v', s') \<and> (\<forall>i \<in> A \<union> out ` set gs. w' ! i = v' ! i)"
  using assms
proof (induction gs arbitrary: A w v s)
  case Nil
  then show ?case by (auto simp: ret_def)
next
  case (Cons g gs)
  from Cons.prems(6) obtain x s1 where x: "gate_out C g w s = Inr (x, s1)"
    and rest: "run_gates C gs (w[out g := x]) s1 = Inr (w', s')" by (auto simp: bind_eq_Inr)
  have "gate_out C g v = gate_out C g w"
    using Cons.prems(1,5) by (intro gate_out_cong) auto
  moreover have "\<exists>v'. run_gates C gs (v[out g := x]) s1 = Inr (v', s') \<and>
      (\<forall>i \<in> insert (out g) A \<union> out ` set gs. w' ! i = v' ! i)"
    by (rule Cons.IH [OF _ _ _ _ _ rest]) (use Cons.prems in \<open>auto simp: nth_list_update\<close>)
  ultimately show ?case using x by (auto simp: bind_eq_Inr)
qed

text \<open>Forget the scratch buffer a replay leaves behind.\<close>

definition replay_result :: "('s, 'w list \<times> 'w list) gm \<Rightarrow> 's \<Rightarrow> ('w list \<times> 's) option" where
  "replay_result m s = (case m s of Inl e \<Rightarrow> None | Inr ((os, w), s') \<Rightarrow> Some (os, s'))"

lemma replay_result_mono:
  assumes "wf_program p" and "replay_result (execute_program_ws C p inputs scratch) s = Some r"
  shows "replay_result (execute_program_ws C p inputs scratch') s = Some r"
proof -
  have len: "length inputs = num_inputs p"
    using assms(2) by (auto simp: replay_result_def execute_program_ws_def
        execute_program_into_def check_def fail_def split: if_splits)
  note le = wf_program_inputs [OF assms(1)]
  let ?w = "\<lambda>scr. inputs @ drop (length inputs) (ensure (wire_init C) (num_wires p) scr)"
  note ex = execute_program_ws_run [OF assms(1) len]
  from assms(2) obtain w' s' where run: "run_gates C (gates p) (?w scratch) s = Inr (w', s')"
    and r: "r = (map ((!) w') (outputs p), s')"
    by (auto simp: replay_result_def ex bind_def ret_def split: sum.splits)
  have "\<exists>v'. run_gates C (gates p) (?w scratch') s = Inr (v', s') \<and>
      (\<forall>i \<in> {..<num_inputs p} \<union> out ` set (gates p). w' ! i = v' ! i)"
    by (rule run_gates_agree [OF _ _ _ _ _ run])
      (use assms(1) le len in \<open>auto simp: wf_program_def nth_append\<close>)
  then show ?thesis
    using r assms(1)
    by (fastforce simp: replay_result_def ex bind_def ret_def wf_program_def)
qed

text \<open>
  (C24) Replaying a validated program does not depend on the old contents of the reusable
  scratch buffer, on any context and from any context state: outputs and final context state
  are the same, or both replays fail.
\<close>

theorem execute_scratch_independent:
  assumes "validate_program p = Inr ()"
  shows "replay_result (execute_program_ws C p inputs scratch) s =
         replay_result (execute_program_ws C p inputs scratch') s"
proof -
  have wf: "wf_program p" using assms by (simp add: validate_wf)
  show ?thesis
    using replay_result_mono [OF wf, of C inputs scratch s _ scratch']
      replay_result_mono [OF wf, of C inputs scratch' s _ scratch]
    by (metis option.exhaust)
qed

theorem execute_scratch_independent_witness:
  "replay_result (execute_program_ws ClearCtx half_adder [1, 1] []) () =
     replay_result (execute_program_ws ClearCtx half_adder [1, 1] [7, 7, 7, 7, 7]) ()"
  by (rule execute_scratch_independent [OF validate_half_adder])

section \<open>Replay preserves simulations of contexts\<close>

context ctx_sim
begin

lemma sim_gate_out:
  assumes "canonical g" and "\<forall>i \<in> set (reads g). W (w ! i) (v ! i)"
  shows "S W (gate_out C g w) (gate_out D g v)"
  using assms public_bit_transfer and_gate_transfer xor_gate_transfer not_gate_transfer
  by (auto simp: gate_out_def reads_def canonical_def rel_fun_def split: Op.splits)

lemma sim_run_gates:
  assumes "wf_gates ssa ni NW A gs" and "A \<subseteq> {..<NW}"
    and "NW \<le> length w" and "NW \<le> length v" and "\<forall>i \<in> A. W (w ! i) (v ! i)"
  shows "S (\<lambda>w' v'. \<forall>i \<in> A \<union> out ` set gs. W (w' ! i) (v' ! i)) (run_gates C gs w) (run_gates D gs v)"
  using assms
proof (induction gs arbitrary: A w v)
  case Nil
  then show ?case by (simp add: sim_ret)
next
  case (Cons g gs)
  have "S (\<lambda>w' v'. \<forall>i \<in> insert (out g) A \<union> out ` set gs. W (w' ! i) (v' ! i))
      (run_gates C gs (w[out g := x])) (run_gates D gs (v[out g := y]))" if "W x y" for x y
    by (rule Cons.IH) (use Cons.prems that in \<open>auto simp: nth_list_update\<close>)
  then show ?case
    using Cons.prems by (auto intro!: sim_bind [OF tot_W] sim_gate_out)
qed

lemma sim_execute_program_ws:
  assumes wf: "wf_program p" and ins: "Ws inputs inputs'"
  shows "S (\<lambda>r r'. Ws (fst r) (fst r'))
    (execute_program_ws C p inputs scratch) (execute_program_ws D p inputs' scratch')"
proof (cases "length inputs = num_inputs p")
  case True
  note len = True list_all2_lengthD [OF ins]
  note le = wf_program_inputs [OF wf]
  let ?w = "inputs @ drop (length inputs) (ensure (wire_init C) (num_wires p) scratch)"
  let ?v = "inputs' @ drop (length inputs') (ensure (wire_init D) (num_wires p) scratch')"
  have run: "S (\<lambda>w' v'. \<forall>i \<in> {..<num_inputs p} \<union> out ` set (gates p). W (w' ! i) (v' ! i))
      (run_gates C (gates p) ?w) (run_gates D (gates p) ?v)"
    by (rule sim_run_gates)
      (use wf le len ins in \<open>auto simp: wf_program_def nth_append intro: list_all2_nthD\<close>)
  have outs: "set (outputs p) \<subseteq> {..<num_inputs p} \<union> out ` set (gates p)"
    using wf by (simp add: wf_program_def)
  have ex: "execute_program_ws C p inputs scratch =
      bind (run_gates C (gates p) ?w) (\<lambda>w. ret (map ((!) w) (outputs p), w))"
    "execute_program_ws D p inputs' scratch' =
      bind (run_gates D (gates p) ?v) (\<lambda>w. ret (map ((!) w) (outputs p), w))"
    by (rule execute_program_ws_run [OF wf], use len in simp)+
  show ?thesis
    unfolding ex
    by (rule sim_bind_ret [OF run])
      (use outs in \<open>auto simp: list_all2_map1 list_all2_map2 list_all2_same\<close>)
next
  case False
  then show ?thesis by (simp add: execute_program_ws_def execute_program_into_def)
qed

lemma sim_execute_program:
  assumes "wf_program p" and "Ws inputs inputs'"
  shows "S Ws (execute_program C p inputs) (execute_program D p inputs')"
  using sim_bind_ret [OF sim_execute_program_ws [OF assms], of Ws fst fst]
  by (simp add: execute_program_def case_prod_unfold)

end

section \<open>Plaintext replay\<close>

text \<open>
  The Boolean function a program denotes, given on its own: the truth table of each operation, wires as a
  valuation of ids, and gates as successive assignments. Neither contexts nor the replay occur in it.
\<close>

definition gate_truth :: "Gate \<Rightarrow> (nat \<Rightarrow> bool) \<Rightarrow> bool" where
  "gate_truth g e =
     (case op g of
        OpAnd \<Rightarrow> e (in0 g) \<and> e (in1 g)
      | OpXor \<Rightarrow> e (in0 g) \<noteq> e (in1 g)
      | OpNot \<Rightarrow> \<not> e (in0 g)
      | OpConst0 \<Rightarrow> False
      | OpConst1 \<Rightarrow> True
      | OpOther _ \<Rightarrow> False)"

definition assign_gates :: "Gate list \<Rightarrow> (nat \<Rightarrow> bool) \<Rightarrow> nat \<Rightarrow> bool" where
  "assign_gates gs e = fold (\<lambda>g e. e(out g := gate_truth g e)) gs e"

definition program_fun :: "BooleanProgram \<Rightarrow> bool list \<Rightarrow> bool list" where
  "program_fun p inputs = map (assign_gates (gates p) (\<lambda>i. i < length inputs \<and> inputs ! i)) (outputs p)"

lemma assign_gates_simps [simp]:
  "assign_gates [] e = e" "assign_gates (g # gs) e = assign_gates gs (e(out g := gate_truth g e))"
  by (simp_all add: assign_gates_def)

lemma gate_out_truth:
  assumes "canonical g" and "\<forall>r \<in> set (reads g). w ! r = e r"
  shows "gate_out bool_ctx g w = ret (gate_truth g e)"
  using assms by (auto simp: gate_out_def gate_truth_def canonical_def reads_def split: Op.splits)

lemma bool_run_gates:
  assumes "wf_gates ssa ni NW A gs" and "A \<subseteq> {..<NW}" and "NW \<le> length w" and "\<forall>i < NW. w ! i = e i"
  shows "\<exists>w'. run_gates bool_ctx gs w () = Inr (w', ()) \<and> (\<forall>i < NW. w' ! i = assign_gates gs e i)"
  using assms
proof (induction gs arbitrary: A w e)
  case (Cons g gs)
  have "gate_out bool_ctx g w = ret (gate_truth g e)" using Cons.prems by (intro gate_out_truth) auto
  moreover have "\<exists>w'. run_gates bool_ctx gs (w[out g := gate_truth g e]) () = Inr (w', ()) \<and>
      (\<forall>i < NW. w' ! i = assign_gates gs (e(out g := gate_truth g e)) i)"
    by (rule Cons.IH [of "insert (out g) A"]) (use Cons.prems in \<open>auto simp: nth_list_update\<close>)
  ultimately show ?case by simp
qed (simp add: ret_def)

lemma wf_gates_canonical: "wf_gates ssa ni NW A gs \<Longrightarrow> \<forall>g \<in> set gs. canonical g"
  by (induction gs arbitrary: A) auto

lemma bool_execute_total:
  assumes "wf_program p" and "length inputs = num_inputs p"
  shows "execute_program bool_ctx p inputs () = Inr (program_fun p inputs, ())"
proof -
  let ?e = "\<lambda>i. i < length inputs \<and> inputs ! i"
  let ?w = "inputs @ drop (length inputs) (ensure False (num_wires p) [])"
  have wfg: "wf_gates (wire_reuse p = ReuseNone) (num_inputs p) (num_wires p) {..<num_inputs p} (gates p)"
    using assms(1) by (simp add: wf_program_def)
  have le: "num_inputs p \<le> num_wires p" by (rule wf_program_inputs [OF assms(1)])
  have w: "?w = inputs @ replicate (num_wires p - num_inputs p) False" using assms(2) by (simp add: ensure_def)
  have "\<exists>w'. run_gates bool_ctx (gates p) ?w () = Inr (w', ()) \<and> (\<forall>i < num_wires p. w' ! i = assign_gates (gates p) ?e i)"
    unfolding w by (rule bool_run_gates [OF wfg]) (use le assms(2) in \<open>auto simp: nth_append\<close>)
  then obtain w' where w': "run_gates bool_ctx (gates p) ?w () = Inr (w', ())"
    "\<forall>i < num_wires p. w' ! i = assign_gates (gates p) ?e i" by blast
  have "map ((!) w') (outputs p) = program_fun p inputs"
    using w'(2) wf_program_outputs [OF assms(1)] by (auto simp: program_fun_def)
  then show ?thesis
    using execute_program_ws_run [OF assms, of bool_ctx "[]"] w'(1)
    by (simp add: execute_program_def bind_def ret_def)
qed

lemma length_program_fun [simp]: "length (program_fun p ins) = length (outputs p)"
  by (simp add: program_fun_def)

text \<open>
  (C2) Plaintext replay of a validated program always returns, whatever the scratch buffer
  holds: no error, no access outside the slot buffer; and its output wires are the 0/1 bytes
  of the Boolean function that the program denotes by the truth tables of its gates.
\<close>

theorem clear_replay_correct:
  assumes "validate_program p = Inr ()" and "length bs = num_inputs p"
  shows "\<exists>scratch'. execute_program_ws ClearCtx p (map of_bool bs) scratch () =
    Inr ((map of_bool (program_fun p bs), scratch'), ())"
proof -
  have wf: "wf_program p" using assms(1) by (simp add: validate_wf)
  from bool_execute_total [OF wf assms(2)] obtain w where
    b: "execute_program_ws bool_ctx p bs [] () = Inr ((program_fun p bs, w), ())"
    by (auto simp: execute_program_def bind_eq_Inr ret_def)
  have ins: "list_all2 (\<lambda>b w. w = of_bool b) bs (map of_bool bs)"
    by (simp add: list_all2_conv_all_nth)
  from bool_clear.sim_execute_program_ws [OF wf ins] b
  have "\<exists>r. execute_program_ws ClearCtx p (map of_bool bs) scratch () = Inr (r, ()) \<and>
      list_all2 (\<lambda>b w. w = of_bool b) (program_fun p bs) (fst r)"
    by (rule simD) auto
  moreover have "fst r = map of_bool bs'" if "list_all2 (\<lambda>b w. w = of_bool b) bs' (fst r)"
    for bs' and r :: "8 word list \<times> 8 word list"
    using that by (auto simp: list_all2_conv_all_nth intro: nth_equalityI)
  ultimately show ?thesis by (metis prod.collapse)
qed

text \<open>A program with every operation: outputs \<open>\<not> (a \<and> b)\<close>, \<open>a \<noteq> \<not> (a \<and> b)\<close>, and the two constants.\<close>

definition all_ops :: BooleanProgram where
  "all_ops =
     \<lparr>num_wires = 7, num_inputs = 2, wire_reuse = ReuseNone,
      gates = [\<lparr>in0 = 0, in1 = 1, out = 2, op = OpAnd\<rparr>, \<lparr>in0 = 2, in1 = 0, out = 3, op = OpNot\<rparr>,
        \<lparr>in0 = 0, in1 = 3, out = 4, op = OpXor\<rparr>, \<lparr>in0 = 0, in1 = 0, out = 5, op = OpConst0\<rparr>,
        \<lparr>in0 = 0, in1 = 0, out = 6, op = OpConst1\<rparr>],
      outputs = [3, 4, 5, 6]\<rparr>"

theorem clear_replay_correct_witness:
  "\<exists>scratch'. execute_program_ws ClearCtx all_ops [1, 0] [5] () = Inr (([1, 0, 0, 1], scratch'), ())"
proof -
  have "validate_program all_ops = Inr ()" by code_simp
  moreover have "program_fun all_ops [True, False] = [True, False, False, True]" by code_simp
  moreover have "length [True, False] = num_inputs all_ops" by (simp add: all_ops_def)
  ultimately show ?thesis using clear_replay_correct [of all_ops "[True, False]" "[5]"] by simp
qed

end
