(* ===== verification/Recording.thy ===== *)
theory Recording
  imports Execute
begin

text \<open>
  The non-evaluating contexts: \<open>RecordCtx\<close> (\<open>ir/context/record.h\<close>, emits an IR program),
  \<open>CountCtx\<close> (\<open>ir/context/count.h\<close>, counts gate calls) and \<open>DigestCtx\<close> with
  \<open>digest_program\<close> (\<open>ir/context/digest.h\<close>, hashes the gate stream).

  Three interpretations of \<open>ctx_sim\<close> tie them together: recording simulates evaluation
  (every recorded wire denotes the value the circuit computes), counting simulates recording
  (the counters are the gate counts of the recorded program), and the streamed digest
  simulates recording (it is the digest of the recorded program). A circuit defined on truth values
  can be recorded, unless wire ids run out.
\<close>

section \<open>RecordCtx\<close>

record record_state =
  rc_prog :: BooleanProgram
  rc_next_id :: nat
  rc_num_inputs :: nat
  rc_c0 :: int
  rc_c1 :: int
  rc_inputs_closed :: bool

definition empty_program :: BooleanProgram where
  "empty_program = \<lparr>num_wires = 0, num_inputs = 0, wire_reuse = ReuseNone, gates = [], outputs = []\<rparr>"

definition record_init :: record_state where
  "record_init = \<lparr>rc_prog = empty_program, rc_next_id = 0, rc_num_inputs = 0,
     rc_c0 = -1, rc_c1 = -1, rc_inputs_closed = False\<rparr>"

definition rc_alloc :: "(record_state, nat) gm" where
  "rc_alloc = (\<lambda>s.
     if rc_next_id s \<noteq> UINT32_MAX
     then Inr (rc_next_id s, s\<lparr>rc_inputs_closed := True, rc_next_id := rc_next_id s + 1\<rparr>)
     else Inl WireIdOverflow)"

definition rc_external_input :: "nat \<Rightarrow> (record_state, nat) gm" where
  "rc_external_input n = (\<lambda>s.
     if rc_inputs_closed s then Inl InputAfterGate
     else if n = 0 then Inl ZeroWidthInput
     else if \<not> n \<le> UINT32_MAX - rc_next_id s then Inl WireIdOverflow
     else if \<not> n \<le> UINT32_MAX - rc_num_inputs s then Inl NumInputsOverflow
     else Inr (rc_next_id s, s\<lparr>rc_next_id := rc_next_id s + n, rc_num_inputs := rc_num_inputs s + n\<rparr>))"

definition rc_push :: "Gate \<Rightarrow> (record_state, unit) gm" where
  "rc_push g = (\<lambda>s. Inr ((), s\<lparr>rc_prog := (rc_prog s)\<lparr>gates := gates (rc_prog s) @ [g]\<rparr>\<rparr>))"

definition rc_emit :: "Op \<Rightarrow> nat \<Rightarrow> nat \<Rightarrow> (record_state, nat) gm" where
  "rc_emit opc a b =
     bind rc_alloc (\<lambda>i. bind (rc_push \<lparr>in0 = a, in1 = b, out = i, op = opc\<rparr>) (\<lambda>_. ret i))"

definition rc_public_bit :: "bool \<Rightarrow> (record_state, nat) gm" where
  "rc_public_bit v = (\<lambda>s.
     let c = (if v then rc_c1 s else rc_c0 s) in
     if c < 0
     then bind (rc_emit (if v then OpConst1 else OpConst0) 0 0)
            (\<lambda>i s'. Inr (i, if v then s'\<lparr>rc_c1 := int i\<rparr> else s'\<lparr>rc_c0 := int i\<rparr>)) s
     else Inr (nat c, s))"

definition RecordCtx :: "(record_state, nat) ctx" where
  "RecordCtx =
     \<lparr>public_bit = rc_public_bit,
      and_gate = rc_emit OpAnd,
      xor_gate = rc_emit OpXor,
      not_gate = (\<lambda>a. rc_emit OpNot a 0),
      wire_init = 0\<rparr>"

definition rc_finish :: "nat list \<Rightarrow> (record_state, BooleanProgram) gm" where
  "rc_finish os = (\<lambda>s.
     let p = (rc_prog s)\<lparr>num_wires := rc_next_id s, num_inputs := rc_num_inputs s, outputs := os\<rparr> in
     res_then (validate_program p) (Inr (p, s\<lparr>rc_prog := p\<rparr>)))"

section \<open>CountCtx\<close>

record count_state =
  cc_ands :: nat
  cc_xors :: nat
  cc_nots :: nat
  cc_consts :: nat
  cc_c0_seen :: bool
  cc_c1_seen :: bool

definition count_init :: count_state where
  "count_init = \<lparr>cc_ands = 0, cc_xors = 0, cc_nots = 0, cc_consts = 0,
     cc_c0_seen = False, cc_c1_seen = False\<rparr>"

text \<open>The counters are \<open>uint64_t\<close>; the wire is a dummy \<open>uint8_t\<close>.\<close>

definition u64_inc :: "nat \<Rightarrow> nat" where
  "u64_inc n = (n + 1) mod 2 ^ 64"

definition cc_public_bit :: "bool \<Rightarrow> (count_state, 8 word) gm" where
  "cc_public_bit v = (\<lambda>s.
     if (if v then cc_c1_seen s else cc_c0_seen s) then Inr (0, s)
     else Inr (0, (if v then s\<lparr>cc_c1_seen := True\<rparr> else s\<lparr>cc_c0_seen := True\<rparr>)
                    \<lparr>cc_consts := u64_inc (cc_consts s)\<rparr>))"

definition CountCtx :: "(count_state, 8 word) ctx" where
  "CountCtx =
     \<lparr>public_bit = cc_public_bit,
      and_gate = (\<lambda>_ _ s. Inr (0, s\<lparr>cc_ands := u64_inc (cc_ands s)\<rparr>)),
      xor_gate = (\<lambda>_ _ s. Inr (0, s\<lparr>cc_xors := u64_inc (cc_xors s)\<rparr>)),
      not_gate = (\<lambda>_ s. Inr (0, s\<lparr>cc_nots := u64_inc (cc_nots s)\<rparr>)),
      wire_init = 0\<rparr>"

definition cc_total :: "count_state \<Rightarrow> nat" where
  "cc_total s = (cc_ands s + cc_xors s + cc_nots s + cc_consts s) mod 2 ^ 64"

section \<open>DigestCtx\<close>

record digest_state =
  dc_digest :: "64 word"
  dc_next_id :: nat
  dc_c0 :: int
  dc_c1 :: int

unbundle bit_operations_syntax

definition fnv_basis :: "64 word" where
  "fnv_basis = 1469598103934665603"

definition mix :: "64 word \<Rightarrow> 64 word \<Rightarrow> 64 word" where
  "mix x h = (h XOR x) * 1099511628211"

definition digest_init :: digest_state where
  "digest_init = \<lparr>dc_digest = fnv_basis, dc_next_id = 0, dc_c0 = -1, dc_c1 = -1\<rparr>"

definition dc_external_input :: "nat \<Rightarrow> (digest_state, nat) gm" where
  "dc_external_input n = (\<lambda>s.
     if n = 0 then Inl ZeroWidthInput
     else if \<not> n \<le> UINT32_MAX - dc_next_id s then Inl WireIdOverflow
     else Inr (dc_next_id s,
       s\<lparr>dc_next_id := dc_next_id s + n,
         dc_digest := mix (of_nat n) (mix 0xE (dc_digest s))\<rparr>))"

definition mix_gate :: "64 word \<Rightarrow> nat \<Rightarrow> nat \<Rightarrow> nat \<Rightarrow> 64 word \<Rightarrow> 64 word" where
  "mix_gate opc a b i h = mix (of_nat i) (mix (of_nat b) (mix (of_nat a) (mix opc h)))"

definition dc_emit :: "64 word \<Rightarrow> nat \<Rightarrow> nat \<Rightarrow> (digest_state, nat) gm" where
  "dc_emit opc a b = (\<lambda>s.
     if dc_next_id s = UINT32_MAX then Inl WireIdOverflow
     else Inr (dc_next_id s,
       s\<lparr>dc_next_id := dc_next_id s + 1,
         dc_digest := mix_gate opc a b (dc_next_id s) (dc_digest s)\<rparr>))"

definition dc_public_bit :: "bool \<Rightarrow> (digest_state, nat) gm" where
  "dc_public_bit v = (\<lambda>s.
     let c = (if v then dc_c1 s else dc_c0 s) in
     if c < 0
     then bind (dc_emit (3 + (if v then 1 else 0)) 0 0)
            (\<lambda>i s'. Inr (i, if v then s'\<lparr>dc_c1 := int i\<rparr> else s'\<lparr>dc_c0 := int i\<rparr>)) s
     else Inr (nat c, s))"

definition DigestCtx :: "(digest_state, nat) ctx" where
  "DigestCtx =
     \<lparr>public_bit = dc_public_bit,
      and_gate = dc_emit 0,
      xor_gate = dc_emit 1,
      not_gate = (\<lambda>a. dc_emit 2 a 0),
      wire_init = 0\<rparr>"

text \<open>The defaultless switch leaves the code at its initial \<open>0\<close> for a stray byte.\<close>

definition op_code :: "Op \<Rightarrow> 64 word" where
  "op_code c = (case c of OpAnd \<Rightarrow> 0 | OpXor \<Rightarrow> 1 | OpNot \<Rightarrow> 2 | OpConst0 \<Rightarrow> 3 | OpConst1 \<Rightarrow> 4
     | OpOther _ \<Rightarrow> 0)"

definition digest_gates :: "Gate list \<Rightarrow> 64 word \<Rightarrow> 64 word" where
  "digest_gates gs h = fold (\<lambda>g. mix_gate (op_code (op g)) (in0 g) (in1 g) (out g)) gs h"

definition digest_program :: "BooleanProgram \<Rightarrow> 64 word" where
  "digest_program p =
     digest_gates (gates p) (mix (of_nat (num_inputs p)) (mix 0xE fnv_basis))"

text \<open>\<open>digest_source\<close>: reserve the inputs, run the body on the input ids, read the digest.\<close>

definition digest_source :: "nat \<Rightarrow> (nat list \<Rightarrow> (digest_state, 'a) gm) \<Rightarrow> (64 word) res" where
  "digest_source n body =
     res_bind (dc_external_input n digest_init)
       (\<lambda>(base, d). res_bind (body (map (\<lambda>i. base + i) [0..<n]) d) (\<lambda>(_, d'). Inr (dc_digest d')))"

section \<open>Recorded programs denote the circuit\<close>

text \<open>The value of a gate over the values of the earlier wires.\<close>

definition gate_bool :: "Gate \<Rightarrow> bool list \<Rightarrow> bool" where
  "gate_bool g w =
     (case op g of
        OpAnd \<Rightarrow> w ! in0 g \<and> w ! in1 g
      | OpXor \<Rightarrow> w ! in0 g \<noteq> w ! in1 g
      | OpNot \<Rightarrow> \<not> w ! in0 g
      | OpConst1 \<Rightarrow> True
      | _ \<Rightarrow> False)"

text \<open>Gates numbered in emission order extend the wire values one by one.\<close>

definition eval_dense :: "Gate list \<Rightarrow> bool list \<Rightarrow> bool list" where
  "eval_dense gs w = fold (\<lambda>g w. w @ [gate_bool g w]) gs w"

definition in_order :: "nat \<Rightarrow> Gate list \<Rightarrow> bool" where
  "in_order n gs \<longleftrightarrow> (\<forall>i < length gs. canonical (gs ! i) \<and> out (gs ! i) = n + i \<and>
     (\<forall>r \<in> set (reads (gs ! i)). r < n + i))"

lemma eval_dense_Nil [simp]: "eval_dense [] w = w"
  by (simp add: eval_dense_def)

lemma eval_dense_Cons [simp]: "eval_dense (g # gs) w = eval_dense gs (w @ [gate_bool g w])"
  by (simp add: eval_dense_def)

lemma eval_dense_snoc: "eval_dense (gs @ [g]) w = eval_dense gs w @ [gate_bool g (eval_dense gs w)]"
  by (simp add: eval_dense_def)

lemma length_eval_dense [simp]: "length (eval_dense gs w) = length w + length gs"
  by (induction gs arbitrary: w) auto

lemma nth_eval_dense: "i < length w \<Longrightarrow> eval_dense gs w ! i = w ! i"
  by (induction gs arbitrary: w) (auto simp: nth_append)

lemma in_order_Nil [simp]: "in_order n []"
  by (simp add: in_order_def)

lemma in_order_Cons: "in_order n (g # gs) \<longleftrightarrow>
    canonical g \<and> out g = n \<and> (\<forall>r \<in> set (reads g). r < n) \<and> in_order (Suc n) gs"
  by (simp add: in_order_def All_less_Suc2)

lemma in_order_snoc: "in_order n (gs @ [g]) \<longleftrightarrow> in_order n gs \<and>
    canonical g \<and> out g = n + length gs \<and> (\<forall>r \<in> set (reads g). r < n + length gs)"
  by (auto simp: in_order_def nth_append less_Suc_eq)

lemma in_order_wf:
  assumes "in_order n gs" and "ni \<le> n" and "n + length gs \<le> NW"
  shows "wf_gates True ni NW {..<n} gs"
  using assms
proof (induction gs arbitrary: n)
  case (Cons g gs)
  have "insert (out g) {..<n} = {..<Suc n}" using Cons.prems by (auto simp: in_order_Cons)
  with Cons show ?case by (auto simp: in_order_Cons)
qed simp

lemma in_order_outs: "in_order n gs \<Longrightarrow> out ` set gs = {n..<n + length gs}"
proof (induction gs arbitrary: n)
  case (Cons g gs)
  then have "out ` set gs = {Suc n..<Suc n + length gs}" and "out g = n"
    using Cons.IH [of "Suc n"] by (simp_all add: in_order_Cons)
  then show ?case by auto
qed simp

lemma gate_bool_append:
  "\<forall>r \<in> set (reads g). r < length w \<Longrightarrow> gate_bool g (w @ v) = gate_bool g w"
  by (auto simp: gate_bool_def reads_def nth_append split: Op.splits)

lemma gate_out_bool: "canonical g \<Longrightarrow> gate_out bool_ctx g w = ret (gate_bool g w)"
  by (auto simp: gate_out_def gate_bool_def canonical_def split: Op.splits)

lemma run_gates_in_order:
  assumes "in_order (length w) gs" and "length gs \<le> length v"
  shows "run_gates bool_ctx gs (w @ v) () = Inr (eval_dense gs w @ drop (length gs) v, ())"
  using assms
proof (induction gs arbitrary: w v)
  case Nil
  then show ?case by (simp add: ret_def)
next
  case (Cons g gs)
  then obtain x v' where v: "v = x # v'" by (cases v) auto
  have "(w @ v)[out g := b] = (w @ [b]) @ v'" for b
    using Cons.prems(1) v by (simp add: in_order_Cons)
  then show ?case
    using Cons.prems Cons.IH [of "w @ [gate_bool g w]" v']
    by (simp add: in_order_Cons gate_out_bool gate_bool_append v)
qed

lemma bool_ensure [simp]: "ensure d n [] = replicate n d"
  by (simp add: ensure_def)

lemma program_fun_in_order:
  assumes "in_order (num_inputs p) (gates p)" and "wf_program p"
    and "num_wires p = num_inputs p + length (gates p)" and "length ins = num_inputs p"
  shows "program_fun p ins = map ((!) (eval_dense (gates p) ins)) (outputs p)"
proof -
  have "run_gates bool_ctx (gates p) (ins @ replicate (length (gates p)) False) () =
      Inr (eval_dense (gates p) ins @ [], ())"
    using run_gates_in_order [of ins "gates p" "replicate (length (gates p)) False"] assms by simp
  then show ?thesis
    using execute_program_ws_run [OF assms(2,4), of bool_ctx "[]"] bool_execute_total [OF assms(2,4)] assms(3,4)
    by (simp add: execute_program_def bind_def ret_def)
qed

lemma eval_dense_append: "eval_dense (xs @ ys) w = eval_dense ys (eval_dense xs w)"
  by (simp add: eval_dense_def)

text \<open>Once the recording is finished, every gate's wire holds the gate's value.\<close>

lemma eval_dense_gate:
  assumes ord: "in_order (length ins) gs" and i: "i < length gs"
  shows "eval_dense gs ins ! (length ins + i) = gate_bool (gs ! i) (eval_dense gs ins)"
proof -
  let ?pre = "eval_dense (take i gs) ins"
  have gs: "gs = take i gs @ gs ! i # drop (Suc i) gs" using i by (rule id_take_nth_drop)
  have len: "length ?pre = length ins + i" using i by simp
  have env: "eval_dense gs ins = eval_dense (drop (Suc i) gs) (?pre @ [gate_bool (gs ! i) ?pre])"
    by (subst gs) (simp add: eval_dense_append)
  have "\<exists>v. eval_dense gs ins = ?pre @ [gate_bool (gs ! i) ?pre] @ v"
  proof -
    have "eval_dense hs w = w @ drop (length w) (eval_dense hs w)" for hs w
      by (rule nth_equalityI) (auto simp: nth_append nth_eval_dense)
    then show ?thesis unfolding env by (metis append_assoc)
  qed
  then obtain v where v: "eval_dense gs ins = ?pre @ [gate_bool (gs ! i) ?pre] @ v" by blast
  have "\<forall>r \<in> set (reads (gs ! i)). r < length ?pre"
    using ord i len by (simp add: in_order_def)
  then show ?thesis using i by (simp add: v gate_bool_append nth_append)
qed

text \<open>The id a gate writes plays no part in what it reads or computes.\<close>

lemma gate_out_irrelevant:
  fixes i :: nat
  assumes "NO_MATCH (0::nat) i"
  shows "canonical \<lparr>in0 = a, in1 = b, out = i, op = c\<rparr> = canonical \<lparr>in0 = a, in1 = b, out = 0, op = c\<rparr>"
    and "reads \<lparr>in0 = a, in1 = b, out = i, op = c\<rparr> = reads \<lparr>in0 = a, in1 = b, out = 0, op = c\<rparr>"
    and "gate_bool \<lparr>in0 = a, in1 = b, out = i, op = c\<rparr> = gate_bool \<lparr>in0 = a, in1 = b, out = 0, op = c\<rparr>"
  by (auto simp: canonical_def reads_def gate_bool_def fun_eq_iff split: Op.split)

lemma rc_emit_eq: "rc_emit c a b s =
    (if rc_next_id s \<noteq> UINT32_MAX
     then Inr (rc_next_id s, s\<lparr>rc_inputs_closed := True, rc_next_id := rc_next_id s + 1,
       rc_prog := (rc_prog s)\<lparr>gates := gates (rc_prog s) @
         [\<lparr>in0 = a, in1 = b, out = rc_next_id s, op = c\<rparr>]\<rparr>\<rparr>)
     else Inl WireIdOverflow)"
  by (simp add: rc_emit_def rc_alloc_def rc_push_def bind_def ret_def)

section \<open>Recording simulates evaluation\<close>

text \<open>
  For the finished gate list \<open>gs\<close> and the input values \<open>ins\<close>, a wire id denotes its value in
  \<open>eval_dense gs ins\<close>. Recordings count that are a prefix of \<open>gs\<close>, and only when \<open>gs\<close> is in
  order.
\<close>

definition rec_ok :: "bool list \<Rightarrow> Gate list \<Rightarrow> record_state \<Rightarrow> bool" where
  "rec_ok ins gs s \<longleftrightarrow> in_order (length ins) gs \<and> (\<exists>rest. gs = gates (rc_prog s) @ rest)"

definition rec_inv :: "bool list \<Rightarrow> Gate list \<Rightarrow> record_state \<Rightarrow> unit \<Rightarrow> bool" where
  "rec_inv ins gs s t \<longleftrightarrow>
     rc_next_id s = length ins + length (gates (rc_prog s)) \<and>
     (0 \<le> rc_c0 s \<longrightarrow> \<not> eval_dense gs ins ! nat (rc_c0 s)) \<and>
     (0 \<le> rc_c1 s \<longrightarrow> eval_dense gs ins ! nat (rc_c1 s))"

definition rec_rel :: "bool list \<Rightarrow> Gate list \<Rightarrow> nat \<Rightarrow> bool \<Rightarrow> bool" where
  "rec_rel ins gs w b \<longleftrightarrow> b = eval_dense gs ins ! w"

lemma rec_gate_sim:
  assumes v: "v = gate_bool \<lparr>in0 = a, in1 = b, out = 0, op = c\<rparr> (eval_dense gs ins)"
  shows "sim (rec_ok ins gs) (rec_inv ins gs) (\<lambda>_. False) (rec_rel ins gs) (rc_emit c a b) (ret v)"
proof (rule simI)
  fix s i s' t
  assume e: "rc_emit c a b s = Inr (i, s')" and ok: "rec_ok ins gs s'"
  let ?g = "\<lparr>in0 = a, in1 = b, out = rc_next_id s, op = c\<rparr>"
  from e have s': "s' = s\<lparr>rc_inputs_closed := True, rc_next_id := rc_next_id s + 1,
      rc_prog := (rc_prog s)\<lparr>gates := gates (rc_prog s) @ [?g]\<rparr>\<rparr>" and i: "i = rc_next_id s"
    by (auto simp: rc_emit_eq split: if_splits)
  from ok obtain rest where gs: "gs = gates (rc_prog s) @ ?g # rest" and ord: "in_order (length ins) gs"
    by (auto simp: rec_ok_def s')
  then show "rec_ok ins gs s" by (auto simp: rec_ok_def)
  assume inv: "rec_inv ins gs s t"
  have "eval_dense gs ins ! rc_next_id s = gate_bool ?g (eval_dense gs ins)"
    using eval_dense_gate [OF ord, of "length (gates (rc_prog s))"] inv gs
    by (simp add: rec_inv_def)
  then show "(\<exists>e. ret v t = Inl e \<and> False) \<or>
      (\<exists>y t'. ret v t = Inr (y, t') \<and> rec_inv ins gs s' t' \<and> rec_rel ins gs i y)"
    using inv by (simp add: ret_def rec_inv_def rec_rel_def s' i v gate_out_irrelevant)
qed

lemma rec_public_bit_sim:
  "sim (rec_ok ins gs) (rec_inv ins gs) (\<lambda>_. False) (rec_rel ins gs) (rc_public_bit v) (ret v)"
proof (rule simI)
  fix s :: record_state and i s' t
  let ?c = "if v then rc_c1 s else rc_c0 s" and ?op = "if v then OpConst1 else OpConst0"
  assume p: "rc_public_bit v s = Inr (i, s')" and ok: "rec_ok ins gs s'"
  have sim: "sim (rec_ok ins gs) (rec_inv ins gs) (\<lambda>_. False) (rec_rel ins gs) (rc_emit ?op 0 0) (ret v)"
    by (rule rec_gate_sim) (simp add: gate_bool_def)
  have cached: "s' = s \<and> i = nat ?c" if "\<not> ?c < 0"
    using p that by (auto simp: rc_public_bit_def split: if_splits)
  have emitted: "\<exists>s1. rc_emit ?op 0 0 s = Inr (i, s1) \<and>
      s' = (if v then s1\<lparr>rc_c1 := int i\<rparr> else s1\<lparr>rc_c0 := int i\<rparr>)" if "?c < 0"
    using p that by (auto simp: rc_public_bit_def bind_eq_Inr split: if_splits)
  have ok1: "rec_ok ins gs s1" if "s' = (if v then s1\<lparr>rc_c1 := int i\<rparr> else s1\<lparr>rc_c0 := int i\<rparr>)" for s1
    using ok that by (auto simp: rec_ok_def split: if_splits)
  show "rec_ok ins gs s"
    using cached emitted ok ok1 sim_ok [OF sim] by (metis (lifting))
  assume inv: "rec_inv ins gs s t"
  show "(\<exists>e. ret v t = Inl e \<and> False) \<or>
      (\<exists>y t'. ret v t = Inr (y, t') \<and> rec_inv ins gs s' t' \<and> rec_rel ins gs i y)"
  proof (cases "?c < 0")
    case True
    from emitted [OF this] obtain s1 where e: "rc_emit ?op 0 0 s = Inr (i, s1)"
      and s': "s' = (if v then s1\<lparr>rc_c1 := int i\<rparr> else s1\<lparr>rc_c0 := int i\<rparr>)" by blast
    from sim e ok1 [OF s'] inv show ?thesis
      by (cases rule: simD) (auto simp: s' ret_def rec_inv_def rec_rel_def)
  next
    case False
    with cached inv show ?thesis by (auto simp: ret_def rec_inv_def rec_rel_def split: if_splits)
  qed
qed

interpretation rec: ctx_sim RecordCtx bool_ctx "rec_ok ins gs" "rec_inv ins gs" "\<lambda>_. False"
    "rec_rel ins gs" for ins gs
  by unfold_locales
    (auto simp: rel_fun_def tot_def left_total_def rec_rel_def [abs_def] RecordCtx_def gate_bool_def
      rec_public_bit_sim [unfolded rec_rel_def [abs_def]]
      intro!: rec_gate_sim [unfolded rec_rel_def [abs_def]])

section \<open>Recorded gates read only allocated wires\<close>

text \<open>
  A recorder that stops at gate \<open>i\<close> and reports whether that gate's operands were allocated.
  Recording refines it up to the stop; a circuit that only passes on wires it got from its
  context never triggers the report.
\<close>

definition scope_emit :: "nat \<Rightarrow> Op \<Rightarrow> nat \<Rightarrow> nat \<Rightarrow> (record_state, nat) gm" where
  "scope_emit i c a b = (\<lambda>s.
     if length (gates (rc_prog s)) < i then rc_emit c a b s
     else if \<forall>r \<in> set (reads \<lparr>in0 = a, in1 = b, out = 0, op = c\<rparr>). r < rc_next_id s
     then Inl WireIdOverflow else Inl OperandNeverAllocated)"

definition scope_public_bit :: "nat \<Rightarrow> bool \<Rightarrow> (record_state, nat) gm" where
  "scope_public_bit i v = (\<lambda>s.
     if (if v then rc_c1 s else rc_c0 s) < 0 \<and> i \<le> length (gates (rc_prog s)) then Inl WireIdOverflow
     else rc_public_bit v s)"

definition ScopeCtx :: "nat \<Rightarrow> (record_state, nat) ctx" where
  "ScopeCtx i =
     \<lparr>public_bit = scope_public_bit i,
      and_gate = scope_emit i OpAnd,
      xor_gate = scope_emit i OpXor,
      not_gate = (\<lambda>a. scope_emit i OpNot a 0),
      wire_init = 0\<rparr>"

definition pre_ok :: "Gate list \<Rightarrow> record_state \<Rightarrow> bool" where
  "pre_ok gs s \<longleftrightarrow> (\<exists>rest. gs = gates (rc_prog s) @ rest)"

definition pre_inv :: "nat \<Rightarrow> nat \<Rightarrow> record_state \<Rightarrow> record_state \<Rightarrow> bool" where
  "pre_inv n i s t \<longleftrightarrow> t = s \<and> length (gates (rc_prog s)) \<le> i \<and>
     rc_num_inputs s = n \<and> wire_reuse (rc_prog s) = ReuseNone \<and>
     rc_next_id s = n + length (gates (rc_prog s)) \<and> rc_next_id s \<le> UINT32_MAX \<and>
     (\<forall>j < length (gates (rc_prog s)). canonical (gates (rc_prog s) ! j) \<and>
        out (gates (rc_prog s) ! j) = n + j)"

definition gate_scoped :: "nat \<Rightarrow> nat \<Rightarrow> Gate list \<Rightarrow> bool" where
  "gate_scoped n i gs \<longleftrightarrow> (\<forall>r \<in> set (reads (gs ! i)). r < n + i)"

definition pre_err :: "nat \<Rightarrow> nat \<Rightarrow> Gate list \<Rightarrow> error \<Rightarrow> bool" where
  "pre_err n i gs e \<longleftrightarrow> i < length gs \<and> (e = OperandNeverAllocated \<longleftrightarrow> \<not> gate_scoped n i gs)"

lemma pre_emit_sim:
  assumes "canonical \<lparr>in0 = a, in1 = b, out = 0, op = c\<rparr>"
  shows "sim (pre_ok gs) (pre_inv n i) (pre_err n i gs) (=) (rc_emit c a b) (scope_emit i c a b)"
proof (rule simI)
  fix s x s' t
  assume e: "rc_emit c a b s = Inr (x, s')" and ok: "pre_ok gs s'"
  let ?g = "\<lparr>in0 = a, in1 = b, out = rc_next_id s, op = c\<rparr>"
  from e have s': "s' = s\<lparr>rc_inputs_closed := True, rc_next_id := rc_next_id s + 1,
      rc_prog := (rc_prog s)\<lparr>gates := gates (rc_prog s) @ [?g]\<rparr>\<rparr>" and room: "rc_next_id s \<noteq> UINT32_MAX"
    by (auto simp: rc_emit_eq split: if_splits)
  from ok obtain rest where gs: "gs = gates (rc_prog s) @ ?g # rest" by (auto simp: pre_ok_def s')
  then show "pre_ok gs s" by (simp add: pre_ok_def)
  assume inv: "pre_inv n i s t"
  show "(\<exists>e. scope_emit i c a b t = Inl e \<and> pre_err n i gs e) \<or>
      (\<exists>y t'. scope_emit i c a b t = Inr (y, t') \<and> pre_inv n i s' t' \<and> x = y)"
  proof (cases "length (gates (rc_prog s)) < i")
    case True
    then have "pre_inv n i s' s'"
      using inv assms room by (auto simp: pre_inv_def s' nth_append less_Suc_eq gate_out_irrelevant)
    then show ?thesis using True inv e by (simp add: scope_emit_def pre_inv_def)
  next
    case False
    with inv have "i = length (gates (rc_prog s))" by (simp add: pre_inv_def)
    with inv gs show ?thesis
      by (auto simp: scope_emit_def pre_inv_def pre_err_def gate_scoped_def gate_out_irrelevant)
  qed
qed

lemma pre_public_bit_sim:
  "sim (pre_ok gs) (pre_inv n i) (pre_err n i gs) (=) (rc_public_bit v) (scope_public_bit i v)"
proof (rule simI)
  fix s :: record_state and x s' t
  let ?c = "if v then rc_c1 s else rc_c0 s" and ?op = "if v then OpConst1 else OpConst0"
  let ?upd = "\<lambda>s. if v then s\<lparr>rc_c1 := int x\<rparr> else s\<lparr>rc_c0 := int x\<rparr>"
  assume p: "rc_public_bit v s = Inr (x, s')" and ok: "pre_ok gs s'"
  have sim: "sim (pre_ok gs) (pre_inv n i) (pre_err n i gs) (=) (rc_emit ?op 0 0) (scope_emit i ?op 0 0)"
    by (rule pre_emit_sim) (simp add: canonical_def)
  have cases: "(\<not> ?c < 0 \<and> s' = s) \<or> (?c < 0 \<and> (\<exists>s1. rc_emit ?op 0 0 s = Inr (x, s1) \<and> s' = ?upd s1))"
    using p by (auto simp: rc_public_bit_def bind_eq_Inr Let_def split: if_splits)
  have ok1: "pre_ok gs s1" if "s' = ?upd s1" for s1
    using ok that by (auto simp: pre_ok_def split: if_splits)
  show "pre_ok gs s"
    using cases ok ok1 sim_ok [OF sim] by (metis (lifting))
  assume inv: "pre_inv n i s t"
  from cases show "(\<exists>e. scope_public_bit i v t = Inl e \<and> pre_err n i gs e) \<or>
      (\<exists>y t'. scope_public_bit i v t = Inr (y, t') \<and> pre_inv n i s' t' \<and> x = y)"
  proof (elim disjE conjE exE)
    assume "\<not> ?c < 0" "s' = s"
    with p inv show ?thesis by (auto simp: scope_public_bit_def pre_inv_def)
  next
    fix s1
    assume c: "?c < 0" and e: "rc_emit ?op 0 0 s = Inr (x, s1)" and s': "s' = ?upd s1"
    from sim e ok1 [OF s'] inv show ?thesis
    proof (cases rule: simD)
      case (error e)
      then have "i \<le> length (gates (rc_prog s))" "e = WireIdOverflow"
        using inv e \<open>rc_emit ?op 0 0 s = Inr (x, s1)\<close>
        by (auto simp: scope_emit_def pre_inv_def reads_def split: if_splits)
      with error c inv show ?thesis by (simp add: scope_public_bit_def pre_inv_def)
    next
      case (returns y t')
      then have "length (gates (rc_prog s)) < i"
        using inv by (auto simp: scope_emit_def pre_inv_def split: if_splits)
      with returns c inv p show ?thesis by (auto simp: scope_public_bit_def pre_inv_def s')
    qed
  qed
qed

interpretation pre: ctx_sim RecordCtx "ScopeCtx i" "pre_ok gs" "pre_inv n i" "pre_err n i gs" "(=)"
  for n i gs
  by unfold_locales
    (auto simp: rel_fun_def tot_def left_total_eq RecordCtx_def ScopeCtx_def canonical_def
      intro!: pre_public_bit_sim pre_emit_sim)

definition scope_inv :: "nat \<Rightarrow> nat \<Rightarrow> 'c \<Rightarrow> record_state \<Rightarrow> bool" where
  "scope_inv n i s t \<longleftrightarrow> length (gates (rc_prog t)) \<le> i \<and>
     rc_next_id t = n + length (gates (rc_prog t)) \<and>
     (0 \<le> rc_c0 t \<longrightarrow> nat (rc_c0 t) < rc_next_id t) \<and> (0 \<le> rc_c1 t \<longrightarrow> nat (rc_c1 t) < rc_next_id t)"

interpretation scope: ctx_sim CountCtx "ScopeCtx i" "\<lambda>_. True" "scope_inv n i"
    "\<lambda>e. e \<noteq> OperandNeverAllocated" "\<lambda>_ w. w < n + i" for n i
proof (unfold_locales, goal_cases)
  case 2
  then show ?case
    by (auto simp: sim_def rel_fun_def CountCtx_def ScopeCtx_def scope_public_bit_def rc_public_bit_def
        rc_emit_eq bind_def cc_public_bit_def scope_inv_def Let_def split: if_splits)
qed (auto simp: tot_def sim_def rel_fun_def CountCtx_def ScopeCtx_def scope_emit_def rc_emit_eq
    scope_inv_def reads_def split: if_splits)

section \<open>Counting and hashing follow recording\<close>

definition count_rel :: "record_state \<Rightarrow> count_state \<Rightarrow> bool" where
  "count_rel s t \<longleftrightarrow>
     (let gs = gates (rc_prog s) in
      length gs \<le> rc_next_id s \<and> rc_next_id s \<le> UINT32_MAX \<and>
      cc_ands t = length (filter is_and gs) \<and> cc_xors t = length (filter is_xor gs) \<and>
      cc_nots t = length (filter is_not gs) \<and> cc_consts t = length (filter is_const gs) \<and>
      (cc_c0_seen t \<longleftrightarrow> 0 \<le> rc_c0 s) \<and> (cc_c1_seen t \<longleftrightarrow> 0 \<le> rc_c1 s))"

lemma u64_inc_small: "n \<le> m \<Longrightarrow> m \<le> UINT32_MAX \<Longrightarrow> u64_inc n = Suc n"
  by (simp add: u64_inc_def UINT32_MAX_def)

lemma u64_inc_filter:
  "length gs \<le> m \<Longrightarrow> m \<le> UINT32_MAX \<Longrightarrow> u64_inc (length (filter P gs)) = Suc (length (filter P gs))"
  by (rule u64_inc_small [of _ m]) (use length_filter_le [of P gs] in linarith)+


interpretation cnt: ctx_sim RecordCtx CountCtx "\<lambda>_. True" count_rel "\<lambda>_. False" "\<lambda>_ _. True"
proof (unfold_locales, goal_cases)
  case 2
  show ?case
  proof (rule rel_funI, simp)
    fix c
    show "sim (\<lambda>_. True) count_rel (\<lambda>_. False) (\<lambda>_ _. True) (public_bit RecordCtx c) (public_bit CountCtx c)"
      by (cases c)
        (auto simp: sim_def RecordCtx_def CountCtx_def rc_public_bit_def cc_public_bit_def rc_emit_eq
          bind_def count_rel_def Let_def u64_inc_filter op_tests split: if_splits)
  qed
qed (auto simp: tot_def rel_fun_def sim_def RecordCtx_def CountCtx_def rc_emit_eq count_rel_def Let_def
    u64_inc_filter op_tests split: if_splits)

definition digest_rel :: "64 word \<Rightarrow> record_state \<Rightarrow> digest_state \<Rightarrow> bool" where
  "digest_rel h s t \<longleftrightarrow>
     dc_next_id t = rc_next_id s \<and> dc_c0 t = rc_c0 s \<and> dc_c1 t = rc_c1 s \<and>
     dc_digest t = digest_gates (gates (rc_prog s)) h"

interpretation dig: ctx_sim RecordCtx DigestCtx "\<lambda>_. True" "digest_rel h" "\<lambda>_. False" "(=)" for h
proof (unfold_locales, goal_cases)
  case 2
  show ?case
  proof (rule rel_funI, simp)
    fix c
    show "sim (\<lambda>_. True) (digest_rel h) (\<lambda>_. False) (=) (public_bit RecordCtx c) (public_bit DigestCtx c)"
      by (cases c)
        (auto simp: sim_def RecordCtx_def DigestCtx_def rc_public_bit_def dc_public_bit_def rc_emit_eq
          dc_emit_def bind_def digest_rel_def digest_gates_def op_code_def Let_def split: if_splits)
  qed
qed (auto simp: tot_def rel_fun_def sim_def RecordCtx_def DigestCtx_def rc_emit_eq dc_emit_def digest_rel_def
    digest_gates_def op_code_def split: if_splits)

text \<open>Whatever a circuit does on truth values it does on the recorder, unless the ids run out.\<close>

interpretation total: ctx_sim bool_ctx RecordCtx "\<lambda>_. True" "\<lambda>_ _. True" "\<lambda>e. e = WireIdOverflow" "\<lambda>_ _. True"
proof (unfold_locales, goal_cases)
  case 2
  show ?case
  proof (rule rel_funI, simp)
    fix c
    show "sim (\<lambda>_. True) (\<lambda>_ _. True) (\<lambda>e. e = WireIdOverflow) (\<lambda>_ _. True) (ret c) (public_bit RecordCtx c)"
      by (cases c)
        (auto simp: sim_def ret_def RecordCtx_def rc_public_bit_def rc_emit_eq bind_def Let_def split: if_splits)
  qed
qed (auto simp: tot_def rel_fun_def sim_def ret_def RecordCtx_def rc_emit_eq split: if_splits)

text \<open>
  A budget for recording: every gate call costs one wire id. When the calls of a body fit the 32-bit
  id space next to its \<open>n\<close> inputs, recording it cannot overflow.
\<close>

definition tick :: "(nat, unit) gm" where
  "tick = (\<lambda>c. Inr ((), Suc c))"

definition cost_ctx :: "(nat, unit) ctx" where
  "cost_ctx = \<lparr>public_bit = (\<lambda>_. tick), and_gate = (\<lambda>_ _. tick), xor_gate = (\<lambda>_ _. tick),
     not_gate = (\<lambda>_. tick), wire_init = ()\<rparr>"

lemma cost_ctx_simps [simp]:
  "public_bit cost_ctx v = tick" "and_gate cost_ctx a b = tick" "xor_gate cost_ctx a b = tick"
  "not_gate cost_ctx a = tick"
  by (simp_all add: cost_ctx_def)

definition in_budget :: "nat \<Rightarrow> nat \<Rightarrow> bool" where
  "in_budget n c \<longleftrightarrow> n + c \<le> UINT32_MAX"

definition budget_inv :: "nat \<Rightarrow> nat \<Rightarrow> record_state \<Rightarrow> bool" where
  "budget_inv n c s \<longleftrightarrow> rc_next_id s \<le> n + c"

interpretation budget: ctx_sim cost_ctx RecordCtx "in_budget n" "budget_inv n" "\<lambda>_. False" "\<lambda>_ _. True" for n
proof (unfold_locales, goal_cases)
  case 2
  show ?case
  proof (rule rel_funI, simp)
    fix c
    show "sim (in_budget n) (budget_inv n) (\<lambda>_. False) (\<lambda>_ _. True) tick (public_bit RecordCtx c)"
      by (cases c)
        (auto simp: sim_def tick_def RecordCtx_def rc_public_bit_def rc_emit_eq bind_def in_budget_def
          budget_inv_def Let_def split: if_splits)
  qed
qed (auto simp: tot_def left_total_def rel_fun_def sim_def tick_def RecordCtx_def rc_emit_eq in_budget_def
    budget_inv_def split: if_splits)

text \<open>A recorder right after its input reservations: \<open>n\<close> inputs, no gate.\<close>

definition fresh_inputs :: "nat \<Rightarrow> record_state \<Rightarrow> bool" where
  "fresh_inputs n s \<longleftrightarrow> rc_prog s = empty_program \<and> rc_next_id s = n \<and> rc_num_inputs s = n \<and>
     n \<le> UINT32_MAX \<and> rc_c0 s = -1 \<and> rc_c1 s = -1 \<and> \<not> rc_inputs_closed s"

lemma fresh_record_init: "fresh_inputs 0 record_init"
  by (simp add: fresh_inputs_def record_init_def)

lemma fresh_external_input:
  "fresh_inputs n s \<Longrightarrow> 0 < k \<Longrightarrow> n + k \<le> UINT32_MAX \<Longrightarrow>
     \<exists>s'. rc_external_input k s = Inr (n, s') \<and> fresh_inputs (n + k) s'"
  by (auto simp: fresh_inputs_def rc_external_input_def)

lemma fresh_external_inputD:
  "fresh_inputs n s \<Longrightarrow> rc_external_input k s = Inr (b, s') \<Longrightarrow>
     b = n \<and> 0 < k \<and> n + k \<le> UINT32_MAX \<and> fresh_inputs (n + k) s'"
  by (auto simp: fresh_inputs_def rc_external_input_def split: if_splits)

lemma count_rel_init: "fresh_inputs n s \<Longrightarrow> count_rel s count_init"
  by (auto simp: fresh_inputs_def count_rel_def count_init_def empty_program_def Let_def)

lemma digest_rel_init:
  assumes "fresh_inputs n s" and "0 < n"
  shows "\<exists>d. dc_external_input n digest_init = Inr (0, d) \<and>
    digest_rel (mix (of_nat n) (mix 0xE fnv_basis)) s d"
  using assms
  by (auto simp: fresh_inputs_def dc_external_input_def digest_init_def
      digest_rel_def digest_gates_def empty_program_def)

text \<open>Arguments of given widths, cut from one flat list.\<close>

primrec chunks :: "nat list \<Rightarrow> 'a list \<Rightarrow> 'a list list" where
  "chunks [] xs = []"
| "chunks (k # ks) xs = take k xs # chunks ks (drop k xs)"

lemma chunks_transfer [transfer_rule]:
  "(rel_fun (=) (rel_fun (list_all2 P) (list_all2 (list_all2 P)))) chunks chunks"
proof (intro rel_funI, simp)
  fix ks xs ys
  assume "list_all2 P xs ys"
  then show "list_all2 (list_all2 P) (chunks ks xs) (chunks ks ys)"
    by (induction ks arbitrary: xs ys) (auto simp: list_all2_takeI list_all2_dropI)
qed

lemma chunks_rel: "list_all2 P xs ys \<Longrightarrow> list_all2 (list_all2 P) (chunks ks xs) (chunks ks ys)"
  using rel_funD [OF rel_funD [OF chunks_transfer refl]] by blast

lemma concat_chunks: "length xs = sum_list ks \<Longrightarrow> concat (chunks ks xs) = xs"
  by (induction ks arbitrary: xs) auto

lemma chunks_concat: "map length args = ks \<Longrightarrow> chunks ks (concat args) = args"
  by (induction ks arbitrary: args) auto

lemma map_length_chunks: "length xs = sum_list ks \<Longrightarrow> map length (chunks ks xs) = ks"
  by (induction ks arbitrary: xs) auto

lemma length_chunks [simp]: "length (chunks ks xs) = length ks"
  by (induction ks arbitrary: xs) auto

section \<open>Circuit sources\<close>

text \<open>
  A circuit source: one body, run on the recorder, on the stopping recorder, on the counter, on
  the digest and on truth values, and parametric in the context. Recording it on arguments of
  widths \<open>ws\<close> always yields a valid dense program; the program computes the source's function, the
  counters are its gate counts and the streamed digest is its digest.
\<close>

locale circuit_source =
  fixes ws :: "nat list"
    and body_rec :: "nat list list \<Rightarrow> (record_state, nat list) gm"
    and body_scope :: "nat \<Rightarrow> nat list list \<Rightarrow> (record_state, nat list) gm"
    and body_count :: "8 word list list \<Rightarrow> (count_state, 8 word list) gm"
    and body_digest :: "nat list list \<Rightarrow> (digest_state, nat list) gm"
    and body_bool :: "bool list list \<Rightarrow> (unit, bool list) gm"
  assumes rec_bool: "\<And>ins gs. length ins = sum_list ws \<Longrightarrow>
      (rel_fun (list_all2 (list_all2 (rec_rel ins gs))) (sim (rec_ok ins gs) (rec_inv ins gs) (\<lambda>_. False) (list_all2 (rec_rel ins gs)))) body_rec body_bool"
    and rec_pre: "\<And>i gs.
      (rel_fun (list_all2 (list_all2 (=))) (sim (pre_ok gs) (pre_inv (sum_list ws) i) (pre_err (sum_list ws) i gs) (list_all2 (=)))) body_rec (body_scope i)"
    and rec_count:
      "(rel_fun (list_all2 (list_all2 (\<lambda>_ _. True))) (sim (\<lambda>_. True) count_rel (\<lambda>_. False) (list_all2 (\<lambda>_ _. True))))
        body_rec body_count"
    and count_scope: "\<And>i.
      (rel_fun (list_all2 (list_all2 (\<lambda>_ w. w < sum_list ws + i))) (sim (\<lambda>_. True) (scope_inv (sum_list ws) i) (\<lambda>e. e \<noteq> OperandNeverAllocated) (list_all2 (\<lambda>_ w. w < sum_list ws + i)))) body_count (body_scope i)"
    and rec_digest: "\<And>h.
      (rel_fun (list_all2 (list_all2 (=))) (sim (\<lambda>_. True) (digest_rel h) (\<lambda>_. False) (list_all2 (=)))) body_rec body_digest"
    and bool_rec:
      "(rel_fun (list_all2 (list_all2 (\<lambda>_ _. True))) (sim (\<lambda>_. True) (\<lambda>_ _. True) (\<lambda>e. e = WireIdOverflow) (list_all2 (\<lambda>_ _. True)))) body_bool body_rec"
begin

abbreviation n :: nat where
  "n \<equiv> sum_list ws"

lemma counted:
  assumes ext: "fresh_inputs n s0"
    and run: "body_rec (chunks ws [0..<n]) s0 = Inr (os, s1)"
  obtains us t where "body_count (chunks ws (replicate n 0)) count_init = Inr (us, t)" and "count_rel s1 t"
proof -
  have "list_all2 (\<lambda>_ _. True) [0..<n] (replicate n (0 :: 8 word))"
    by (simp add: list_all2_conv_all_nth)
  from rel_funD [OF rec_count chunks_rel [OF this]] run _ count_rel_init [OF ext] show thesis
    by (rule simD) (auto intro: that)
qed

lemma scoped_step:
  assumes ext: "fresh_inputs n s0"
    and run: "body_rec (chunks ws [0..<n]) s0 = Inr (os, s1)"
  shows "case body_scope i (chunks ws [0..<n]) s0 of
      Inl e \<Rightarrow> e \<noteq> OperandNeverAllocated \<and> pre_err n i (gates (rc_prog s1)) e
    | Inr (os', s') \<Rightarrow> os' = os \<and> pre_inv n i s1 s' \<and> (\<forall>w \<in> set os. w < n + i)"
proof -
  obtain us t where cnt: "body_count (chunks ws (replicate n 0)) count_init = Inr (us, t)"
    using counted [OF ext run] .
  have s0: "scope_inv n i count_init s0" "pre_inv n i s0 s0"
    using ext by (auto simp: fresh_inputs_def scope_inv_def pre_inv_def empty_program_def)
  have "list_all2 (\<lambda>_ w. w < n + i) (replicate n (0 :: 8 word)) [0..<n]"
    by (simp add: list_all2_conv_all_nth)
  note sc = rel_funD [OF count_scope [of i] chunks_rel [OF this]]
  note pr = rel_funD [OF rec_pre [of "gates (rc_prog s1)" i] chunks_rel [OF list_all2_refl]]
  have ok: "pre_ok (gates (rc_prog s1)) s1" by (simp add: pre_ok_def)
  show ?thesis
  proof (cases "body_scope i (chunks ws [0..<n]) s0")
    case (Inl e)
    from sc cnt _ s0(1) have "e \<noteq> OperandNeverAllocated" by (rule simD) (auto simp: Inl)
    moreover have "pre_err n i (gates (rc_prog s1)) e"
      using pr [OF refl] run ok s0(2) by (rule simD) (auto simp: Inl)
    ultimately show ?thesis using Inl by simp
  next
    case (Inr r)
    obtain os' s' where r: "r = (os', s')" by (cases r)
    from sc cnt _ s0(1) have "\<forall>w \<in> set os'. w < n + i"
      by (rule simD) (auto simp: Inr r list_all2_conv_all_nth in_set_conv_nth)
    moreover have "os = os' \<and> pre_inv n i s1 s'"
      using pr [OF refl] run ok s0(2) by (rule simD) (auto simp: Inr r list.rel_eq)
    ultimately show ?thesis using Inr r by simp
  qed
qed

lemma recorded_in_order:
  assumes ext: "fresh_inputs n s0"
    and run: "body_rec (chunks ws [0..<n]) s0 = Inr (os, s1)"
  shows "in_order n (gates (rc_prog s1))" and "\<forall>w \<in> set os. w < n + length (gates (rc_prog s1))"
    and "pre_inv n (length (gates (rc_prog s1))) s1 s1"
proof -
  let ?gs = "gates (rc_prog s1)"
  have stop: "gate_scoped n i ?gs" if "i < length ?gs" for i
    using scoped_step [OF ext run, of i] that
    by (auto simp: pre_inv_def pre_err_def split: sum.splits)
  have "pre_inv n (length ?gs) s1 s1 \<and> (\<forall>w \<in> set os. w < n + length ?gs)"
    using scoped_step [OF ext run, of "length ?gs"]
    by (auto simp: pre_err_def pre_inv_def split: sum.splits)
  then show inv: "pre_inv n (length ?gs) s1 s1" and "\<forall>w \<in> set os. w < n + length ?gs" by auto
  show "in_order n ?gs"
    using stop inv by (auto simp: in_order_def pre_inv_def gate_scoped_def)
qed

lemma record_total:
  assumes "body_bool (chunks ws (replicate n False)) () = Inr (x, ())"
    and "body_rec (chunks ws [0..<n]) s = Inl e"
  shows "e = WireIdOverflow"
proof -
  have "list_all2 (\<lambda>_ _. True) (replicate n False) [0..<n]" by (simp add: list_all2_conv_all_nth)
  from rel_funD [OF bool_rec chunks_rel [OF this]] assms(1) show ?thesis
    by (rule simD [where t = s]) (use assms(2) in auto)
qed

lemma recorded:
  assumes ext: "fresh_inputs n s0"
    and run: "body_rec (chunks ws [0..<n]) s0 = Inr (os, s1)"
  obtains p s2 where "rc_finish os s1 = Inr (p, s2)" and "wf_program p" and "wire_reuse p = ReuseNone"
    and "num_inputs p = n" and "gates p = gates (rc_prog s1)" and "outputs p = os"
    and "num_wires p \<le> UINT32_MAX" and "in_order n (gates p)"
    and "\<And>ins. length ins = n \<Longrightarrow> body_bool (chunks ws ins) () = Inr (program_fun p ins, ())"
proof -
  note ord = recorded_in_order [OF ext run]
  define gs where "gs = gates (rc_prog s1)"
  define p where "p = (rc_prog s1)\<lparr>num_wires := rc_next_id s1, num_inputs := rc_num_inputs s1, outputs := os\<rparr>"
  have dims: "num_inputs p = n" "num_wires p = n + length gs" "gates p = gs" "outputs p = os"
    "wire_reuse p = ReuseNone" "num_wires p \<le> UINT32_MAX"
    using ord(3) by (auto simp: pre_inv_def p_def gs_def)
  have "{..<n} \<union> {n..<n + length gs} = {..<n + length gs}" by auto
  then have wf: "wf_program p"
    using ord(2) in_order_wf [OF ord(1), of n] in_order_outs [OF ord(1)]
    by (auto simp: wf_program_def dims gs_def [symmetric])
  have fin: "rc_finish os s1 = Inr (p, s1\<lparr>rc_prog := p\<rparr>)"
    using wf by (simp add: rc_finish_def p_def [symmetric] validate_wf)
  have fn: "body_bool (chunks ws ins) () = Inr (program_fun p ins, ())" if len: "length ins = n" for ins
  proof -
    have s0: "rec_inv ins gs s0 ()"
      using ext len by (auto simp: fresh_inputs_def rec_inv_def empty_program_def)
    have ins: "list_all2 (rec_rel ins gs) [0..<n] ins"
      using len by (simp add: list_all2_conv_all_nth rec_rel_def nth_eval_dense)
    have ok: "rec_ok ins gs s1" using ord(1) len by (simp add: rec_ok_def gs_def)
    have "program_fun p ins = map ((!) (eval_dense gs ins)) os"
      using program_fun_in_order [OF _ wf] dims ord(1) len by (simp add: gs_def)
    moreover from rel_funD [OF rec_bool [OF len] chunks_rel [OF ins]] run ok s0
    have "body_bool (chunks ws ins) () = Inr (map ((!) (eval_dense gs ins)) os, ())"
      by (rule simD) (auto simp: rec_rel_def list_all2_conv_all_nth intro!: nth_equalityI)
    ultimately show ?thesis by simp
  qed
  show thesis using that [OF fin wf] dims fn ord(1) by (simp add: gs_def)
qed

lemma recorded_counts:
  assumes "fresh_inputs n s0"
    and "body_rec (chunks ws [0..<n]) s0 = Inr (os, s1)"
  obtains us t where "body_count (chunks ws (replicate n 0)) count_init = Inr (us, t)"
    and "cc_ands t = length (filter is_and (gates (rc_prog s1)))"
    and "cc_xors t = length (filter is_xor (gates (rc_prog s1)))"
    and "cc_nots t = length (filter is_not (gates (rc_prog s1)))"
    and "cc_consts t = length (filter is_const (gates (rc_prog s1)))"
  by (rule counted [OF assms]) (auto simp: count_rel_def Let_def intro: that)

lemma recorded_digest:
  assumes ext: "fresh_inputs n s0" and pos: "0 < n"
    and run: "body_rec (chunks ws [0..<n]) s0 = Inr (os, s1)"
    and "gates p = gates (rc_prog s1)" and "num_inputs p = n"
  shows "digest_source n (\<lambda>ids. body_digest (chunks ws ids)) = Inr (digest_program p)"
proof -
  obtain d where d: "dc_external_input n digest_init = Inr (0, d)"
    and rel: "digest_rel (mix (of_nat n) (mix 0xE fnv_basis)) s0 d"
    using digest_rel_init [OF ext pos] by blast
  have ids: "map ((+) (0 :: nat)) xs = xs" for xs by (induction xs) auto
  from rel_funD [OF rec_digest chunks_rel [OF list_all2_refl], OF refl] run _ rel
  show ?thesis
    by (rule simD) (use assms d in
      \<open>auto simp: digest_source_def digest_rel_def digest_program_def ids\<close>)
qed

end

text \<open>A circuit source together with its gate calls, for the claim that recording succeeds.\<close>

locale budgeted_source = circuit_source +
  fixes body_cost :: "unit list list \<Rightarrow> (nat, unit list) gm"
  assumes cost_rec:
    "(rel_fun (list_all2 (list_all2 (\<lambda>_ _. True))) (sim (in_budget (sum_list ws)) (budget_inv (sum_list ws)) (\<lambda>_. False) (list_all2 (\<lambda>_ _. True)))) body_cost body_rec"
begin

lemma recordable:
  assumes ext: "fresh_inputs n s0"
    and cost: "body_cost (chunks ws (replicate n ())) 0 = Inr (us, c)" and fits: "n + c \<le> UINT32_MAX"
  obtains os s1 where "body_rec (chunks ws [0..<n]) s0 = Inr (os, s1)"
proof -
  have "list_all2 (\<lambda>_ _. True) (replicate n ()) [0..<n]" by (simp add: list_all2_conv_all_nth)
  from rel_funD [OF cost_rec chunks_rel [OF this]] cost _ _ show thesis
  proof (rule simD)
    show "in_budget n c" using fits by (simp add: in_budget_def)
    show "budget_inv n 0 s0" using ext by (simp add: fresh_inputs_def budget_inv_def)
  qed (auto intro: that)
qed

end

end
