(* ===== verification/Transform.thy ===== *)
theory Transform
  imports Passes Recording
begin

text \<open>
  \<open>ir/transform.h\<close>: wire-id compaction (\<open>make_compact\<close>) and its inverse (\<open>uncompact\<close>).

  The specification side is a register allocation: \<open>needed\<close> is classical liveness over the gate
  list, \<open>rename\<close> relabels a gate by an assignment of slots, and \<open>alloc_ok\<close> says that no gate
  overwrites the slot of a value that is still needed. \<open>alloc_run\<close> is the one correctness lemma:
  under \<open>alloc_ok\<close> the renamed gates compute the same values with the same context effects, on
  every context. Both transforms are shown to produce such an allocation.
\<close>

section \<open>make_compact\<close>

record compact_state =
  cs_next :: nat
  cs_freelist :: "nat list"
  cs_nid :: "nat list"
  cs_gates :: "Gate list"

text \<open>Inputs and outputs persist, and AND outputs when the target is \<open>Linear\<close>.\<close>

definition compact_persist :: "BooleanProgram \<Rightarrow> WireReuse \<Rightarrow> bool list" where
  "compact_persist p target =
     (let inouts = mark_all (outputs p) (mark_all [0..<num_inputs p] (replicate (num_wires p) False)) in
      if target = ReuseLinear then mark_all (map out (filter is_and (gates p))) inouts else inouts)"

text \<open>
  One round of the gate loop. The freelist is a stack, top first; \<open>fs\<close> are the wires whose last
  read is this gate, recycled after it.
\<close>

definition compact_gate :: "bool list \<Rightarrow> nat list \<Rightarrow> Gate \<Rightarrow> compact_state \<Rightarrow> compact_state" where
  "compact_gate persist fs g st =
     (let (out', next', free') =
            (if \<not> persist ! out g \<and> cs_freelist st \<noteq> []
             then (hd (cs_freelist st), cs_next st, tl (cs_freelist st))
             else (cs_next st, u32 (cs_next st + 1), cs_freelist st));
          nid = (cs_nid st)[out g := out'];
          ng = \<lparr>in0 = (if is_const g then 0 else nid ! in0 g),
                in1 = (if is_const g \<or> is_not g then 0 else nid ! in1 g),
                out = out', op = op g\<rparr>
      in st\<lparr>cs_next := next', cs_nid := nid, cs_gates := cs_gates st @ [ng],
            cs_freelist := fold (\<lambda>w fl. nid ! w # fl) fs free'\<rparr>)"

primrec compact_loop :: "bool list \<Rightarrow> nat list list \<Rightarrow> nat \<Rightarrow> Gate list \<Rightarrow> compact_state \<Rightarrow> compact_state" where
  "compact_loop persist fss gi [] st = st"
| "compact_loop persist fss gi (g # gs) st =
     compact_loop persist fss (Suc gi) gs (compact_gate persist (fss ! gi) g st)"

definition make_compact :: "BooleanProgram \<Rightarrow> WireReuse \<Rightarrow> (BooleanProgram \<times> nat list) res" where
  "make_compact dense target =
     res_then (expecting (target \<noteq> ReuseNone) CompactTargetNone)
     (res_then (expecting (wire_reuse dense = ReuseNone) CompactInputNotDense)
     (res_then (validate_program dense)
     (res_bind (liveness_pass dense) (\<lambda>live.
      let NW = num_wires dense; ni = num_inputs dense;
          persist = compact_persist dense target in
      res_bind (frees_loop (last_use live) persist [0..<NW] (replicate (num_gate dense) [])) (\<lambda>fss.
      let st = compact_loop persist fss 0 (take (num_gate dense) (gates dense))
                 \<lparr>cs_next = ni, cs_freelist = [],
                  cs_nid = map (\<lambda>i. if i < ni then i else UINT32_MAX) [0..<NW], cs_gates = []\<rparr>;
          prog = \<lparr>num_wires = cs_next st, num_inputs = ni, wire_reuse = target,
                  gates = cs_gates st, outputs = map ((!) (cs_nid st)) (outputs dense)\<rparr> in
      res_then (validate_program prog) (Inr (prog, cs_nid st)))))))"

section \<open>uncompact\<close>

definition uncompact_gate :: "Gate \<Rightarrow> nat \<times> nat list \<times> Gate list \<Rightarrow> nat \<times> nat list \<times> Gate list" where
  "uncompact_gate g st =
     (case st of (next, cur, gs) \<Rightarrow>
        let ng = \<lparr>in0 = (if is_const g then 0 else cur ! in0 g),
                  in1 = (if is_const g \<or> is_not g then 0 else cur ! in1 g),
                  out = next, op = op g\<rparr>
        in (u32 (next + 1), cur[out g := next], gs @ [ng]))"

definition uncompact :: "BooleanProgram \<Rightarrow> BooleanProgram res" where
  "uncompact src =
     res_then (validate_program src)
     (let ni = num_inputs src;
          (next, cur, gs) = fold uncompact_gate (gates src)
             (u32 ni, map (\<lambda>i. if i < ni then i else UINT32_MAX) [0..<num_wires src], []);
          d = \<lparr>num_wires = next, num_inputs = ni, wire_reuse = ReuseNone, gates = gs,
               outputs = map ((!) cur) (outputs src)\<rparr> in
      res_then (validate_program d) (Inr d))"

section \<open>Register allocations\<close>

primrec needed :: "Gate list \<Rightarrow> nat set \<Rightarrow> nat set" where
  "needed [] X = X"
| "needed (g # gs) X = set (reads g) \<union> (needed gs X - {out g})"

definition rename :: "(nat \<Rightarrow> nat) \<Rightarrow> Gate \<Rightarrow> Gate" where
  "rename f g =
     \<lparr>in0 = (if is_const g then 0 else f (in0 g)),
      in1 = (if is_const g \<or> is_not g then 0 else f (in1 g)), out = f (out g), op = op g\<rparr>"

primrec alloc_ok :: "(nat \<Rightarrow> nat) \<Rightarrow> nat set \<Rightarrow> Gate list \<Rightarrow> bool" where
  "alloc_ok f X [] \<longleftrightarrow> True"
| "alloc_ok f X (g # gs) \<longleftrightarrow> (\<forall>x \<in> needed gs X - {out g}. f x \<noteq> f (out g)) \<and> alloc_ok f X gs"

lemma rename_simps [simp]:
  "op (rename f g) = op g" "out (rename f g) = f (out g)"
  "canonical g \<Longrightarrow> canonical (rename f g)"
  "canonical g \<Longrightarrow> reads (rename f g) = map f (reads g)"
  by (auto simp: rename_def canonical_def reads_def op_tests split: Op.splits)

lemma needed_subset: "wf_gates ssa ni NW A gs \<Longrightarrow> X \<subseteq> A \<union> out ` set gs \<Longrightarrow> needed gs X \<subseteq> A"
proof (induction gs arbitrary: A)
  case (Cons g gs)
  then have "needed gs X \<subseteq> insert (out g) A" by (intro Cons.IH) auto
  with Cons.prems(1) show ?case by auto
qed simp

lemma needed_cases: "x \<in> needed gs X \<Longrightarrow> x \<in> X \<or> (\<exists>g \<in> set gs. x \<in> set (reads g))"
  by (induction gs) auto

text \<open>
  Two replays agree when a slot map carries the wanted values: same context effects, same
  values, or the same error.
\<close>

definition same_run ::
  "('w list \<Rightarrow> 'w list \<Rightarrow> bool) \<Rightarrow> (error + 'w list \<times> 's) \<Rightarrow> (error + 'w list \<times> 's) \<Rightarrow> bool" where
  "same_run P r r' \<longleftrightarrow>
     (case (r, r') of
        (Inl e, Inl e') \<Rightarrow> e = e'
      | (Inr (w, s), Inr (v, s')) \<Rightarrow> s = s' \<and> P w v
      | _ \<Rightarrow> False)"

lemma alloc_run:
  assumes "alloc_ok f X gs" and "\<forall>g \<in> set gs. in_range NW g \<and> f (out g) < length v"
    and "NW \<le> length w" and "\<forall>x \<in> needed gs X. w ! x = v ! f x"
  shows "same_run (\<lambda>w v. \<forall>x \<in> X. w ! x = v ! f x) (run_gates C gs w s) (run_gates C (map (rename f) gs) v s)"
  using assms
proof (induction gs arbitrary: w v s)
  case Nil
  then show ?case by (simp add: same_run_def ret_def)
next
  case (Cons g gs)
  have canon: "canonical g" and og: "out g < length w" "f (out g) < length v"
    using Cons.prems by (auto simp: in_range_def)
  have same: "gate_out C (rename f g) v = gate_out C g w"
    using Cons.prems(4) canon by (intro gate_out_cong) auto
  have IH: "same_run (\<lambda>w v. \<forall>x \<in> X. w ! x = v ! f x)
      (run_gates C gs (w[out g := x]) s') (run_gates C (map (rename f) gs) (v[f (out g) := x]) s')" for x s'
  proof (rule Cons.IH)
    show "\<forall>y \<in> needed gs X. w[out g := x] ! y = v[f (out g) := x] ! f y"
      using Cons.prems(1,4) og by (auto simp: nth_list_update)
  qed (use Cons.prems in auto)
  show ?case
  proof (cases "gate_out C g w s")
    case (Inl e)
    then show ?thesis by (simp add: same bind_def same_run_def)
  next
    case (Inr r)
    then show ?thesis using IH by (cases r) (simp add: same bind_def)
  qed
qed

text \<open>Replay through an allocation that keeps the inputs in place gives the same outputs.\<close>

lemma alloc_replay:
  assumes wf: "wf_program p" "wf_program q"
    and q: "num_inputs q = num_inputs p" "gates q = map (rename f) (gates p)" "outputs q = map f (outputs p)"
    and f: "\<forall>i < num_inputs p. f i = i" and alloc: "alloc_ok f (set (outputs p)) (gates p)"
  shows "replay_result (execute_program_ws C q inputs scratch') s =
    replay_result (execute_program_ws C p inputs scratch) s"
proof (cases "length inputs = num_inputs p")
  case True
  let ?w = "inputs @ drop (length inputs) (ensure (wire_init C) (num_wires p) scratch)"
  let ?v = "inputs @ drop (length inputs) (ensure (wire_init C) (num_wires q) scratch')"
  have len: "num_wires p \<le> length ?w" "num_wires q \<le> length ?v"
    using wf_program_inputs [OF wf(1)] wf_program_inputs [OF wf(2)] q(1) True by auto
  have need: "needed (gates p) (set (outputs p)) \<subseteq> {..<num_inputs p}"
    using wf(1) by (intro needed_subset) (auto simp: wf_program_def)
  have "\<forall>g \<in> set (gates p). in_range (num_wires p) g \<and> f (out g) < length ?v"
    using wf_program_in_range [OF wf(1)] wf_program_in_range [OF wf(2)] len(2)
    by (fastforce simp: q(2) in_range_def)
  from alloc_run [OF alloc this len(1), of C s]
  have "same_run (\<lambda>w v. \<forall>x \<in> set (outputs p). w ! x = v ! f x)
      (run_gates C (gates p) ?w s) (run_gates C (gates q) ?v s)"
    using need f True by (fastforce simp: q(2) nth_append)
  then show ?thesis
    unfolding replay_result_def execute_program_ws_run [OF wf(1) True]
      execute_program_ws_run [OF wf(2) True [folded q(1)]]
    by (auto simp: same_run_def bind_def ret_def q(3) split: sum.splits)
next
  case False
  then show ?thesis
    using q(1) by (simp add: replay_result_def execute_program_ws_def execute_program_into_def fail_def)
qed

section \<open>Compaction is an allocation\<close>

lemma length_mark_all [simp]: "length (mark_all ws bm) = length bm"
  unfolding mark_all_def by (induction ws arbitrary: bm) auto

lemma nth_mark_all: "i < length bm \<Longrightarrow> mark_all ws bm ! i \<longleftrightarrow> bm ! i \<or> i \<in> set ws"
  unfolding mark_all_def by (induction ws arbitrary: bm) (auto simp: nth_list_update)

lemma frees_loop_ok:
  assumes "\<forall>w \<in> set ws. w < length lu \<and> w < length keep \<and> lu ! w < int (length fs)"
  shows "\<exists>fs'. frees_loop lu keep ws fs = Inr fs' \<and> length fs' = length fs \<and>
    (\<forall>j < length fs. fs' ! j = fs ! j @ filter (\<lambda>w. lu ! w = int j \<and> \<not> keep ! w) ws)"
  using assms
proof (induction ws arbitrary: fs)
  case (Cons w ws)
  show ?case
  proof (cases "0 \<le> lu ! w \<and> \<not> keep ! w")
    case True
    then have l: "nat (lu ! w) < length fs" using Cons.prems by auto
    have "\<forall>x \<in> set ws. lu ! x < int (length (fs[nat (lu ! w) := fs ! nat (lu ! w) @ [w]]))"
      using Cons.prems by auto
    from Cons.IH [of "fs[nat (lu ! w) := fs ! nat (lu ! w) @ [w]]"] Cons.prems True l show ?thesis
      by (auto simp: nth_list_update)
  next
    case False
    with Cons.IH [of fs] Cons.prems show ?thesis by auto
  qed
qed simp

text \<open>Wires that still matter before gate \<open>k\<close>, and the invariant of the allocator.\<close>

definition alive :: "int list \<Rightarrow> bool list \<Rightarrow> nat \<Rightarrow> nat set \<Rightarrow> nat set" where
  "alive lu persist k A = {w \<in> A. persist ! w \<or> int k \<le> lu ! w}"

definition compact_inv :: "nat \<Rightarrow> nat \<Rightarrow> int list \<Rightarrow> bool list \<Rightarrow> nat \<Rightarrow> nat set \<Rightarrow> compact_state \<Rightarrow> bool" where
  "compact_inv NW ni lu persist k A st \<longleftrightarrow>
     length (cs_nid st) = NW \<and> A \<subseteq> {..<NW} \<and> ni \<le> cs_next st \<and> cs_next st \<le> ni + k \<and>
     distinct (cs_freelist st) \<and> set (cs_freelist st) \<subseteq> {ni..<cs_next st} \<and>
     (\<forall>w \<in> A. if w < ni then cs_nid st ! w = w else ni \<le> cs_nid st ! w) \<and>
     (\<forall>w \<in> alive lu persist k A. cs_nid st ! w \<in> {..<cs_next st} - set (cs_freelist st)) \<and>
     inj_on ((!) (cs_nid st)) (alive lu persist k A)"

lemma fold_push: "fold (\<lambda>w fl. f w # fl) ws fl = rev (map f ws) @ fl"
  by (induction ws arbitrary: fl) auto

text \<open>Taking a slot: the slot, and what is left, for the two branches of the allocator.\<close>

lemma compact_take_slot:
  assumes inv: "compact_inv NW ni lu persist k A st" and room: "ni + k + 1 < 2 ^ 32"
  obtains o' next' free' where
    "(if \<not> persist ! out g \<and> cs_freelist st \<noteq> []
      then (hd (cs_freelist st), cs_next st, tl (cs_freelist st))
      else (cs_next st, u32 (cs_next st + 1), cs_freelist st)) = (o', next', free')"
    and "o' \<notin> (!) (cs_nid st) ` alive lu persist k A" and "ni \<le> o'" and "o' < next'"
    and "insert o' {..<cs_next st} = {..<next'}" and "cs_next st \<le> next'" and "next' \<le> cs_next st + 1"
    and "distinct free'" and "set free' \<subseteq> set (cs_freelist st) - {o'}" and "persist ! out g \<Longrightarrow> o' = cs_next st"
proof (cases "\<not> persist ! out g \<and> cs_freelist st \<noteq> []")
  case True
  then obtain a fl where fl: "cs_freelist st = a # fl" by (cases "cs_freelist st") auto
  with inv have a: "a \<in> {ni..<cs_next st}" "a \<notin> set fl" "distinct fl"
    "\<forall>w \<in> alive lu persist k A. cs_nid st ! w \<noteq> a"
    by (auto simp: compact_inv_def)
  show thesis
    by (rule that [of a "cs_next st" fl]) (use True fl a in auto)
next
  case False
  have nxt: "u32 (cs_next st + 1) = cs_next st + 1"
    using inv room by (simp add: compact_inv_def u32_def)
  have fl: "distinct (cs_freelist st)" "set (cs_freelist st) \<subseteq> {ni..<cs_next st}" "ni \<le> cs_next st"
    "\<forall>w \<in> alive lu persist k A. cs_nid st ! w < cs_next st"
    using inv by (auto simp: compact_inv_def)
  show thesis
    by (rule that [of "cs_next st" "cs_next st + 1" "cs_freelist st"]) (use False fl nxt in auto)
qed

lemma compact_gate_ok:
  assumes inv: "compact_inv NW ni lu persist k A st"
    and g: "in_range NW g" "set (reads g) \<subseteq> A" "out g \<notin> A" "ni \<le> out g"
    and lu: "\<forall>r \<in> set (reads g). int k \<le> lu ! r"
    and fs: "distinct fs" "\<forall>w \<in> set fs. w \<in> set (reads g) \<and> lu ! w = int k \<and> \<not> persist ! w"
    and ins: "\<forall>w < ni. persist ! w" and room: "ni + k + 1 < 2 ^ 32"
    and st': "st' = compact_gate persist fs g st"
  shows "compact_inv NW ni lu persist (Suc k) (insert (out g) A) st'"
    and "cs_gates st' = cs_gates st @ [rename ((!) (cs_nid st')) g]"
    and "\<forall>w \<in> A. cs_nid st' ! w = cs_nid st ! w"
    and "cs_nid st' ! out g \<notin> (!) (cs_nid st) ` alive lu persist k A"
    and "ni \<le> cs_nid st' ! out g" and "cs_nid st' ! out g < cs_next st'"
    and "insert (cs_nid st' ! out g) {..<cs_next st} = {..<cs_next st'}"
    and "persist ! out g \<Longrightarrow> cs_nid st' ! out g = cs_next st"
proof -
  obtain o' next' free' where slot:
    "(if \<not> persist ! out g \<and> cs_freelist st \<noteq> []
      then (hd (cs_freelist st), cs_next st, tl (cs_freelist st))
      else (cs_next st, u32 (cs_next st + 1), cs_freelist st)) = (o', next', free')"
    and o: "o' \<notin> (!) (cs_nid st) ` alive lu persist k A" "ni \<le> o'" "o' < next'"
      "insert o' {..<cs_next st} = {..<next'}" "cs_next st \<le> next'" "next' \<le> cs_next st + 1"
    and fr: "distinct free'" "set free' \<subseteq> set (cs_freelist st) - {o'}"
    and pin: "persist ! out g \<Longrightarrow> o' = cs_next st"
    using compact_take_slot [OF inv room, of g] by blast
  define nid where "nid = (cs_nid st)[out g := o']"
  have eq: "st' = st\<lparr>cs_next := next', cs_nid := nid, cs_gates := cs_gates st @ [rename ((!) nid) g],
      cs_freelist := rev (map ((!) nid) fs) @ free'\<rparr>"
    using g(1) inv unfolding st' compact_gate_def slot
    by (simp add: Let_def nid_def [symmetric] fold_push rename_def)
       (simp add: nid_def in_range_def compact_inv_def)
  have lnid: "length nid = length (cs_nid st)" by (simp add: nid_def)
  have og: "nid ! out g = o'" using g(1) inv by (simp add: nid_def in_range_def compact_inv_def)
  have old: "nid ! w = cs_nid st ! w" if "w \<in> A" for w using that g(3) unfolding nid_def by (metis nth_list_update_neq)
  show "\<forall>w \<in> A. cs_nid st' ! w = cs_nid st ! w" using old by (simp add: eq)
  show "cs_gates st' = cs_gates st @ [rename ((!) (cs_nid st')) g]" by (simp add: eq)
  show "cs_nid st' ! out g \<notin> (!) (cs_nid st) ` alive lu persist k A" "ni \<le> cs_nid st' ! out g"
    "cs_nid st' ! out g < cs_next st'" "insert (cs_nid st' ! out g) {..<cs_next st} = {..<cs_next st'}"
    "persist ! out g \<Longrightarrow> cs_nid st' ! out g = cs_next st"
    using o og pin by (simp_all add: eq)
  let ?L = "alive lu persist k A" and ?L' = "alive lu persist (Suc k) (insert (out g) A)"
  have fsL: "set fs \<subseteq> ?L" using fs(2) g(2) by (auto simp: alive_def)
  have L': "?L' - {out g} \<subseteq> ?L - set fs" using fs(2) by (auto simp: alive_def)
  have A: "A \<subseteq> {..<NW}" and inj: "inj_on ((!) (cs_nid st)) ?L" and LA: "?L \<subseteq> A"
    using inv by (auto simp: compact_inv_def alive_def)
  have oldL: "nid ! w = cs_nid st ! w" if "w \<in> ?L" for w using old LA that by blast
  have injn: "inj_on ((!) nid) ?L" using inj oldL by (simp add: inj_on_def)
  have outL: "o' \<notin> (!) nid ` ?L" using o(1) oldL by (auto simp: image_iff)
  have nidL: "nid ! w \<in> {..<cs_next st} - set (cs_freelist st)" if "w \<in> ?L" for w
    using inv oldL that by (auto simp: compact_inv_def)
  have dist: "distinct (rev (map ((!) nid) fs) @ free')"
    using fs(1) fr inj_on_subset [OF injn fsL] nidL fsL by (fastforce simp: distinct_map)
  have fs_ni: "ni \<le> nid ! w" if "w \<in> set fs" for w
  proof -
    have "w \<in> A" "\<not> w < ni" using that fs(2) ins g(2) by auto
    then show ?thesis using inv old [of w] by (auto simp: compact_inv_def)
  qed
  have free: "set (rev (map ((!) nid) fs) @ free') \<subseteq> {ni..<next'}"
    using fr(2) inv o(5) nidL fsL fs_ni by (fastforce simp: compact_inv_def)
  have newL: "nid ! w \<in> {..<next'} - set (rev (map ((!) nid) fs) @ free')" if "w \<in> ?L'" for w
  proof (cases "w = out g")
    case True
    have "o' \<notin> (!) nid ` set fs" using outL fsL by blast
    then show ?thesis using True og o(3) fr(2) by auto
  next
    case False
    with that L' have w: "w \<in> ?L - set fs" by blast
    then have "nid ! w \<notin> (!) nid ` set fs" using injn fsL by (auto simp: inj_on_def)
    then show ?thesis using nidL [of w] w o(5) fr(2) by auto
  qed
  have injL': "inj_on ((!) nid) ?L'"
  proof -
    have sub: "?L' - {out g} \<subseteq> ?L" using L' by blast
    have "nid ! out g \<notin> (!) nid ` (?L' - {out g})" unfolding og using outL sub by blast
    with inj_on_subset [OF injn sub] have "inj_on ((!) nid) (insert (out g) (?L' - {out g}))"
      unfolding inj_on_insert by blast
    then show ?thesis by (rule inj_on_subset) auto
  qed
  show "compact_inv NW ni lu persist (Suc k) (insert (out g) A) st'"
    unfolding compact_inv_def eq
    using inv A g(1,4) o dist free newL injL' og old
    by (auto simp: compact_inv_def in_range_def lnid split: if_splits)
qed

text \<open>Facts about one gate of the dense program that the loop needs.\<close>

primrec dense_facts :: "int list \<Rightarrow> bool list \<Rightarrow> nat list list \<Rightarrow> nat \<Rightarrow> Gate list \<Rightarrow> bool" where
  "dense_facts lu persist fss k [] \<longleftrightarrow> True"
| "dense_facts lu persist fss k (g # gs) \<longleftrightarrow>
     (\<forall>r \<in> set (reads g). int k \<le> lu ! r) \<and> distinct (fss ! k) \<and>
     (\<forall>w \<in> set (fss ! k). w \<in> set (reads g) \<and> lu ! w = int k \<and> \<not> persist ! w) \<and>
     dense_facts lu persist fss (Suc k) gs"

lemma dense_factsI:
  assumes "\<And>j. j < length gs \<Longrightarrow> (\<forall>r \<in> set (reads (gs ! j)). int (k + j) \<le> lu ! r) \<and>
     distinct (fss ! (k + j)) \<and>
     (\<forall>w \<in> set (fss ! (k + j)). w \<in> set (reads (gs ! j)) \<and> lu ! w = int (k + j) \<and> \<not> persist ! w)"
  shows "dense_facts lu persist fss k gs"
  using assms
proof (induction gs arbitrary: k)
  case (Cons g gs)
  have "dense_facts lu persist fss (Suc k) gs"
    by (rule Cons.IH) (use Cons.prems [of "Suc _"] in simp)
  with Cons.prems [of 0] show ?case by simp
qed simp

lemma dense_facts_reads:
  "dense_facts lu persist fss k gs \<Longrightarrow> g \<in> set gs \<Longrightarrow> r \<in> set (reads g) \<Longrightarrow> int k \<le> lu ! r"
proof (induction gs arbitrary: k)
  case (Cons h gs)
  then show ?case by (cases "g = h") (auto dest: Cons.IH)
qed simp

lemma wf_gates_mono: "wf_gates ssa ni NW A gs \<Longrightarrow> NW \<le> NW' \<Longrightarrow> wf_gates ssa ni NW' A gs"
  by (induction gs arbitrary: A) auto

lemma needed_alive:
  assumes "dense_facts lu persist fss k gs" and "\<forall>x \<in> X. persist ! x"
    and "wf_gates ssa ni NW A gs" and "X \<subseteq> A \<union> out ` set gs"
  shows "needed gs X \<subseteq> alive lu persist k A"
proof
  fix x
  assume x: "x \<in> needed gs X"
  with needed_subset [OF assms(3,4)] have "x \<in> A" by blast
  moreover have "persist ! x \<or> int k \<le> lu ! x"
    using needed_cases [OF x] assms(2) dense_facts_reads [OF assms(1)] by blast
  ultimately show "x \<in> alive lu persist k A" by (simp add: alive_def)
qed

text \<open>A pinned wire shares its slot with no other gate's output.\<close>

primrec pinned :: "(nat \<Rightarrow> nat) \<Rightarrow> bool list \<Rightarrow> Gate list \<Rightarrow> bool" where
  "pinned f persist [] \<longleftrightarrow> True"
| "pinned f persist (g # gs) \<longleftrightarrow>
     (\<forall>h \<in> set gs. persist ! out g \<or> persist ! out h \<longrightarrow> f (out h) \<noteq> f (out g)) \<and> pinned f persist gs"

lemma pinned_nth:
  assumes "pinned f persist gs" and "i < length gs" and "j < length gs" and "i \<noteq> j"
    and "persist ! out (gs ! i)"
  shows "f (out (gs ! i)) \<noteq> f (out (gs ! j))"
  using assms
proof (induction gs arbitrary: i j)
  case (Cons g gs)
  then show ?case by (cases i; cases j) auto
qed simp

text \<open>
  The gate loop. The final table of ids renames the gate list; it is an allocation, the renamed
  gates are well formed under reuse, and a persistent wire never shares its id.
\<close>

lemma compact_loop_ok:
  assumes "compact_inv NW ni lu persist k A st" and "wf_gates True ni NW A gs"
    and "dense_facts lu persist fss k gs" and "\<forall>w < ni. persist ! w"
    and "ni + k + length gs < 2 ^ 32" and "\<forall>x \<in> X. persist ! x" and "X \<subseteq> A \<union> out ` set gs"
    and "st' = compact_loop persist fss k gs st" and "f = (!) (cs_nid st')"
  shows "compact_inv NW ni lu persist (k + length gs) (A \<union> out ` set gs) st' \<and>
    cs_gates st' = cs_gates st @ map (rename f) gs \<and> (\<forall>w \<in> A. f w = cs_nid st ! w) \<and>
    alloc_ok f X gs \<and> cs_next st \<le> cs_next st' \<and> wf_gates False ni (cs_next st') {..<cs_next st} (map (rename f) gs) \<and>
    {..<cs_next st'} = {..<cs_next st} \<union> f ` out ` set gs \<and>
    (\<forall>x \<in> A. persist ! x \<longrightarrow> (\<forall>g \<in> set gs. f (out g) \<noteq> f x)) \<and>
    (\<forall>g \<in> set gs. persist ! out g \<longrightarrow> cs_next st \<le> f (out g)) \<and> pinned f persist gs"
  using assms
proof (induction gs arbitrary: k A st)
  case Nil
  then show ?case by simp
next
  case (Cons g gs)
  define st1 where "st1 = compact_gate persist (fss ! k) g st"
  have g: "in_range NW g" "set (reads g) \<subseteq> A" "out g \<notin> A" "ni \<le> out g" "canonical g"
    using Cons.prems(1,2) by (auto simp: in_range_def compact_inv_def)
  note facts = Cons.prems(3) [unfolded dense_facts.simps]
  have S: "compact_inv NW ni lu persist (Suc k) (insert (out g) A) st1"
    "cs_gates st1 = cs_gates st @ [rename ((!) (cs_nid st1)) g]"
    "\<forall>w \<in> A. cs_nid st1 ! w = cs_nid st ! w"
    "cs_nid st1 ! out g \<notin> (!) (cs_nid st) ` alive lu persist k A"
    "ni \<le> cs_nid st1 ! out g" "cs_nid st1 ! out g < cs_next st1"
    "insert (cs_nid st1 ! out g) {..<cs_next st} = {..<cs_next st1}"
    "persist ! out g \<Longrightarrow> cs_nid st1 ! out g = cs_next st"
    using compact_gate_ok [OF Cons.prems(1) g(1-4) _ _ _ Cons.prems(4) _ st1_def] facts Cons.prems(5)
    by auto
  have rest: "wf_gates True ni NW (insert (out g) A) gs" "dense_facts lu persist fss (Suc k) gs"
    "ni + Suc k + length gs < 2 ^ 32" "X \<subseteq> insert (out g) A \<union> out ` set gs"
    "st' = compact_loop persist fss (Suc k) gs st1"
    using Cons.prems(2,5,7,8) facts by (auto simp: st1_def)
  note all = Cons.IH [OF S(1) rest(1,2) Cons.prems(4) rest(3) Cons.prems(6) rest(4,5) Cons.prems(9)]
  have IH: "compact_inv NW ni lu persist (Suc k + length gs) (insert (out g) A \<union> out ` set gs) st'"
    "cs_gates st' = cs_gates st1 @ map (rename f) gs" "\<forall>w \<in> insert (out g) A. f w = cs_nid st1 ! w"
    "alloc_ok f X gs" "cs_next st1 \<le> cs_next st'"
    "wf_gates False ni (cs_next st') {..<cs_next st1} (map (rename f) gs)"
    "{..<cs_next st'} = {..<cs_next st1} \<union> f ` out ` set gs"
    "\<forall>x \<in> insert (out g) A. persist ! x \<longrightarrow> (\<forall>g \<in> set gs. f (out g) \<noteq> f x)"
    "\<forall>g \<in> set gs. persist ! out g \<longrightarrow> cs_next st1 \<le> f (out g)" "pinned f persist gs"
    using all by blast+
  have fA: "f x = cs_nid st ! x" if "x \<in> A" for x using IH(3) S(3) that by simp
  have fo: "f (out g) = cs_nid st1 ! out g" using IH(3) by simp
  have fout: "f x \<noteq> f (out g)" if "x \<in> alive lu persist k A" for x
  proof -
    have "x \<in> A" using that by (simp add: alive_def)
    then show ?thesis using S(4) that unfolding fo fA [OF \<open>x \<in> A\<close>] by (metis imageI)
  qed
  have ren: "rename ((!) (cs_nid st1)) g = rename f g"
    using IH(3) g(2,5) by (auto simp: rename_def reads_def canonical_def op_tests split: Op.splits)
  have "needed gs X \<subseteq> alive lu persist (Suc k) (insert (out g) A)"
    using facts Cons.prems(2,6,7) by (intro needed_alive) auto
  then have alloc: "\<forall>x \<in> needed gs X - {out g}. f x \<noteq> f (out g)"
    by (intro ballI fout) (auto simp: alive_def)
  have readsL: "\<forall>r \<in> set (reads g). f r < cs_next st"
    using facts g(2) fA Cons.prems(1) by (fastforce simp: compact_inv_def alive_def)
  have mono: "cs_next st \<le> cs_next st1" using S(7) by (metis lessThan_subset_iff subset_insertI)
  show ?case
  proof (intro conjI)
    show "compact_inv NW ni lu persist (k + length (g # gs)) (A \<union> out ` set (g # gs)) st'"
      using IH(1) by simp
    show "cs_gates st' = cs_gates st @ map (rename f) (g # gs)" using IH(2) S(2) ren by simp
    show "alloc_ok f X (g # gs)" using alloc IH(4) by simp
    show "wf_gates False ni (cs_next st') {..<cs_next st} (map (rename f) (g # gs))"
      using IH(5,6) g(5) readsL fo S(5-7) by (auto simp: S(7))
    show "{..<cs_next st'} = {..<cs_next st} \<union> f ` out ` set (g # gs)"
      unfolding IH(7) S(7) [symmetric] using fo by auto
    show "\<forall>x \<in> A. persist ! x \<longrightarrow> (\<forall>g \<in> set (g # gs). f (out g) \<noteq> f x)"
      using IH(8) fout by (fastforce simp: alive_def)
    show "\<forall>g \<in> set (g # gs). persist ! out g \<longrightarrow> cs_next st \<le> f (out g)"
      using IH(9) S(8) fo mono by fastforce
    show "pinned f persist (g # gs)"
      using IH(8-10) S(6) fo by fastforce
  qed (use fA IH(5) mono in auto)
qed

lemma persist_ok:
  assumes "wf_program p" and "target \<noteq> ReuseNone" and "persist = compact_persist p target"
  shows "length persist = num_wires p" and "\<forall>w < num_inputs p. persist ! w"
    and "\<forall>x \<in> set (outputs p). persist ! x"
    and "target = ReuseLinear \<Longrightarrow> \<forall>g \<in> set (gates p). is_and g \<longrightarrow> persist ! out g"
proof -
  have outs: "\<forall>x \<in> set (outputs p). x < num_wires p" and ni: "num_inputs p \<le> num_wires p"
    and gs: "\<forall>g \<in> set (gates p). out g < num_wires p"
    using wf_program_outputs wf_program_inputs wf_program_in_range assms(1) by (auto simp: in_range_def)
  show "length persist = num_wires p" by (simp add: assms(3) compact_persist_def Let_def)
  show "\<forall>w < num_inputs p. persist ! w" "\<forall>x \<in> set (outputs p). persist ! x"
    "target = ReuseLinear \<Longrightarrow> \<forall>g \<in> set (gates p). is_and g \<longrightarrow> persist ! out g"
    using outs ni gs by (auto simp: assms(3) compact_persist_def Let_def nth_mark_all)
qed

text \<open>Liveness of the dense input provides the facts of the loop.\<close>

lemma dense_facts_ok:
  assumes wf: "wf_program p" and live: "length lu = num_wires p"
      "\<forall>w < num_wires p. lu ! w = last_idx (\<lambda>g. w \<in> set (reads g)) 0 (gates p) (-1)"
    and persist: "length persist = num_wires p"
  obtains fss where "frees_loop lu persist [0..<num_wires p] (replicate (length (gates p)) []) = Inr fss"
    and "dense_facts lu persist fss 0 (gates p)"
proof -
  let ?n = "length (gates p)"
  have hit: "j < ?n \<and> w \<in> set (reads (gates p ! j))" if "w < num_wires p" "lu ! w = int j" for w j
    using last_idx_hit [of "\<lambda>g. w \<in> set (reads g)" "gates p" j] live(2) that by simp
  have lt: "lu ! w < int ?n" if "w < num_wires p" for w
    using hit [OF that, of "nat (lu ! w)"] by (cases "0 \<le> lu ! w") auto
  obtain fss where fss: "frees_loop lu persist [0..<num_wires p] (replicate ?n []) = Inr fss"
    "\<And>j. j < ?n \<Longrightarrow> fss ! j = filter (\<lambda>w. lu ! w = int j \<and> \<not> persist ! w) [0..<num_wires p]"
    using frees_loop_ok [of "[0..<num_wires p]" lu persist "replicate ?n []"] lt live(1) persist by auto
  have "dense_facts lu persist fss 0 (gates p)"
  proof (rule dense_factsI, intro conjI ballI)
    fix j r
    assume "j < ?n" "r \<in> set (reads (gates p ! j))"
    then show "int (0 + j) \<le> lu ! r"
      using wf_program_in_range [OF wf] live(2) last_idx_ge [of j "gates p" "\<lambda>g. r \<in> set (reads g)" 0 "-1"]
      by (fastforce simp: in_range_def)
  qed (use fss(2) hit in \<open>auto simp: distinct_filter\<close>)
  with fss(1) show thesis by (rule that)
qed

lemma make_compact_ok:
  assumes wf: "wf_program p" and dense: "wire_reuse p = ReuseNone" and target: "target \<noteq> ReuseNone"
    and small: "num_wires p < 2 ^ 32"
  obtains q nid where "make_compact p target = Inr (q, nid)" and "wf_program q"
    and "wire_reuse q = target" and "num_inputs q = num_inputs p" and "num_wires q \<le> num_wires p"
    and "gates q = map (rename ((!) nid)) (gates p)" and "outputs q = map ((!) nid) (outputs p)"
    and "\<forall>i < num_inputs p. nid ! i = i" and "alloc_ok ((!) nid) (set (outputs p)) (gates p)"
    and "pinned ((!) nid) (compact_persist p target) (gates p)"
proof -
  let ?NW = "num_wires p" and ?ni = "num_inputs p" and ?gs = "gates p"
  define persist where "persist = compact_persist p target"
  note pers = persist_ok [OF wf target persist_def]
  have ng: "length ?gs = ?NW - ?ni" "?ni \<le> ?NW" and wfg: "wf_gates True ?ni ?NW {..<?ni} ?gs"
    and outs: "set (outputs p) \<subseteq> {..<?ni} \<union> out ` set ?gs"
    using wf dense by (auto simp: wf_program_def)
  have gate_count: "num_gate p = length ?gs" using ng small by simp
  obtain live where live: "liveness_pass p = Inr live" "length (last_use live) = ?NW"
    "length (first_def live) = ?NW"
    "\<forall>w < ?NW. last_use live ! w = last_idx (\<lambda>g. w \<in> set (reads g)) 0 ?gs (-1)"
    "\<forall>w < ?NW. first_def live ! w = last_idx (\<lambda>g. out g = w) 0 ?gs (-1)"
    by (rule liveness_pass_ok [OF wf dense small])
  obtain fss where fss: "frees_loop (last_use live) persist [0..<?NW] (replicate (length ?gs) []) = Inr fss"
    and facts: "dense_facts (last_use live) persist fss 0 ?gs"
    by (rule dense_facts_ok [OF wf live(2,4) pers(1)])
  define st0 where "st0 = \<lparr>cs_next = ?ni, cs_freelist = [],
      cs_nid = map (\<lambda>i. if i < ?ni then i else UINT32_MAX) [0..<?NW], cs_gates = []\<rparr>"
  define st where "st = compact_loop persist fss 0 ?gs st0"
  define f where "f = (!) (cs_nid st)"
  have inv0: "compact_inv ?NW ?ni (last_use live) persist 0 {..<?ni} st0"
    using ng by (auto simp: compact_inv_def st0_def alive_def inj_on_def)
  have "?ni + 0 + length ?gs < 2 ^ 32" using ng small by simp
  note loop = compact_loop_ok [OF inv0 wfg facts pers(2) this pers(3) outs st_def f_def]
  have inv: "compact_inv ?NW ?ni (last_use live) persist (length ?gs) ({..<?ni} \<union> out ` set ?gs) st"
    and st: "cs_gates st = map (rename f) ?gs" "alloc_ok f (set (outputs p)) ?gs"
      "wf_gates False ?ni (cs_next st) {..<?ni} (map (rename f) ?gs)"
      "{..<cs_next st} = {..<?ni} \<union> f ` out ` set ?gs" "pinned f persist ?gs"
    using loop by (simp_all add: st0_def)
  have fin: "f i = i" if "i < ?ni" for i
    using loop that ng by (auto simp: st0_def)
  define q where "q = \<lparr>num_wires = cs_next st, num_inputs = ?ni, wire_reuse = target, gates = cs_gates st,
      outputs = map ((!) (cs_nid st)) (outputs p)\<rparr>"
  have "f ` set (outputs p) \<subseteq> {..<cs_next st}"
    using inv outs pers(3) by (auto simp: compact_inv_def alive_def f_def)
  then have wfq: "wf_program q"
    using inv st target unfolding st(4)
    by (auto simp: wf_program_def q_def compact_inv_def image_image f_def [symmetric])
  have run: "make_compact p target = Inr (q, cs_nid st)"
    using target dense wf live(1) fss gate_count wfq
    by (simp add: make_compact_def validate_wf persist_def [symmetric] st0_def [symmetric]
        st_def [symmetric] q_def [symmetric] Let_def)
  show thesis
    by (rule that [OF run wfq]) (use inv st fin ng in \<open>auto simp: q_def f_def persist_def compact_inv_def\<close>)
qed

text \<open>
  (C3) Compaction of a valid dense program always succeeds; the result is valid, has the requested
  reuse level and no more wires, and on every context, from every context state and with any
  scratch it replays to the same outputs and the same final state (or both fail).
\<close>

theorem make_compact_correct:
  assumes "validate_program p = Inr ()" and "wire_reuse p = ReuseNone" and "target \<noteq> ReuseNone"
    and "num_wires p < 2 ^ 32"
  shows "\<exists>q nid. make_compact p target = Inr (q, nid) \<and> validate_program q = Inr () \<and>
    wire_reuse q = target \<and> num_wires q \<le> num_wires p \<and> map op (gates q) = map op (gates p) \<and>
    (\<forall>inputs scratch scratch' s. replay_result (execute_program_ws C q inputs scratch') s =
       replay_result (execute_program_ws C p inputs scratch) s)"
proof -
  have wf: "wf_program p" using assms(1) by (simp add: validate_wf)
  obtain q nid where q: "make_compact p target = Inr (q, nid)" "wf_program q" "wire_reuse q = target"
      "num_inputs q = num_inputs p" "num_wires q \<le> num_wires p"
      "gates q = map (rename ((!) nid)) (gates p)" "outputs q = map ((!) nid) (outputs p)"
      "\<forall>i < num_inputs p. nid ! i = i" "alloc_ok ((!) nid) (set (outputs p)) (gates p)"
    using make_compact_ok [OF wf assms(2-4)] by metis
  have "map op (gates q) = map op (gates p)" by (simp add: q(6))
  with q alloc_replay [OF wf q(2,4,6-9)] show ?thesis by (auto simp: validate_wf)
qed

text \<open>
  (C27) In a program compacted to \<open>Linear\<close>, the output slot of an AND gate is written by no other
  gate, so its value survives the whole replay.
\<close>

theorem compact_linear_pins_ands:
  assumes "validate_program p = Inr ()" and "wire_reuse p = ReuseNone" and "num_wires p < 2 ^ 32"
    and "make_compact p ReuseLinear = Inr (q, nid)"
    and "i < length (gates q)" and "j < length (gates q)" and "i \<noteq> j" and "is_and (gates q ! i)"
  shows "out (gates q ! i) \<noteq> out (gates q ! j)"
proof -
  have wf: "wf_program p" using assms(1) by (simp add: validate_wf)
  have gs: "gates q = map (rename ((!) nid)) (gates p)"
    and pin: "pinned ((!) nid) (compact_persist p ReuseLinear) (gates p)"
    using make_compact_ok [OF wf assms(2) _ assms(3), of ReuseLinear] assms(4) by force+
  have "is_and (gates p ! i)" using assms(5,8) by (simp add: gs is_and_def)
  then have "compact_persist p ReuseLinear ! out (gates p ! i)"
    using persist_ok(4) [OF wf _ refl, of ReuseLinear] assms(5) by (simp add: gs)
  with pinned_nth [OF pin] assms(5-7) show ?thesis by (simp add: gs)
qed

section \<open>Uncompaction inverts an allocation\<close>

lemma uncompact_gate_simp:
  "u32 (next + 1) = next + 1 \<Longrightarrow> uncompact_gate g (next, cur, ds) =
     (next + 1, cur[out g := next], ds @ [(rename ((!) cur) g)\<lparr>out := next\<rparr>])"
  by (simp add: uncompact_gate_def rename_def Let_def)

lemma rename_out: "canonical g \<Longrightarrow> canonical (g\<lparr>out := i\<rparr>)" "reads (g\<lparr>out := i\<rparr>) = reads g"
  by (simp_all add: canonical_def reads_def split: Op.splits)

text \<open>
  \<open>v\<close> maps each fresh dense id back to the slot its gate wrote. The walk keeps \<open>v\<close> a left inverse
  of \<open>cur\<close> on the available slots.
\<close>

lemma uncompact_loop_ok:
  assumes "wf_gates ssa ni NW A gs" and "A \<subseteq> {..<NW}" and "length cur = NW"
    and "\<forall>s \<in> A. cur ! s < m \<and> v (cur ! s) = s" and "\<forall>j < length gs. v (m + j) = out (gs ! j)"
    and "m + length gs < 2 ^ 32"
  shows "\<exists>cur' hs. fold uncompact_gate gs (m, cur, ds) = (m + length gs, cur', ds @ hs) \<and>
    length hs = length gs \<and> in_order m hs \<and> map (rename v) hs = gs \<and>
    (\<forall>s \<in> A \<union> out ` set gs. cur' ! s < m + length gs \<and> v (cur' ! s) = s) \<and>
    (\<forall>X. X \<subseteq> (!) cur' ` (A \<union> out ` set gs) \<longrightarrow> needed hs X \<subseteq> (!) cur ` A \<and> alloc_ok v X hs)"
  using assms
proof (induction gs arbitrary: A cur m ds)
  case Nil
  then show ?case by auto
next
  case (Cons g gs)
  define h where "h = (rename ((!) cur) g)\<lparr>out := m\<rparr>"
  have g: "canonical g" "set (reads g) \<subseteq> A" "out g < NW" using Cons.prems(1) by auto
  have vm: "v m = out g" "\<forall>j < length gs. v (m + 1 + j) = out (gs ! j)"
    using Cons.prems(5) [rule_format, of 0] Cons.prems(5) [rule_format, of "Suc _"] by auto
  have hr: "canonical h" "reads h = map ((!) cur) (reads g)" "out h = m"
    using g(1) by (simp_all add: h_def rename_out)
  have inv_h: "rename v h = g"
    using g(1,2) Cons.prems(4) vm(1)
    by (auto simp: h_def rename_def reads_def canonical_def op_tests split: Op.splits intro!: Gate.equality)
  have u: "u32 (m + 1) = m + 1" using Cons.prems(6) by (simp add: u32_def)
  let ?A = "insert (out g) A" and ?cur = "cur[out g := m]"
  have cur1: "\<forall>s \<in> ?A. ?cur ! s < m + 1 \<and> v (?cur ! s) = s"
    using Cons.prems(3,4) g(3) vm(1) by (auto simp: nth_list_update)
  have "wf_gates ssa ni NW ?A gs" "?A \<subseteq> {..<NW}" "length ?cur = NW" "m + 1 + length gs < 2 ^ 32"
    using Cons.prems by auto
  from Cons.IH [OF this(1-3) cur1 vm(2) this(4), of "ds @ [h]"] obtain cur' hs where
    run: "fold uncompact_gate gs (m + 1, ?cur, ds @ [h]) = (m + 1 + length gs, cur', (ds @ [h]) @ hs)"
    and hs: "length hs = length gs" "in_order (m + 1) hs" "map (rename v) hs = gs"
      "\<forall>s \<in> ?A \<union> out ` set gs. cur' ! s < m + 1 + length gs \<and> v (cur' ! s) = s"
    and need: "\<And>X. X \<subseteq> (!) cur' ` (?A \<union> out ` set gs) \<Longrightarrow> needed hs X \<subseteq> (!) ?cur ` ?A \<and> alloc_ok v X hs"
    by blast
  have img: "(!) ?cur ` ?A \<subseteq> insert m ((!) cur ` (A - {out g}))"
    using Cons.prems(3) g(3) by (auto simp: nth_list_update)
  have needh: "needed (h # hs) X \<subseteq> (!) cur ` A \<and> alloc_ok v X (h # hs)"
    if X: "X \<subseteq> (!) cur' ` (?A \<union> out ` set gs)" for X
  proof -
    from need [OF X] have sub: "needed hs X \<subseteq> insert m ((!) cur ` (A - {out g}))"
      and al: "alloc_ok v X hs" using img by (blast, blast)
    have "\<forall>x \<in> needed hs X - {out h}. v x \<noteq> v (out h)"
      using sub Cons.prems(4) unfolding hr(3) vm(1) by auto
    then show ?thesis using sub al hr g(2) by auto
  qed
  show ?case
  proof (intro exI conjI)
    show "fold uncompact_gate (g # gs) (m, cur, ds) = (m + length (g # gs), cur', ds @ (h # hs))"
      using run by (simp add: uncompact_gate_simp [OF u] h_def)
    show "in_order m (h # hs)"
      using hs(2) hr g(2) Cons.prems(4) by (auto simp: in_order_Cons)
    show "map (rename v) (h # hs) = g # gs" using inv_h hs(3) by simp
    show "\<forall>X. X \<subseteq> (!) cur' ` (A \<union> out ` set (g # gs)) \<longrightarrow>
        needed (h # hs) X \<subseteq> (!) cur ` A \<and> alloc_ok v X (h # hs)"
      using needh by simp
  qed (use hs in auto)
qed

lemma uncompact_ok:
  assumes wf: "wf_program p" and small: "num_inputs p + length (gates p) < 2 ^ 32"
  obtains d v where "uncompact p = Inr d" and "wf_program d" and "wire_reuse d = ReuseNone"
    and "num_inputs d = num_inputs p" and "in_order (num_inputs d) (gates d)"
    and "gates p = map (rename v) (gates d)" and "outputs p = map v (outputs d)"
    and "\<forall>i < num_inputs d. v i = i" and "alloc_ok v (set (outputs d)) (gates d)"
proof -
  let ?ni = "num_inputs p" and ?NW = "num_wires p"
  define v where "v i = (if i < ?ni then i else out (gates p ! (i - ?ni)))" for i
  define cur0 where "cur0 = map (\<lambda>i. if i < ?ni then i else UINT32_MAX) [0..<?NW]"
  have ni: "?ni \<le> ?NW" using wf by (rule wf_program_inputs)
  have "\<forall>s \<in> {..<?ni}. cur0 ! s < ?ni \<and> v (cur0 ! s) = s" using ni by (simp add: cur0_def v_def)
  moreover have "wf_gates (wire_reuse p = ReuseNone) ?ni ?NW {..<?ni} (gates p)"
    using wf by (simp add: wf_program_def)
  moreover have "\<forall>j < length (gates p). v (?ni + j) = out (gates p ! j)" by (simp add: v_def)
  ultimately have "\<exists>cur hs. fold uncompact_gate (gates p) (?ni, cur0, []) =
      (?ni + length (gates p), cur, [] @ hs) \<and> length hs = length (gates p) \<and> in_order ?ni hs \<and>
      map (rename v) hs = gates p \<and>
      (\<forall>s \<in> {..<?ni} \<union> out ` set (gates p). cur ! s < ?ni + length (gates p) \<and> v (cur ! s) = s) \<and>
      (\<forall>X. X \<subseteq> (!) cur ` ({..<?ni} \<union> out ` set (gates p)) \<longrightarrow>
        needed hs X \<subseteq> (!) cur0 ` {..<?ni} \<and> alloc_ok v X hs)"
    using ni small by (intro uncompact_loop_ok) (auto simp: cur0_def)
  then obtain cur hs where
    run: "fold uncompact_gate (gates p) (?ni, cur0, []) = (?ni + length (gates p), cur, hs)"
    and hs: "length hs = length (gates p)" "in_order ?ni hs" "map (rename v) hs = gates p"
      "\<forall>s \<in> {..<?ni} \<union> out ` set (gates p). cur ! s < ?ni + length (gates p) \<and> v (cur ! s) = s"
    and need: "\<And>X. X \<subseteq> (!) cur ` ({..<?ni} \<union> out ` set (gates p)) \<Longrightarrow> alloc_ok v X hs"
    by auto
  have outs: "set (outputs p) \<subseteq> {..<?ni} \<union> out ` set (gates p)" using wf by (simp add: wf_program_def)
  define d where "d = \<lparr>num_wires = ?ni + length (gates p), num_inputs = ?ni, wire_reuse = ReuseNone,
      gates = hs, outputs = map ((!) cur) (outputs p)\<rparr>"
  have "{..<?ni} \<union> {?ni..<?ni + length hs} = {..<?ni + length hs}" by auto
  then have wfd: "wf_program d"
    using in_order_wf [OF hs(2)] in_order_outs [OF hs(2)] hs(1,4) outs
    by (auto simp: wf_program_def d_def)
  have "u32 ?ni = ?ni" using small by (simp add: u32_def)
  then have run': "uncompact p = Inr d"
    using wf run wfd by (simp add: uncompact_def validate_wf cur0_def [symmetric] d_def [symmetric] Let_def)
  have "map v (outputs d) = outputs p"
    unfolding d_def using hs(4) outs by (simp, intro map_idI) auto
  moreover have "alloc_ok v (set (outputs d)) (gates d)"
    using need [OF image_mono [OF outs]] by (simp add: d_def)
  moreover have "\<forall>i < num_inputs d. v i = i" "num_inputs d = ?ni" "wire_reuse d = ReuseNone"
    "in_order (num_inputs d) (gates d)" "map (rename v) (gates d) = gates p"
    using hs(2,3) by (simp_all add: d_def v_def)
  ultimately show thesis by (intro that [OF run' wfd]) simp_all
qed

text \<open>
  (C25) Uncompaction of a valid program of any reuse level, with fewer than \<open>2 ^ 32\<close> inputs and
  gates, always succeeds; the result is valid, dense and numbered in emission order, and replays
  on every context to the same outputs and the same final state (or both fail).
\<close>

theorem uncompact_correct:
  assumes "validate_program p = Inr ()" and "num_inputs p + length (gates p) < 2 ^ 32"
  shows "\<exists>d. uncompact p = Inr d \<and> validate_program d = Inr () \<and> wire_reuse d = ReuseNone \<and>
    in_order (num_inputs d) (gates d) \<and> map op (gates d) = map op (gates p) \<and>
    (\<forall>inputs scratch scratch' s. replay_result (execute_program_ws C d inputs scratch') s =
       replay_result (execute_program_ws C p inputs scratch) s)"
proof -
  have wf: "wf_program p" using assms(1) by (simp add: validate_wf)
  obtain d v where d: "uncompact p = Inr d" "wf_program d" "wire_reuse d = ReuseNone"
    "num_inputs d = num_inputs p" "in_order (num_inputs d) (gates d)"
    "gates p = map (rename v) (gates d)" "outputs p = map v (outputs d)"
    "\<forall>i < num_inputs d. v i = i" "alloc_ok v (set (outputs d)) (gates d)"
    by (rule uncompact_ok [OF wf assms(2)])
  have "map op (gates d) = map op (gates p)" by (simp add: d(6))
  with d alloc_replay [OF d(2) wf d(4) [symmetric] d(6-9), symmetric] show ?thesis by (auto simp: validate_wf)
qed

lemma uncompact_renamed:
  assumes "in_order m gs" and "alloc_ok f X gs" and "\<forall>x \<in> needed gs X. cur ! f x = x"
    and "\<forall>g \<in> set gs. f (out g) < length cur" and "m + length gs < 2 ^ 32"
  shows "\<exists>cur'. fold uncompact_gate (map (rename f) gs) (m, cur, ds) = (m + length gs, cur', ds @ gs) \<and>
    (\<forall>x \<in> X. cur' ! f x = x)"
  using assms
proof (induction gs arbitrary: m cur ds)
  case (Cons g gs)
  have g: "canonical g" "out g = m" "in_order (Suc m) gs" using Cons.prems(1) by (auto simp: in_order_Cons)
  have "(rename ((!) cur) (rename f g))\<lparr>out := m\<rparr> = g"
    using g Cons.prems(3)
    by (auto simp: rename_def reads_def canonical_def op_tests split: Op.splits intro!: Gate.equality)
  moreover have "u32 (m + 1) = m + 1" using Cons.prems(5) by (simp add: u32_def)
  ultimately have step: "uncompact_gate (rename f g) (m, cur, ds) = (Suc m, cur[f m := m], ds @ [g])"
    using g(2) by (simp add: uncompact_gate_simp)
  have "\<forall>x \<in> needed gs X. cur[f m := m] ! f x = x"
    using Cons.prems(2-4) g(2) by (auto simp: nth_list_update)
  with Cons.IH [OF g(3), of "cur[f m := m]" "ds @ [g]"] Cons.prems step show ?case by auto
qed simp

text \<open>
  (C26) Round trip: a recorded program (dense, numbered in emission order) is recovered exactly from
  its compaction, at either level.
\<close>

theorem uncompact_make_compact:
  assumes "validate_program p = Inr ()" and "wire_reuse p = ReuseNone" and "target \<noteq> ReuseNone"
    and "num_wires p < 2 ^ 32" and "in_order (num_inputs p) (gates p)"
  shows "\<exists>q nid. make_compact p target = Inr (q, nid) \<and> uncompact q = Inr p"
proof -
  have wf: "wf_program p" using assms(1) by (simp add: validate_wf)
  let ?ni = "num_inputs p"
  obtain q nid where q: "make_compact p target = Inr (q, nid)" "wf_program q"
      "num_inputs q = num_inputs p" "gates q = map (rename ((!) nid)) (gates p)"
      "outputs q = map ((!) nid) (outputs p)"
      "\<forall>i < num_inputs p. nid ! i = i" "alloc_ok ((!) nid) (set (outputs p)) (gates p)"
    using make_compact_ok [OF wf assms(2-4)] by metis
  define cur0 where "cur0 = map (\<lambda>i. if i < ?ni then i else UINT32_MAX) [0..<num_wires q]"
  have niq: "?ni \<le> num_wires q" using wf_program_inputs [OF q(2)] q(3) by simp
  have nw: "num_wires p = ?ni + length (gates p)"
    using wf assms(2) by (auto simp: wf_program_def)
  have "needed (gates p) (set (outputs p)) \<subseteq> {..<?ni}"
    using wf by (intro needed_subset) (auto simp: wf_program_def)
  then have "\<forall>x \<in> needed (gates p) (set (outputs p)). cur0 ! (nid ! x) = x"
    using q(6) niq by (auto simp: cur0_def)
  moreover have "\<forall>g \<in> set (gates p). nid ! out g < length cur0"
    using wf_program_in_range [OF q(2)] by (auto simp: q(4) in_range_def cur0_def)
  ultimately obtain cur' where
    run: "fold uncompact_gate (gates q) (?ni, cur0, []) = (?ni + length (gates p), cur', gates p)"
    and outs: "\<forall>x \<in> set (outputs p). cur' ! (nid ! x) = x"
    using uncompact_renamed [OF assms(5) q(7), of cur0 "[]"] assms(4) nw q(4) by auto
  have p: "\<lparr>num_wires = ?ni + length (gates p), num_inputs = ?ni, wire_reuse = ReuseNone, gates = gates p,
      outputs = map ((!) cur') (outputs q)\<rparr> = p"
    using outs nw assms(2) by (auto simp: q(5) map_idI intro!: BooleanProgram.equality)
  have "u32 ?ni = ?ni" using assms(4) nw by (simp add: u32_def)
  then have "uncompact q = Inr p"
    using run q(2,3) wf p by (simp add: uncompact_def validate_wf cur0_def [symmetric] Let_def)
  with q(1) show ?thesis by blast
qed

text \<open>
  On a valid dense program whose ids are not in emission order, \<open>uncompact\<close> is not the
  identity, although its header says so: validation does not require that order.
\<close>

lemma uncompact_dense_not_identity:
  "\<exists>p q. validate_program p = Inr () \<and> wire_reuse p = ReuseNone \<and> uncompact p = Inr q \<and> q \<noteq> p"
proof -
  let ?p = "\<lparr>num_wires = 3, num_inputs = 1, wire_reuse = ReuseNone,
      gates = [\<lparr>in0 = 0, in1 = 0, out = 2, op = OpNot\<rparr>, \<lparr>in0 = 2, in1 = 0, out = 1, op = OpNot\<rparr>],
      outputs = [1]\<rparr>"
  let ?q = "\<lparr>num_wires = 3, num_inputs = 1, wire_reuse = ReuseNone,
      gates = [\<lparr>in0 = 0, in1 = 0, out = 1, op = OpNot\<rparr>, \<lparr>in0 = 1, in1 = 0, out = 2, op = OpNot\<rparr>],
      outputs = [2]\<rparr>"
  have "u32 (Suc 0) = Suc 0" "u32 (Suc (Suc 0)) = Suc (Suc 0)" "u32 (Suc (Suc (Suc 0))) = Suc (Suc (Suc 0))"
    by (simp_all add: u32_def)
  then have "validate_program ?p = Inr () \<and> uncompact ?p = Inr ?q"
    by (simp add: uncompact_def validate_program_def Let_def chk_operands_def chk_read_def
        validate_gate_operands_def validate_outputs_def uncompact_gate_def op_tests numeral_eq_Suc)
  then show ?thesis by (intro exI [of _ ?p] exI [of _ ?q]) simp
qed

section \<open>Concrete instances\<close>

text \<open>A chain whose first wire dies, so that the AND can take its slot at the level \<open>Full\<close>.\<close>

definition not_chain :: BooleanProgram where
  "not_chain =
     \<lparr>num_wires = 6, num_inputs = 2, wire_reuse = ReuseNone,
      gates = [\<lparr>in0 = 0, in1 = 0, out = 2, op = OpNot\<rparr>, \<lparr>in0 = 2, in1 = 0, out = 3, op = OpNot\<rparr>,
               \<lparr>in0 = 3, in1 = 1, out = 4, op = OpAnd\<rparr>, \<lparr>in0 = 4, in1 = 0, out = 5, op = OpXor\<rparr>],
      outputs = [5]\<rparr>"

lemma not_chain_ok:
  "validate_program not_chain = Inr ()" "wire_reuse not_chain = ReuseNone" "num_wires not_chain < 2 ^ 32"
  "in_order (num_inputs not_chain) (gates not_chain)" "num_inputs not_chain + length (gates not_chain) < 2 ^ 32"
  by code_simp+

theorem make_compact_correct_witness:
  "\<exists>q nid. make_compact not_chain ReuseFull = Inr (q, nid) \<and> validate_program q = Inr () \<and>
    wire_reuse q = ReuseFull \<and> num_wires q \<le> num_wires not_chain \<and> map op (gates q) = map op (gates not_chain) \<and>
    (\<forall>inputs scratch scratch' s. replay_result (execute_program_ws RecordCtx q inputs scratch') s =
       replay_result (execute_program_ws RecordCtx not_chain inputs scratch) s)"
  by (rule make_compact_correct [OF not_chain_ok(1,2) _ not_chain_ok(3)]) simp

theorem compact_linear_pins_ands_witness:
  "\<exists>q nid. make_compact not_chain ReuseLinear = Inr (q, nid) \<and> out (gates q ! 2) \<noteq> out (gates q ! 3)"
proof -
  have "wf_program not_chain" using not_chain_ok(1) by (simp add: validate_wf)
  then obtain q nid where q: "make_compact not_chain ReuseLinear = Inr (q, nid)"
    "gates q = map (rename ((!) nid)) (gates not_chain)"
    using make_compact_ok [OF _ not_chain_ok(2) _ not_chain_ok(3), of ReuseLinear] by (metis WireReuse.distinct(1))
  have "out (gates q ! 2) \<noteq> out (gates q ! 3)"
    by (rule compact_linear_pins_ands [OF not_chain_ok(1-3) q(1)])
      (simp_all add: q(2) not_chain_def is_and_def)
  with q show ?thesis by blast
qed

theorem uncompact_correct_witness:
  "\<exists>d. uncompact not_chain = Inr d \<and> validate_program d = Inr () \<and> wire_reuse d = ReuseNone \<and>
    in_order (num_inputs d) (gates d) \<and> map op (gates d) = map op (gates not_chain) \<and>
    (\<forall>inputs scratch scratch' s. replay_result (execute_program_ws ClearCtx d inputs scratch') s =
       replay_result (execute_program_ws ClearCtx not_chain inputs scratch) s)"
  by (rule uncompact_correct [OF not_chain_ok(1,5)])

theorem uncompact_make_compact_witness:
  "\<exists>q nid. make_compact not_chain ReuseLinear = Inr (q, nid) \<and> uncompact q = Inr not_chain"
  by (rule uncompact_make_compact [OF not_chain_ok(1,2) _ not_chain_ok(3,4)]) simp

end
