(* ===== verification/Empbc.thy ===== *)
theory Empbc
  imports Passes
begin

text \<open>
  \<open>ir/empbc.h\<close>: the persisted circuit format. The writer emits bytes; the reader is a
  computation over the bytes that are left, in which every field read is bounds-checked
  (\<open>need\<close>). Bytes are \<open>8 word\<close>; a field is split into bytes by truncation, as the C++ casts do,
  and reassembled from disjoint bytes.

  The lemmas: each field reader inverts its writer, hence loading a saved program gives the
  program back; an accepted file has exactly the length its header declares, so no accepted file
  is a proper prefix of another; whatever is accepted is a valid program.
\<close>

section \<open>Writing\<close>

type_synonym byte = "8 word"

definition MAGIC :: "byte list" where
  "MAGIC = [0x45, 0x4D, 0x50, 0x42]"

definition VERSION :: nat where
  "VERSION = 1"

definition HEADER_LEN :: nat where
  "HEADER_LEN = 4 + 2 + 1 + 1 + 4 + 4 + 4 + 4"

definition put_u8 :: "nat \<Rightarrow> byte list" where
  "put_u8 v = [of_nat v]"

definition put_u16 :: "nat \<Rightarrow> byte list" where
  "put_u16 v = [of_nat v, of_nat (v div 2 ^ 8)]"

definition put_u32 :: "nat \<Rightarrow> byte list" where
  "put_u32 v = map (\<lambda>i. of_nat (v div 2 ^ (8 * i))) [0..<4]"

definition put_idx :: "nat \<Rightarrow> nat \<Rightarrow> byte list" where
  "put_idx v iw = (if iw = 2 then put_u16 v else put_u32 v)"

definition reuse_code :: "WireReuse \<Rightarrow> nat" where
  "reuse_code r = (case r of ReuseNone \<Rightarrow> 0 | ReuseLinear \<Rightarrow> 1 | ReuseFull \<Rightarrow> 2)"

definition op_byte :: "Op \<Rightarrow> nat" where
  "op_byte c = (case c of OpAnd \<Rightarrow> 0 | OpXor \<Rightarrow> 1 | OpNot \<Rightarrow> 2 | OpConst0 \<Rightarrow> 3 | OpConst1 \<Rightarrow> 4
     | OpOther n \<Rightarrow> n)"

definition put_gate :: "nat \<Rightarrow> Gate \<Rightarrow> byte list" where
  "put_gate iw g =
     put_idx (in0 g) iw @ put_idx (in1 g) iw @ put_idx (out g) iw @ put_u8 (op_byte (op g)) @ put_u8 0 @
     (if iw = 4 then put_u8 0 @ put_u8 0 else [])"

definition save_empbc :: "BooleanProgram \<Rightarrow> byte list res" where
  "save_empbc p =
     res_then (validate_program p)
     (let iw = (if num_wires p \<le> 0xFFFF then 2 else 4) in
      Inr (MAGIC @ put_u16 VERSION @ put_u8 iw @ put_u8 (reuse_code (wire_reuse p)) @
        put_u32 (num_wires p) @ put_u32 (num_inputs p) @
        put_u32 (length (outputs p)) @ put_u32 (length (gates p)) @
        concat (map (put_gate iw) (gates p)) @ concat (map (\<lambda>w. put_idx w iw) (outputs p))))"

section \<open>Reading\<close>

definition need :: "nat \<Rightarrow> (byte list, 'a) gm \<Rightarrow> (byte list, 'a) gm" where
  "need k m = (\<lambda>bs. check (k \<le> length bs) EmpbcTruncated m bs)"

definition rd_u8 :: "(byte list, nat) gm" where
  "rd_u8 = need 1 (\<lambda>bs. Inr (unat (bs ! 0), drop 1 bs))"

definition rd_u16 :: "(byte list, nat) gm" where
  "rd_u16 = need 2 (\<lambda>bs. Inr (unat (bs ! 0) + unat (bs ! 1) * 2 ^ 8, drop 2 bs))"

definition rd_u32 :: "(byte list, nat) gm" where
  "rd_u32 = need 4 (\<lambda>bs.
     Inr (unat (bs ! 0) + unat (bs ! 1) * 2 ^ 8 + unat (bs ! 2) * 2 ^ 16 + unat (bs ! 3) * 2 ^ 24, drop 4 bs))"

definition rd_idx :: "nat \<Rightarrow> (byte list, nat) gm" where
  "rd_idx iw = (if iw = 2 then rd_u16 else rd_u32)"

primrec rd_magic :: "byte list \<Rightarrow> (byte list, unit) gm" where
  "rd_magic [] = ret ()"
| "rd_magic (m # ms) = bind rd_u8 (\<lambda>b. check (b = unat m) EmpbcBadMagic (rd_magic ms))"

definition op_of_byte :: "nat \<Rightarrow> Op" where
  "op_of_byte n =
     (if n = 0 then OpAnd else if n = 1 then OpXor else if n = 2 then OpNot
      else if n = 3 then OpConst0 else if n = 4 then OpConst1 else OpOther n)"

definition rd_gate :: "nat \<Rightarrow> (byte list, Gate) gm" where
  "rd_gate iw =
     bind (rd_idx iw) (\<lambda>a. bind (rd_idx iw) (\<lambda>b. bind (rd_idx iw) (\<lambda>c. bind rd_u8 (\<lambda>opc.
     check (opc \<le> 4) EmpbcUnknownOp
     (bind rd_u8 (\<lambda>_.
      bind (if iw = 4 then bind rd_u8 (\<lambda>_. rd_u8) else ret 0) (\<lambda>_.
      ret \<lparr>in0 = a, in1 = b, out = c, op = op_of_byte opc\<rparr>)))))))"

primrec rd_many :: "nat \<Rightarrow> (byte list, 'a) gm \<Rightarrow> (byte list, 'a list) gm" where
  "rd_many 0 r = ret []"
| "rd_many (Suc n) r = bind r (\<lambda>x. bind (rd_many n r) (\<lambda>xs. ret (x # xs)))"

text \<open>The flag byte: bits 0 and 1 are the reuse level, 3 is reserved.\<close>

definition reuse_of_flags :: "nat \<Rightarrow> WireReuse" where
  "reuse_of_flags f = (if f mod 4 = 0 then ReuseNone else if f mod 4 = 1 then ReuseLinear else ReuseFull)"

record header =
  h_iw :: nat
  h_reuse :: WireReuse
  h_num_wires :: nat
  h_num_inputs :: nat
  h_num_outputs :: nat
  h_num_gates :: nat

definition rd_header :: "(byte list, header) gm" where
  "rd_header =
     bind (rd_magic MAGIC) (\<lambda>_.
     bind rd_u16 (\<lambda>version. check (version = VERSION) EmpbcBadVersion
     (bind rd_u8 (\<lambda>iw. check (iw = 2 \<or> iw = 4) EmpbcBadIndexWidth
     (bind rd_u8 (\<lambda>flags. check (flags div 4 = 0) EmpbcUnknownFlags
     (check (flags mod 4 \<noteq> 3) EmpbcReservedReuse
     (bind rd_u32 (\<lambda>nw. bind rd_u32 (\<lambda>ni. bind rd_u32 (\<lambda>no. bind rd_u32 (\<lambda>ng.
      ret \<lparr>h_iw = iw, h_reuse = reuse_of_flags flags, h_num_wires = nw, h_num_inputs = ni,
           h_num_outputs = no, h_num_gates = ng\<rparr>))))))))))))"

definition declared_size :: "header \<Rightarrow> nat" where
  "declared_size h = HEADER_LEN + h_num_gates h * (4 * h_iw h) + h_num_outputs h * h_iw h"

definition rd_program :: "nat \<Rightarrow> (byte list, BooleanProgram) gm" where
  "rd_program len =
     bind rd_header (\<lambda>h.
     check (declared_size h = len) EmpbcSizeMismatch
     (bind (rd_many (h_num_gates h) (rd_gate (h_iw h))) (\<lambda>gs.
      bind (rd_many (h_num_outputs h) (rd_idx (h_iw h))) (\<lambda>os.
      ret \<lparr>num_wires = h_num_wires h, num_inputs = h_num_inputs h, wire_reuse = h_reuse h,
           gates = gs, outputs = os\<rparr>))))"

definition load_empbc :: "byte list \<Rightarrow> BooleanProgram res" where
  "load_empbc bytes =
     res_bind (rd_program (length bytes) bytes) (\<lambda>(p, _). res_then (validate_program p) (Inr p))"

section \<open>Readers invert writers\<close>

lemma need_ok: "k \<le> length bs \<Longrightarrow> need k m bs = m bs"
  by (simp add: need_def)

lemma rd_put_u8 [simp]: "v < 2 ^ 8 \<Longrightarrow> rd_u8 (put_u8 v @ bs) = Inr (v, bs)"
  by (simp add: rd_u8_def put_u8_def need_ok unat_of_nat)

lemma base256: "v < 2 ^ (8 * n + 8) \<Longrightarrow> v div 2 ^ (8 * n) < 256" for v n :: nat
  by (simp add: power_add div_less_iff_less_mult mult.commute)

lemma rd_put_u16 [simp]:
  assumes "v < 2 ^ 16"
  shows "rd_u16 (put_u16 v @ bs) = Inr (v, bs)"
proof -
  have "v div 2 ^ 8 < 256" using assms by simp
  moreover have "v mod 256 + v div 256 * 256 = v" by (rule mod_div_mult_eq)
  ultimately show ?thesis by (simp add: rd_u16_def put_u16_def need_ok unat_of_nat)
qed

lemma split_u32:
  fixes v :: nat
  shows "v mod 256 + v div 2 ^ 8 mod 256 * 2 ^ 8 + v div 2 ^ 16 mod 256 * 2 ^ 16 + v div 2 ^ 24 * 2 ^ 24 = v"
proof -
  define a b c where "a = v div 2 ^ 8" and "b = v div 2 ^ 16" and "c = v div 2 ^ 24"
  have "b = a div 256" "c = b div 256"
    by (simp_all add: a_def b_def c_def div_mult2_eq [symmetric])
  then have "a mod 256 + b * 256 = a" "b mod 256 + c * 256 = b"
    by (simp_all only: mod_div_mult_eq)
  moreover have "v mod 256 + a * 256 = v"
    unfolding a_def by (simp add: mod_div_mult_eq)
  ultimately have "v mod 256 + a mod 256 * 256 + b mod 256 * 65536 + c * 16777216 = v"
    by linarith
  then show ?thesis by (simp add: a_def b_def c_def)
qed

lemma rd_put_u32 [simp]: "v < 2 ^ 32 \<Longrightarrow> rd_u32 (put_u32 v @ bs) = Inr (v, bs)"
  using split_u32 [of v]
  by (simp add: rd_u32_def put_u32_def need_ok unat_of_nat upt_rec)

definition idx_fits :: "nat \<Rightarrow> nat \<Rightarrow> bool" where
  "idx_fits iw v \<longleftrightarrow> (iw = 2 \<and> v < 2 ^ 16) \<or> (iw = 4 \<and> v < 2 ^ 32)"

lemma rd_put_idx [simp]: "idx_fits iw v \<Longrightarrow> rd_idx iw (put_idx v iw @ bs) = Inr (v, bs)"
  by (auto simp: idx_fits_def rd_idx_def put_idx_def)

lemma op_byte_inverse:
  assumes "canonical g"
  shows "op_byte (op g) \<le> 4" and "op_of_byte (op_byte (op g)) = op g"
  using assms by (auto simp: canonical_def op_byte_def op_of_byte_def split: Op.splits)

lemma rd_put_gate:
  assumes "canonical g" and "idx_fits iw (in0 g)" "idx_fits iw (in1 g)" "idx_fits iw (out g)"
  shows "rd_gate iw (put_gate iw g @ bs) = Inr (g, bs)"
proof -
  have "op_byte (op g) < 2 ^ 8" using op_byte_inverse(1) [OF assms(1)] by simp
  then show ?thesis
    using assms op_byte_inverse [OF assms(1)]
    by (simp add: rd_gate_def put_gate_def bind_def ret_def check_def)
qed

lemma rd_many_put:
  assumes "\<forall>x \<in> set xs. \<forall>bs. r (w x @ bs) = Inr (x, bs)"
  shows "rd_many (length xs) r (concat (map w xs) @ bs) = Inr (xs, bs)"
  using assms by (induction xs) (simp_all add: bind_def ret_def)

lemma rd_put_magic: "rd_magic MAGIC (MAGIC @ bs) = Inr ((), bs)"
  by (simp add: MAGIC_def rd_u8_def need_ok bind_def ret_def check_def)

lemma reuse_code_inverse [simp]:
  "reuse_of_flags (reuse_code r) = r" "reuse_code r < 256" "reuse_code r div 4 = 0" "reuse_code r mod 4 \<noteq> 3"
  by (simp_all add: reuse_code_def reuse_of_flags_def split: WireReuse.split)

lemma rd_put_header:
  assumes "iw = 2 \<or> iw = 4" "nw < 2 ^ 32" "ni < 2 ^ 32" "no < 2 ^ 32" "ng < 2 ^ 32"
  shows "rd_header (MAGIC @ put_u16 VERSION @ put_u8 iw @ put_u8 (reuse_code r) @
           put_u32 nw @ put_u32 ni @ put_u32 no @ put_u32 ng @ bs) =
         Inr (\<lparr>h_iw = iw, h_reuse = r, h_num_wires = nw, h_num_inputs = ni,
               h_num_outputs = no, h_num_gates = ng\<rparr>, bs)"
proof -
  have "VERSION < 2 ^ 16" "iw < 2 ^ 8" using assms(1) by (auto simp: VERSION_def)
  then show ?thesis
    using assms by (simp add: rd_header_def bind_def rd_put_magic check_def ret_def)
qed

section \<open>Lengths\<close>

lemma length_puts [simp]:
  "length (put_u8 v) = 1" "length (put_u16 v) = 2" "length (put_u32 v) = 4" "length MAGIC = 4"
  "length (put_idx v iw) = (if iw = 2 then 2 else 4)"
  by (simp_all add: put_u8_def put_u16_def put_u32_def put_idx_def MAGIC_def)

lemma length_put_gate: "iw = 2 \<or> iw = 4 \<Longrightarrow> length (put_gate iw g) = 4 * iw"
  by (auto simp: put_gate_def)

lemma length_concat_const: "\<forall>x \<in> set xs. length (w x) = k \<Longrightarrow> length (concat (map w xs)) = length xs * k"
  by (induction xs) simp_all

section \<open>Fixed-width parsers\<close>

text \<open>
  A field reader that accepts has consumed a prefix of fixed length, decodes that prefix the same
  way whatever follows, and reports truncation on every proper part of it.
\<close>

definition parses :: "(byte list, 'a) gm \<Rightarrow> byte list \<Rightarrow> 'a \<Rightarrow> bool" where
  "parses r pre x \<longleftrightarrow>
     (\<forall>ys. r (pre @ ys) = Inr (x, ys)) \<and> (\<forall>n < length pre. r (take n pre) = Inl EmpbcTruncated)"

definition fixed :: "nat \<Rightarrow> (byte list, 'a) gm \<Rightarrow> bool" where
  "fixed k r \<longleftrightarrow>
     (\<forall>bs x bs'. r bs = Inr (x, bs') \<longrightarrow> (\<exists>pre. bs = pre @ bs' \<and> length pre = k \<and> parses r pre x))"

named_theorems fixed_intros \<open>fixed-width parsers\<close>

lemma fixedD:
  assumes "fixed k r" and "r bs = Inr (x, bs')"
  obtains pre where "bs = pre @ bs'" "length pre = k" "parses r pre x"
  using assms unfolding fixed_def by blast

lemma parses_bind:
  assumes "parses r p x" and "parses (f x) q y"
  shows "parses (bind r f) (p @ q) y"
proof -
  have "bind r f (take n (p @ q)) = Inl EmpbcTruncated" if "n < length (p @ q)" for n
  proof (cases "n < length p")
    case True
    then show ?thesis using assms(1) by (simp add: parses_def bind_def)
  next
    case False
    with that assms show ?thesis by (simp add: parses_def bind_def)
  qed
  then show ?thesis using assms by (simp add: parses_def bind_def)
qed

lemma fixed_bind [fixed_intros]:
  assumes "fixed k r" and "\<And>x. fixed l (f x)"
  shows "fixed (k + l) (bind r f)"
  unfolding fixed_def
proof (intro allI impI)
  fix bs y bs'
  assume "bind r f bs = Inr (y, bs')"
  then obtain x bs1 where "r bs = Inr (x, bs1)" "f x bs1 = Inr (y, bs')"
    by (auto simp: bind_def split: sum.splits)
  then show "\<exists>pre. bs = pre @ bs' \<and> length pre = k + l \<and> parses (bind r f) pre y"
    by (metis append.assoc assms fixedD length_append parses_bind)
qed

lemma fixed_ret [fixed_intros]: "fixed 0 (ret x)"
  by (simp add: fixed_def parses_def ret_def)

lemma fixed_check [fixed_intros]: "fixed k m \<Longrightarrow> fixed k (check c e m)"
  by (simp add: check_def fail_def fixed_def)

lemma fixed_if: "(c \<Longrightarrow> fixed k m) \<Longrightarrow> (\<not> c \<Longrightarrow> fixed k m') \<Longrightarrow> fixed k (if c then m else m')"
  by simp

lemma fixed_need:
  assumes "\<And>pre ys. length pre = k \<Longrightarrow> g (pre @ ys) = g pre"
  shows "fixed k (need k (\<lambda>bs. Inr (g bs, drop k bs)))"
  unfolding fixed_def
proof (intro allI impI)
  fix bs x bs'
  assume *: "need k (\<lambda>bs. Inr (g bs, drop k bs)) bs = Inr (x, bs')"
  then have "k \<le> length bs" by (simp add: need_def check_def fail_def split: if_splits)
  with * have "bs = take k bs @ bs'" "length (take k bs) = k" "x = g (take k bs)"
    using assms [of "take k bs" "drop k bs"] by (auto simp: need_def)
  moreover have "parses (need k (\<lambda>bs. Inr (g bs, drop k bs))) (take k bs) (g (take k bs))"
    using \<open>k \<le> length bs\<close> assms [of "take k bs"]
    by (simp add: parses_def need_def check_def fail_def)
  ultimately show "\<exists>pre. bs = pre @ bs' \<and> length pre = k \<and>
      parses (need k (\<lambda>bs. Inr (g bs, drop k bs))) pre x"
    by blast
qed

lemma fixed_fields [fixed_intros]: "fixed 1 rd_u8" "fixed 2 rd_u16" "fixed 4 rd_u32"
  unfolding rd_u8_def rd_u16_def rd_u32_def by (rule fixed_need; simp add: nth_append)+

lemma fixed_idx: "iw = 2 \<or> iw = 4 \<Longrightarrow> fixed iw (rd_idx iw)"
  by (auto simp: rd_idx_def intro: fixed_intros)

lemma fixed_magic [fixed_intros]: "fixed (length ms) (rd_magic ms)"
proof (induction ms)
  case (Cons m ms)
  have "fixed (1 + length ms) (rd_magic (m # ms))"
    unfolding rd_magic.simps by (intro fixed_intros Cons)
  then show ?case by simp
qed (simp add: fixed_ret)

lemma fixed_many: "fixed k r \<Longrightarrow> fixed (n * k) (rd_many n r)"
proof (induction n)
  case (Suc n)
  have "fixed (k + (n * k + 0)) (rd_many (Suc n) r)"
    unfolding rd_many.simps by (intro fixed_intros Suc)
  then show ?case by simp
qed (simp add: fixed_ret)

lemma fixed_gate: "iw = 2 \<or> iw = 4 \<Longrightarrow> fixed (4 * iw) (rd_gate iw)"
proof -
  assume iw: "iw = 2 \<or> iw = 4"
  have "fixed (iw - 2) (if iw = 4 then bind rd_u8 (\<lambda>_. rd_u8) else ret 0)"
    using iw fixed_bind [OF fixed_fields(1), OF fixed_fields(1)] fixed_ret
    by (auto simp: numeral_2_eq_2)
  then have "fixed (iw + (iw + (iw + (1 + (1 + ((iw - 2) + 0)))))) (rd_gate iw)"
    unfolding rd_gate_def by (intro fixed_intros fixed_idx iw)
  then show ?thesis using iw by auto
qed

lemma fixed_header: "fixed HEADER_LEN rd_header"
proof -
  have "fixed (length MAGIC + (2 + (1 + (1 + (4 + (4 + (4 + (4 + 0)))))))) rd_header"
    unfolding rd_header_def by (intro fixed_intros)
  then show ?thesis by (simp add: HEADER_LEN_def)
qed

section \<open>Round trip\<close>

text \<open>The fields of the C++ program: 32-bit wire counts, and gate and output counts that fit theirs.\<close>

definition u32_program :: "BooleanProgram \<Rightarrow> bool" where
  "u32_program p \<longleftrightarrow>
     num_wires p < 2 ^ 32 \<and> length (gates p) < 2 ^ 32 \<and> length (outputs p) < 2 ^ 32"

definition index_width :: "BooleanProgram \<Rightarrow> nat" where
  "index_width p = (if num_wires p \<le> 0xFFFF then 2 else 4)"

lemma index_width_fits:
  assumes "v < num_wires p \<or> v = 0" and "num_wires p < 2 ^ 32"
  shows "idx_fits (index_width p) v"
  using assms by (auto simp: idx_fits_def index_width_def)

lemma gate_fields_in_range:
  assumes "in_range NW g"
  shows "in0 g < NW \<or> in0 g = 0" "in1 g < NW \<or> in1 g = 0" "out g < NW" "canonical g"
  using assms by (auto simp: in_range_def canonical_def reads_def split: Op.splits)

lemma wf_outputs_in_range: "wf_program p \<Longrightarrow> w \<in> set (outputs p) \<Longrightarrow> w < num_wires p"
  using wf_program_in_range [of p]
  by (fastforce simp: wf_program_def in_range_def)

lemma save_load:
  assumes wf: "wf_program p" and fits: "u32_program p"
  obtains bs where "save_empbc p = Inr bs" and "load_empbc bs = Inr p"
    and "length bs = HEADER_LEN + length (gates p) * (4 * index_width p) + length (outputs p) * index_width p"
proof -
  let ?iw = "index_width p"
  define gb ob where "gb = concat (map (put_gate ?iw) (gates p))"
    and "ob = concat (map (\<lambda>w. put_idx w ?iw) (outputs p))"
  define bs where "bs = MAGIC @ put_u16 VERSION @ put_u8 ?iw @ put_u8 (reuse_code (wire_reuse p)) @
    put_u32 (num_wires p) @ put_u32 (num_inputs p) @ put_u32 (length (outputs p)) @
    put_u32 (length (gates p)) @ gb @ ob"
  have iw: "?iw = 2 \<or> ?iw = 4" by (simp add: index_width_def)
  have ni: "num_inputs p < 2 ^ 32" using wf fits by (auto simp: wf_program_def u32_program_def)
  have g: "\<forall>g \<in> set (gates p). \<forall>bs. rd_gate ?iw (put_gate ?iw g @ bs) = Inr (g, bs)"
  proof (intro ballI allI)
    fix g bs
    assume "g \<in> set (gates p)"
    then have "in_range (num_wires p) g" using wf_program_in_range [OF wf] by blast
    note gate_fields_in_range [OF this]
    then show "rd_gate ?iw (put_gate ?iw g @ bs) = Inr (g, bs)"
      using fits by (intro rd_put_gate index_width_fits disjI1) (auto simp: u32_program_def)
  qed
  have o: "\<forall>w \<in> set (outputs p). \<forall>bs. rd_idx ?iw (put_idx w ?iw @ bs) = Inr (w, bs)"
    using wf_outputs_in_range [OF wf] fits by (auto simp: u32_program_def intro!: rd_put_idx index_width_fits)
  have len: "length gb = length (gates p) * (4 * ?iw)" "length ob = length (outputs p) * ?iw"
    unfolding gb_def ob_def using iw by (auto intro!: length_concat_const simp: length_put_gate)
  then have size: "length bs = HEADER_LEN + length (gates p) * (4 * ?iw) + length (outputs p) * ?iw"
    by (simp add: bs_def HEADER_LEN_def)
  have os: "rd_many (length (outputs p)) (rd_idx ?iw) ob = Inr (outputs p, [])"
    using rd_many_put [of "outputs p" "rd_idx ?iw" "\<lambda>w. put_idx w ?iw" "[]"] o by (simp add: ob_def)
  have "rd_program (length bs) bs = Inr (p, [])"
    using fits iw ni g size
    by (simp add: rd_program_def bs_def rd_put_header u32_program_def bind_def declared_size_def check_def
        gb_def rd_many_put os ret_def)
  then have "load_empbc bs = Inr p" using wf by (simp add: load_empbc_def validate_wf res_bind_def)
  moreover have "save_empbc p = Inr bs"
    using wf by (simp add: save_empbc_def validate_wf [symmetric] bs_def gb_def ob_def index_width_def Let_def)
  ultimately show thesis using size that by blast
qed

section \<open>What the loader accepts\<close>

lemma rd_u32_bound: "rd_u32 bs = Inr (v, bs') \<Longrightarrow> v < 2 ^ 32"
proof -
  have lt: "unat (b :: byte) < 256" for b
    by (rule less_le_trans [OF unsigned_less]) simp
  have "unat (b0 :: byte) + unat (b1 :: byte) * 2 ^ 8 + unat (b2 :: byte) * 2 ^ 16 + unat (b3 :: byte) * 2 ^ 24
      < 2 ^ 32" for b0 b1 b2 b3
    using lt [of b0] lt [of b1] lt [of b2] lt [of b3] by simp
  then show "rd_u32 bs = Inr (v, bs') \<Longrightarrow> v < 2 ^ 32"
    by (auto simp: rd_u32_def need_def check_def fail_def split: if_splits)
qed

lemma bind_okE:
  assumes "bind m f s = Inr (y, s'')"
  obtains x s' where "m s = Inr (x, s')" "f x s' = Inr (y, s'')"
  using assms by (auto simp: bind_def split: sum.splits)

lemma check_okE:
  assumes "check c e m s = Inr r"
  obtains "c" "m s = Inr r"
  using assms by (auto simp: check_def fail_def split: if_splits)

lemma rd_header_bounds:
  assumes "rd_header bs = Inr (h, bs')"
  shows "h_iw h = 2 \<or> h_iw h = 4" "h_num_wires h < 2 ^ 32" "h_num_outputs h < 2 ^ 32" "h_num_gates h < 2 ^ 32"
  using assms unfolding rd_header_def
  by (auto elim!: bind_okE check_okE dest!: rd_u32_bound simp: ret_def)

lemma length_rd_many: "rd_many n r bs = Inr (xs, bs') \<Longrightarrow> length xs = n"
  by (induction n arbitrary: bs xs) (auto simp: ret_def elim!: bind_okE)

lemma rd_program_ok:
  assumes "rd_program len bs = Inr (p, bs')"
  obtains h rest where "rd_header bs = Inr (h, rest)" "declared_size h = len"
    "length (gates p) = h_num_gates h" "length (outputs p) = h_num_outputs h" "num_wires p = h_num_wires h"
  using assms unfolding rd_program_def
  by (auto elim!: bind_okE check_okE dest!: length_rd_many simp: ret_def)

lemma load_empbc_ok:
  assumes "load_empbc bs = Inr p"
  obtains h rest where "rd_header bs = Inr (h, rest)" "declared_size h = length bs" "wf_program p" "u32_program p"
    "length bs = HEADER_LEN + length (gates p) * (4 * h_iw h) + length (outputs p) * h_iw h"
proof -
  obtain r where r: "rd_program (length bs) bs = Inr (p, r)" and wf: "wf_program p"
    using assms by (auto simp: load_empbc_def validate_wf res_bind_def res_then_def split: sum.splits)
  then show thesis
    using that rd_header_bounds by (elim rd_program_ok) (simp add: u32_program_def declared_size_def)
qed

lemma load_empbc_extended:
  assumes "load_empbc bs = Inr p" and "xs \<noteq> []"
  shows "load_empbc (bs @ xs) = Inl EmpbcSizeMismatch"
proof -
  obtain h rest where h: "rd_header bs = Inr (h, rest)" "declared_size h = length bs"
    using assms(1) by (rule load_empbc_ok)
  obtain pre where "bs = pre @ rest" "parses rd_header pre h"
    using fixed_header h(1) by (rule fixedD)
  then have "rd_header (bs @ xs) = Inr (h, rest @ xs)" by (simp add: parses_def)
  then show ?thesis
    using h(2) assms(2) by (simp add: load_empbc_def rd_program_def bind_def check_def fail_def res_bind_def)
qed

lemma load_empbc_cut:
  assumes "load_empbc bs = Inr p" and "n < length bs"
  shows "load_empbc (take n bs) = Inl (if n < HEADER_LEN then EmpbcTruncated else EmpbcSizeMismatch)"
proof -
  obtain h rest where h: "rd_header bs = Inr (h, rest)" "declared_size h = length bs"
    using assms(1) by (rule load_empbc_ok)
  obtain pre where pre: "bs = pre @ rest" "length pre = HEADER_LEN" "parses rd_header pre h"
    using fixed_header h(1) by (rule fixedD)
  show ?thesis
  proof (cases "n < HEADER_LEN")
    case True
    then have "rd_header (take n bs) = Inl EmpbcTruncated" using pre by (simp add: parses_def)
    then show ?thesis using True by (simp add: load_empbc_def rd_program_def bind_def res_bind_def)
  next
    case False
    then have "rd_header (take n bs) = Inr (h, take (n - HEADER_LEN) rest)" using pre by (simp add: parses_def)
    then show ?thesis
      using False h(2) assms(2)
      by (simp add: load_empbc_def rd_program_def bind_def check_def fail_def res_bind_def)
  qed
qed

section \<open>Properties of the format\<close>

text \<open>
  (C10) Round trip: every valid program whose counts fit the 32-bit fields of the format is saved, and
  loading the saved bytes gives back the same program, in either index width and for every reuse mode.
\<close>

theorem load_save_empbc:
  assumes "validate_program p = Inr ()" and "u32_program p"
  shows "\<exists>bs. save_empbc p = Inr bs \<and> load_empbc bs = Inr p"
  using assms unfolding validate_wf by (blast elim: save_load)

theorem load_save_empbc_witness:
  "\<exists>bs. save_empbc half_adder = Inr bs \<and> load_empbc bs = Inr half_adder"
  by (rule load_save_empbc [OF validate_half_adder]) (simp add: u32_program_def half_adder_def)

text \<open>
  (C11) Hostile input: whatever bytes the loader accepts, the program it returns is valid, its counts are
  32-bit, and the file is exactly as long as the header declares for an index width of 2 or 4. Saving
  that program again succeeds, loads to the same program, and the new file is no longer than the
  accepted one when the wire count fits 16 bits.
\<close>

theorem load_empbc_sound:
  assumes "load_empbc bs = Inr p"
  shows "validate_program p = Inr () \<and> u32_program p \<and>
    (\<exists>iw \<in> {2, 4}. length bs = HEADER_LEN + length (gates p) * (4 * iw) + length (outputs p) * iw) \<and>
    (\<exists>bs'. save_empbc p = Inr bs' \<and> load_empbc bs' = Inr p \<and>
       (num_wires p \<le> 0xFFFF \<longrightarrow> length bs' \<le> length bs))"
proof -
  obtain h rest where h: "rd_header bs = Inr (h, rest)" and p: "wf_program p" "u32_program p"
    and len: "length bs = HEADER_LEN + length (gates p) * (4 * h_iw h) + length (outputs p) * h_iw h"
    using assms by (rule load_empbc_ok)
  obtain bs' where bs': "save_empbc p = Inr bs'" "load_empbc bs' = Inr p"
    and len': "length bs' = HEADER_LEN + length (gates p) * (4 * index_width p) + length (outputs p) * index_width p"
    using p by (rule save_load)
  have iw: "h_iw h = 2 \<or> h_iw h = 4" using h by (rule rd_header_bounds)
  then have "num_wires p \<le> 0xFFFF \<longrightarrow> length bs' \<le> length bs"
    unfolding len len' by (auto simp: index_width_def)
  then show ?thesis using p bs' len iw by (auto simp: validate_wf)
qed

text \<open>An encoded file: one wire, one input, one output, 32-bit indices.\<close>

definition wire_bytes :: "byte list" where
  "wire_bytes = [0x45, 0x4D, 0x50, 0x42, 1, 0, 4, 0, 1, 0, 0, 0, 1, 0, 0, 0, 1, 0, 0, 0, 0, 0, 0, 0, 0, 0, 0, 0]"

definition wire_program :: BooleanProgram where
  "wire_program = \<lparr>num_wires = 1, num_inputs = 1, wire_reuse = ReuseNone, gates = [], outputs = [0]\<rparr>"

lemma length_wire_bytes: "length wire_bytes = 28"
  by (simp add: wire_bytes_def)

lemma load_wire_bytes: "load_empbc wire_bytes = Inr wire_program"
  by code_simp

theorem load_empbc_sound_witness:
  "validate_program wire_program = Inr () \<and> (\<exists>bs'. save_empbc wire_program = Inr bs' \<and> length bs' \<le> 28)"
  using load_empbc_sound [OF load_wire_bytes] by (auto simp: wire_program_def wire_bytes_def)

text \<open>
  (C40) The exact-size check: if a file loads, every proper extension of it is refused with the size
  mismatch, and every proper prefix with truncation inside the 24-byte header and the size mismatch
  after it. So no accepted file is a proper prefix of another.
\<close>

theorem load_empbc_exact:
  assumes "load_empbc bs = Inr p"
  shows "(\<forall>xs. xs \<noteq> [] \<longrightarrow> load_empbc (bs @ xs) = Inl EmpbcSizeMismatch) \<and>
    (\<forall>n < length bs. load_empbc (take n bs) = Inl (if n < 24 then EmpbcTruncated else EmpbcSizeMismatch))"
  using load_empbc_extended [OF assms] load_empbc_cut [OF assms] by (simp add: HEADER_LEN_def)

theorem load_empbc_exact_witness:
  "load_empbc (wire_bytes @ [0]) = Inl EmpbcSizeMismatch \<and>
   load_empbc (take 23 wire_bytes) = Inl EmpbcTruncated \<and> load_empbc (take 27 wire_bytes) = Inl EmpbcSizeMismatch"
  using load_empbc_exact [OF load_wire_bytes] by (simp add: length_wire_bytes)

text \<open>
  The padding of a gate record is not checked: two files that differ only in a padding byte load to
  the same program, so an accepted file need not be the one \<open>save_empbc\<close> writes.
\<close>

lemma load_empbc_ignores_padding:
  "load_empbc ([0x45, 0x4D, 0x50, 0x42, 1, 0, 2, 0, 1, 0, 0, 0, 0, 0, 0, 0, 1, 0, 0, 0, 1, 0, 0, 0,
                0, 0, 0, 0, 0, 0, 4, pad, 0, 0]) =
   Inr \<lparr>num_wires = 1, num_inputs = 0, wire_reuse = ReuseNone,
        gates = [\<lparr>in0 = 0, in1 = 0, out = 0, op = OpConst1\<rparr>], outputs = [0]\<rparr>"
  by code_simp

end
