(* ===== verification/Kernels.thy ===== *)
theory Kernels
  imports Recording
begin

text \<open>
  \<open>circuits/numeric_kernels.h\<close>: the bare-wire arithmetic kernels over a Boolean context,
  least significant bit first. A wire array with its \<open>size\<close> argument is a list of that length;
  a call on \<open>ptr + i\<close> with size \<open>N - i\<close> is a call on \<open>drop i\<close> (and \<open>take (N - i)\<close> of a
  longer array); an optional out-pointer is a flag and an option. Nested gate calls are
  evaluated from left to right.

  Two groups of lemmas: every kernel preserves every simulation of contexts (in the locale
  \<open>ctx_sim\<close>), and on truth values every kernel computes the intended arithmetic, stated as
  an equation for its result bits.
\<close>

section \<open>The kernels\<close>

function clog2_loop :: "nat \<Rightarrow> nat \<Rightarrow> nat" where
  "clog2_loop n b = (if 2 ^ b < n then clog2_loop n (Suc b) else b)"
  by pat_completeness auto
termination
proof (relation "measure (\<lambda>(n, b). n - b)")
  fix n b :: nat
  assume "2 ^ b < n"
  then have "b < n" using less_exp [of b] by linarith
  then show "((n, Suc b), n, b) \<in> measure (\<lambda>(n, b). n - b)" by simp
qed simp

definition clog2_ceil :: "nat \<Rightarrow> nat" where
  "clog2_ceil n = clog2_loop n 0"

function bits_for_loop :: "nat \<Rightarrow> nat \<Rightarrow> nat" where
  "bits_for_loop n b = (if 2 ^ b \<le> n then bits_for_loop n (Suc b) else b)"
  by pat_completeness auto
termination
proof (relation "measure (\<lambda>(n, b). Suc n - b)")
  fix n b :: nat
  assume "2 ^ b \<le> n"
  then have "b < n" using less_exp [of b] by linarith
  then show "((n, Suc b), n, b) \<in> measure (\<lambda>(n, b). Suc n - b)" by simp
qed simp

declare clog2_loop.simps [simp del] bits_for_loop.simps [simp del]

definition bits_for :: "nat \<Rightarrow> nat" where
  "bits_for n = bits_for_loop n 1"

definition or_gate :: "('s, 'w, 'z) ctx_scheme \<Rightarrow> 'w \<Rightarrow> 'w \<Rightarrow> ('s, 'w) gm" where
  "or_gate C a b =
     bind (xor_gate C a b) (\<lambda>x. bind (and_gate C a b) (\<lambda>y. xor_gate C x y))"

definition add_bit :: "('s, 'w, 'z) ctx_scheme \<Rightarrow> 'w \<Rightarrow> 'w \<Rightarrow> 'w \<Rightarrow> ('s, 'w \<times> 'w) gm" where
  "add_bit C x y carry =
     bind (xor_gate C x carry) (\<lambda>axc.
     bind (xor_gate C y carry) (\<lambda>bxc.
     bind (xor_gate C x bxc) (\<lambda>d.
     bind (and_gate C axc bxc) (\<lambda>t.
     bind (xor_gate C carry t) (\<lambda>carry'. ret (d, carry'))))))"

text \<open>
  With \<open>want_out\<close> the carry-out is returned; without it the top bit takes no AND. An empty
  addition with no carry-in leaves the carry-out unwritten (\<open>None\<close>).
\<close>

definition add_full ::
  "('s, 'w, 'z) ctx_scheme \<Rightarrow> 'w list \<Rightarrow> 'w list \<Rightarrow> 'w option \<Rightarrow> bool \<Rightarrow>
   ('s, 'w list \<times> 'w option) gm" where
  "add_full C op1 op2 carryIn want_out =
     check (length op1 = length op2) UndefinedBehaviour
     (if length op1 = 0 then ret ([], if want_out then carryIn else None)
      else bind (case carryIn of Some c \<Rightarrow> ret c | None \<Rightarrow> public_bit C False) (\<lambda>carry.
        if want_out
        then bind (ripple_gm (add_bit C) op1 op2 carry) (\<lambda>(ds, c). ret (ds, Some c))
        else let i = length op1 - 1 in
             bind (ripple_gm (add_bit C) (take i op1) (take i op2) carry) (\<lambda>(ds, c).
             bind (rd op1 i) (\<lambda>x. bind (rd op2 i) (\<lambda>y.
             bind (xor_gate C c y) (\<lambda>cy.
             bind (xor_gate C cy x) (\<lambda>d. ret (ds @ [d], None))))))))"

definition sub_bit :: "('s, 'w, 'z) ctx_scheme \<Rightarrow> 'w \<Rightarrow> 'w \<Rightarrow> 'w \<Rightarrow> ('s, 'w \<times> 'w) gm" where
  "sub_bit C x y borrow =
     bind (xor_gate C x y) (\<lambda>bxa.
     bind (xor_gate C borrow y) (\<lambda>bxc.
     bind (xor_gate C bxa borrow) (\<lambda>d.
     bind (and_gate C bxa bxc) (\<lambda>t.
     bind (xor_gate C borrow t) (\<lambda>borrow'. ret (d, borrow'))))))"

definition sub_full ::
  "('s, 'w, 'z) ctx_scheme \<Rightarrow> 'w list \<Rightarrow> 'w list \<Rightarrow> 'w option \<Rightarrow> bool \<Rightarrow>
   ('s, 'w list \<times> 'w option) gm" where
  "sub_full C op1 op2 borrowIn want_out =
     check (length op1 = length op2) UndefinedBehaviour
     (if length op1 = 0 then ret ([], if want_out then borrowIn else None)
      else bind (case borrowIn of Some c \<Rightarrow> ret c | None \<Rightarrow> public_bit C False) (\<lambda>borrow.
        if want_out
        then bind (ripple_gm (sub_bit C) op1 op2 borrow) (\<lambda>(ds, b). ret (ds, Some b))
        else let i = length op1 - 1 in
             bind (ripple_gm (sub_bit C) (take i op1) (take i op2) borrow) (\<lambda>(ds, b).
             bind (rd op1 i) (\<lambda>x. bind (rd op2 i) (\<lambda>y.
             bind (xor_gate C x y) (\<lambda>xy.
             bind (xor_gate C xy b) (\<lambda>d. ret (ds @ [d], None))))))))"

definition ripple_add :: "('s, 'w, 'z) ctx_scheme \<Rightarrow> 'w list \<Rightarrow> 'w list \<Rightarrow> ('s, 'w list) gm" where
  "ripple_add C a b = bind (add_full C a b None False) (\<lambda>(ds, _). ret ds)"

definition ripple_sub :: "('s, 'w, 'z) ctx_scheme \<Rightarrow> 'w list \<Rightarrow> 'w list \<Rightarrow> ('s, 'w list) gm" where
  "ripple_sub C a b = bind (sub_full C a b None False) (\<lambda>(ds, _). ret ds)"

definition mux :: "('s, 'w, 'z) ctx_scheme \<Rightarrow> 'w \<Rightarrow> 'w \<Rightarrow> 'w \<Rightarrow> ('s, 'w) gm" where
  "mux C sel t f =
     bind (xor_gate C t f) (\<lambda>x. bind (and_gate C sel x) (\<lambda>y. xor_gate C f y))"

text \<open>At width 0 the borrow is returned uninitialised.\<close>

definition less_than :: "('s, 'w, 'z) ctx_scheme \<Rightarrow> 'w list \<Rightarrow> 'w list \<Rightarrow> ('s, 'w) gm" where
  "less_than C a b =
     bind (sub_full C a b None True) (\<lambda>(diff, borrow).
       case borrow of Some x \<Rightarrow> ret x | None \<Rightarrow> fail UndefinedBehaviour)"

definition equal :: "('s, 'w, 'z) ctx_scheme \<Rightarrow> 'w list \<Rightarrow> 'w list \<Rightarrow> ('s, 'w) gm" where
  "equal C a b =
     check (length a = length b) UndefinedBehaviour
     (bind (public_bit C True) (\<lambda>acc.
        fold_gm (\<lambda>(x, y) acc.
          bind (xor_gate C x y) (\<lambda>d. bind (not_gate C d) (\<lambda>n. and_gate C acc n)))
          (zip a b) acc))"

definition if_then_else ::
  "('s, 'w, 'z) ctx_scheme \<Rightarrow> 'w list \<Rightarrow> 'w list \<Rightarrow> 'w \<Rightarrow> ('s, 'w list) gm" where
  "if_then_else C tsrc fsrc cond =
     map2_gm (\<lambda>t f. bind (xor_gate C t f) (\<lambda>x.
       bind (and_gate C cond x) (\<lambda>a. xor_gate C a f))) tsrc fsrc"

definition mul_step :: "('s, 'w, 'z) ctx_scheme \<Rightarrow> 'w list \<Rightarrow> 'w list \<Rightarrow> nat \<Rightarrow> 'w list \<Rightarrow> ('s, 'w list) gm" where
  "mul_step C op1 op2 i acc =
     bind (map_gm (\<lambda>k. bind (rd op1 k) (\<lambda>x. bind (rd op2 i) (\<lambda>y. and_gate C x y)))
             [0..<length op1 - i]) (\<lambda>tmp.
     bind (add_full C (drop i acc) tmp None False) (\<lambda>(hi, _). ret (take i acc @ hi)))"

definition mul_full :: "('s, 'w, 'z) ctx_scheme \<Rightarrow> 'w list \<Rightarrow> 'w list \<Rightarrow> ('s, 'w list) gm" where
  "mul_full C op1 op2 =
     check (length op1 = length op2) UndefinedBehaviour
     (bind (public_bit C False) (\<lambda>z.
        fold_gm (mul_step C op1 op2) [0..<length op1] (replicate (length op1) z)))"

definition div_overflow :: "('s, 'w, 'z) ctx_scheme \<Rightarrow> 'w list \<Rightarrow> ('s, 'w list) gm" where
  "div_overflow C op2 =
     bind (public_bit C False) (\<lambda>z.
       fold_gm (\<lambda>i ov. bind (rd ov (i - 1)) (\<lambda>o1. bind (rd op2 (length op2 - i)) (\<lambda>x.
           bind (or_gate C o1 x) (\<lambda>y. ret (ov @ [y])))))
         [1..<length op2] [z])"

definition div_step ::
  "('s, 'w, 'z) ctx_scheme \<Rightarrow> 'w list \<Rightarrow> 'w list \<Rightarrow> nat \<Rightarrow> 'w list \<times> 'w list \<Rightarrow>
   ('s, 'w list \<times> 'w list) gm" where
  "div_step C op2 overflow i rq =
     (case rq of (rem, quot) \<Rightarrow>
        bind (sub_full C (drop i rem) (take (length op2 - i) op2) None True) (\<lambda>(tmp, br).
        case br of None \<Rightarrow> fail UndefinedBehaviour | Some b \<Rightarrow>
        bind (rd overflow i) (\<lambda>ov.
        bind (or_gate C b ov) (\<lambda>b'.
        bind (if_then_else C (drop i rem) tmp b') (\<lambda>hi.
        bind (not_gate C b') (\<lambda>q. ret (take i rem @ hi, q # quot)))))))"

text \<open>
  Returns remainder and quotient; the quotient is written from its top bit down.
  \<open>overflow[0]\<close> is written even at width 0.
\<close>

definition div_full ::
  "('s, 'w, 'z) ctx_scheme \<Rightarrow> 'w list \<Rightarrow> 'w list \<Rightarrow> ('s, 'w list \<times> 'w list) gm" where
  "div_full C op1 op2 =
     check (length op1 = length op2 \<and> length op1 \<noteq> 0) UndefinedBehaviour
     (bind (div_overflow C op2) (\<lambda>overflow.
        fold_gm (div_step C op2 overflow) (rev [0..<length op1])
          (op1, [])))"

section \<open>Kernels preserve simulations\<close>

context ctx_sim
begin

lemma or_gate_transfer [transfer_rule]: "(rel_fun W (rel_fun W (S W))) (or_gate C) (or_gate D)"
  unfolding or_gate_def [abs_def] by transfer_prover

lemma mux_transfer [transfer_rule]: "(rel_fun W (rel_fun W (rel_fun W (S W)))) (mux C) (mux D)"
  unfolding mux_def [abs_def] by transfer_prover

lemma add_bit_transfer [transfer_rule]:
  "(rel_fun W (rel_fun W (rel_fun W (S (rel_prod W W))))) (add_bit C) (add_bit D)"
  unfolding add_bit_def [abs_def] by transfer_prover

lemma sub_bit_transfer [transfer_rule]:
  "(rel_fun W (rel_fun W (rel_fun W (S (rel_prod W W))))) (sub_bit C) (sub_bit D)"
  unfolding sub_bit_def [abs_def] by transfer_prover

lemma add_full_transfer [transfer_rule]:
  "(rel_fun Ws (rel_fun Ws (rel_fun (rel_option W) (rel_fun (=) (S (rel_prod Ws (rel_option W)))))))
     (add_full C) (add_full D)"
  unfolding add_full_def [abs_def] by transfer_prover

lemma sub_full_transfer [transfer_rule]:
  "(rel_fun Ws (rel_fun Ws (rel_fun (rel_option W) (rel_fun (=) (S (rel_prod Ws (rel_option W)))))))
     (sub_full C) (sub_full D)"
  unfolding sub_full_def [abs_def] by transfer_prover

lemma ripple_add_transfer [transfer_rule]: "(rel_fun Ws (rel_fun Ws (S Ws))) (ripple_add C) (ripple_add D)"
  unfolding ripple_add_def [abs_def] by transfer_prover

lemma ripple_sub_transfer [transfer_rule]: "(rel_fun Ws (rel_fun Ws (S Ws))) (ripple_sub C) (ripple_sub D)"
  unfolding ripple_sub_def [abs_def] by transfer_prover

lemma less_than_transfer [transfer_rule]: "(rel_fun Ws (rel_fun Ws (S W))) (less_than C) (less_than D)"
  unfolding less_than_def [abs_def] by transfer_prover

lemma equal_transfer [transfer_rule]: "(rel_fun Ws (rel_fun Ws (S W))) (equal C) (equal D)"
  unfolding equal_def [abs_def] by transfer_prover

lemma if_then_else_transfer [transfer_rule]:
  "(rel_fun Ws (rel_fun Ws (rel_fun W (S Ws)))) (if_then_else C) (if_then_else D)"
  unfolding if_then_else_def [abs_def] by transfer_prover

lemma mul_step_transfer [transfer_rule]:
  "(rel_fun Ws (rel_fun Ws (rel_fun (=) (rel_fun Ws (S Ws))))) (mul_step C) (mul_step D)"
  unfolding mul_step_def [abs_def] by transfer_prover

lemma mul_full_transfer [transfer_rule]: "(rel_fun Ws (rel_fun Ws (S Ws))) (mul_full C) (mul_full D)"
  unfolding mul_full_def [abs_def] by transfer_prover

lemma div_overflow_transfer [transfer_rule]: "(rel_fun Ws (S Ws)) (div_overflow C) (div_overflow D)"
  unfolding div_overflow_def [abs_def] by transfer_prover

lemma div_step_transfer [transfer_rule]:
  "(rel_fun Ws (rel_fun Ws (rel_fun (=) (rel_fun (rel_prod Ws Ws) (S (rel_prod Ws Ws)))))) (div_step C) (div_step D)"
  unfolding div_step_def [abs_def] by transfer_prover

lemma div_full_transfer [transfer_rule]:
  "(rel_fun Ws (rel_fun Ws (S (rel_prod Ws Ws)))) (div_full C) (div_full D)"
  unfolding div_full_def [abs_def] by transfer_prover

end
section \<open>Kernels on truth values compute arithmetic\<close>

text \<open>The loops of the gate monad, when every step just returns.\<close>

lemma map_gm_ret: "(\<And>x. x \<in> set xs \<Longrightarrow> f x = ret (g x)) \<Longrightarrow> map_gm f xs = ret (map g xs)"
  by (induction xs) auto

lemma map2_gm_ret:
  "length xs = length ys \<Longrightarrow> (\<And>x y. f x y = ret (g x y)) \<Longrightarrow> map2_gm f xs ys = ret (map2 g xs ys)"
  by (induction xs ys rule: list_induct2) auto

lemma fold_gm_ret: "(\<And>x a. x \<in> set xs \<Longrightarrow> f x a = ret (g x a)) \<Longrightarrow> fold_gm f xs a = ret (fold g xs a)"
  by (induction xs arbitrary: a) auto

lemma or_gate_bool [simp]: "or_gate bool_ctx a b = ret (a \<or> b)"
  by (cases a; cases b) (simp_all add: or_gate_def)

lemma mux_bool [simp]: "mux bool_ctx c a b = ret (if c then a else b)"
  by (cases a; cases b; cases c) (simp_all add: mux_def)

lemma add_bit_bool:
  "add_bit bool_ctx x y c =
     ret (odd (of_bool x + of_bool y + of_bool c :: nat), 1 < (of_bool x + of_bool y + of_bool c :: nat))"
  by (cases x; cases y; cases c) (simp_all add: add_bit_def)

lemma add_ripple_bool:
  "length a = length b \<Longrightarrow>
     ripple_gm (add_bit bool_ctx) a b c =
       ret (to_bits (length a) (bits_val a + bits_val b + of_bool c),
            2 ^ length a \<le> bits_val a + bits_val b + of_bool c)"
proof (induction a b arbitrary: c rule: list_induct2)
  case (Cons x xs y ys)
  let ?k = "of_bool x + of_bool y + of_bool c :: nat" and ?v = "bits_val xs + bits_val ys"
  have total: "bits_val (x # xs) + bits_val (y # ys) + of_bool c = ?k + 2 * ?v" by simp
  have carry: "of_bool (Suc 0 < ?k) = ?k div 2" by (cases x; cases y; cases c) auto
  have half: "(?k + 2 * ?v) div 2 = ?v + ?k div 2" "odd (?k + 2 * ?v) = odd ?k"
    "2 ^ length xs \<le> ?v + ?k div 2 \<longleftrightarrow> 2 ^ Suc (length xs) \<le> ?k + 2 * ?v"
    unfolding power_Suc by presburger+
  show ?case
    unfolding ripple_gm.simps add_bit_bool [of x y c] bind_ret prod.case Cons.IH total carry
      list.size(4) One_nat_def add_Suc_right add_0_right to_bits.simps half ..
qed simp

lemma sub_bit_bool:
  "sub_bit bool_ctx x y c =
     ret (odd (2 + of_bool x - of_bool y - of_bool c :: nat), (of_bool x :: nat) < of_bool y + of_bool c)"
  by (cases x; cases y; cases c) (simp_all add: sub_bit_def)

lemma of_bool_le_1: "(of_bool b :: nat) \<le> 1"
  by simp

lemma sub_step_arith:
  fixes A B m x y c :: nat
  assumes "B < m" and "y \<le> 1" and "c \<le> 1" and "x \<le> 1"
  shows "odd (2 * m + (x + 2 * A) - (y + 2 * B) - c) = odd (2 + x - y - c)"
    and "(2 * m + (x + 2 * A) - (y + 2 * B) - c) div 2 = m + A - B - of_bool (x < y + c)"
    and "A < B + of_bool (x < y + c) \<longleftrightarrow> x + 2 * A < y + 2 * B + c"
  using assms by (cases "x < y + c"; simp; presburger)+

lemma sub_ripple_bool:
  "length a = length b \<Longrightarrow>
     ripple_gm (sub_bit bool_ctx) a b c =
       ret (to_bits (length a) (2 ^ length a + bits_val a - bits_val b - of_bool c),
            bits_val a < bits_val b + of_bool c)"
proof (induction a b arbitrary: c rule: list_induct2)
  case (Cons x xs y ys)
  have "bits_val ys < 2 ^ length xs" using bits_val_less [of ys] Cons.hyps by simp
  note arith = sub_step_arith [OF this, of "of_bool y" "of_bool c" "of_bool x" "bits_val xs",
      OF of_bool_le_1 of_bool_le_1 of_bool_le_1]
  show ?case
    unfolding ripple_gm.simps sub_bit_bool [of x y c] bind_ret prod.case Cons.IH bits_val.simps
      list.size(4) One_nat_def add_Suc_right add_0_right to_bits.simps power_Suc arith ..
qed simp

text \<open>Without a carry-out the top bit is computed by two XORs; the result is the same.\<close>

lemma ripple_gm_snoc:
  "length a = length b \<Longrightarrow>
     ripple_gm f (a @ [x]) (b @ [y]) c =
       bind (ripple_gm f a b c) (\<lambda>(ds, c'). bind (f x y c') (\<lambda>(d, c''). ret (ds @ [d], c'')))"
proof (induction a b arbitrary: c rule: list_induct2)
  case (Cons u us v vs)
  then show ?case by (simp add: bind_assoc case_prod_unfold)
qed (simp add: bind_assoc case_prod_unfold)

definition carry_val :: "bool option \<Rightarrow> nat" where
  "carry_val c = (case c of None \<Rightarrow> 0 | Some x \<Rightarrow> of_bool x)"

lemma carry_val_simps [simp]: "carry_val None = 0" "carry_val (Some x) = of_bool x"
  by (simp_all add: carry_val_def)

lemma carry_in_bool:
  obtains x where "(case c of None \<Rightarrow> public_bit bool_ctx False | Some x \<Rightarrow> ret x) = ret x"
    and "carry_val c = of_bool x"
  by (cases c) (auto intro: that)

lemma split_last:
  assumes "length a = length b" and "a \<noteq> []"
  obtains a' x b' y where "a = a' @ [x]" "b = b' @ [y]" "length a' = length b'"
  using assms by (metis append_butlast_last_id length_butlast list.size(3) length_0_conv)

lemma add_full_bool:
  assumes "length a = length b" and "a \<noteq> []"
  shows "add_full bool_ctx a b c True =
      ret (to_bits (length a) (bits_val a + bits_val b + carry_val c),
           Some (2 ^ length a \<le> bits_val a + bits_val b + carry_val c))"
    and "add_full bool_ctx a b c False =
      ret (to_bits (length a) (bits_val a + bits_val b + carry_val c), None)"
proof -
  obtain ci where ci: "(case c of None \<Rightarrow> public_bit bool_ctx False | Some x \<Rightarrow> ret x) = ret ci"
    and cv: "carry_val c = of_bool ci" by (rule carry_in_bool)
  note full = add_ripple_bool [OF assms(1), of ci]
  have "b \<noteq> []" using assms by auto
  with assms full show "add_full bool_ctx a b c True =
      ret (to_bits (length a) (bits_val a + bits_val b + carry_val c),
           Some (2 ^ length a \<le> bits_val a + bits_val b + carry_val c))"
    unfolding add_full_def ci cv by simp
  obtain a' x b' y where ab: "a = a' @ [x]" "b = b' @ [y]" and len: "length a' = length b'"
    using assms by (rule split_last)
  have "add_full bool_ctx a b c False =
      bind (ripple_gm (add_bit bool_ctx) a' b' ci) (\<lambda>(ds, c). ret (ds @ [(c \<noteq> y) \<noteq> x], None))"
    using len by (simp add: add_full_def ci ab nth_append Let_def)
  also have "\<dots> = bind (ripple_gm (add_bit bool_ctx) a b ci) (\<lambda>(ds, c). ret (ds, None))"
    by (auto simp: ab ripple_gm_snoc [OF len] add_bit_def bind_assoc case_prod_unfold
        intro!: arg_cong2 [of _ _ _ _ bind])
  finally show "add_full bool_ctx a b c False = ret (to_bits (length a) (bits_val a + bits_val b + carry_val c), None)"
    by (simp only: full cv bind_ret prod.case)
qed

lemma sub_full_bool:
  assumes "length a = length b" and "a \<noteq> []"
  shows "sub_full bool_ctx a b c True =
      ret (to_bits (length a) (2 ^ length a + bits_val a - bits_val b - carry_val c),
           Some (bits_val a < bits_val b + carry_val c))"
    and "sub_full bool_ctx a b c False =
      ret (to_bits (length a) (2 ^ length a + bits_val a - bits_val b - carry_val c), None)"
proof -
  obtain ci where ci: "(case c of None \<Rightarrow> public_bit bool_ctx False | Some x \<Rightarrow> ret x) = ret ci"
    and cv: "carry_val c = of_bool ci" by (rule carry_in_bool)
  note full = sub_ripple_bool [OF assms(1), of ci]
  have "b \<noteq> []" using assms by auto
  with assms full show "sub_full bool_ctx a b c True =
      ret (to_bits (length a) (2 ^ length a + bits_val a - bits_val b - carry_val c),
           Some (bits_val a < bits_val b + carry_val c))"
    unfolding sub_full_def ci cv by simp
  obtain a' x b' y where ab: "a = a' @ [x]" "b = b' @ [y]" and len: "length a' = length b'"
    using assms by (rule split_last)
  have "sub_full bool_ctx a b c False =
      bind (ripple_gm (sub_bit bool_ctx) a' b' ci) (\<lambda>(ds, c). ret (ds @ [(x \<noteq> y) \<noteq> c], None))"
    using len by (simp add: sub_full_def ci ab nth_append Let_def)
  also have "\<dots> = bind (ripple_gm (sub_bit bool_ctx) a b ci) (\<lambda>(ds, c). ret (ds, None))"
    by (auto simp: ab ripple_gm_snoc [OF len] sub_bit_def bind_assoc case_prod_unfold
        intro!: arg_cong2 [of _ _ _ _ bind])
  finally show "sub_full bool_ctx a b c False = ret (to_bits (length a) (2 ^ length a + bits_val a - bits_val b - carry_val c), None)"
    by (simp only: full cv bind_ret prod.case)
qed

lemma ripple_add_bool [simp]:
  assumes "length a = length b"
  shows "ripple_add bool_ctx a b = ret (to_bits (length a) (bits_val a + bits_val b))"
proof (cases "a = []")
  case True
  with assms show ?thesis by (simp add: ripple_add_def add_full_def)
qed (simp add: ripple_add_def add_full_bool assms)

lemma ripple_sub_bool [simp]:
  assumes "length a = length b"
  shows "ripple_sub bool_ctx a b = ret (to_bits (length a) (2 ^ length a + bits_val a - bits_val b))"
proof (cases "a = []")
  case True
  with assms show ?thesis by (simp add: ripple_sub_def sub_full_def)
qed (simp add: ripple_sub_def sub_full_bool assms)

lemma less_than_bool [simp]:
  "length a = length b \<Longrightarrow> a \<noteq> [] \<Longrightarrow> less_than bool_ctx a b = ret (bits_val a < bits_val b)"
  by (simp add: less_than_def sub_full_bool)

lemma equal_bool [simp]:
  assumes "length a = length b"
  shows "equal bool_ctx a b = ret (a = b)"
proof -
  have "fold_gm (\<lambda>(x, y) acc. bind (xor_gate bool_ctx x y) (\<lambda>d. bind (not_gate bool_ctx d) (\<lambda>n. and_gate bool_ctx acc n)))
      (zip a b) acc = ret (acc \<and> a = b)" for acc
    using assms by (induction a b arbitrary: acc rule: list_induct2) (auto simp: conj_ac)
  with assms show ?thesis by (simp add: equal_def)
qed

lemma if_then_else_bool [simp]:
  assumes "length t = length f"
  shows "if_then_else bool_ctx t f c = ret (if c then t else f)"
proof -
  have "map2_gm (\<lambda>t f. bind (xor_gate bool_ctx t f) (\<lambda>x. bind (and_gate bool_ctx c x) (\<lambda>a. xor_gate bool_ctx a f))) t f
      = ret (map2 (\<lambda>t f. if c then t else f) t f)"
    by (rule map2_gm_ret [OF assms]) (cases c; simp; blast)
  moreover have "map2 (\<lambda>t f. if c then t else f) t f = (if c then t else f)"
    using assms by (induction t f rule: list_induct2) auto
  ultimately show ?thesis by (simp add: if_then_else_def)
qed

text \<open>Schoolbook multiplication: after \<open>i\<close> rounds the accumulator is \<open>a * (b mod 2 ^ i)\<close>.\<close>

lemma mul_step_bool:
  assumes len: "length a = length b" and i: "i < length a"
    and acc: "acc = to_bits (length a) (bits_val a * (bits_val b mod 2 ^ i))"
  shows "mul_step bool_ctx a b i acc = ret (to_bits (length a) (bits_val a * (bits_val b mod 2 ^ Suc i)))"
proof -
  let ?n = "length a" and ?A = "bits_val a" and ?B = "bits_val b"
  define tmp where "tmp = map (\<lambda>k. a ! k \<and> b ! i) [0..<?n - i]"
  have tmp: "bits_val tmp = (?A mod 2 ^ (?n - i)) * of_bool (b ! i)" "length tmp = ?n - i"
  proof -
    have "tmp = (if b ! i then take (?n - i) a else replicate (?n - i) False)"
      by (rule nth_equalityI) (auto simp: tmp_def)
    then show "bits_val tmp = (?A mod 2 ^ (?n - i)) * of_bool (b ! i)" "length tmp = ?n - i"
      by (auto simp: bits_val_take_mod)
  qed
  have ands: "map_gm (\<lambda>k. bind (rd a k) (\<lambda>x. bind (rd b i) (\<lambda>y. and_gate bool_ctx x y))) [0..<?n - i] = ret tmp"
    unfolding tmp_def by (rule map_gm_ret) (use len i in auto)
  have B: "?B mod 2 ^ Suc i = ?B mod 2 ^ i + of_bool (b ! i) * 2 ^ i"
    using i len bits_val_nth [of i b] mod_mult2_eq [of ?B "2 ^ i" 2]
    by (simp add: odd_iff_mod_2_eq_one of_bool_def mult.commute)
  define V where "V = ?A * (?B mod 2 ^ i)"
  have lens: "length (drop i acc) = length tmp" "drop i acc \<noteq> []" using acc i tmp by auto
  have "mul_step bool_ctx a b i acc = ret (take i acc @ to_bits (?n - i) (bits_val (drop i acc) + bits_val tmp))"
    using add_full_bool(2) [OF lens, of None] ands i tmp lens by (simp add: mul_step_def)
  also have "take i acc @ to_bits (?n - i) (bits_val (drop i acc) + bits_val tmp) =
      to_bits ?n (?A * (?B mod 2 ^ Suc i))"
  proof (rule to_bits_eqI)
    let ?k = "?n - i"
    have n: "(2::nat) ^ ?n = 2 ^ i * 2 ^ ?k" using i by (simp flip: power_add)
    have "bits_val (take i acc) = V mod 2 ^ i"
      using i by (simp add: acc V_def [symmetric] take_to_bits)
    moreover have "bits_val (drop i acc) = V div 2 ^ i mod 2 ^ ?k"
      using i by (simp add: acc V_def [symmetric] drop_to_bits)
    ultimately have "bits_val (take i acc @ to_bits ?k (bits_val (drop i acc) + bits_val tmp)) =
        V mod 2 ^ i + 2 ^ i * ((V div 2 ^ i mod 2 ^ ?k + bits_val tmp) mod 2 ^ ?k)"
      using i acc by (simp add: bits_val_append)
    also have "(V div 2 ^ i mod 2 ^ ?k + bits_val tmp) mod 2 ^ ?k = (V div 2 ^ i + ?A * of_bool (b ! i)) mod 2 ^ ?k"
      unfolding tmp(1) by (simp add: mod_simps)
    also have "V div 2 ^ i + ?A * of_bool (b ! i) = (V + ?A * of_bool (b ! i) * 2 ^ i) div 2 ^ i" by simp
    also have "V mod 2 ^ i = (V + ?A * of_bool (b ! i) * 2 ^ i) mod 2 ^ i" by simp
    also have "(V + ?A * of_bool (b ! i) * 2 ^ i) mod 2 ^ i +
        2 ^ i * ((V + ?A * of_bool (b ! i) * 2 ^ i) div 2 ^ i mod 2 ^ ?k) = (V + ?A * of_bool (b ! i) * 2 ^ i) mod 2 ^ ?n"
      unfolding n by (simp only: mod_mult2_eq add.commute)
    finally show "bits_val (take i acc @ to_bits ?k (bits_val (drop i acc) + bits_val tmp)) =
        ?A * (?B mod 2 ^ Suc i) mod 2 ^ ?n"
      unfolding B V_def by (simp only: algebra_simps)
  qed (use acc i in auto)
  finally show ?thesis .
qed

lemma mul_full_bool [simp]:
  assumes len: "length a = length b"
  shows "mul_full bool_ctx a b = ret (to_bits (length a) (bits_val a * bits_val b))"
proof -
  have "fold_gm (mul_step bool_ctx a b) [0..<i] (replicate (length a) False) =
      ret (to_bits (length a) (bits_val a * (bits_val b mod 2 ^ i)))" if "i \<le> length a" for i
    using that
  proof (induction i)
    case (Suc i)
    then show ?case by (simp add: fold_gm_append mul_step_bool [OF len])
  qed simp
  from this [of "length a"] show ?thesis
    using len bits_val_less [of b] by (simp add: mul_full_def)
qed

text \<open>
  Restoring division. \<open>overflow[i]\<close> says that the divisor does not fit in the \<open>n - i\<close> bits that
  are compared at step \<open>i\<close>; the comparison at step \<open>i\<close> is then exactly \<open>rem div 2 ^ i < d\<close>.
\<close>

lemma div_overflow_bool:
  assumes "d \<noteq> []"
  shows "div_overflow bool_ctx d = ret (map (\<lambda>i. 2 ^ (length d - i) \<le> bits_val d) [0..<length d])"
proof -
  let ?n = "length d" and ?ov = "\<lambda>m. map (\<lambda>i. 2 ^ (length d - i) \<le> bits_val d) [0..<m]"
  have step: "d ! (?n - i) \<or> 2 ^ (?n - (i - 1)) \<le> bits_val d \<longleftrightarrow> 2 ^ (?n - i) \<le> bits_val d"
    if "0 < i" "i < ?n" for i
  proof -
    define k where "k = ?n - i"
    have k: "?n - (i - 1) = Suc k" "k < ?n" using that by (auto simp: k_def)
    have pos: "2 ^ j \<le> bits_val d \<longleftrightarrow> bits_val d div 2 ^ j \<noteq> 0" for j by (simp add: div_eq_0_iff not_less)
    have half: "bits_val d div 2 ^ Suc k = bits_val d div 2 ^ k div 2"
      unfolding power_Suc2 by (rule div_mult2_eq)
    have "odd x \<or> x div 2 \<noteq> 0 \<longleftrightarrow> x \<noteq> 0" for x :: nat by presburger
    then show ?thesis
      unfolding k_def [symmetric] k(1) pos bits_val_nth [OF k(2)] half .
  qed
  have "fold_gm (\<lambda>i ov. bind (rd ov (i - 1)) (\<lambda>o1. bind (rd d (?n - i)) (\<lambda>x.
           bind (or_gate bool_ctx o1 x) (\<lambda>y. ret (ov @ [y]))))) [1..<m] [False] = ret (?ov m)"
    if "0 < m" "m \<le> ?n" for m
    using that
  proof (induction m)
    case (Suc m)
    show ?case
    proof (cases "m = 0")
      case True
      then show ?thesis using bits_val_less [of d] by simp
    next
      case False
      with Suc step [of m] show ?thesis by (simp add: fold_gm_append disj_commute)
    qed
  qed simp
  from this [of ?n] assms show ?thesis by (simp add: div_overflow_def)
qed

lemma div_step_bool:
  assumes lens: "length r = length d" and i: "i < length d"
    and ov: "ov ! i = (2 ^ (length d - i) \<le> bits_val d)" "length ov = length d"
  shows "div_step bool_ctx d ov i (r, q) =
    ret (if bits_val r div 2 ^ i < bits_val d then (r, False # q)
         else (to_bits (length d) (bits_val r - bits_val d * 2 ^ i), True # q))"
proof -
  let ?n = "length d" and ?R = "bits_val r" and ?D = "bits_val d"
  define H where "H = ?R div 2 ^ i"
  have hi: "bits_val (drop i r) = H" "bits_val (take (?n - i) d) = ?D mod 2 ^ (?n - i)"
    by (simp_all add: H_def bits_val_drop_div bits_val_take_mod)
  have H: "H < 2 ^ (?n - i)" using bits_val_less [of "drop i r"] lens hi by simp
  have l2: "length (drop i r) = length (take (?n - i) d)" "drop i r \<noteq> []" using lens i by auto
  have cmp: "H < ?D mod 2 ^ (?n - i) \<or> 2 ^ (?n - i) \<le> ?D \<longleftrightarrow> H < ?D"
    using H by (cases "?D < 2 ^ (?n - i)") auto
  have sub: "sub_full bool_ctx (drop i r) (take (?n - i) d) None True =
      ret (to_bits (?n - i) (2 ^ (?n - i) + H - ?D mod 2 ^ (?n - i)), Some (H < ?D mod 2 ^ (?n - i)))"
    using sub_full_bool(1) [OF l2, of None] lens by (simp add: hi)
  have keep: "take i r @ to_bits (?n - i) (2 ^ (?n - i) + H - ?D mod 2 ^ (?n - i)) =
      to_bits ?n (?R - ?D * 2 ^ i)" if "\<not> H < ?D"
  proof (rule to_bits_eqI)
    have D: "?D mod 2 ^ (?n - i) = ?D" using that H by simp
    have R: "?R = ?R mod 2 ^ i + 2 ^ i * H" by (simp add: H_def)
    have "(2 ^ (?n - i) + H - ?D) mod 2 ^ (?n - i) = H - ?D"
      using that H by (simp add: mod_if)
    then have "bits_val (take i r @ to_bits (?n - i) (2 ^ (?n - i) + H - ?D mod 2 ^ (?n - i))) =
        ?R mod 2 ^ i + 2 ^ i * (H - ?D)"
      using lens i by (simp add: bits_val_append bits_val_take_mod D)
    also have "\<dots> = ?R - ?D * 2 ^ i" using R that by (simp add: algebra_simps)
    also have "\<dots> = (?R - ?D * 2 ^ i) mod 2 ^ ?n"
      using bits_val_less [of r] lens by simp
    finally show "bits_val (take i r @ to_bits (?n - i) (2 ^ (?n - i) + H - ?D mod 2 ^ (?n - i))) =
        (?R - ?D * 2 ^ i) mod 2 ^ ?n" .
  qed (use lens i in simp)
  show ?thesis
    using sub keep cmp i lens ov by (auto simp: div_step_def H_def [symmetric])
qed

text \<open>The loop invariant, going down from the top bit.\<close>

lemma div_loop_bool:
  assumes lens: "length a = length d"
    and ov: "\<And>i. i < length d \<Longrightarrow> ov ! i = (2 ^ (length d - i) \<le> bits_val d)" "length ov = length d"
    and d: "0 < bits_val d" and m: "m \<le> length d"
  shows "\<exists>r q. fold_gm (div_step bool_ctx d ov) (rev [length d - m..<length d]) (a, []) = ret (r, q) \<and>
    length r = length d \<and> length q = m \<and>
    bits_val a = bits_val d * (2 ^ (length d - m) * bits_val q) + bits_val r \<and>
    bits_val r < bits_val d * 2 ^ (length d - m)"
  using m
proof (induction m)
  case 0
  have "bits_val a < bits_val d * 2 ^ length d"
    using bits_val_less [of a] lens d by (metis less_le_trans mult_le_mono1 nat_mult_1 Suc_leI One_nat_def)
  then show ?case using lens by simp
next
  case (Suc m)
  define i where "i = length d - Suc m"
  have i: "length d - m = Suc i" "i < length d" using Suc.prems by (auto simp: i_def)
  from Suc obtain r q where run: "fold_gm (div_step bool_ctx d ov) (rev [Suc i..<length d]) (a, []) = ret (r, q)"
    and inv: "length r = length d" "length q = m" "bits_val a = bits_val d * (2 ^ Suc i * bits_val q) + bits_val r"
      "bits_val r < bits_val d * 2 ^ Suc i" by (auto simp: i(1))
  have up: "[i..<length d] = i # [Suc i..<length d]" using i by (simp add: upt_conv_Cons)
  note step = div_step_bool [OF inv(1) i(2) ov(1) [OF i(2)] ov(2), of q]
  show ?case
  proof (cases "bits_val r div 2 ^ i < bits_val d")
    case True
    then have "bits_val r < bits_val d * 2 ^ i" by (simp add: div_less_iff_less_mult)
    then show ?thesis
      using run step True inv unfolding i_def [symmetric] up
      by (auto simp: fold_gm_append algebra_simps)
  next
    case False
    then have ge: "bits_val d * 2 ^ i \<le> bits_val r" by (simp add: div_less_iff_less_mult)
    have "bits_val r - bits_val d * 2 ^ i < 2 ^ length d" using bits_val_less [of r] inv(1) by simp
    then show ?thesis
      using run step False inv ge unfolding i_def [symmetric] up
      by (auto simp: fold_gm_append algebra_simps)
  qed
qed

lemma div_full_bool [simp]:
  assumes len: "length a = length d" and "a \<noteq> []" and d: "0 < bits_val d"
  shows "div_full bool_ctx a d =
    ret (to_bits (length a) (bits_val a mod bits_val d), to_bits (length a) (bits_val a div bits_val d))"
proof -
  have ne: "d \<noteq> []" "length a \<noteq> 0" using assms by auto
  let ?ov = "map (\<lambda>i. 2 ^ (length d - i) \<le> bits_val d) [0..<length d]"
  obtain r q where run: "fold_gm (div_step bool_ctx d ?ov) (rev [0..<length d]) (a, []) = ret (r, q)"
    and l: "length r = length d" "length q = length d"
    and eq: "bits_val a = bits_val d * bits_val q + bits_val r" "bits_val r < bits_val d"
    using div_loop_bool [OF len _ _ d, of ?ov "length d"] by auto
  have "bits_val q = bits_val a div bits_val d" "bits_val r = bits_val a mod bits_val d"
    using eq by auto
  with l len have "r = to_bits (length a) (bits_val a mod bits_val d)"
    "q = to_bits (length a) (bits_val a div bits_val d)"
    by (metis to_bits_bits_val)+
  with run ne len show ?thesis by (simp add: div_full_def div_overflow_bool)
qed

text \<open>Division by zero saturates: quotient all ones, remainder the dividend.\<close>

lemma div_full_bool_zero:
  assumes len: "length a = length d" and "a \<noteq> []" and d: "bits_val d = 0"
  shows "div_full bool_ctx a d = ret (a, replicate (length a) True)"
proof -
  have ne: "d \<noteq> []" "length a \<noteq> 0" using assms by auto
  let ?ov = "map (\<lambda>i. 2 ^ (length d - i) \<le> bits_val d) [0..<length d]"
  have "fold_gm (div_step bool_ctx d ?ov) (rev [length d - m..<length d]) (a, []) =
      ret (a, replicate m True)" if "m \<le> length d" for m
    using that
  proof (induction m)
    case (Suc m)
    define i where "i = length d - Suc m"
    have i: "length d - m = Suc i" "i < length d" using Suc.prems by (auto simp: i_def)
    have "[i..<length d] = i # [Suc i..<length d]" using i by (simp add: upt_conv_Cons)
    moreover have "div_step bool_ctx d ?ov i (a, q) = ret (a, True # q)" for q
      using div_step_bool [OF len i(2), of ?ov q] i d by (simp add: len [symmetric])
    ultimately show ?case
      using Suc unfolding i_def [symmetric] i(1) by (simp add: fold_gm_append)
  qed simp
  from this [of "length d"] show ?thesis
    using ne len by (simp add: div_full_def div_overflow_bool)
qed

end
