(* ===== verification/Loops.thy ===== *)
theory Loops
  imports Kernels
begin

text \<open>
  Loops over gate computations: array writes, arrays that a loop fills position by position, nested
  loops as one loop over pairs, and loops that follow a function on a representation of their state.
\<close>

section \<open>Array writes\<close>

text \<open>A write \<open>xs[i] = v\<close>, and the arrays a circuit fills position by position: \<open>all_set\<close> reads a complete one.\<close>

definition wr :: "'a list \<Rightarrow> nat \<Rightarrow> 'a \<Rightarrow> ('s, 'a list) gm" where
  "wr xs i v = check (i < length xs) UndefinedBehaviour (ret (xs[i := v]))"

definition all_set :: "'a option list \<Rightarrow> ('s, 'a list) gm" where
  "all_set xs = map_gm (\<lambda>x. case x of None \<Rightarrow> fail UndefinedBehaviour | Some v \<Rightarrow> ret v) xs"

lemma wr_transfer [transfer_rule]:
  "(rel_fun (list_all2 P) (rel_fun (=) (rel_fun P (sim ok R E (list_all2 P))))) wr wr"
  unfolding wr_def [abs_def] by transfer_prover

lemma all_set_transfer [transfer_rule]:
  assumes [transfer_rule]: "tot ok P"
  shows "(rel_fun (list_all2 (rel_option P)) (sim ok R E (list_all2 P))) all_set all_set"
  unfolding all_set_def [abs_def] by transfer_prover

lemma wr_ok [simp]: "i < length xs \<Longrightarrow> wr xs i v = ret (xs[i := v])"
  by (simp add: wr_def)

lemma all_set_Some [simp]: "all_set (map Some xs) = ret xs"
  by (induction xs) (simp_all add: all_set_def)

lemma map_gm_rd: "n = length xs \<Longrightarrow> map_gm (rd xs) [0..<n] = ret xs"
  by (subst map_gm_ret [where g = "(!) xs"]) (auto simp: map_nth)

lemma fold_gm_cong: "(\<And>x a. x \<in> set xs \<Longrightarrow> f x a = g x a) \<Longrightarrow> fold_gm f xs a = fold_gm g xs a"
  by (induction xs arbitrary: a) (auto intro!: arg_cong [where f = "bind _"])

lemma bind_ret_right [simp]: "bind m ret = m"
  by (rule ext) (auto simp: bind_def ret_def split: sum.split)

lemma fold_gm_snoc: "fold_gm f (xs @ [x]) a = bind (fold_gm f xs a) (f x)"
proof -
  have "fold_gm f [x] = f x" by (rule ext) simp
  then show ?thesis by (simp add: fold_gm_append del: fold_gm.simps)
qed

lemma fold_gm_product:
  "fold_gm (\<lambda>x. fold_gm (f x) ys) xs a = fold_gm (\<lambda>(x, y). f x y) (List.product xs ys) a"
proof (induction xs arbitrary: a)
  case (Cons x xs)
  have "fold_gm (f x) ys a = fold_gm (\<lambda>(x, y). f x y) (map (Pair x) ys) a" for a
    by (induction ys arbitrary: a) simp_all
  then show ?case using Cons by (simp add: fold_gm_append)
qed simp

text \<open>A loop over \<open>m, ..., n - 1\<close> that follows \<open>g\<close> on the representation \<open>rep\<close> under an invariant.\<close>

lemma fold_gm_upt:
  assumes "\<And>i a. m \<le> i \<Longrightarrow> i < n \<Longrightarrow> I i a \<Longrightarrow> f i (rep a) = ret (rep (g i a)) \<and> I (Suc i) (g i a)"
    and "I m a" and "m \<le> n"
  shows "fold_gm f [m..<n] (rep a) = ret (rep (fold g [m..<n] a)) \<and> I n (fold g [m..<n] a)"
proof -
  have "fold_gm f [m..<m + d] (rep a) = ret (rep (fold g [m..<m + d] a)) \<and> I (m + d) (fold g [m..<m + d] a)"
    if "d \<le> n - m" for d
    using that
  proof (induction d)
    case (Suc d)
    with assms(1) [of "m + d" "fold g [m..<m + d] a"] show ?case by (simp add: fold_gm_append)
  qed (use assms(2) in simp)
  from this [of "n - m"] assms(3) show ?thesis by simp
qed

lemma fold_gm_invariant:
  assumes "\<And>i a. m \<le> i \<Longrightarrow> i < n \<Longrightarrow> I i a \<Longrightarrow> \<exists>a'. f i a = (ret a' :: ('s, 'a) gm) \<and> I (Suc i) a'"
    and "I m a" and "m \<le> n"
  shows "\<exists>a'. fold_gm f [m..<n] a = (ret a' :: ('s, 'a) gm) \<and> I n a'"
proof -
  have "\<exists>a'. fold_gm f [m..<m + d] a = (ret a' :: ('s, 'a) gm) \<and> I (m + d) a'" if "d \<le> n - m" for d
    using that
  proof (induction d)
    case (Suc d)
    then obtain b where b: "fold_gm f [m..<m + d] a = (ret b :: ('s, 'a) gm)" "I (m + d) b" by auto
    from Suc.prems have "m + d < n" by linarith
    with assms(1) [of "m + d" b] b(2) obtain c where "f (m + d) b = (ret c :: ('s, 'a) gm)" "I (Suc (m + d)) c" by auto
    with b(1) show ?case by (simp add: fold_gm_snoc)
  qed (use assms(2) in simp)
  from this [of "n - m"] assms(3) show ?thesis by simp
qed

lemma fold_gm_abs:
  assumes "\<And>x a. x \<in> set xs \<Longrightarrow> f x (rep a) = ret (rep (g x a))"
  shows "fold_gm f xs (rep a) = ret (rep (fold g xs a))"
  using assms by (induction xs arbitrary: a) auto

text \<open>A loop of writes that completes an array.\<close>

lemma fill:
  assumes "length arr = length ys" and "\<forall>x \<in> set xs. q x < length ys \<and> v x = ys ! q x"
    and "\<forall>p < length ys. (\<exists>x \<in> set xs. q x = p) \<or> arr ! p = ys ! p"
  shows "fold_gm (\<lambda>x arr. wr arr (q x) (v x)) xs arr = (ret ys :: ('s, _) gm)"
proof -
  have "\<exists>arr'. fold_gm (\<lambda>x arr. wr arr (q x) (v x)) zs arr = (ret arr' :: ('s, _) gm) \<and> length arr' = length ys \<and>
      (\<forall>p < length ys. arr' ! p = (if \<exists>x \<in> set zs. q x = p then ys ! p else arr ! p))"
    if "set zs \<subseteq> set xs" "length arr = length ys" for zs arr
    using that
  proof (induction zs arbitrary: arr)
    case (Cons z zs)
    then have z: "q z < length ys" "v z = ys ! q z" using assms(2) by auto
    from Cons.prems Cons.IH [of "arr[q z := v z]"] z show ?case by (auto simp: nth_list_update)
  qed simp
  from this [of xs arr] assms(1) obtain arr' where arr':
    "fold_gm (\<lambda>x arr. wr arr (q x) (v x)) xs arr = (ret arr' :: ('s, _) gm)" "length arr' = length ys"
    "\<And>p. p < length ys \<Longrightarrow> arr' ! p = (if \<exists>x \<in> set xs. q x = p then ys ! p else arr ! p)" by auto
  have "arr' = ys"
  proof (rule nth_equalityI)
    fix p
    assume "p < length arr'"
    then show "arr' ! p = ys ! p" using arr'(2,3) assms(3) by (cases "\<exists>x \<in> set xs. q x = p") auto
  qed (rule arr'(2))
  with arr'(1) show ?thesis by simp
qed

lemma nth_concat_uniform:
  "\<forall>xs \<in> set xss. length xs = n \<Longrightarrow> i < n * length xss \<Longrightarrow> concat xss ! i = xss ! (i div n) ! (i mod n)"
proof (induction xss arbitrary: i)
  case (Cons xs xss)
  show ?case
  proof (cases "i < n")
    case False
    moreover have "0 < n" using Cons.prems(2) by (cases n) auto
    ultimately show ?thesis using Cons.prems Cons.IH [of "i - n"]
      by (simp add: nth_append le_div_geq le_mod_geq)
  qed (use Cons.prems in \<open>simp add: nth_append\<close>)
qed simp

lemma length_concat_uniform: "\<forall>xs \<in> set xss. length xs = n \<Longrightarrow> length (concat xss) = n * length xss"
  by (induction xss) auto

text \<open>The first iterates of a function, for tables that are defined by iteration.\<close>

primrec iterates :: "nat \<Rightarrow> ('a \<Rightarrow> 'a) \<Rightarrow> 'a \<Rightarrow> 'a list" where
  "iterates 0 f x = []"
| "iterates (Suc n) f x = x # iterates n f (f x)"

lemma iterates_numeral: "iterates (numeral n) f x = x # iterates (pred_numeral n) f (f x)"
  by (simp add: numeral_eq_Suc)

lemma iterates_eq: "iterates n f x = map (\<lambda>t. (f ^^ t) x) [0..<n]"
proof (induction n arbitrary: x)
  case (Suc n)
  then show ?case by (simp add: upt_conv_Cons funpow_swap1 del: upt_Suc flip: map_Suc_upt)
qed simp

end
