(* ===== verification/Schedule.thy ===== *)
theory Schedule
  imports Passes Recording Loops
begin

text \<open>
  \<open>ir/schedule.h\<close>: replay in AND-depth order. A plan groups the gate indices by AND-depth; for every
  level the AND gates of the level run as one \<open>and_many\<close> call on a bulk context, then the linear gates
  of the level in emission order. The check of the plan's digest exists in debug builds only, so the
  build mode is the argument \<open>debug\<close>. As in \<open>Execute\<close>, an index outside a buffer is undefined behaviour,
  and the result is the outputs with the scratch buffer that the replay leaves.

  The locale \<open>pure_bulk\<close> is the contract of a bulk context without state (every gate is a function of its
  operands and \<open>and_many\<close> is the AND of each pair); inside it, replay by levels is shown to return the
  outputs of the scalar replay. Levels, values and slots are all instances of one recursion over an SSA
  gate list (\<open>ssa_fold\<close>), whose fixpoint property carries the proof.
\<close>

section \<open>Plans\<close>

record ScheduledPlan =
  bucket :: "nat list list"
  plan_depth :: nat
  plan_num_inputs :: nat
  plan_num_wires :: nat
  plan_num_gates :: nat
  plan_digest :: "64 word"

primrec plan_buckets :: "nat list \<Rightarrow> nat \<Rightarrow> Gate list \<Rightarrow> nat list list \<Rightarrow> nat list list res" where
  "plan_buckets lv gi [] bs = Inr bs"
| "plan_buckets lv gi (g # gs) bs =
     res_bind (get lv (out g)) (\<lambda>l. res_bind (get bs l) (\<lambda>b.
     res_bind (put l (b @ [gi]) bs) (plan_buckets lv (Suc gi) gs)))"

definition make_scheduled_plan :: "BooleanProgram \<Rightarrow> ScheduledPlan res" where
  "make_scheduled_plan p =
     res_bind (schedule_pass p) (\<lambda>sched.
     res_bind (plan_buckets (wire_level sched) 0 (gates p) (replicate (depth sched + 1) [])) (\<lambda>bs.
     Inr \<lparr>bucket = bs, plan_depth = depth sched, plan_num_inputs = num_inputs p,
          plan_num_wires = num_wires p, plan_num_gates = length (gates p), plan_digest = digest_program p\<rparr>))"

section \<open>Replay by levels\<close>

text \<open>The operands and output slots of the AND gates of a bucket.\<close>

definition gather_ands :: "Gate list \<Rightarrow> nat list \<Rightarrow> 'w list \<Rightarrow> ('s, 'w list \<times> 'w list \<times> nat list) gm" where
  "gather_ands gs bk w =
     fold_gm (\<lambda>gi (ba, bb, bouts). bind (rd gs gi) (\<lambda>g.
        if is_and g then bind (rd w (in0 g)) (\<lambda>a. bind (rd w (in1 g)) (\<lambda>b. ret (ba @ [a], bb @ [b], bouts @ [out g])))
        else ret (ba, bb, bouts))) bk ([], [], [])"

definition linear_gate :: "('s, 'w, 'z) ctx_scheme \<Rightarrow> Gate \<Rightarrow> 'w list \<Rightarrow> ('s, 'w list) gm" where
  "linear_gate C g w =
     (case op g of
        OpAnd \<Rightarrow> ret w
      | OpXor \<Rightarrow> bind (rd w (in0 g)) (\<lambda>a. bind (rd w (in1 g)) (\<lambda>b. bind (xor_gate C a b) (wr w (out g))))
      | OpNot \<Rightarrow> bind (rd w (in0 g)) (\<lambda>a. bind (not_gate C a) (wr w (out g)))
      | OpConst0 \<Rightarrow> bind (public_bit C False) (wr w (out g))
      | OpConst1 \<Rightarrow> bind (public_bit C True) (wr w (out g))
      | OpOther _ \<Rightarrow> ret w)"

definition run_level :: "('s, 'w, 'z) bulk_ctx_scheme \<Rightarrow> Gate list \<Rightarrow> nat list \<Rightarrow> 'w list \<Rightarrow> ('s, 'w list) gm" where
  "run_level C gs bk w =
     bind (gather_ands gs bk w) (\<lambda>(ba, bb, bouts).
     bind (if ba = [] then ret w
           else bind (and_many C ba bb) (\<lambda>bo. fold_gm (\<lambda>(i, x) w. wr w i x) (zip bouts bo) w)) (\<lambda>w.
     fold_gm (\<lambda>gi w. bind (rd gs gi) (\<lambda>g. linear_gate C g w)) bk w))"

definition scheduled_execute_program ::
  "bool \<Rightarrow> ('s, 'w, 'z) bulk_ctx_scheme \<Rightarrow> BooleanProgram \<Rightarrow> ScheduledPlan \<Rightarrow> 'w list \<Rightarrow> 'w list \<Rightarrow>
   ('s, 'w list \<times> 'w list) gm" where
  "scheduled_execute_program debug C p plan inputs scratch =
     check (wire_reuse p = ReuseNone) RequiresDense
     (check (length inputs = num_inputs p) InputCountMismatch
     (check (plan_num_inputs plan = num_inputs p \<and> plan_num_wires plan = num_wires p \<and>
             plan_num_gates plan = length (gates p)) StalePlan
     (check (debug \<longrightarrow> plan_digest plan = digest_program p) StalePlan
     (let buf = ensure (wire_init C) (num_wires p) scratch in
      check (length inputs \<le> length buf) UndefinedBehaviour
      (bind (fold_gm (\<lambda>lv w. bind (rd (bucket plan) lv) (\<lambda>b. run_level C (gates p) b w))
               [0..<plan_depth plan + 1] (inputs @ drop (length inputs) buf)) (\<lambda>w.
       bind (read_slots w (outputs p)) (\<lambda>os. ret (os, w))))))))"

definition scheduled_execute ::
  "bool \<Rightarrow> ('s, 'w, 'z) bulk_ctx_scheme \<Rightarrow> BooleanProgram \<Rightarrow> 'w list \<Rightarrow> ('s, 'w list) gm" where
  "scheduled_execute debug C p inputs =
     (case make_scheduled_plan p of
        Inl e \<Rightarrow> fail e
      | Inr plan \<Rightarrow> bind (scheduled_execute_program debug C p plan inputs []) (\<lambda>(os, scratch). ret os))"

section \<open>Recursion over an SSA gate list\<close>

text \<open>\<open>local f\<close>: the value \<open>f\<close> gives a gate depends on the slots that the gate reads only.\<close>

definition local :: "(Gate \<Rightarrow> 'a list \<Rightarrow> 'a) \<Rightarrow> bool" where
  "local f \<longleftrightarrow> (\<forall>g v w. (\<forall>r \<in> set (reads g). v ! r = w ! r) \<longrightarrow> f g v = f g w)"

lemma localD: "local f \<Longrightarrow> \<forall>r \<in> set (reads g). v ! r = w ! r \<Longrightarrow> f g v = f g w"
  by (simp add: local_def)

definition ssa_fold :: "(Gate \<Rightarrow> 'a list \<Rightarrow> 'a) \<Rightarrow> Gate list \<Rightarrow> 'a list \<Rightarrow> 'a list" where
  "ssa_fold f gs w = fold (\<lambda>g w. w[out g := f g w]) gs w"

lemma ssa_fold_simps [simp]:
  "ssa_fold f [] w = w" "ssa_fold f (g # gs) w = ssa_fold f gs (w[out g := f g w])"
  by (simp_all add: ssa_fold_def)

lemma length_ssa_fold [simp]: "length (ssa_fold f gs w) = length w"
  by (induction gs arbitrary: w) simp_all

lemma ssa_fold_fix:
  assumes "local f" and "wf_gates True ni NW A gs" and "A \<subseteq> {..<NW}" and "NW \<le> length w"
  shows "(\<forall>i \<in> A. ssa_fold f gs w ! i = w ! i) \<and> (\<forall>g \<in> set gs. ssa_fold f gs w ! out g = f g (ssa_fold f gs w))"
  using assms(2-)
proof (induction gs arbitrary: A w)
  case (Cons g gs)
  let ?w = "w[out g := f g w]"
  have A: "insert (out g) A \<subseteq> {..<NW}" "wf_gates True ni NW (insert (out g) A) gs" "NW \<le> length ?w" "out g \<notin> A" "out g < length w"
    using Cons.prems by auto
  note IH = Cons.IH [OF A(2,1,3)]
  have same: "\<forall>i \<in> A. ssa_fold f gs ?w ! i = w ! i"
  proof
    fix i
    assume i: "i \<in> A"
    with A(4) have "out g \<noteq> i" by auto
    with IH i show "ssa_fold f gs ?w ! i = w ! i" by simp
  qed
  have "ssa_fold f gs ?w ! out g = f g w" using IH A(5) by simp
  also have "\<dots> = f g (ssa_fold f gs ?w)" by (rule localD [OF assms(1)]) (use same Cons.prems(1) in auto)
  finally show ?case using IH same by simp
qed simp

lemmas ssa_fold_fixpoint = ssa_fold_fix [THEN conjunct1] ssa_fold_fix [THEN conjunct2]

text \<open>A gate of a dense program reads inputs and outputs of earlier gates; outputs are distinct non-inputs.\<close>

lemma wf_gates_reads:
  assumes "wf_gates ssa ni NW A gs" and "k < length gs" and "r \<in> set (reads (gs ! k))"
  shows "r \<in> A \<or> (\<exists>j < k. r = out (gs ! j))"
  using assms
proof (induction gs arbitrary: A k)
  case (Cons g gs)
  show ?case
  proof (cases k)
    case (Suc k')
    with Cons.prems Cons.IH [of "insert (out g) A" k'] show ?thesis by (fastforce intro: exI [of _ "Suc _"])
  qed (use Cons.prems in auto)
qed simp

lemma gate_bounds:
  assumes "wf_gates True ni NW {..<ni} gs" and "ni \<le> NW" and "NW \<le> n"
  shows "\<forall>g \<in> set gs. canonical g \<and> ni \<le> out g \<and> out g < n \<and> (\<forall>r \<in> set (reads g). r < n)"
proof
  fix g
  assume g: "g \<in> set gs"
  have "{..<ni} \<subseteq> {..<NW}" using assms(2) by auto
  with wf_gates_in_range [OF assms(1)] wf_gates_outs [OF assms(1)] wf_gates_canonical [OF assms(1)] g
  have "in_range NW g" "out g \<in> {ni..<NW}" "canonical g" by auto
  then show "canonical g \<and> ni \<le> out g \<and> out g < n \<and> (\<forall>r \<in> set (reads g). r < n)"
    using assms(3) by (auto simp: in_range_def dest: less_le_trans)
qed

section \<open>Levels and buckets\<close>

definition level_of :: "Gate \<Rightarrow> nat list \<Rightarrow> nat" where
  "level_of g lv =
     (case op g of
        OpAnd \<Rightarrow> 1 + max (lv ! in0 g) (lv ! in1 g)
      | OpXor \<Rightarrow> max (lv ! in0 g) (lv ! in1 g)
      | OpNot \<Rightarrow> lv ! in0 g
      | _ \<Rightarrow> 0)"

lemma local_level_of: "local level_of"
  by (auto simp: local_def level_of_def reads_def split: Op.splits)

text \<open>One AND gate raises the largest level by at most one, so the number of AND gates bounds every level.\<close>

abbreviation num_ands :: "Gate list \<Rightarrow> nat" where
  "num_ands gs \<equiv> length (filter is_and gs)"

lemma level_of_le:
  assumes "in_range NW g" and "NW \<le> length lv" and "\<forall>l \<in> set lv. l \<le> m"
  shows "level_of g lv \<le> m + of_bool (is_and g)"
  using assms by (auto simp: level_of_def in_range_def reads_def op_tests split: Op.splits dest!: nth_mem)

lemma ssa_fold_level_le:
  assumes "\<forall>g \<in> set gs. in_range NW g" and "NW \<le> length lv" and "\<forall>l \<in> set lv. l \<le> m"
  shows "\<forall>l \<in> set (ssa_fold level_of gs lv). l \<le> m + num_ands gs"
  using assms
proof (induction gs arbitrary: lv m)
  case (Cons g gs)
  let ?m = "m + of_bool (is_and g)"
  have "\<forall>l \<in> set (lv[out g := level_of g lv]). l \<le> ?m"
    using level_of_le [of NW g lv m] Cons.prems set_update_subset_insert [of lv "out g" "level_of g lv"] by fastforce
  with Cons.IH [of "lv[out g := level_of g lv]" ?m] Cons.prems show ?case by auto
qed simp

lemma gate_level_ok:
  assumes "in_range NW g" and "NW \<le> length lv" and "\<forall>l \<in> set lv. l \<le> m" and "m + of_bool (is_and g) \<le> INT_MAX"
  shows "gate_level lv g = Inr (level_of g lv)"
proof -
  have r: "\<forall>r \<in> set (reads g). r < length lv" and c: "canonical g" using assms(1,2) by (auto simp: in_range_def)
  have "level_of g lv \<le> INT_MAX" using level_of_le [OF assms(1-3)] assms(4) by simp
  with r c show ?thesis
    by (cases "op g") (simp_all add: gate_level_def int_add_def level_of_def reads_def canonical_def)
qed

lemma level_loop_ok:
  assumes "\<forall>g \<in> set gs. in_range NW g" and "NW \<le> length lv" and "wf_gates True ni NW A gs" and "A \<subseteq> {..<NW}"
    and "\<forall>l \<in> set lv. l \<le> m" and "m + num_ands gs \<le> INT_MAX"
  shows "level_loop gs (lv, d) =
    Inr (ssa_fold level_of gs lv, Max (insert d ((\<lambda>g. ssa_fold level_of gs lv ! out g) ` set gs)))"
  using assms
proof (induction gs arbitrary: lv d A m)
  case (Cons g gs)
  let ?m = "m + of_bool (is_and g)"
  let ?l = "level_of g lv" and ?lv = "ssa_fold level_of gs (lv[out g := level_of g lv])"
  have "out g < length lv" using Cons.prems(1,2) by (auto simp: in_range_def)
  moreover have "gate_level lv g = Inr ?l" by (rule gate_level_ok [of NW _ _ m]) (use Cons.prems in auto)
  ultimately have g: "gate_level lv g = Inr ?l" "out g < length lv" by simp_all
  have m: "\<forall>l \<in> set (lv[out g := ?l]). l \<le> ?m"
    using level_of_le [of NW g lv m] Cons.prems(1,2,5) set_update_subset_insert [of lv "out g" ?l] by fastforce
  have A: "wf_gates True ni NW (insert (out g) A) gs" "insert (out g) A \<subseteq> {..<NW}" using Cons.prems by auto
  have "?lv ! out g = ?l"
    using ssa_fold_fixpoint(1) [OF local_level_of A, of "lv[out g := ?l]"] Cons.prems(2) g(2) by simp
  moreover have "Max (insert (max d n) X) = Max (insert d (insert n X))" if "finite X" for n :: nat and X
    using that by (cases "X = {}") (simp_all add: max.assoc)
  ultimately show ?case using Cons.IH [OF _ _ A m, of "max d ?l"] Cons.prems(1,2,6) g by (cases "is_and g") simp_all
qed simp

text \<open>Both bucket loops push the index of the gates with a property on the list of their level.\<close>

primrec push_levels :: "(Gate \<Rightarrow> bool) \<Rightarrow> nat list \<Rightarrow> nat \<Rightarrow> Gate list \<Rightarrow> nat list list \<Rightarrow> nat list list" where
  "push_levels P lv gi [] bs = bs"
| "push_levels P lv gi (g # gs) bs =
     push_levels P lv (Suc gi) gs (if P g then bs[lv ! out g := bs ! (lv ! out g) @ [gi]] else bs)"

lemma push_levels_eq:
  assumes "\<forall>g \<in> set gs. lv ! out g < length bs"
  shows "push_levels P lv gi gs bs =
    map (\<lambda>l. bs ! l @ map ((+) gi) (filter (\<lambda>i. P (gs ! i) \<and> lv ! out (gs ! i) = l) [0..<length gs])) [0..<length bs]"
  using assms
proof (induction gs arbitrary: gi bs)
  case Nil
  then show ?case by (simp add: map_nth)
next
  case (Cons g gs)
  let ?bs = "if P g then bs[lv ! out g := bs ! (lv ! out g) @ [gi]] else bs"
  have "filter (\<lambda>i. P ((g # gs) ! i) \<and> lv ! out ((g # gs) ! i) = l) [0..<length (g # gs)] =
      (if P g \<and> lv ! out g = l then [0] else []) @ map Suc (filter (\<lambda>i. P (gs ! i) \<and> lv ! out (gs ! i) = l) [0..<length gs])" for l
    by (simp add: upt_conv_Cons filter_map comp_def del: upt_Suc flip: map_Suc_upt)
  then have "map (\<lambda>l. ?bs ! l @ map ((+) (Suc gi)) (filter (\<lambda>i. P (gs ! i) \<and> lv ! out (gs ! i) = l) [0..<length gs])) [0..<length bs] =
      map (\<lambda>l. bs ! l @ map ((+) gi) (filter (\<lambda>i. P ((g # gs) ! i) \<and> lv ! out ((g # gs) ! i) = l) [0..<length (g # gs)])) [0..<length bs]"
    by (auto simp: nth_list_update)
  moreover have "push_levels P lv gi (g # gs) bs = push_levels P lv (Suc gi) gs ?bs" by simp
  moreover have "push_levels P lv (Suc gi) gs ?bs =
      map (\<lambda>l. ?bs ! l @ map ((+) (Suc gi)) (filter (\<lambda>i. P (gs ! i) \<and> lv ! out (gs ! i) = l) [0..<length gs])) [0..<length ?bs]"
    by (rule Cons.IH) (use Cons.prems in auto)
  moreover have "length ?bs = length bs" by simp
  ultimately show ?case by (simp only:)
qed

lemma bucket_loops:
  assumes "\<forall>g \<in> set gs. out g < length lv \<and> lv ! out g < length bs"
  shows "bucket_loop lv gi gs bs = Inr (push_levels is_and lv gi gs bs)"
    and "plan_buckets lv gi gs bs = Inr (push_levels (\<lambda>_. True) lv gi gs bs)"
  using assms by (induction gs arbitrary: gi bs) simp_all

definition level_bucket :: "BooleanProgram \<Rightarrow> nat list \<Rightarrow> (Gate \<Rightarrow> bool) \<Rightarrow> nat \<Rightarrow> nat list" where
  "level_bucket p lv P l = filter (\<lambda>i. P (gates p ! i) \<and> lv ! out (gates p ! i) = l) [0..<length (gates p)]"

text \<open>The AND-depth of every wire of a program, and what the schedule pass returns.\<close>

definition and_depths :: "BooleanProgram \<Rightarrow> nat list" where
  "and_depths p = ssa_fold level_of (gates p) (replicate (num_wires p) 0)"

lemma schedule_pass_ok:
  assumes "wf_program p" and "wire_reuse p = ReuseNone" and "num_wires p < 2 ^ 32" and "num_ands (gates p) < INT_MAX"
  defines "lv \<equiv> and_depths p" and "d \<equiv> Max (insert 0 ((\<lambda>g. and_depths p ! out g) ` set (gates p)))"
  shows "schedule_pass p = Inr \<lparr>wire_level = lv, and_gate_indices = map (level_bucket p lv is_and) [0..<d + 1], depth = d\<rparr>"
    and "plan_buckets lv 0 (gates p) (replicate (d + 1) []) = Inr (map (level_bucket p lv (\<lambda>_. True)) [0..<d + 1])"
    and "length lv = num_wires p" and "\<forall>g \<in> set (gates p). lv ! out g = level_of g lv \<and> lv ! out g \<le> d"
    and "\<forall>i < num_inputs p. lv ! i = 0"
proof -
  have wfg: "wf_gates True (num_inputs p) (num_wires p) {..<num_inputs p} (gates p)" and le: "num_inputs p \<le> num_wires p"
    and n: "length (gates p) < 2 ^ 32"
    using assms(1-3) by (simp_all add: wf_program_def)
  have A: "{..<num_inputs p} \<subseteq> {..<num_wires p}" using le by auto
  let ?lv0 = "replicate (num_wires p) (0 :: nat)"
  have range: "\<forall>g \<in> set (gates p). in_range (num_wires p) g" by (rule wf_program_in_range [OF assms(1)])
  have loop: "level_loop (gates p) (?lv0, 0) = Inr (lv, d)"
    using level_loop_ok [OF range _ wfg A, of ?lv0 0] assms(4) by (simp add: lv_def d_def and_depths_def)
  have "and_depths p ! out g \<le> num_ands (gates p)" if "g \<in> set (gates p)" for g
    using ssa_fold_level_le [OF range, of ?lv0 0] range that by (auto simp: and_depths_def in_range_def)
  then have "d \<le> num_ands (gates p)" by (simp add: d_def)
  then have int: "int_add d 1 = Inr (d + 1)" using assms(4) by (simp add: int_add_def)
  show len: "length lv = num_wires p" by (simp add: lv_def and_depths_def)
  have dm: "\<forall>g \<in> set (gates p). lv ! out g \<le> d" by (simp add: lv_def d_def)
  then have outs: "\<forall>g \<in> set (gates p). out g < length lv \<and> lv ! out g < length (replicate (d + 1) [])"
    using range len by (auto simp: in_range_def less_Suc_eq_le)
  then have levels: "\<forall>g \<in> set (gates p). lv ! out g < length (replicate (d + 1) [])" by blast
  have push: "push_levels P lv 0 (gates p) (replicate (d + 1) []) = map (level_bucket p lv P) [0..<d + 1]" for P
    using push_levels_eq [OF levels, of P 0] by (simp add: level_bucket_def map_idI del: upt_Suc replicate_Suc)
  from bucket_loops [OF outs, of 0] push
  have b: "bucket_loop lv 0 (gates p) (replicate (d + 1) []) = Inr (map (level_bucket p lv is_and) [0..<d + 1])"
    "plan_buckets lv 0 (gates p) (replicate (d + 1) []) = Inr (map (level_bucket p lv (\<lambda>_. True)) [0..<d + 1])" by simp_all
  from b(2) show "plan_buckets lv 0 (gates p) (replicate (d + 1) []) = Inr (map (level_bucket p lv (\<lambda>_. True)) [0..<d + 1])" .
  show "schedule_pass p = Inr \<lparr>wire_level = lv, and_gate_indices = map (level_bucket p lv is_and) [0..<d + 1], depth = d\<rparr>"
    using assms(2) n loop b(1) int by (simp add: schedule_pass_def require_dense_def Let_def del: upt_Suc replicate_Suc)
  show "\<forall>g \<in> set (gates p). lv ! out g = level_of g lv \<and> lv ! out g \<le> d"
    using ssa_fold_fixpoint(2) [OF local_level_of wfg A, of ?lv0] dm by (simp add: lv_def and_depths_def)
  show "\<forall>i < num_inputs p. lv ! i = 0"
    using ssa_fold_fixpoint(1) [OF local_level_of wfg A, of ?lv0] le by (simp add: lv_def and_depths_def)
qed

text \<open>What a plan of a valid dense program holds.\<close>

lemma make_scheduled_plan_ok:
  assumes "wf_program p" and "wire_reuse p = ReuseNone" and "num_wires p < 2 ^ 32" and "num_ands (gates p) < INT_MAX"
  obtains lv d where "length lv = num_wires p" and "\<forall>g \<in> set (gates p). lv ! out g = level_of g lv \<and> lv ! out g \<le> d"
    and "\<forall>i < num_inputs p. lv ! i = 0"
    and "make_scheduled_plan p = Inr \<lparr>bucket = map (\<lambda>l. filter (\<lambda>i. lv ! out (gates p ! i) = l) [0..<length (gates p)]) [0..<d + 1],
      plan_depth = d, plan_num_inputs = num_inputs p, plan_num_wires = num_wires p,
      plan_num_gates = length (gates p), plan_digest = digest_program p\<rparr>"
proof -
  note S = schedule_pass_ok [OF assms]
  have "level_bucket p (and_depths p) (\<lambda>_. True) = (\<lambda>l. filter (\<lambda>i. and_depths p ! out (gates p ! i) = l) [0..<length (gates p)])"
    by (simp add: level_bucket_def fun_eq_iff)
  then show thesis
    using S(1,2) by (intro that [OF S(3-5)]) (simp add: make_scheduled_plan_def del: upt_Suc replicate_Suc)
qed

section \<open>Contexts without state\<close>

definition gate_value ::
  "(bool \<Rightarrow> 'w) \<Rightarrow> ('w \<Rightarrow> 'w \<Rightarrow> 'w) \<Rightarrow> ('w \<Rightarrow> 'w \<Rightarrow> 'w) \<Rightarrow> ('w \<Rightarrow> 'w) \<Rightarrow> Gate \<Rightarrow> 'w list \<Rightarrow> 'w" where
  "gate_value pub fand fxor fnot g w =
     (case op g of
        OpAnd \<Rightarrow> fand (w ! in0 g) (w ! in1 g)
      | OpXor \<Rightarrow> fxor (w ! in0 g) (w ! in1 g)
      | OpNot \<Rightarrow> fnot (w ! in0 g)
      | OpConst0 \<Rightarrow> pub False
      | _ \<Rightarrow> pub True)"

text \<open>\<open>settled gs ni lv W l w\<close>: in \<open>w\<close> the inputs and the gates below level \<open>l\<close> hold their final values \<open>W\<close>.\<close>

definition settled :: "Gate list \<Rightarrow> nat \<Rightarrow> nat list \<Rightarrow> 'w list \<Rightarrow> nat \<Rightarrow> 'w list \<Rightarrow> bool" where
  "settled gs ni lv W l w \<longleftrightarrow> length w = length W \<and> (\<forall>i < ni. w ! i = W ! i) \<and>
     (\<forall>g \<in> set gs. lv ! out g < l \<longrightarrow> w ! out g = W ! out g)"

lemma scatter:
  assumes "\<forall>g \<in> set as. out g < length w"
  shows "\<exists>w'. fold_gm (\<lambda>(i, x) w. wr w i x) (zip (map out as) (map (\<lambda>g. W ! out g) as)) w = (ret w' :: ('s, _) gm) \<and>
    length w' = length w \<and> (\<forall>x. w' ! x = (if x \<in> out ` set as then W ! x else w ! x))"
  using assms
proof (induction as arbitrary: w)
  case (Cons g as)
  from Cons.IH [of "w[out g := W ! out g]"] Cons.prems show ?case by (auto simp: nth_list_update)
qed simp

lemma linear_operands:
  assumes "wf_gates True ni NW {..<ni} gs" and "m < length gs" and "\<not> is_and (gs ! m)"
    and "lv ! out (gs ! m) = level_of (gs ! m) lv" and "settled gs ni lv W (lv ! out (gs ! m)) v"
    and "\<forall>j < m. lv ! out (gs ! j) = lv ! out (gs ! m) \<longrightarrow> v ! out (gs ! j) = W ! out (gs ! j)"
  shows "\<forall>r \<in> set (reads (gs ! m)). v ! r = W ! r"
proof
  fix r
  assume r: "r \<in> set (reads (gs ! m))"
  from wf_gates_reads [OF assms(1,2) r] show "v ! r = W ! r"
  proof
    assume "\<exists>j < m. r = out (gs ! j)"
    then obtain j where j: "j < m" "r = out (gs ! j)" by auto
    have "lv ! r \<le> lv ! out (gs ! m)"
      using r assms(3,4) by (auto simp: level_of_def reads_def op_tests split: Op.splits)
    then show ?thesis using assms(2,5,6) j by (cases "lv ! r = lv ! out (gs ! m)") (auto simp: settled_def)
  qed (use assms(5) in \<open>auto simp: settled_def\<close>)
qed

lemma and_operands:
  assumes "wf_gates True ni NW {..<ni} gs" and "g \<in> set gs" and "is_and g"
    and "lv ! out g = level_of g lv" and "settled gs ni lv W (lv ! out g) v"
  shows "v ! in0 g = W ! in0 g" and "v ! in1 g = W ! in1 g"
proof -
  from assms(2) obtain m where m: "m < length gs" "g = gs ! m" by (auto simp: in_set_conv_nth)
  have "v ! r = W ! r" if r: "r \<in> set (reads g)" for r
  proof -
    have "lv ! r < lv ! out g" using r assms(3,4) by (auto simp: level_of_def reads_def op_tests split: Op.splits)
    then show ?thesis using wf_gates_reads [OF assms(1) m(1), of r] r m assms(5) by (auto simp: settled_def)
  qed
  then show "v ! in0 g = W ! in0 g" and "v ! in1 g = W ! in1 g" using assms(3) by (auto simp: reads_def op_tests)
qed

locale pure_bulk =
  fixes C :: "('s, 'w) bulk_ctx" and pub :: "bool \<Rightarrow> 'w" and fand fxor :: "'w \<Rightarrow> 'w \<Rightarrow> 'w" and fnot :: "'w \<Rightarrow> 'w"
  assumes public_pure: "public_bit C v = ret (pub v)"
    and and_pure: "and_gate C a b = ret (fand a b)"
    and xor_pure: "xor_gate C a b = ret (fxor a b)"
    and not_pure: "not_gate C a = ret (fnot a)"
    and many_pure: "length as = length bs \<Longrightarrow> and_many C as bs = ret (map2 fand as bs)"
begin

abbreviation value_of :: "Gate \<Rightarrow> 'w list \<Rightarrow> 'w" where
  "value_of \<equiv> gate_value pub fand fxor fnot"

lemma local_value_of: "local value_of"
  by (auto simp: local_def gate_value_def reads_def split: Op.splits)

lemma run_gates_pure: "\<forall>g \<in> set gs. canonical g \<Longrightarrow> run_gates C gs w = ret (ssa_fold value_of gs w)"
proof (induction gs arbitrary: w)
  case (Cons g gs)
  then have "gate_out C g w = ret (value_of g w)"
    by (auto simp: gate_out_def gate_value_def canonical_def public_pure and_pure xor_pure not_pure split: Op.splits)
  with Cons show ?case by simp
qed simp

text \<open>The linear part of a level, when every operand of its gates already holds its final value.\<close>

lemma linear_gate_pure:
  assumes "canonical g" and "\<not> is_and g" and "out g < length w" and "\<forall>r \<in> set (reads g). r < length w"
  shows "linear_gate C g w = ret (w[out g := value_of g w])"
  using assms
  by (auto simp: linear_gate_def gate_value_def canonical_def reads_def op_tests public_pure xor_pure not_pure split: Op.splits)

lemma gather_ands_pure:
  assumes "\<forall>i \<in> set bk. i < length gs \<and> (\<forall>r \<in> set (reads (gs ! i)). r < length w)"
  shows "gather_ands gs bk w =
    (let as = map ((!) gs) (filter (\<lambda>i. is_and (gs ! i)) bk) in
     ret (map (\<lambda>g. w ! in0 g) as, map (\<lambda>g. w ! in1 g) as, map out as))"
proof -
  have "fold_gm (\<lambda>gi (ba, bb, bouts). bind (rd gs gi) (\<lambda>g.
        if is_and g then bind (rd w (in0 g)) (\<lambda>a. bind (rd w (in1 g)) (\<lambda>b. ret (ba @ [a], bb @ [b], bouts @ [out g])))
        else ret (ba, bb, bouts))) bk (xs, ys, zs) =
      (let as = map ((!) gs) (filter (\<lambda>i. is_and (gs ! i)) bk) in
       ret (xs @ map (\<lambda>g. w ! in0 g) as, ys @ map (\<lambda>g. w ! in1 g) as, zs @ map out as))" for xs ys zs
    using assms
  proof (induction bk arbitrary: xs ys zs)
    case (Cons i bk)
    then show ?case by (auto simp: Let_def reads_def op_tests)
  qed simp
  from this [of "[]" "[]" "[]"] show ?thesis by (simp add: gather_ands_def)
qed

lemma run_linear_pure:
  assumes wf: "wf_gates True ni NW {..<ni} gs" and NW: "ni \<le> NW" "NW \<le> length W" "length w = length W"
    and W: "\<forall>g \<in> set gs. W ! out g = value_of g W" and lv: "\<forall>g \<in> set gs. lv ! out g = level_of g lv"
    and w: "settled gs ni lv W l w" and ands: "\<forall>g \<in> set gs. is_and g \<and> lv ! out g = l \<longrightarrow> w ! out g = W ! out g"
    and m: "m \<le> length gs"
  shows "\<exists>w'. fold_gm (\<lambda>gi w. bind (rd gs gi) (\<lambda>g. linear_gate C g w)) (filter (\<lambda>i. lv ! out (gs ! i) = l) [0..<m]) w = ret w' \<and>
    settled gs ni lv W l w' \<and> (\<forall>g \<in> set gs. is_and g \<and> lv ! out g = l \<longrightarrow> w' ! out g = W ! out g) \<and>
    (\<forall>j < m. lv ! out (gs ! j) = l \<longrightarrow> w' ! out (gs ! j) = W ! out (gs ! j))"
  using m
proof (induction m)
  case 0
  then show ?case using w ands by auto
next
  case (Suc m)
  let ?F = "\<lambda>n. filter (\<lambda>i. lv ! out (gs ! i) = l) [0..<n]" and ?g = "gs ! m"
  obtain v where v: "fold_gm (\<lambda>gi w. bind (rd gs gi) (\<lambda>g. linear_gate C g w)) (?F m) w = ret v" "settled gs ni lv W l v"
    "\<forall>g \<in> set gs. is_and g \<and> lv ! out g = l \<longrightarrow> v ! out g = W ! out g"
    "\<forall>j < m. lv ! out (gs ! j) = l \<longrightarrow> v ! out (gs ! j) = W ! out (gs ! j)"
    using Suc by auto
  show ?case
  proof (cases "lv ! out ?g = l")
    case False
    then show ?thesis using v by (auto simp: less_Suc_eq)
  next
    case l: True
    have g: "?g \<in> set gs" "m < length gs" using Suc.prems by auto
    have step: "fold_gm (\<lambda>gi w. bind (rd gs gi) (\<lambda>g. linear_gate C g w)) (?F (Suc m)) w = linear_gate C ?g v"
      using l v(1) g(2) by (simp add: fold_gm_append)
    show ?thesis
    proof (cases "is_and ?g")
      case True
      then have "linear_gate C ?g v = ret v" by (simp add: linear_gate_def op_tests)
      then show ?thesis using step v True l g by (auto simp: less_Suc_eq)
    next
      case False
      have gate: "canonical ?g" "ni \<le> out ?g" "out ?g < length v" "\<forall>r \<in> set (reads ?g). r < length v"
        using gate_bounds [OF wf NW(1,2)] g(1) v(2) by (auto simp: settled_def)
      have "\<forall>r \<in> set (reads ?g). v ! r = W ! r"
        using linear_operands [OF wf g(2) False, of lv W v] v(2,4) lv g(1) l by auto
      then have "value_of ?g v = W ! out ?g" using W g(1) localD [OF local_value_of] by metis
      then have "linear_gate C ?g v = ret (v[out ?g := W ! out ?g])" using linear_gate_pure [OF gate(1) False gate(3,4)] by simp
      then show ?thesis using step v gate(2,3) by (auto simp: settled_def nth_list_update less_Suc_eq)
    qed
  qed
qed

lemma run_level_pure:
  assumes wf: "wf_gates True ni NW {..<ni} gs" and NW: "ni \<le> NW" "NW \<le> length W"
    and W: "\<forall>g \<in> set gs. W ! out g = value_of g W" and lv: "\<forall>g \<in> set gs. lv ! out g = level_of g lv"
    and w: "settled gs ni lv W l w"
  shows "\<exists>w'. run_level C gs (filter (\<lambda>i. lv ! out (gs ! i) = l) [0..<length gs]) w = ret w' \<and> settled gs ni lv W (Suc l) w'"
proof -
  let ?bk = "filter (\<lambda>i. lv ! out (gs ! i) = l) [0..<length gs]"
  define as where "as = map ((!) gs) (filter (\<lambda>i. is_and (gs ! i)) ?bk)"
  have as: "g \<in> set as \<longleftrightarrow> g \<in> set gs \<and> is_and g \<and> lv ! out g = l" for g
    by (auto simp: as_def in_set_conv_nth)
  have len: "length w = length W" using w by (simp add: settled_def)
  have range: "\<forall>g \<in> set gs. ni \<le> out g \<and> out g < length w \<and> (\<forall>r \<in> set (reads g). r < length w)"
    using gate_bounds [OF wf NW] len by simp
  then have "\<forall>i \<in> set ?bk. i < length gs \<and> (\<forall>r \<in> set (reads (gs ! i)). r < length w)" by auto
  from gather_ands_pure [OF this]
  have gather: "gather_ands gs ?bk w = (ret (map (\<lambda>g. w ! in0 g) as, map (\<lambda>g. w ! in1 g) as, map out as) :: ('s, _) gm)"
    by (simp add: as_def Let_def)
  have vals: "map2 fand (map (\<lambda>g. w ! in0 g) as) (map (\<lambda>g. w ! in1 g) as) = map (\<lambda>g. W ! out g) as"
  proof -
    have "fand (w ! in0 g) (w ! in1 g) = W ! out g" if "g \<in> set as" for g
      using and_operands [OF wf, of g lv W w] as that lv w W by (auto simp: gate_value_def op_tests)
    then show ?thesis by (simp add: map2_map_map)
  qed
  from scatter [of as w W] range as obtain w1 where w1:
    "fold_gm (\<lambda>(i, x) w. wr w i x) (zip (map out as) (map (\<lambda>g. W ! out g) as)) w = (ret w1 :: ('s, _) gm)"
    "length w1 = length w" "\<forall>x. w1 ! x = (if x \<in> out ` set as then W ! x else w ! x)" by auto
  have s1: "settled gs ni lv W l w1" using w w1(2,3) by (auto simp: settled_def)
  have "\<forall>g \<in> set gs. is_and g \<and> lv ! out g = l \<longrightarrow> w1 ! out g = W ! out g" using w1(3) as by auto
  from run_linear_pure [OF wf NW _ W lv s1 this order.refl] w1(2) len obtain w2 where w2:
    "fold_gm (\<lambda>gi w. bind (rd gs gi) (\<lambda>g. linear_gate C g w)) ?bk w1 = ret w2" "settled gs ni lv W l w2"
    "\<forall>j < length gs. lv ! out (gs ! j) = l \<longrightarrow> w2 ! out (gs ! j) = W ! out (gs ! j)" by auto
  have "run_level C gs ?bk w = ret w2"
  proof (cases "as = []")
    case True
    with w1(1) have "w1 = w" by simp
    with w2(1) True show ?thesis unfolding run_level_def gather by simp
  next
    case False
    with w1(1) w2(1) show ?thesis unfolding run_level_def gather by (simp add: many_pure vals)
  qed
  moreover have "settled gs ni lv W (Suc l) w2"
    using w2(2,3) by (auto simp: settled_def less_Suc_eq in_set_conv_nth)
  ultimately show ?thesis by blast
qed

lemma run_levels_pure:
  assumes wf: "wf_gates True ni NW {..<ni} gs" and NW: "ni \<le> NW" "NW \<le> length W"
    and W: "\<forall>g \<in> set gs. W ! out g = value_of g W" and lv: "\<forall>g \<in> set gs. lv ! out g = level_of g lv"
    and w: "settled gs ni lv W 0 w" and n: "n \<le> d"
  shows "\<exists>w'. fold_gm (\<lambda>l w. bind (rd (map (\<lambda>l. filter (\<lambda>i. lv ! out (gs ! i) = l) [0..<length gs]) [0..<d]) l) (\<lambda>b. run_level C gs b w))
      [0..<n] w = ret w' \<and> settled gs ni lv W n w'"
  using n
proof (induction n)
  case (Suc n)
  then obtain v where v: "fold_gm (\<lambda>l w. bind (rd (map (\<lambda>l. filter (\<lambda>i. lv ! out (gs ! i) = l) [0..<length gs]) [0..<d]) l) (\<lambda>b. run_level C gs b w))
      [0..<n] w = ret v" "settled gs ni lv W n v" by auto
  from run_level_pure [OF wf NW W lv v(2)] Suc.prems show ?case by (auto simp: fold_gm_append v(1))
qed (use w in simp)

text \<open>Replay by levels returns the outputs of the scalar replay.\<close>

lemma scheduled_pure:
  assumes wf: "wf_program p" and dense: "wire_reuse p = ReuseNone" and u32: "num_wires p < 2 ^ 32"
    and ands: "num_ands (gates p) < INT_MAX" and plan: "make_scheduled_plan p = Inr plan" and len: "length inputs = num_inputs p"
  shows "\<exists>os w w'. scheduled_execute_program debug C p plan inputs scratch = ret (os, w) \<and>
    execute_program_ws C p inputs scratch = ret (os, w')"
proof -
  have wfg: "wf_gates True (num_inputs p) (num_wires p) {..<num_inputs p} (gates p)" and le: "num_inputs p \<le> num_wires p"
    and outs: "set (outputs p) \<subseteq> {..<num_inputs p} \<union> out ` set (gates p)"
    using wf dense by (simp_all add: wf_program_def)
  have A: "{..<num_inputs p} \<subseteq> {..<num_wires p}" using le by auto
  let ?w = "inputs @ drop (length inputs) (ensure (wire_init C) (num_wires p) scratch)"
  define W where "W = ssa_fold value_of (gates p) ?w"
  have lenW: "length W = length ?w" "num_wires p \<le> length ?w" using le len by (simp_all add: W_def)
  note fp = ssa_fold_fixpoint [OF local_value_of wfg A lenW(2), folded W_def]
  obtain lv d where lv: "length lv = num_wires p" "\<forall>g \<in> set (gates p). lv ! out g = level_of g lv \<and> lv ! out g \<le> d"
    and p: "plan = \<lparr>bucket = map (\<lambda>l. filter (\<lambda>i. lv ! out (gates p ! i) = l) [0..<length (gates p)]) [0..<d + 1],
      plan_depth = d, plan_num_inputs = num_inputs p, plan_num_wires = num_wires p,
      plan_num_gates = length (gates p), plan_digest = digest_program p\<rparr>"
    using make_scheduled_plan_ok [OF wf dense u32 ands] plan by (metis sum.inject(2))
  have s0: "settled (gates p) (num_inputs p) lv W 0 ?w" using fp(1) lenW(1) by (auto simp: settled_def)
  obtain w where w: "fold_gm (\<lambda>l w. bind (rd (bucket plan) l) (\<lambda>b. run_level C (gates p) b w)) [0..<d + 1] ?w = ret w"
    "settled (gates p) (num_inputs p) lv W (d + 1) w"
    using run_levels_pure [OF wfg le _ fp(2) _ s0 order.refl, of "d + 1"] lenW lv(2) unfolding p by (auto simp del: upt_Suc)
  have "\<forall>i \<in> set (outputs p). w ! i = W ! i" using outs w(2) lv(2) by (fastforce simp: settled_def less_Suc_eq_le)
  then have os: "map ((!) w) (outputs p) = map ((!) W) (outputs p)" by simp
  have bound: "\<forall>i \<in> set (outputs p). i < length w"
    using outs gate_bounds [OF wfg le order.refl] w(2) lenW le by (fastforce simp: settled_def)
  have "scheduled_execute_program debug C p plan inputs scratch = ret (map ((!) W) (outputs p), w)"
    using w(1) dense len le bound os
    by (simp add: scheduled_execute_program_def p Let_def read_slots_def le_max_iff_disj del: upt_Suc)
  moreover have "execute_program_ws C p inputs scratch = ret (map ((!) W) (outputs p), W)"
    using execute_program_ws_run [OF wf len, of C scratch] gate_bounds [OF wfg le order.refl]
    by (simp add: run_gates_pure W_def)
  ultimately show ?thesis by blast
qed

end

interpretation pure_bool: pure_bulk bool_ctx "\<lambda>v. v" "(\<and>)" "(\<noteq>)" Not
  by unfold_locales (simp_all add: map2_gm_ret bool_ctx_def)

interpretation pure_clear: pure_bulk ClearCtx "\<lambda>v. if v then 1 else 0" "(AND)" "(XOR)" "\<lambda>a. a XOR 1"
  by unfold_locales (simp_all add: map2_gm_ret ClearCtx_def)

section \<open>Scheduled replay agrees with scalar replay\<close>

text \<open>
  (C9) For a validated dense program whose wire ids fit 32 bits and which has fewer than \<open>2 ^ 31 - 1\<close> AND
  gates (so that the source's signed AND-depths cannot overflow), a plan is always built. Replay by that
  plan, on plaintext and from any input bytes and scratch buffer, returns (no error, no access outside a
  buffer, with and without the debug check) exactly the outputs of the scalar replay. The same plan used
  with a program of another shape is rejected before any gate runs, and so is, in a debug build, one
  whose digest differs.
\<close>

theorem scheduled_replay_correct:
  assumes "validate_program p = Inr ()" and "wire_reuse p = ReuseNone" and "num_wires p < 2 ^ 32"
    and "length (filter is_and (gates p)) < 2 ^ 31 - 1"
  shows "\<exists>plan. make_scheduled_plan p = Inr plan \<and>
    (\<forall>debug inputs scratch. length inputs = num_inputs p \<longrightarrow>
      (\<exists>os. replay_result (scheduled_execute_program debug ClearCtx p plan inputs scratch) () = Some (os, ()) \<and>
            replay_result (execute_program_ws ClearCtx p inputs scratch) () = Some (os, ()))) \<and>
    (\<forall>q debug inputs scratch. wire_reuse q = ReuseNone \<longrightarrow> length inputs = num_inputs q \<longrightarrow>
      (num_inputs q, num_wires q, length (gates q)) \<noteq> (num_inputs p, num_wires p, length (gates p)) \<or>
      debug \<and> digest_program q \<noteq> digest_program p \<longrightarrow>
      scheduled_execute_program debug ClearCtx q plan inputs scratch () = Inl StalePlan)"
proof -
  have wf: "wf_program p" using assms(1) by (simp add: validate_wf)
  have ands: "num_ands (gates p) < INT_MAX" using assms(4) by (simp add: INT_MAX_def)
  obtain plan where plan: "make_scheduled_plan p = Inr plan" and
    id: "plan_num_inputs plan = num_inputs p" "plan_num_wires plan = num_wires p"
      "plan_num_gates plan = length (gates p)" "plan_digest plan = digest_program p"
    using make_scheduled_plan_ok [OF wf assms(2,3) ands] by force
  have "\<exists>os. replay_result (scheduled_execute_program debug ClearCtx p plan inputs scratch) () = Some (os, ()) \<and>
            replay_result (execute_program_ws ClearCtx p inputs scratch) () = Some (os, ())"
    if "length inputs = num_inputs p" for debug inputs scratch
    using pure_clear.scheduled_pure [OF wf assms(2,3) ands plan that, of debug scratch]
    by (auto simp: replay_result_def ret_def)
  moreover have "scheduled_execute_program debug ClearCtx q plan inputs scratch () = Inl StalePlan"
    if "wire_reuse q = ReuseNone" "length inputs = num_inputs q"
      "(num_inputs q, num_wires q, length (gates q)) \<noteq> (num_inputs p, num_wires p, length (gates p)) \<or>
       debug \<and> digest_program q \<noteq> digest_program p" for q debug inputs scratch
    using that by (auto simp: scheduled_execute_program_def id check_def fail_def)
  ultimately show ?thesis using plan by blast
qed

theorem scheduled_replay_correct_witness:
  "\<exists>plan. make_scheduled_plan half_adder = Inr plan \<and>
    (\<exists>os. replay_result (scheduled_execute_program True ClearCtx half_adder plan [1, 1] [9]) () = Some (os, ()) \<and>
          replay_result (execute_program_ws ClearCtx half_adder [1, 1] [9]) () = Some (os, ()))"
proof -
  have dense: "wire_reuse half_adder = ReuseNone" "num_wires half_adder < 2 ^ 32"
      "length (filter is_and (gates half_adder)) < 2 ^ 31 - 1"
    and len: "length [1, 1 :: 8 word] = num_inputs half_adder" by (simp_all add: half_adder_def op_tests)
  from scheduled_replay_correct [OF validate_half_adder dense] len show ?thesis by blast
qed

end
