(* ===== verification/Analysis.thy ===== *)
theory Analysis
  imports Schedule Transform
begin

text \<open>
  \<open>ir/analysis.h\<close>: the scalar statistics of a program. \<open>analyze_program\<close> validates, expands a compacted
  program, runs the four passes and reduces their vectors: the AND-depth and the widest AND level, the
  peak number of live wires, the reachable part and the largest fanout. The counters are \<open>uint64_t\<close>; the
  release of a wire is a wrapping decrement, so that the absence of an underflow is part of what is shown.

  The lemmas relate each reduction to a set-level definition: \<open>live\<close> (the wires that hold a value some
  later gate or an output needs), \<open>and_depths\<close>, \<open>fanout_of\<close> and \<open>reachable\<close> (the closure that the layout
  pass computes with its worklist).
\<close>

section \<open>The statistics\<close>

record ProgramStats =
  st_wire_reuse :: WireReuse
  st_num_inputs :: nat
  st_num_outputs :: nat
  st_stored_num_wires :: nat
  st_dense_num_wires :: nat
  st_num_gates :: nat
  st_num_and :: nat
  st_num_xor :: nat
  st_num_not :: nat
  st_num_const :: nat
  st_and_depth :: nat
  st_max_and_per_level :: nat
  st_reachable_wires :: nat
  st_reachable_gates :: nat
  st_reachable_and :: nat
  st_peak_live_wires :: nat
  st_max_fanout :: nat
  st_stored_program_digest :: "64 word"
  st_dense_program_digest :: "64 word"

definition wire_reuse_name :: "WireReuse \<Rightarrow> string" where
  "wire_reuse_name r = (case r of ReuseNone \<Rightarrow> ''none'' | ReuseLinear \<Rightarrow> ''linear'' | ReuseFull \<Rightarrow> ''full'')"

definition u64_dec :: "nat \<Rightarrow> nat" where
  "u64_dec n = (n + (2 ^ 64 - 1)) mod 2 ^ 64"

primrec mark_outputs :: "nat list \<Rightarrow> bool list \<Rightarrow> bool list res" where
  "mark_outputs [] bm = Inr bm"
| "mark_outputs (w # ws) bm = res_bind (put w True bm) (mark_outputs ws)"

primrec count_live_inputs :: "int list \<Rightarrow> bool list \<Rightarrow> nat list \<Rightarrow> nat \<Rightarrow> nat res" where
  "count_live_inputs lu is_output [] active = Inr active"
| "count_live_inputs lu is_output (w # ws) active =
     res_bind (get lu w) (\<lambda>l. res_bind (get is_output w) (\<lambda>o'.
     count_live_inputs lu is_output ws (if 0 \<le> l \<or> o' then u64_inc active else active)))"

definition release :: "int list \<Rightarrow> bool list \<Rightarrow> nat \<Rightarrow> nat \<Rightarrow> nat \<Rightarrow> nat res" where
  "release lu is_output gi w active =
     res_bind (get is_output w) (\<lambda>o'. if o' then Inr active
     else res_bind (get lu w) (\<lambda>l. Inr (if l = int gi then u64_dec active else active)))"

definition peak_gate :: "int list \<Rightarrow> bool list \<Rightarrow> nat \<Rightarrow> Gate \<Rightarrow> nat \<times> nat \<Rightarrow> (nat \<times> nat) res" where
  "peak_gate lu is_output gi g ap =
     (case ap of (active, peak) \<Rightarrow>
        res_bind (get lu (out g)) (\<lambda>l. res_bind (get is_output (out g)) (\<lambda>o'.
        let peak' = max peak (u64_inc active);
            active' = (if 0 \<le> l \<or> o' then u64_inc active else active) in
        res_bind (if is_const g then Inr active' else release lu is_output gi (in0 g) active') (\<lambda>a.
        res_bind (if \<not> is_const g \<and> \<not> is_not g \<and> in1 g \<noteq> in0 g then release lu is_output gi (in1 g) a else Inr a)
          (\<lambda>a'. Inr (a', peak'))))))"

primrec peak_loop :: "int list \<Rightarrow> bool list \<Rightarrow> nat \<Rightarrow> Gate list \<Rightarrow> nat \<times> nat \<Rightarrow> (nat \<times> nat) res" where
  "peak_loop lu is_output gi [] ap = Inr ap"
| "peak_loop lu is_output gi (g # gs) ap =
     res_bind (peak_gate lu is_output gi g ap) (peak_loop lu is_output (Suc gi) gs)"

definition peak_live_wires :: "BooleanProgram \<Rightarrow> LivenessStats \<Rightarrow> nat res" where
  "peak_live_wires dense live =
     res_bind (mark_outputs (outputs dense) (replicate (num_wires dense) False)) (\<lambda>is_output.
     res_bind (count_live_inputs (last_use live) is_output [0..<num_inputs dense] 0) (\<lambda>active.
     res_bind (peak_loop (last_use live) is_output 0 (gates dense) (active, active)) (\<lambda>(a, peak). Inr peak)))"

primrec fanout_loop :: "Gate list \<Rightarrow> nat list \<Rightarrow> nat list res" where
  "fanout_loop [] fo = Inr fo"
| "fanout_loop (g # gs) fo =
     (if is_const g then fanout_loop gs fo
      else res_bind (get fo (in0 g)) (\<lambda>n. res_bind (put (in0 g) (u64_inc n) fo) (\<lambda>fo'.
           if is_not g then fanout_loop gs fo'
           else res_bind (get fo' (in1 g)) (\<lambda>n'. res_bind (put (in1 g) (u64_inc n') fo') (fanout_loop gs)))))"

definition analyze_program :: "BooleanProgram \<Rightarrow> ProgramStats res" where
  "analyze_program stored =
     res_then (validate_program stored)
     (res_bind (if wire_reuse stored \<noteq> ReuseNone then uncompact stored else Inr stored) (\<lambda>dense.
      let count = count_pass dense in
      res_bind (liveness_pass dense) (\<lambda>live.
      res_bind (schedule_pass dense) (\<lambda>schedule.
      res_bind (layout_pass dense live) (\<lambda>layout.
      res_bind (peak_live_wires dense live) (\<lambda>peak.
      res_bind (fanout_loop (gates dense) (replicate (num_wires dense) 0)) (\<lambda>fanout.
      Inr \<lparr>st_wire_reuse = wire_reuse stored, st_num_inputs = num_inputs stored,
           st_num_outputs = length (outputs stored), st_stored_num_wires = num_wires stored,
           st_dense_num_wires = num_wires dense, st_num_gates = cs_num_gate count,
           st_num_and = num_and count, st_num_xor = num_xor count, st_num_not = num_not count,
           st_num_const = num_const count, st_and_depth = depth schedule,
           st_max_and_per_level = fold (\<lambda>level n. max n (length level)) (and_gate_indices schedule) 0,
           st_reachable_wires = reachable_wire layout, st_reachable_gates = reachable_gate layout,
           st_reachable_and = reachable_and layout, st_peak_live_wires = peak,
           st_max_fanout = fold (\<lambda>n m. max m n) fanout 0,
           st_stored_program_digest = digest_program stored,
           st_dense_program_digest = digest_program dense\<rparr>)))))))"

section \<open>Counts and maxima\<close>

lemma count_fold:
  "num_and (fold count_gate gs s) = num_and s + length (filter is_and gs)"
  "num_xor (fold count_gate gs s) = num_xor s + length (filter is_xor gs)"
  "num_not (fold count_gate gs s) = num_not s + length (filter is_not gs)"
  "num_const (fold count_gate gs s) = num_const s + length (filter is_const gs)"
  "cs_num_gate (fold count_gate gs s) = cs_num_gate s"
  by (induction gs arbitrary: s) (auto simp: count_gate_def op_tests split: Op.split)

lemma fold_max: "fold (\<lambda>x m. max m (f x)) xs n = Max (insert (n :: nat) (f ` set xs))"
proof (induction xs arbitrary: n)
  case (Cons x xs)
  then show ?case by (cases "xs = []") (simp_all add: Max_insert max.left_commute max.assoc)
qed simp

section \<open>The peak of live wires\<close>

text \<open>The wires that hold a value before gate \<open>k\<close>, and those of them that are still needed.\<close>

definition defined_before :: "BooleanProgram \<Rightarrow> nat \<Rightarrow> nat set" where
  "defined_before p k = {..<num_inputs p} \<union> out ` set (take k (gates p))"

definition live :: "BooleanProgram \<Rightarrow> nat \<Rightarrow> nat set" where
  "live p k = {w \<in> defined_before p k. w \<in> set (outputs p) \<or> (\<exists>g \<in> set (drop k (gates p)). w \<in> set (reads g))}"

lemma mark_outputs_ok:
  "\<forall>w \<in> set ws. w < length bm \<Longrightarrow> mark_outputs ws bm = Inr (mark_all ws bm)"
  unfolding mark_all_def by (induction ws arbitrary: bm) simp_all

lemma u64_inc_dec: "n < 2 ^ 63 \<Longrightarrow> u64_inc n = Suc n" "0 < n \<Longrightarrow> n < 2 ^ 63 \<Longrightarrow> u64_dec n = n - 1"
  by (simp_all add: u64_inc_def u64_dec_def mod_if)

lemma release_ok:
  assumes "w < length lu" and "w < length os" and "\<not> os ! w \<and> lu ! w = int k \<Longrightarrow> 0 < a" and "a < 2 ^ 63"
  shows "release lu os k w a = Inr (a - of_bool (\<not> os ! w \<and> lu ! w = int k))"
  using assms by (simp add: release_def u64_inc_dec)

text \<open>One gate of the loop moves \<open>active\<close> from the size of one live set to that of the next.\<close>

lemma peak_gate_ok:
  assumes fin: "finite A" and big: "Suc (card A) < 2 ^ 63"
    and lens: "length lu = NW" "length os = NW" and g: "in_range NW g"
    and rd: "set (reads g) \<subseteq> A" and new: "out g \<notin> A"
    and now: "\<forall>w \<in> set (reads g). int k \<le> lu ! w"
    and later: "lu ! out g < 0 \<or> int k < lu ! out g" and hit: "\<forall>w \<in> A. lu ! w = int k \<longrightarrow> w \<in> set (reads g)"
  shows "peak_gate lu os k g (card (alive lu os k A), pk) =
    Inr (card (alive lu os (Suc k) (insert (out g) A)), max pk (Suc (card (alive lu os k A))))"
proof -
  let ?L = "alive lu os k A" and ?K = "{w. w = out g \<and> (os ! w \<or> 0 \<le> lu ! w)}"
  define R where "R = {w \<in> set (reads g). \<not> os ! w \<and> lu ! w = int k}"
  have RL: "R \<subseteq> ?L" using rd by (auto simp: R_def alive_def)
  have finL: "finite ?L" using fin by (simp add: alive_def)
  have cL: "card ?L \<le> card A" by (rule card_mono [OF fin]) (auto simp: alive_def)
  have K: "card ?K = of_bool (0 \<le> lu ! out g \<or> os ! out g)" by (auto simp: card_1_singleton_iff)
  have fK: "finite ?K" by (rule finite_subset [of _ "{out g}"]) auto
  have "alive lu os (Suc k) (insert (out g) A) = (?L - R) \<union> ?K"
  proof (rule set_eqI)
    fix w
    show "w \<in> alive lu os (Suc k) (insert (out g) A) \<longleftrightarrow> w \<in> (?L - R) \<union> ?K"
    proof (cases "w = out g")
      case True
      with later new show ?thesis by (auto simp: alive_def)
    next
      case False
      then show ?thesis using hit by (auto simp: alive_def R_def)
    qed
  qed
  moreover have "(?L - R) \<inter> ?K = {}" using new by (auto simp: alive_def)
  ultimately have L': "card (alive lu os (Suc k) (insert (out g) A)) = card ?L - card R + card ?K"
    using finL fK RL by (simp add: card_Un_disjoint card_Diff_subset finite_subset [OF RL])
  have two: "card R = (if in0 g = in1 g then 0 else of_bool (in1 g \<in> R)) + of_bool (in0 g \<in> R)" if "op g \<in> {OpAnd, OpXor}"
  proof -
    have "R = (if in0 g \<in> R then {in0 g} else {}) \<union> (if in1 g \<in> R then {in1 g} else {})"
      using that by (auto simp: R_def reads_def)
    then show ?thesis by (auto split: if_splits)
  qed
  have cR: "card R \<le> card ?L" by (rule card_mono [OF finL RL])
  have step: "peak_gate lu os k g (card ?L, pk) =
      res_bind (if is_const g then Inr (card ?L + card ?K) else release lu os k (in0 g) (card ?L + card ?K)) (\<lambda>a.
      res_bind (if \<not> is_const g \<and> \<not> is_not g \<and> in1 g \<noteq> in0 g then release lu os k (in1 g) a else Inr a)
        (\<lambda>a'. Inr (a', max pk (Suc (card ?L)))))"
    using lens g big cL K by (simp add: peak_gate_def in_range_def u64_inc_dec Let_def)
  have mem: "w \<in> R \<longleftrightarrow> \<not> os ! w \<and> lu ! w = int k" if "w \<in> set (reads g)" for w using that by (simp add: R_def)
  show ?thesis
  proof (cases "op g \<in> {OpAnd, OpXor}")
    case True
    then have r: "in0 g \<in> set (reads g)" "in1 g \<in> set (reads g)" and t: "\<not> is_const g" "\<not> is_not g"
      by (auto simp: reads_def op_tests)
    have b: "in0 g < length lu" "in1 g < length lu" using r g lens by (auto simp: in_range_def)
    have r0: "release lu os k (in0 g) (card ?L + card ?K) = Inr (card ?L + card ?K - of_bool (in0 g \<in> R))"
      using two [OF True] cR b lens cL big K mem [OF r(1)] by (subst release_ok) (auto split: if_splits)
    have r1: "release lu os k (in1 g) (card ?L + card ?K - of_bool (in0 g \<in> R)) =
        Inr (card ?L + card ?K - of_bool (in0 g \<in> R) - of_bool (in1 g \<in> R))" if "in1 g \<noteq> in0 g"
      using that two [OF True] cR b lens cL big K mem [OF r(1)] mem [OF r(2)] by (subst release_ok) (auto split: if_splits)
    from r0 r1 t two [OF True] cR show ?thesis by (cases "in1 g = in0 g") (auto simp: step L')
  next
    case False
    then consider (not) "op g = OpNot" | (const) "is_const g" using g by (auto simp: in_range_def canonical_def op_tests split: Op.splits)
    then show ?thesis
    proof cases
      case not
      then have r: "in0 g \<in> set (reads g)" "reads g = [in0 g]" and t: "\<not> is_const g" "is_not g" by (auto simp: reads_def op_tests)
      have "R = (if in0 g \<in> R then {in0 g} else {})" using r(2) by (auto simp: R_def)
      then have c: "card R = of_bool (in0 g \<in> R)" by (auto split: if_splits)
      have "release lu os k (in0 g) (card ?L + card ?K) = Inr (card ?L + card ?K - of_bool (in0 g \<in> R))"
        using c cR g r lens cL big K mem [OF r(1)] by (subst release_ok) (auto simp: in_range_def split: if_splits)
      with t c cR show ?thesis by (auto simp: step L')
    next
      case const
      then have "R = {}" by (auto simp: R_def reads_def op_tests)
      with const show ?thesis by (simp add: step L')
    qed
  qed
qed

lemma wf_gates_fresh:
  "wf_gates True ni NW A gs \<Longrightarrow> k < length gs \<Longrightarrow> out (gs ! k) \<notin> A \<union> out ` set (take k gs)"
proof (induction gs arbitrary: A k)
  case (Cons g gs)
  then show ?case using Cons.IH [of "insert (out g) A" "k - 1"] by (cases k) auto
qed simp

text \<open>What a dense program offers: its gates in range, each reading what is defined and writing something new.\<close>

lemma dense_program:
  assumes "wf_program p" and "wire_reuse p = ReuseNone"
  shows "\<And>k. k < length (gates p) \<Longrightarrow> in_range (num_wires p) (gates p ! k)"
    and "\<And>k. k < length (gates p) \<Longrightarrow> set (reads (gates p ! k)) \<subseteq> defined_before p k"
    and "\<And>k. k < length (gates p) \<Longrightarrow> out (gates p ! k) \<notin> defined_before p k"
    and "\<And>k. k < length (gates p) \<Longrightarrow> defined_before p (Suc k) = insert (out (gates p ! k)) (defined_before p k)"
    and "\<And>k. defined_before p k \<subseteq> {..<num_wires p}"
    and "set (outputs p) \<subseteq> {..<num_wires p}"
proof -
  have wf: "wf_gates True (num_inputs p) (num_wires p) {..<num_inputs p} (gates p)"
    and outs: "set (outputs p) \<subseteq> {..<num_inputs p} \<union> out ` set (gates p)" and le: "num_inputs p \<le> num_wires p"
    using assms by (simp_all add: wf_program_def)
  fix k
  show "k < length (gates p) \<Longrightarrow> in_range (num_wires p) (gates p ! k)" using wf_program_in_range [OF assms(1)] by simp
  show "set (reads (gates p ! k)) \<subseteq> defined_before p k" if "k < length (gates p)"
  proof
    fix r
    assume "r \<in> set (reads (gates p ! k))"
    from wf_gates_reads [OF wf that this] show "r \<in> defined_before p k"
    proof
      assume "\<exists>j < k. r = out (gates p ! j)"
      then obtain j where j: "j < k" "r = out (gates p ! j)" by auto
      have "gates p ! j \<in> set (take k (gates p))" using j(1) that nth_mem [of j "take k (gates p)"] by simp
      with j(2) show ?thesis by (simp add: defined_before_def)
    qed (simp add: defined_before_def)
  qed
  show "k < length (gates p) \<Longrightarrow> out (gates p ! k) \<notin> defined_before p k"
    unfolding defined_before_def by (rule wf_gates_fresh [OF wf])
  show "k < length (gates p) \<Longrightarrow> defined_before p (Suc k) = insert (out (gates p ! k)) (defined_before p k)"
    by (simp add: defined_before_def take_Suc_conv_app_nth)
  show "defined_before p k \<subseteq> {..<num_wires p}"
    using wf_program_in_range [OF assms(1)] le by (auto simp: defined_before_def in_range_def dest: in_set_takeD)
  show "set (outputs p) \<subseteq> {..<num_wires p}"
  proof -
    have "out ` set (gates p) \<subseteq> {..<num_wires p}" using wf_program_in_range [OF assms(1)] by (auto simp: in_range_def)
    with outs le show ?thesis by (meson lessThan_subset_iff subset_trans sup.bounded_iff sup.mono order_refl sup_least)
  qed
qed

lemma in_drop: "g \<in> set (drop k gs) \<longleftrightarrow> (\<exists>j. k \<le> j \<and> j < length gs \<and> gs ! j = g)"
proof
  assume "g \<in> set (drop k gs)"
  then obtain i where "i < length gs - k" "gs ! (k + i) = g" by (auto simp: in_set_conv_nth)
  then show "\<exists>j. k \<le> j \<and> j < length gs \<and> gs ! j = g" by (intro exI [of _ "k + i"]) simp
next
  assume "\<exists>j. k \<le> j \<and> j < length gs \<and> gs ! j = g"
  then obtain j where "k \<le> j" "j < length gs" "gs ! j = g" by auto
  then show "g \<in> set (drop k gs)" by (auto simp: in_set_conv_nth intro!: exI [of _ "j - k"])
qed

lemma live_alive:
  assumes wf: "wf_program p" and dense: "wire_reuse p = ReuseNone"
    and lu: "\<forall>w < num_wires p. lu ! w = last_idx (\<lambda>g. w \<in> set (reads g)) 0 (gates p) (-1)"
    and k: "k \<le> length (gates p)"
  shows "alive lu (mark_all (outputs p) (replicate (num_wires p) False)) k (defined_before p k) = live p k"
proof -
  have "int k \<le> lu ! w \<longleftrightarrow> (\<exists>g \<in> set (drop k (gates p)). w \<in> set (reads g))" if w: "w < num_wires p" for w
  proof
    assume "int k \<le> lu ! w"
    with last_idx_hit [of "\<lambda>g. w \<in> set (reads g)" "gates p" "nat (lu ! w)"] lu w
    have "nat (lu ! w) < length (gates p)" "w \<in> set (reads (gates p ! nat (lu ! w)))" "k \<le> nat (lu ! w)" by auto
    then show "\<exists>g \<in> set (drop k (gates p)). w \<in> set (reads g)"
      by (intro bexI [of _ "gates p ! nat (lu ! w)"]) (auto simp: in_drop)
  next
    assume "\<exists>g \<in> set (drop k (gates p)). w \<in> set (reads g)"
    then obtain j where "k \<le> j" "j < length (gates p)" "w \<in> set (reads (gates p ! j))"
      by (auto simp: in_drop)
    with last_idx_ge [of j "gates p" "\<lambda>g. w \<in> set (reads g)" 0 "-1"] lu w show "int k \<le> lu ! w" by simp
  qed
  with dense_program(5) [OF wf dense, of k] show ?thesis
    by (auto simp: alive_def live_def nth_mark_all)
qed

lemma peak_loop_ok:
  assumes wf: "wf_program p" and dense: "wire_reuse p = ReuseNone" and small: "num_wires p < 2 ^ 32"
    and lens: "length lu = num_wires p"
    and lu: "\<forall>w < num_wires p. lu ! w = last_idx (\<lambda>g. w \<in> set (reads g)) 0 (gates p) (-1)"
    and k: "k \<le> length (gates p)"
  shows "peak_loop lu (mark_all (outputs p) (replicate (num_wires p) False)) k (drop k (gates p)) (card (live p k), pk) =
    Inr (card (live p (length (gates p))), Max (insert pk ((\<lambda>j. Suc (card (live p j))) ` {k..<length (gates p)})))"
  using k
proof (induction arbitrary: pk rule: inc_induct)
  case (step k)
  let ?os = "mark_all (outputs p) (replicate (num_wires p) False)" and ?g = "gates p ! k"
  note D = dense_program [OF wf dense]
  have fin: "finite (defined_before p k)" by (rule finite_subset [OF D(5)]) simp
  have "card (defined_before p k) \<le> card {..<num_wires p}" by (rule card_mono [OF _ D(5)]) simp
  then have big: "Suc (card (defined_before p k)) < 2 ^ 63" using small by simp
  have rd: "w < num_wires p" if "w \<in> set (reads ?g)" for w using D(1) [OF step(2)] that by (simp add: in_range_def)
  have now: "\<forall>w \<in> set (reads ?g). int k \<le> lu ! w"
  proof
    fix w
    assume "w \<in> set (reads ?g)"
    then show "int k \<le> lu ! w" using last_idx_ge [of k "gates p" "\<lambda>g. w \<in> set (reads g)" 0 "-1"] step(2) lu rd by simp
  qed
  have hit: "\<forall>w \<in> defined_before p k. lu ! w = int k \<longrightarrow> w \<in> set (reads ?g)"
  proof (intro ballI impI)
    fix w
    assume "w \<in> defined_before p k" "lu ! w = int k"
    moreover from this(1) D(5) [of k] have "w < num_wires p" by auto
    ultimately show "w \<in> set (reads ?g)" using last_idx_hit [of "\<lambda>g. w \<in> set (reads g)" "gates p" k] lu by simp
  qed
  have later: "lu ! out ?g < 0 \<or> int k < lu ! out ?g"
  proof (rule ccontr)
    assume neg: "\<not> ?thesis"
    define j where "j = nat (lu ! out ?g)"
    have o: "out ?g < num_wires p" using D(1) [OF step(2)] by (simp add: in_range_def)
    have j: "j < length (gates p)" "out ?g \<in> set (reads (gates p ! j))" "j \<le> k"
      using last_idx_hit [of "\<lambda>g. out ?g \<in> set (reads g)" "gates p" j] neg lu o by (auto simp: j_def)
    have "defined_before p j \<subseteq> defined_before p k" using set_take_subset_set_take [OF j(3), of "gates p"] by (auto simp: defined_before_def)
    with D(2) [OF j(1)] D(3) [OF step(2)] j(2) show False by blast
  qed
  have la: "alive lu ?os k (defined_before p k) = live p k" "alive lu ?os (Suc k) (insert (out ?g) (defined_before p k)) = live p (Suc k)"
    using live_alive [OF wf dense lu, of k] live_alive [OF wf dense lu, of "Suc k"] step(2) D(4) [OF step(2)] by simp_all
  have "peak_gate lu ?os k ?g (card (live p k), pk) = Inr (card (live p (Suc k)), max pk (Suc (card (live p k))))"
    using peak_gate_ok [OF fin big lens _ D(1) [OF step(2)] D(2) [OF step(2)] D(3) [OF step(2)] now later hit, of ?os pk]
    by (simp add: la)
  moreover have "drop k (gates p) = ?g # drop (Suc k) (gates p)" using step(2) by (simp add: Cons_nth_drop_Suc)
  moreover have "{k..<length (gates p)} = insert k {Suc k..<length (gates p)}" using step(2) by auto
  ultimately show ?case by (simp add: step.IH max.commute insert_commute) (cases "{Suc k..<length (gates p)} = {}"; simp add: max.left_commute max.commute)
qed simp

lemma count_live_inputs_ok:
  assumes "\<forall>w \<in> set ws. w < length lu \<and> w < length os" and "a + length ws < 2 ^ 63"
  shows "count_live_inputs lu os ws a = Inr (a + length (filter (\<lambda>w. 0 \<le> lu ! w \<or> os ! w) ws))"
  using assms by (induction ws arbitrary: a) (simp_all add: u64_inc_dec)

lemma peak_live_wires_ok:
  assumes wf: "wf_program p" and dense: "wire_reuse p = ReuseNone" and small: "num_wires p < 2 ^ 32"
    and lens: "length (last_use lv) = num_wires p"
    and lu: "\<forall>w < num_wires p. last_use lv ! w = last_idx (\<lambda>g. w \<in> set (reads g)) 0 (gates p) (-1)"
  shows "peak_live_wires p lv = Inr (Max (insert (card (live p 0)) ((\<lambda>k. Suc (card (live p k))) ` {..<length (gates p)})))"
proof -
  let ?os = "mark_all (outputs p) (replicate (num_wires p) False)"
  have ni: "num_inputs p \<le> num_wires p" using wf by (rule wf_program_inputs)
  have "alive (last_use lv) ?os 0 (defined_before p 0) = set (filter (\<lambda>w. 0 \<le> last_use lv ! w \<or> ?os ! w) [0..<num_inputs p])"
    by (auto simp: alive_def defined_before_def)
  then have "card (live p 0) = length (filter (\<lambda>w. 0 \<le> last_use lv ! w \<or> ?os ! w) [0..<num_inputs p])"
    using live_alive [OF wf dense lu, of 0] by (simp only: distinct_card distinct_filter distinct_upt)
  moreover have "mark_outputs (outputs p) (replicate (num_wires p) False) = Inr ?os"
    by (rule mark_outputs_ok) (use dense_program(6) [OF wf dense] in auto)
  moreover have "count_live_inputs (last_use lv) ?os [0..<num_inputs p] 0 =
      Inr (length (filter (\<lambda>w. 0 \<le> last_use lv ! w \<or> ?os ! w) [0..<num_inputs p]))"
    using count_live_inputs_ok [of "[0..<num_inputs p]" "last_use lv" ?os 0] ni lens small by simp
  ultimately show ?thesis
    using peak_loop_ok [OF wf dense small lens lu, of 0 "card (live p 0)"]
    by (simp add: peak_live_wires_def atLeast0LessThan)
qed

section \<open>Fanout\<close>

definition fanout_of :: "BooleanProgram \<Rightarrow> nat \<Rightarrow> nat" where
  "fanout_of p w = (\<Sum>g \<leftarrow> gates p. count_list (reads g) w)"

lemma fanout_loop_ok:
  assumes "\<forall>g \<in> set gs. in_range (length fo) g" and "\<forall>w < length fo. fo ! w + 2 * length gs < 2 ^ 63"
  shows "\<exists>fo'. fanout_loop gs fo = Inr fo' \<and> length fo' = length fo \<and>
    (\<forall>w < length fo. fo' ! w = fo ! w + (\<Sum>g \<leftarrow> gs. count_list (reads g) w))"
  using assms
proof (induction gs arbitrary: fo)
  case (Cons g gs)
  let ?a = "fo[in0 g := Suc (fo ! in0 g)]"
  define fo1 where "fo1 = (if is_const g then fo else if is_not g then ?a else ?a[in1 g := Suc (?a ! in1 g)])"
  have fo1: "length fo1 = length fo" "\<forall>w < length fo. fo1 ! w = fo ! w + count_list (reads g) w"
    using Cons.prems by (auto simp: fo1_def reads_def op_tests nth_list_update in_range_def canonical_def split: Op.splits)
  have le: "count_list (reads g) w \<le> 2" for w by (simp add: reads_def split: Op.split)
  have inc: "u64_inc (fo ! w) = Suc (fo ! w)" "u64_inc (Suc (fo ! w)) = Suc (Suc (fo ! w))" if "w < length fo" for w
  proof -
    from Cons.prems(2) that have "Suc (fo ! w) < 2 ^ 63" by fastforce
    then show "u64_inc (fo ! w) = Suc (fo ! w)" "u64_inc (Suc (fo ! w)) = Suc (Suc (fo ! w))" by (simp_all add: u64_inc_dec)
  qed
  have "fanout_loop (g # gs) fo = fanout_loop gs fo1"
    using Cons.prems(1) by (auto simp: fo1_def in_range_def reads_def canonical_def op_tests inc nth_list_update split: Op.splits)
  moreover have "\<forall>w < length fo1. fo1 ! w + 2 * length gs < 2 ^ 63"
  proof (intro allI impI)
    fix w
    assume "w < length fo1"
    with Cons.prems(2) le [of w] fo1 show "fo1 ! w + 2 * length gs < 2 ^ 63" by fastforce
  qed
  ultimately show ?case using Cons.IH [of fo1] Cons.prems(1) fo1 by auto
qed simp

section \<open>Reachability\<close>

text \<open>
  The operands the layout pass follows from a reachable wire: \<open>in0\<close> of its producing gate whatever the
  gate is (for a constant this is wire 0), and \<open>in1\<close> of AND and XOR.
\<close>

definition visited_operands :: "Gate \<Rightarrow> nat set" where
  "visited_operands g = insert (in0 g) (if is_not g \<or> is_const g then {} else {in1 g})"

inductive_set reachable :: "BooleanProgram \<Rightarrow> nat set" for p where
  root: "w \<in> set (outputs p) \<Longrightarrow> w \<in> reachable p"
| operand: "out g \<in> reachable p \<Longrightarrow> g \<in> set (gates p) \<Longrightarrow> v \<in> visited_operands g \<Longrightarrow> v \<in> reachable p"

definition marked :: "bool list \<Rightarrow> nat set" where
  "marked bm = {w. w < length bm \<and> bm ! w}"

lemma marked_update: "v < length bm \<Longrightarrow> marked (bm[v := True]) = insert v (marked bm)"
  by (auto simp: marked_def nth_list_update)

lemma reach_visit_ok:
  assumes "v < length r"
  shows "\<exists>r' st'. reach_visit v (r, st) = Inr (r', st') \<and> length r' = length r \<and>
    marked r' = insert v (marked r) \<and> set st' = set st \<union> (marked r' - marked r)"
  using assms by (cases "r ! v") (auto simp: reach_visit_def marked_update, auto simp: marked_def)

text \<open>The worklist invariant: every marked wire off the stack has its operands marked.\<close>

definition reach_inv :: "BooleanProgram \<Rightarrow> bool list \<Rightarrow> nat list \<Rightarrow> bool" where
  "reach_inv p r st \<longleftrightarrow> length r = num_wires p \<and> set st \<subseteq> marked r \<and> set (outputs p) \<subseteq> marked r \<and>
     marked r \<subseteq> reachable p \<and>
     (\<forall>g \<in> set (gates p). out g \<in> marked r - set st \<longrightarrow> visited_operands g \<subseteq> marked r)"

lemma reach_inv_done: "reach_inv p r [] \<Longrightarrow> marked r = reachable p"
proof
  assume inv: "reach_inv p r []"
  show "reachable p \<subseteq> marked r"
  proof
    fix w
    assume "w \<in> reachable p"
    then show "w \<in> marked r" by induction (use inv in \<open>auto simp: reach_inv_def\<close>)
  qed
qed (simp add: reach_inv_def)

lemma producer_unique:
  assumes "wf_program p" and "wire_reuse p = ReuseNone" and "g \<in> set (gates p)" and "h \<in> set (gates p)" and "out g = out h"
  shows "g = h"
proof -
  obtain i j where ij: "i < length (gates p)" "g = gates p ! i" "j < length (gates p)" "h = gates p ! j"
    using assms(3,4) by (auto simp: in_set_conv_nth)
  have "a \<ge> b" if "a < length (gates p)" "b < length (gates p)" "out (gates p ! a) = out (gates p ! b)" for a b
  proof (rule ccontr)
    assume "\<not> b \<le> a"
    then have "gates p ! a \<in> set (take b (gates p))" using that(1) nth_mem [of a "take b (gates p)"] by simp
    then have "out (gates p ! a) \<in> defined_before p b" by (simp add: defined_before_def)
    with dense_program(3) [OF assms(1,2) that(2)] that(3) show False by simp
  qed
  with ij assms(5) show ?thesis by (metis order_antisym)
qed

lemma reach_step_ok:
  assumes wf: "wf_program p" and dense: "wire_reuse p = ReuseNone"
    and fd: "length fd = num_wires p" "\<forall>w < num_wires p. fd ! w = last_idx (\<lambda>g. out g = w) 0 (gates p) (-1)"
    and inv: "reach_inv p r (w # st)"
  shows "\<exists>r' st'. reach_step (gates p) fd w (r, st) = Inr (r', st') \<and> reach_inv p r' st'"
proof -
  have len: "length r = num_wires p" and w: "w \<in> marked r" "w < num_wires p" using inv by (auto simp: reach_inv_def marked_def)
  show ?thesis
  proof (cases "fd ! w < 0")
    case True
    then have "\<forall>g \<in> set (gates p). out g \<noteq> w"
      using last_idx_cases [of "\<lambda>g. out g = w" 0 "gates p" "-1"] fd(2) w(2) by auto
    with True inv fd(1) w(2) show ?thesis by (auto simp: reach_step_def reach_inv_def)
  next
    case False
    define g where "g = gates p ! nat (fd ! w)"
    have g: "nat (fd ! w) < length (gates p)" "out g = w"
      using last_idx_hit [of "\<lambda>g. out g = w" "gates p" "nat (fd ! w)"] False fd(2) w(2) by (auto simp: g_def)
    then have gin: "g \<in> set (gates p)" by (simp add: g_def)
    have vis: "visited_operands g \<subseteq> {..<num_wires p}"
      using wf_program_in_range [OF wf] gin
      by (fastforce simp: visited_operands_def in_range_def reads_def canonical_def op_tests split: Op.splits)
    have step: "reach_step (gates p) fd w (r, st) =
        res_bind (reach_visit (in0 g) (r, st)) (\<lambda>rs. if \<not> is_not g \<and> \<not> is_const g then reach_visit (in1 g) rs else Inr rs)"
      using False g(1) fd(1) w(2) unfolding g_def by (simp add: reach_step_def)
    have "in0 g < length r" using vis len by (simp add: visited_operands_def)
    from reach_visit_ok [OF this] obtain r1 st1 where v1: "reach_visit (in0 g) (r, st) = Inr (r1, st1)" "length r1 = length r"
      "marked r1 = insert (in0 g) (marked r)" "set st1 = set st \<union> (marked r1 - marked r)" by blast
    have "\<exists>r' st'. reach_step (gates p) fd w (r, st) = Inr (r', st') \<and> length r' = length r \<and>
        marked r' = marked r \<union> visited_operands g \<and> set st' = set st \<union> (marked r' - marked r)"
    proof (cases "is_not g \<or> is_const g")
      case True
      with v1 show ?thesis by (simp add: step visited_operands_def) auto
    next
      case False
      then have "in1 g < length r1" using vis len v1(2) by (simp add: visited_operands_def)
      from reach_visit_ok [OF this, of st1] v1 False show ?thesis by (auto simp: step visited_operands_def)
    qed
    then obtain r' st' where r': "reach_step (gates p) fd w (r, st) = Inr (r', st')" "length r' = length r"
      "marked r' = marked r \<union> visited_operands g" "set st' = set st \<union> (marked r' - marked r)" by blast
    have "visited_operands g \<subseteq> reachable p" using inv w(1) g(2) gin by (auto simp: reach_inv_def intro: reachable.operand)
    moreover have "visited_operands h \<subseteq> marked r'" if "h \<in> set (gates p)" "out h \<in> marked r' - set st'" for h
    proof (cases "out h = w")
      case True
      with producer_unique [OF wf dense that(1) gin] g(2) r'(3) show ?thesis by simp
    next
      case False
      with that r'(4) inv have "visited_operands h \<subseteq> marked r" by (auto simp: reach_inv_def)
      with r'(3) show ?thesis by auto
    qed
    ultimately have "reach_inv p r' st'" using inv r'(2-4) by (auto simp: reach_inv_def)
    with r'(1) show ?thesis by blast
  qed
qed

lemma reach_loop_ok:
  assumes wf: "wf_program p" and dense: "wire_reuse p = ReuseNone"
    and fd: "length fd = num_wires p" "\<forall>w < num_wires p. fd ! w = last_idx (\<lambda>g. out g = w) 0 (gates p) (-1)"
    and inv: "reach_inv p r st"
  shows "\<exists>r'. reach_loop (gates p) fd r st = Inr r' \<and> length r' = num_wires p \<and> marked r' = reachable p"
  using fd inv
proof (induction "gates p" fd r st rule: reach_loop.induct)
  case (1 fd r)
  from reach_inv_done [OF 1(3)] 1(3) show ?case by (simp add: reach_inv_def)
next
  case (2 fd r w st)
  from reach_step_ok [OF wf dense 2(2-4)] obtain r' st' where
    "reach_step (gates p) fd w (r, st) = Inr (r', st')" "reach_inv p r' st'" by blast
  with 2(1) [of "(r', st')" r' st'] 2(2,3) show ?case by auto
qed

lemma reach_roots_ok:
  assumes "\<forall>w \<in> set ws. w < length bm"
  shows "\<exists>r st. reach_roots ws bm = (r, st) \<and> length r = length bm \<and> marked r = marked bm \<union> set ws \<and>
    set st = marked r - marked bm"
proof -
  have "\<exists>r st'. fold (\<lambda>w (reach, stack). if w < length reach \<and> \<not> reach ! w
        then (reach[w := True], w # stack) else (reach, stack)) ws (bm, st) = (r, st') \<and>
      length r = length bm \<and> marked r = marked bm \<union> set ws \<and> set st' = set st \<union> (marked r - marked bm)" for st
    using assms
  proof (induction ws arbitrary: bm st)
    case (Cons w ws)
    show ?case
    proof (cases "bm ! w")
      case True
      with Cons.IH [of bm st] Cons.prems show ?thesis by (auto simp: marked_def)
    next
      case False
      with Cons.prems have m: "marked (bm[w := True]) = insert w (marked bm)" "w \<notin> marked bm"
        by (simp_all add: marked_update) (simp add: marked_def)
      from Cons.IH [of "bm[w := True]" "w # st"] Cons.prems False show ?thesis by (auto simp: m)
    qed
  qed simp
  from this [of "[]"] show ?thesis by (simp add: reach_roots_def)
qed

lemma reach_counts_ok:
  assumes "\<forall>g \<in> set gs. out g < length r"
  shows "reach_counts r gs (a, b) = Inr (a + length (filter (\<lambda>g. out g \<in> marked r) gs),
    b + length (filter (\<lambda>g. out g \<in> marked r \<and> is_and g) gs))"
  using assms by (induction gs arbitrary: a b) (auto simp: marked_def)

lemma card_marked: "length (filter id r) = card (marked r)"
  by (simp add: marked_def length_filter_conv_card)

text \<open>What the layout pass counts on a dense program.\<close>

lemma layout_pass_ok:
  assumes wf: "wf_program p" and dense: "wire_reuse p = ReuseNone" and small: "num_wires p < 2 ^ 32"
    and lu: "length (last_use lv) = num_wires p"
      "\<forall>w < num_wires p. last_use lv ! w = last_idx (\<lambda>g. w \<in> set (reads g)) 0 (gates p) (-1)"
    and fd: "length (first_def lv) = num_wires p"
      "\<forall>w < num_wires p. first_def lv ! w = last_idx (\<lambda>g. out g = w) 0 (gates p) (-1)"
  obtains fs where "layout_pass p lv = Inr \<lparr>frees = fs, reachable_wire = card (reachable p),
    reachable_gate = length (filter (\<lambda>g. out g \<in> reachable p) (gates p)),
    reachable_and = length (filter (\<lambda>g. out g \<in> reachable p \<and> is_and g) (gates p))\<rparr>"
proof -
  let ?bm = "replicate (num_wires p) False"
  have n: "num_gate p = length (gates p)" using wf dense small by (simp add: wf_program_def)
  have "length (mark_all (outputs p) ?bm) = num_wires p" by simp
  from dense_facts_ok [OF wf lu this] obtain fs where
    fs: "frees_loop (last_use lv) (mark_all (outputs p) ?bm) [0..<num_wires p] (replicate (length (gates p)) []) = Inr fs" by blast
  have empty: "marked ?bm = {}" by (auto simp: marked_def)
  have "\<forall>w \<in> set (outputs p). w < length ?bm" using dense_program(6) [OF wf dense] by auto
  from reach_roots_ok [OF this] obtain r st where
    rt: "reach_roots (outputs p) ?bm = (r, st)" "length r = num_wires p" "marked r = set (outputs p)" "set st = marked r"
    by (auto simp: empty)
  then have "reach_inv p r st" by (auto simp: reach_inv_def intro: reachable.root)
  from reach_loop_ok [OF wf dense fd this] obtain r' where
    r': "reach_loop (gates p) (first_def lv) r st = Inr r'" "length r' = num_wires p" "marked r' = reachable p" by blast
  have "reach_counts r' (gates p) (0, 0) = Inr (length (filter (\<lambda>g. out g \<in> reachable p) (gates p)),
      length (filter (\<lambda>g. out g \<in> reachable p \<and> is_and g) (gates p)))"
    using reach_counts_ok [of "gates p" r' 0 0] wf_program_in_range [OF wf] r'(2,3) by (simp add: in_range_def)
  with fs rt(1) r' show thesis
    by (intro that [of fs]) (simp add: layout_pass_def require_dense_def dense n Let_def card_marked)
qed

section \<open>The statistics are the quantities they name\<close>

text \<open>
  (C28) The analysis of a validated program with fewer than \<open>2 ^ 32\<close> inputs and gates, of them fewer than
  \<open>2 ^ 31 - 1\<close> AND gates (the AND-depth is a signed \<open>int\<close>), returns. Its gate
  counts are those of the program; its depth and widest level are those of the AND-depths of the
  expanded program; the peak is the largest number of wires that are live (hold a value that a later
  gate or an output needs) while a gate runs, the fresh result included; the reachable counts are those
  of the closure of the outputs under the operands that the pass follows (for a constant gate its unused
  \<open>in0\<close> too, see \<open>layout_follows_constant_operand\<close>); the fanout is the largest number of operand positions a wire
  occupies; and no counter wraps.
\<close>

theorem analyze_program_correct:
  assumes "validate_program p = Inr ()" and "num_inputs p + length (gates p) < 2 ^ 32"
    and "length (filter is_and (gates p)) < 2 ^ 31 - 1"
  shows "\<exists>st d. analyze_program p = Inr st \<and>
    (if wire_reuse p = ReuseNone then d = p else uncompact p = Inr d) \<and>
    st_num_gates st = length (gates p) \<and> st_num_and st = length (filter is_and (gates p)) \<and>
    st_num_xor st = length (filter is_xor (gates p)) \<and> st_num_not st = length (filter is_not (gates p)) \<and>
    st_num_const st = length (filter is_const (gates p)) \<and>
    st_and_depth st = Max (insert 0 ((\<lambda>g. and_depths d ! out g) ` set (gates d))) \<and>
    st_max_and_per_level st = Max ((\<lambda>l. length (level_bucket d (and_depths d) is_and l)) ` {0..st_and_depth st}) \<and>
    st_peak_live_wires st = Max (insert (card (live d 0)) ((\<lambda>k. Suc (card (live d k))) ` {..<length (gates d)})) \<and>
    st_reachable_wires st = card (reachable d) \<and>
    st_reachable_gates st = length (filter (\<lambda>g. out g \<in> reachable d) (gates d)) \<and>
    st_reachable_and st = length (filter (\<lambda>g. out g \<in> reachable d \<and> is_and g) (gates d)) \<and>
    st_max_fanout st = Max (insert 0 (fanout_of d ` {..<num_wires d})) \<and>
    st_stored_program_digest st = digest_program p \<and> st_dense_program_digest st = digest_program d"
proof -
  have wfp: "wf_program p" using assms(1) by (simp add: validate_wf)
  obtain d where d: "(if wire_reuse p \<noteq> ReuseNone then uncompact p else Inr p) = Inr d" "wf_program d"
    "wire_reuse d = ReuseNone" "num_inputs d = num_inputs p" "map op (gates d) = map op (gates p)"
  proof (cases "wire_reuse p = ReuseNone")
    case False
    obtain d v where "uncompact p = Inr d" "wf_program d" "wire_reuse d = ReuseNone" "num_inputs d = num_inputs p"
      "gates p = map (rename v) (gates d)" by (rule uncompact_ok [OF wfp assms(2)])
    with False show ?thesis by (intro that [of d]) auto
  qed (use wfp that in auto)
  have len: "length (gates d) = length (gates p)" using d(5) by (metis length_map)
  have filt: "length (filter (\<lambda>g. Q (op g)) (gates d)) = length (filter (\<lambda>g. Q (op g)) (gates p))" for Q
    using arg_cong [OF d(5), of "\<lambda>xs. length (filter Q xs)"] by (simp add: filter_map comp_def)
  have cnt: "length (filter is_and (gates d)) = length (filter is_and (gates p))"
    "length (filter is_xor (gates d)) = length (filter is_xor (gates p))"
    "length (filter is_not (gates d)) = length (filter is_not (gates p))"
    "length (filter is_const (gates d)) = length (filter is_const (gates p))"
    using filt [of "\<lambda>x. x = OpAnd"] filt [of "\<lambda>x. x = OpXor"] filt [of "\<lambda>x. x = OpNot"]
      filt [of "\<lambda>x. x = OpConst0 \<or> x = OpConst1"] by (simp_all add: op_tests [abs_def])
  have ands: "num_ands (gates d) < INT_MAX" using assms(3) cnt(1) by (simp add: INT_MAX_def)
  have small: "num_wires d < 2 ^ 32" and n: "num_gate d = length (gates p)"
    using d(2-4) assms(2) len by (simp_all add: wf_program_def)
  obtain lv where lv: "liveness_pass d = Inr lv" "length (last_use lv) = num_wires d" "length (first_def lv) = num_wires d"
    "\<forall>w < num_wires d. last_use lv ! w = last_idx (\<lambda>g. w \<in> set (reads g)) 0 (gates d) (-1)"
    "\<forall>w < num_wires d. first_def lv ! w = last_idx (\<lambda>g. out g = w) 0 (gates d) (-1)"
    by (rule liveness_pass_ok [OF d(2,3) small])
  obtain fs where lay: "layout_pass d lv = Inr \<lparr>frees = fs, reachable_wire = card (reachable d),
    reachable_gate = length (filter (\<lambda>g. out g \<in> reachable d) (gates d)),
    reachable_and = length (filter (\<lambda>g. out g \<in> reachable d \<and> is_and g) (gates d))\<rparr>"
    by (rule layout_pass_ok [OF d(2,3) small lv(2,4,3,5)])
  obtain fo where fo: "fanout_loop (gates d) (replicate (num_wires d) 0) = Inr fo" "length fo = num_wires d"
    "\<forall>w < num_wires d. fo ! w = fanout_of d w"
    using fanout_loop_ok [of "gates d" "replicate (num_wires d) 0"] wf_program_in_range [OF d(2)] assms(2) len
    by (auto simp: fanout_of_def)
  have "fo = map (fanout_of d) [0..<num_wires d]" using fo(2,3) by (intro nth_equalityI) simp_all
  then have "set fo = fanout_of d ` {..<num_wires d}" by (simp add: lessThan_atLeast0)
  then have fmax: "fold (\<lambda>n m. max m n) fo 0 = Max (insert 0 (fanout_of d ` {..<num_wires d}))"
    using fold_max [of "\<lambda>x. x" fo 0] by simp
  let ?D = "Max (insert 0 ((\<lambda>g. and_depths d ! out g) ` set (gates d)))"
  have lmax: "fold (\<lambda>level n. max n (length level)) (map (level_bucket d (and_depths d) is_and) [0..<?D + 1]) 0 =
      Max ((\<lambda>l. length (level_bucket d (and_depths d) is_and l)) ` {0..?D})"
    unfolding fold_max set_map set_upt image_image by (simp add: atLeastLessThanSuc_atLeastAtMost)
  note run = d(1) lv(1) lay fo(1) peak_live_wires_ok [OF d(2,3) small lv(2,4)] schedule_pass_ok(1) [OF d(2,3) small ands]
  have "analyze_program p = Inr \<lparr>st_wire_reuse = wire_reuse p, st_num_inputs = num_inputs p,
      st_num_outputs = length (outputs p), st_stored_num_wires = num_wires p, st_dense_num_wires = num_wires d,
      st_num_gates = length (gates p), st_num_and = length (filter is_and (gates p)),
      st_num_xor = length (filter is_xor (gates p)), st_num_not = length (filter is_not (gates p)),
      st_num_const = length (filter is_const (gates p)), st_and_depth = ?D,
      st_max_and_per_level = Max ((\<lambda>l. length (level_bucket d (and_depths d) is_and l)) ` {0..?D}),
      st_reachable_wires = card (reachable d),
      st_reachable_gates = length (filter (\<lambda>g. out g \<in> reachable d) (gates d)),
      st_reachable_and = length (filter (\<lambda>g. out g \<in> reachable d \<and> is_and g) (gates d)),
      st_peak_live_wires = Max (insert (card (live d 0)) ((\<lambda>k. Suc (card (live d k))) ` {..<length (gates d)})),
      st_max_fanout = Max (insert 0 (fanout_of d ` {..<num_wires d})),
      st_stored_program_digest = digest_program p, st_dense_program_digest = digest_program d\<rparr>"
    unfolding analyze_program_def assms(1) res_then_Inr run res_bind_Inr Let_def
    by (simp only: count_pass_def count_fold n fmax lmax cnt ProgramStats.simps ScheduleStats.simps LayoutStats.simps CountStats.simps) simp
  moreover have "if wire_reuse p = ReuseNone then d = p else uncompact p = Inr d" using d(1) by (simp split: if_splits)
  ultimately show ?thesis by (intro exI conjI) (assumption | simp only: ProgramStats.simps)+
qed

theorem analyze_program_correct_witness:
  "\<exists>st. analyze_program half_adder = Inr st \<and> st_num_and st = length (filter is_and (gates half_adder))"
proof -
  have "num_inputs half_adder + length (gates half_adder) < 2 ^ 32" "length (filter is_and (gates half_adder)) < 2 ^ 31 - 1"
    by (simp_all add: half_adder_def op_tests)
  from analyze_program_correct [OF validate_half_adder this] show ?thesis by blast
qed

text \<open>
  A constant gate has no operand (its operand fields are 0 and unused), yet the layout pass follows its
  \<open>in0\<close>: a program whose only output is a constant counts its unrelated input as reachable.
\<close>

definition constant_output :: BooleanProgram where
  "constant_output = \<lparr>num_wires = 2, num_inputs = 1, wire_reuse = ReuseNone,
     gates = [\<lparr>in0 = 0, in1 = 0, out = 1, op = OpConst1\<rparr>], outputs = [1]\<rparr>"

lemma layout_follows_constant_operand:
  "case analyze_program constant_output of Inl _ \<Rightarrow> False | Inr st \<Rightarrow> st_reachable_wires st = 2"
  by code_simp

end
