(* ===== verification/Values.thy ===== *)
theory Values
  imports Kernels
begin

text \<open>
  \<open>circuits/bit.h\<close> and \<open>circuits/bitvec.h\<close>: single bits and fixed-width bit vectors over a Boolean
  context, with the clear codec of \<open>ir/wire_value.h\<close>.

  A typed value carries a context pointer and its wires; the model passes the context \<open>C\<close>
  explicitly, so a \<open>Bit_T\<close> is a wire and a \<open>BitVec_T\<close> of width \<open>N\<close> is a list of \<open>N\<close> wires, the least
  significant first. The debug-only check that two operands carry the same pointer
  (\<open>context/checks.h\<close>) has no counterpart, because one \<open>C\<close> serves a whole expression.
  Template widths are arguments; an index outside a fixed-size array is undefined behaviour.

  Lemmas: every operation preserves every simulation of contexts, and on truth values it is the
  intended operation on bit lists. The locale \<open>wire_value\<close> is the codec half of the \<open>WireValue\<close>
  concept.
\<close>

section \<open>\<open>Bit_T\<close>\<close>

definition bit_and :: "('s, 'w, 'z) ctx_scheme \<Rightarrow> 'w \<Rightarrow> 'w \<Rightarrow> ('s, 'w) gm" where
  "bit_and C a b = and_gate C a b"

definition bit_xor :: "('s, 'w, 'z) ctx_scheme \<Rightarrow> 'w \<Rightarrow> 'w \<Rightarrow> ('s, 'w) gm" where
  "bit_xor C a b = xor_gate C a b"

definition bit_or :: "('s, 'w, 'z) ctx_scheme \<Rightarrow> 'w \<Rightarrow> 'w \<Rightarrow> ('s, 'w) gm" where
  "bit_or C a b = bind (bit_xor C a b) (\<lambda>x. bind (bit_and C a b) (\<lambda>y. bit_xor C x y))"

definition bit_not :: "('s, 'w, 'z) ctx_scheme \<Rightarrow> 'w \<Rightarrow> ('s, 'w) gm" where
  "bit_not C a = not_gate C a"

definition bit_eq :: "('s, 'w, 'z) ctx_scheme \<Rightarrow> 'w \<Rightarrow> 'w \<Rightarrow> ('s, 'w) gm" where
  "bit_eq C a b = bind (bit_xor C a b) (bit_not C)"

definition bit_neq :: "('s, 'w, 'z) ctx_scheme \<Rightarrow> 'w \<Rightarrow> 'w \<Rightarrow> ('s, 'w) gm" where
  "bit_neq C a b = bit_xor C a b"

text \<open>\<open>this.select(sel, t)\<close> is \<open>sel ? t : this\<close>.\<close>

definition bit_select :: "('s, 'w, 'z) ctx_scheme \<Rightarrow> 'w \<Rightarrow> 'w \<Rightarrow> 'w \<Rightarrow> ('s, 'w) gm" where
  "bit_select C a sel t = mux C sel t a"

definition bit_constant :: "('s, 'w, 'z) ctx_scheme \<Rightarrow> bool \<Rightarrow> ('s, 'w) gm" where
  "bit_constant C v = public_bit C v"

definition bit_encode :: "bool \<Rightarrow> bool list" where
  "bit_encode v = [v]"

definition bit_decode :: "bool list \<Rightarrow> bool" where
  "bit_decode b = b ! 0"

section \<open>\<open>BitVec_T\<close>\<close>

definition bv_constant :: "('s, 'w, 'z) ctx_scheme \<Rightarrow> bool list \<Rightarrow> ('s, 'w list) gm" where
  "bv_constant C v = map_gm (public_bit C) v"

definition bv_and :: "('s, 'w, 'z) ctx_scheme \<Rightarrow> 'w list \<Rightarrow> 'w list \<Rightarrow> ('s, 'w list) gm" where
  "bv_and C a b = map2_gm (and_gate C) a b"

definition bv_or :: "('s, 'w, 'z) ctx_scheme \<Rightarrow> 'w list \<Rightarrow> 'w list \<Rightarrow> ('s, 'w list) gm" where
  "bv_or C a b = map2_gm (or_gate C) a b"

definition bv_xor :: "('s, 'w, 'z) ctx_scheme \<Rightarrow> 'w list \<Rightarrow> 'w list \<Rightarrow> ('s, 'w list) gm" where
  "bv_xor C a b = map2_gm (xor_gate C) a b"

definition bv_not :: "('s, 'w, 'z) ctx_scheme \<Rightarrow> 'w list \<Rightarrow> ('s, 'w list) gm" where
  "bv_not C a = map_gm (not_gate C) a"

definition bv_eq :: "('s, 'w, 'z) ctx_scheme \<Rightarrow> 'w list \<Rightarrow> 'w list \<Rightarrow> ('s, 'w) gm" where
  "bv_eq C a b = equal C a b"

definition bv_neq :: "('s, 'w, 'z) ctx_scheme \<Rightarrow> 'w list \<Rightarrow> 'w list \<Rightarrow> ('s, 'w) gm" where
  "bv_neq C a b = bind (bv_eq C a b) (bit_not C)"

definition bv_select :: "('s, 'w, 'z) ctx_scheme \<Rightarrow> 'w list \<Rightarrow> 'w \<Rightarrow> 'w list \<Rightarrow> ('s, 'w list) gm" where
  "bv_select C a sel t = map2_gm (\<lambda>x y. mux C sel y x) a t"

text \<open>The wiring of a left shift and of a right shift by \<open>s \<ge> 0\<close>, filling with the wire \<open>z\<close>.\<close>

definition shl_wires :: "'w list \<Rightarrow> int \<Rightarrow> 'w \<Rightarrow> ('s, 'w list) gm" where
  "shl_wires w s z = map_gm (\<lambda>i. if s \<le> int i then rd w (nat (int i - s)) else ret z) [0..<length w]"

definition shr_wires :: "'w list \<Rightarrow> int \<Rightarrow> 'w \<Rightarrow> ('s, 'w list) gm" where
  "shr_wires w s z =
     (let s' = (if int (length w) < s then int (length w) else s) in
      map_gm (\<lambda>i. if int i + s' < int (length w) then rd w (nat (int i + s')) else ret z) [0..<length w])"

definition bv_shl :: "('s, 'w, 'z) ctx_scheme \<Rightarrow> 'w list \<Rightarrow> int \<Rightarrow> ('s, 'w list) gm" where
  "bv_shl C w s = check (0 \<le> s) NegativeShift (bind (public_bit C False) (shl_wires w s))"

definition bv_shr :: "('s, 'w, 'z) ctx_scheme \<Rightarrow> 'w list \<Rightarrow> int \<Rightarrow> ('s, 'w list) gm" where
  "bv_shr C w s = check (0 \<le> s) NegativeShift (bind (public_bit C False) (shr_wires w s))"

text \<open>\<open>slice<Lo, Hi>\<close> under its static assertion.\<close>

definition bv_slice :: "nat \<Rightarrow> nat \<Rightarrow> 'w list \<Rightarrow> 'w list" where
  "bv_slice lo hi w = take (hi - lo) (drop lo w)"

definition bv_concat :: "'w list \<Rightarrow> 'w list \<Rightarrow> 'w list" where
  "bv_concat w hi = w @ hi"

definition bv_encode :: "bool list \<Rightarrow> bool list" where
  "bv_encode v = v"

definition bv_decode :: "bool list \<Rightarrow> bool list" where
  "bv_decode b = b"

section \<open>Simulations\<close>

context ctx_sim
begin

lemma bit_ops_transfer [transfer_rule]:
  "(rel_fun W (rel_fun W (S W))) (bit_and C) (bit_and D)"
  "(rel_fun W (rel_fun W (S W))) (bit_xor C) (bit_xor D)"
  "(rel_fun W (S W)) (bit_not C) (bit_not D)"
  "(rel_fun (=) (S W)) (bit_constant C) (bit_constant D)"
  unfolding bit_and_def [abs_def] bit_xor_def [abs_def] bit_not_def [abs_def] bit_constant_def [abs_def]
  by transfer_prover+

lemma bit_derived_transfer [transfer_rule]:
  "(rel_fun W (rel_fun W (S W))) (bit_or C) (bit_or D)"
  "(rel_fun W (rel_fun W (S W))) (bit_eq C) (bit_eq D)"
  "(rel_fun W (rel_fun W (S W))) (bit_neq C) (bit_neq D)"
  "(rel_fun W (rel_fun W (rel_fun W (S W)))) (bit_select C) (bit_select D)"
  unfolding bit_or_def [abs_def] bit_eq_def [abs_def] bit_neq_def [abs_def] bit_select_def [abs_def]
  by transfer_prover+

lemma shift_wires_transfer [transfer_rule]:
  "(rel_fun Ws (rel_fun (=) (rel_fun W (S Ws)))) shl_wires shl_wires"
  "(rel_fun Ws (rel_fun (=) (rel_fun W (S Ws)))) shr_wires shr_wires"
  unfolding shl_wires_def [abs_def] shr_wires_def [abs_def] by transfer_prover+

lemma bv_ops_transfer [transfer_rule]:
  "(rel_fun (=) (S Ws)) (bv_constant C) (bv_constant D)"
  "(rel_fun Ws (rel_fun Ws (S Ws))) (bv_and C) (bv_and D)"
  "(rel_fun Ws (rel_fun Ws (S Ws))) (bv_or C) (bv_or D)"
  "(rel_fun Ws (rel_fun Ws (S Ws))) (bv_xor C) (bv_xor D)"
  "(rel_fun Ws (S Ws)) (bv_not C) (bv_not D)"
  "(rel_fun Ws (rel_fun Ws (S W))) (bv_eq C) (bv_eq D)"
  "(rel_fun Ws (rel_fun W (rel_fun Ws (S Ws)))) (bv_select C) (bv_select D)"
  "(rel_fun Ws (rel_fun (=) (S Ws))) (bv_shl C) (bv_shl D)"
  "(rel_fun Ws (rel_fun (=) (S Ws))) (bv_shr C) (bv_shr D)"
  unfolding bv_constant_def [abs_def] bv_and_def [abs_def] bv_or_def [abs_def] bv_xor_def [abs_def]
    bv_not_def [abs_def] bv_eq_def [abs_def] bv_select_def [abs_def] bv_shl_def [abs_def] bv_shr_def [abs_def]
  by transfer_prover+

lemma bv_neq_transfer [transfer_rule]: "(rel_fun Ws (rel_fun Ws (S W))) (bv_neq C) (bv_neq D)"
  unfolding bv_neq_def [abs_def] by transfer_prover

end

lemma bv_views_transfer [transfer_rule]:
  "(rel_fun (=) (rel_fun (=) (rel_fun (list_all2 P) (list_all2 P)))) bv_slice bv_slice"
  "(rel_fun (list_all2 P) (rel_fun (list_all2 P) (list_all2 P))) bv_concat bv_concat"
  unfolding bv_slice_def [abs_def] bv_concat_def [abs_def] by transfer_prover+

section \<open>Meaning on truth values\<close>

lemma bit_ops_bool [simp]:
  "bit_and bool_ctx a b = ret (a \<and> b)" "bit_xor bool_ctx a b = ret (a \<noteq> b)"
  "bit_or bool_ctx a b = ret (a \<or> b)" "bit_not bool_ctx a = ret (\<not> a)"
  "bit_eq bool_ctx a b = ret (a = b)" "bit_neq bool_ctx a b = ret (a \<noteq> b)"
  "bit_select bool_ctx a sel t = ret (if sel then t else a)" "bit_constant bool_ctx v = ret v"
  by (auto simp: bit_and_def bit_xor_def bit_or_def bit_not_def bit_eq_def bit_neq_def bit_select_def bit_constant_def)

lemma map_public_bool [simp]: "map_gm (public_bit bool_ctx) v = ret v"
  by (subst map_gm_ret [where g = id]) auto

lemma map2_bool [simp]:
  assumes "length a = length b"
  shows "map2_gm (and_gate bool_ctx) a b = ret (map2 (\<and>) a b)"
    and "map2_gm (or_gate bool_ctx) a b = ret (map2 (\<or>) a b)"
    and "map2_gm (xor_gate bool_ctx) a b = ret (map2 (\<noteq>) a b)"
    and "map_gm (not_gate bool_ctx) a = ret (map Not a)"
  using assms by (simp_all add: map2_gm_ret map_gm_ret)

lemma map2_select:
  assumes "length a = length t"
  shows "map2_gm (\<lambda>x y. mux bool_ctx sel y x) a t = ret (if sel then t else a)"
proof -
  have "map2_gm (\<lambda>x y. mux bool_ctx sel y x) a t = ret (map2 (\<lambda>x y. if sel then y else x) a t)"
    by (rule map2_gm_ret [OF assms]) simp
  moreover have "map2 (\<lambda>x y. if sel then y else x) a t = (if sel then t else a)"
    using assms by (induction a t rule: list_induct2) auto
  ultimately show ?thesis by simp
qed

lemma shl_wires_ret:
  assumes "0 \<le> s"
  shows "shl_wires w s z = ret (map (\<lambda>i. if nat s \<le> i then w ! (i - nat s) else z) [0..<length w])"
  unfolding shl_wires_def using assms by (intro map_gm_ret) (auto simp: le_nat_iff nat_diff_distrib')

lemma shr_wires_ret:
  assumes "0 \<le> s"
  shows "shr_wires w s z = ret (map (\<lambda>i. if i + nat s < length w then w ! (i + nat s) else z) [0..<length w])"
  unfolding shr_wires_def Let_def using assms
  by (intro map_gm_ret) (auto simp: nat_add_distrib zless_nat_eq_int_zless)

lemma shl_wires_bool:
  assumes "0 \<le> s"
  shows "shl_wires w s False = ret (to_bits (length w) (bits_val w * 2 ^ nat s))"
proof -
  have "odd (bits_val w * 2 ^ nat s div 2 ^ i) \<longleftrightarrow> nat s \<le> i \<and> w ! (i - nat s)" if "i < length w" for i
  proof (cases "nat s \<le> i")
    case True
    then have "(2 :: nat) ^ i = 2 ^ nat s * 2 ^ (i - nat s)" by (simp flip: power_add)
    then have "bits_val w * 2 ^ nat s div 2 ^ i = bits_val w div 2 ^ (i - nat s)" by (simp add: div_mult2_eq)
    then show ?thesis using True that by (simp add: bits_val_nth)
  next
    case False
    then obtain k where k: "nat s = i + Suc k" by (metis less_iff_Suc_add not_le add_Suc_right)
    have "bits_val w * 2 ^ nat s div 2 ^ i = bits_val w * 2 ^ Suc k"
      unfolding k power_add by simp
    then show ?thesis using False by simp
  qed
  then show ?thesis
    unfolding shl_wires_ret [OF assms] by (intro arg_cong [where f = ret] nth_equalityI) (simp_all add: to_bits_nth)
qed

lemma shr_wires_bool:
  assumes "0 \<le> s"
  shows "shr_wires w s False = ret (to_bits (length w) (bits_val w div 2 ^ nat s))"
proof -
  have "odd (bits_val w div 2 ^ nat s div 2 ^ i) \<longleftrightarrow> i + nat s < length w \<and> w ! (i + nat s)" for i
  proof (cases "i + nat s < length w")
    case True
    then show ?thesis by (simp add: bits_val_nth add.commute flip: div_mult2_eq power_add)
  next
    case False
    then have "bits_val w < 2 ^ (nat s + i)"
      using bits_val_less [of w] power_increasing [of "length w" "nat s + i" "2 :: nat"] by linarith
    then show ?thesis using False by (simp flip: div_mult2_eq power_add)
  qed
  then show ?thesis
    unfolding shr_wires_ret [OF assms] by (intro arg_cong [where f = ret] nth_equalityI) (simp_all add: to_bits_nth)
qed

lemma bv_ops_bool:
  assumes "length a = length b"
  shows "bv_and bool_ctx a b = ret (map2 (\<and>) a b)" "bv_or bool_ctx a b = ret (map2 (\<or>) a b)"
    "bv_xor bool_ctx a b = ret (map2 (\<noteq>) a b)" "bv_not bool_ctx a = ret (map Not a)"
    "bv_eq bool_ctx a b = ret (a = b)" "bv_neq bool_ctx a b = ret (a \<noteq> b)"
    "bv_select bool_ctx a sel b = ret (if sel then b else a)"
  using assms map2_select [OF assms]
  by (simp_all add: bv_and_def bv_or_def bv_xor_def bv_not_def bv_eq_def bv_neq_def bv_select_def del: mux_bool)

lemma bv_shift_bool:
  "bv_shl bool_ctx w s = (if 0 \<le> s then ret (to_bits (length w) (bits_val w * 2 ^ nat s)) else fail NegativeShift)"
  "bv_shr bool_ctx w s = (if 0 \<le> s then ret (to_bits (length w) (bits_val w div 2 ^ nat s)) else fail NegativeShift)"
  by (simp_all add: bv_shl_def bv_shr_def shl_wires_bool shr_wires_bool check_def)

text \<open>Plaintext wires are the bytes 0 and 1; a computation over them follows the one over truth values.\<close>

definition clear_bits :: "bool list \<Rightarrow> 8 word list" where
  "clear_bits bs = map of_bool bs"

lemma clear_bits_rel: "list_all2 (\<lambda>b w. w = of_bool b) bs ws \<longleftrightarrow> ws = clear_bits bs"
  by (auto simp: clear_bits_def list_all2_conv_all_nth intro: nth_equalityI)

lemma clear_run:
  assumes "sim (\<lambda>_. True) (\<lambda>_ _. True) (\<lambda>_. False) P m n" and "m = (ret x :: (unit, _) gm)" and "\<And>y. P x y \<Longrightarrow> y = f x"
  shows "n = (ret (f x) :: (unit, _) gm)"
proof (rule ext)
  fix t :: unit
  have "m () = Inr (x, ())" using assms(2) by (simp add: ret_def)
  from assms(1) this show "n t = ret (f x) t"
    by (rule simD) (use assms(3) in \<open>auto simp: ret_def\<close>)
qed

lemma clear_unop:
  assumes "rel_fun (list_all2 (\<lambda>b w. w = of_bool b)) (sim (\<lambda>_. True) (\<lambda>_ _. True) (\<lambda>_. False) (list_all2 (\<lambda>b w. w = of_bool b))) f g"
    and "f a = (ret x :: (unit, bool list) gm)"
  shows "g (clear_bits a) = (ret (clear_bits x) :: (unit, _) gm)"
  using clear_run [OF rel_funD [OF assms(1)] assms(2)] by (simp add: clear_bits_rel)

lemma clear_binop:
  assumes "rel_fun (list_all2 (\<lambda>b w. w = of_bool b)) (rel_fun (list_all2 (\<lambda>b w. w = of_bool b)) (sim (\<lambda>_. True) (\<lambda>_ _. True) (\<lambda>_. False) (list_all2 (\<lambda>b w. w = of_bool b)))) f g"
    and "f a b = (ret x :: (unit, bool list) gm)"
  shows "g (clear_bits a) (clear_bits b) = (ret (clear_bits x) :: (unit, _) gm)"
  using clear_run [OF rel_funD [OF rel_funD [OF assms(1)]] assms(2)] by (simp add: clear_bits_rel)

lemma clear_binpred:
  assumes "rel_fun (list_all2 (\<lambda>b w. w = of_bool b)) (rel_fun (list_all2 (\<lambda>b w. w = of_bool b)) (sim (\<lambda>_. True) (\<lambda>_ _. True) (\<lambda>_. False) (\<lambda>b w. w = of_bool b))) f g"
    and "f a b = (ret x :: (unit, bool) gm)"
  shows "g (clear_bits a) (clear_bits b) = (ret (of_bool x) :: (unit, _) gm)"
  using clear_run [OF rel_funD [OF rel_funD [OF assms(1)]] assms(2)] by (simp add: clear_bits_rel)

section \<open>The codec contract\<close>

text \<open>
  The codec half of \<open>WireValue\<close>: clear values in the range of the type encode to \<open>width\<close> bits and
  decode back; every bit pattern of that length is the encoding of what it decodes to.
\<close>

locale wire_value =
  fixes width :: nat
    and encode :: "'v \<Rightarrow> bool list"
    and decode :: "bool list \<Rightarrow> 'v"
    and in_type :: "'v \<Rightarrow> bool"
  assumes length_encode: "in_type v \<Longrightarrow> length (encode v) = width"
    and decode_encode: "in_type v \<Longrightarrow> decode (encode v) = v"
    and in_type_decode: "length bs = width \<Longrightarrow> in_type (decode bs)"
    and encode_decode: "length bs = width \<Longrightarrow> encode (decode bs) = bs"
begin

text \<open>A circuit between decoded values has one clear meaning: decoding commutes with evaluation.\<close>

lemma encode_inj: "in_type u \<Longrightarrow> in_type v \<Longrightarrow> encode u = encode v \<Longrightarrow> u = v"
  by (metis decode_encode)

lemma encode_bij: "bij_betw encode {v. in_type v} {bs. length bs = width}"
  by (rule bij_betw_byWitness [where f' = decode])
    (auto simp: decode_encode encode_decode length_encode in_type_decode)

end

interpretation bit_value: wire_value 1 bit_encode bit_decode "\<lambda>_. True"
  by unfold_locales (auto simp: bit_encode_def bit_decode_def length_Suc_conv)

interpretation bv_value: wire_value N bv_encode bv_decode "\<lambda>v. length v = N" for N
  by unfold_locales (auto simp: bv_encode_def bv_decode_def)

end
