(* ===== verification/Unsigned.thy ===== *)
theory Unsigned
  imports Values
begin

text \<open>
  \<open>circuits/unsigned_int.h\<close>: \<open>UInt_T\<close>, the unsigned integers of width \<open>N\<close> (\<open>N > 0\<close>: fixed width;
  \<open>N == 0\<close>: runtime width), as lists of wires. Both forms run the same loops; the runtime-width form
  adds the checks that a width is at least 1 and that operands have equal widths (\<open>same_width\<close>),
  which hold by typing in the fixed-width form.

  Lemmas: every operation preserves simulations of contexts; on truth values the operations are
  addition, subtraction and multiplication modulo \<open>2 ^ N\<close>, division with saturation, comparisons,
  shifts and rotations, bit counts, and square-and-multiply exponentiation.
\<close>

section \<open>Operations\<close>

definition same_width :: "'w list \<Rightarrow> 'w list \<Rightarrow> ('s, 'a) gm \<Rightarrow> ('s, 'a) gm" where
  "same_width a b m = check (length a = length b) DifferentWidths m"

definition validate_width :: "int \<Rightarrow> ('s, 'a) gm \<Rightarrow> ('s, 'a) gm" where
  "validate_width width m = check (1 \<le> width) WidthNotPositive m"

definition uint_constant :: "('s, 'w, 'z) ctx_scheme \<Rightarrow> nat \<Rightarrow> 64 word \<Rightarrow> ('s, 'w list) gm" where
  "uint_constant C N v = map_gm (\<lambda>i. public_bit C (if i < 64 then bit v i else False)) [0..<N]"

definition uint_constant_rt :: "('s, 'w, 'z) ctx_scheme \<Rightarrow> int \<Rightarrow> 64 word \<Rightarrow> ('s, 'w list) gm" where
  "uint_constant_rt C width v = validate_width width (uint_constant C (nat width) v)"

definition uint_add :: "('s, 'w, 'z) ctx_scheme \<Rightarrow> 'w list \<Rightarrow> 'w list \<Rightarrow> ('s, 'w list) gm" where
  "uint_add C a b = same_width a b (ripple_add C a b)"

definition uint_sub :: "('s, 'w, 'z) ctx_scheme \<Rightarrow> 'w list \<Rightarrow> 'w list \<Rightarrow> ('s, 'w list) gm" where
  "uint_sub C a b = same_width a b (ripple_sub C a b)"

definition uint_and :: "('s, 'w, 'z) ctx_scheme \<Rightarrow> 'w list \<Rightarrow> 'w list \<Rightarrow> ('s, 'w list) gm" where
  "uint_and C a b = same_width a b (map2_gm (and_gate C) a b)"

definition uint_xor :: "('s, 'w, 'z) ctx_scheme \<Rightarrow> 'w list \<Rightarrow> 'w list \<Rightarrow> ('s, 'w list) gm" where
  "uint_xor C a b = same_width a b (map2_gm (xor_gate C) a b)"

definition uint_or :: "('s, 'w, 'z) ctx_scheme \<Rightarrow> 'w list \<Rightarrow> 'w list \<Rightarrow> ('s, 'w list) gm" where
  "uint_or C a b = same_width a b (map2_gm (or_gate C) a b)"

definition uint_not :: "('s, 'w, 'z) ctx_scheme \<Rightarrow> 'w list \<Rightarrow> ('s, 'w list) gm" where
  "uint_not C a = map_gm (not_gate C) a"

definition uint_mul :: "('s, 'w, 'z) ctx_scheme \<Rightarrow> 'w list \<Rightarrow> 'w list \<Rightarrow> ('s, 'w list) gm" where
  "uint_mul C a b = same_width a b (mul_full C a b)"

definition uint_div :: "('s, 'w, 'z) ctx_scheme \<Rightarrow> 'w list \<Rightarrow> 'w list \<Rightarrow> ('s, 'w list) gm" where
  "uint_div C a b = same_width a b (bind (div_full C a b) (\<lambda>(r, q). ret q))"

definition uint_mod :: "('s, 'w, 'z) ctx_scheme \<Rightarrow> 'w list \<Rightarrow> 'w list \<Rightarrow> ('s, 'w list) gm" where
  "uint_mod C a b = same_width a b (bind (div_full C a b) (\<lambda>(r, q). ret r))"

definition uint_eq :: "('s, 'w, 'z) ctx_scheme \<Rightarrow> 'w list \<Rightarrow> 'w list \<Rightarrow> ('s, 'w) gm" where
  "uint_eq C a b = same_width a b (equal C a b)"

definition uint_neq :: "('s, 'w, 'z) ctx_scheme \<Rightarrow> 'w list \<Rightarrow> 'w list \<Rightarrow> ('s, 'w) gm" where
  "uint_neq C a b = bind (uint_eq C a b) (bit_not C)"

definition uint_lt :: "('s, 'w, 'z) ctx_scheme \<Rightarrow> 'w list \<Rightarrow> 'w list \<Rightarrow> ('s, 'w) gm" where
  "uint_lt C a b = same_width a b (less_than C a b)"

definition uint_gt :: "('s, 'w, 'z) ctx_scheme \<Rightarrow> 'w list \<Rightarrow> 'w list \<Rightarrow> ('s, 'w) gm" where
  "uint_gt C a b = uint_lt C b a"

definition uint_le :: "('s, 'w, 'z) ctx_scheme \<Rightarrow> 'w list \<Rightarrow> 'w list \<Rightarrow> ('s, 'w) gm" where
  "uint_le C a b = bind (uint_gt C a b) (bit_not C)"

definition uint_ge :: "('s, 'w, 'z) ctx_scheme \<Rightarrow> 'w list \<Rightarrow> 'w list \<Rightarrow> ('s, 'w) gm" where
  "uint_ge C a b = bind (uint_lt C a b) (bit_not C)"

definition uint_select :: "('s, 'w, 'z) ctx_scheme \<Rightarrow> 'w list \<Rightarrow> 'w \<Rightarrow> 'w list \<Rightarrow> ('s, 'w list) gm" where
  "uint_select C a sel t = same_width a t (map2_gm (\<lambda>x y. mux C sel y x) a t)"

definition uint_shl :: "('s, 'w, 'z) ctx_scheme \<Rightarrow> 'w list \<Rightarrow> int \<Rightarrow> ('s, 'w list) gm" where
  "uint_shl C w s = check (0 \<le> s) NegativeShift (bind (public_bit C False) (shl_wires w s))"

definition uint_shr :: "('s, 'w, 'z) ctx_scheme \<Rightarrow> 'w list \<Rightarrow> int \<Rightarrow> ('s, 'w list) gm" where
  "uint_shr C w s = check (0 \<le> s) NegativeShift (bind (public_bit C False) (shr_wires w s))"

text \<open>The C++ remainder takes the sign of the dividend.\<close>

definition c_rem :: "int \<Rightarrow> int \<Rightarrow> int" where
  "c_rem a n = (if 0 \<le> a then a mod n else - ((- a) mod n))"

definition uint_rotl :: "'w list \<Rightarrow> int \<Rightarrow> ('s, 'w list) gm" where
  "uint_rotl w s0 =
     (let n = int (length w); s = c_rem (c_rem s0 n + n) n in
      map_gm (\<lambda>i. rd w (nat (c_rem (c_rem (int i - s) n + n) n))) [0..<length w])"

definition uint_rotr :: "'w list \<Rightarrow> int \<Rightarrow> ('s, 'w list) gm" where
  "uint_rotr w s0 =
     (let n = int (length w); s = c_rem (c_rem s0 n + n) n in
      map_gm (\<lambda>i. rd w (nat (c_rem (int i + s) n))) [0..<length w])"

text \<open>The number of amount bits the barrel shifter consumes; the others force the overflow value.\<close>

definition barrel_use :: "nat \<Rightarrow> nat" where
  "barrel_use N = (if N \<le> 1 then 0 else clog2_ceil N)"

definition barrel_overflow :: "('s, 'w, 'z) ctx_scheme \<Rightarrow> 'w list \<Rightarrow> nat \<Rightarrow> nat \<Rightarrow> ('s, 'w) gm" where
  "barrel_overflow C shamt use N =
     bind (bit_constant C False) (\<lambda>ov.
       fold_gm (\<lambda>i ov. bind (rd shamt i) (\<lambda>b. bit_or C ov b)) [use..<N] ov)"

definition uint_barrel_shl :: "('s, 'w, 'z) ctx_scheme \<Rightarrow> 'w list \<Rightarrow> 'w list \<Rightarrow> ('s, 'w list) gm" where
  "uint_barrel_shl C w shamt =
     (let N = length w in
      bind (fold_gm (\<lambda>i res. bind (rd shamt i) (\<lambda>sel. bind (uint_shl C res (2 ^ i)) (uint_select C res sel)))
              [0..<barrel_use N] w) (\<lambda>res.
      bind (barrel_overflow C shamt (barrel_use N) N) (\<lambda>overflow.
      bind (uint_constant C N 0) (uint_select C res overflow))))"

definition uint_barrel_shr :: "('s, 'w, 'z) ctx_scheme \<Rightarrow> 'w list \<Rightarrow> 'w list \<Rightarrow> ('s, 'w list) gm" where
  "uint_barrel_shr C w shamt =
     (let N = length w in
      bind (fold_gm (\<lambda>i res. bind (rd shamt i) (\<lambda>sel. bind (uint_shr C res (2 ^ i)) (uint_select C res sel)))
              [0..<barrel_use N] w) (\<lambda>res.
      bind (barrel_overflow C shamt (barrel_use N) N) (\<lambda>overflow.
      bind (uint_constant C N 0) (uint_select C res overflow))))"

definition uint_popcount :: "('s, 'w, 'z) ctx_scheme \<Rightarrow> nat \<Rightarrow> 'w list \<Rightarrow> ('s, 'w list) gm" where
  "uint_popcount C R w =
     bind (uint_constant C R 0) (\<lambda>acc.
       fold_gm (\<lambda>x acc. bind (uint_constant C R 0) (\<lambda>b.
         check (0 < R) UndefinedBehaviour (uint_add C acc (b[0 := x])))) w acc)"

definition uint_hamming_weight :: "('s, 'w, 'z) ctx_scheme \<Rightarrow> 'w list \<Rightarrow> ('s, 'w list) gm" where
  "uint_hamming_weight C w = uint_popcount C (bits_for (length w)) w"

definition uint_hamming_weight_rt :: "('s, 'w, 'z) ctx_scheme \<Rightarrow> 'w list \<Rightarrow> ('s, 'w list) gm" where
  "uint_hamming_weight_rt C w =
     (let rw = bits_for (length w) in
      bind (uint_constant_rt C (int rw) 0) (\<lambda>acc.
        fold_gm (\<lambda>x acc. bind (uint_constant_rt C (int rw) 0) (\<lambda>b. uint_add C acc (b[0 := x]))) w acc))"

text \<open>Saturate downwards from the top bit, complement, and count.\<close>

definition uint_saturate :: "('s, 'w, 'z) ctx_scheme \<Rightarrow> 'w list \<Rightarrow> ('s, 'w list) gm" where
  "uint_saturate C w =
     fold_gm (\<lambda>i sat. bind (rd sat (i + 1)) (\<lambda>hi. bind (rd sat i) (\<lambda>lo.
       bind (or_gate C hi lo) (\<lambda>y. ret (sat[i := y]))))) (rev [0..<length w - 1]) w"

definition uint_leading_zeros :: "('s, 'w, 'z) ctx_scheme \<Rightarrow> 'w list \<Rightarrow> ('s, 'w list) gm" where
  "uint_leading_zeros C w =
     bind (uint_saturate C w) (\<lambda>sat. bind (map_gm (not_gate C) sat) (uint_hamming_weight C))"

definition uint_mod_exp ::
  "('s, 'w, 'z) ctx_scheme \<Rightarrow> 'w list \<Rightarrow> 'w list \<Rightarrow> 'w list \<Rightarrow> ('s, 'w list) gm" where
  "uint_mod_exp C w p q =
     bind (uint_constant C (length w) 1) (\<lambda>one.
     bind (fold_gm (\<lambda>pi (base, res).
        bind (uint_mul C res base) (\<lambda>m. bind (uint_mod C m q) (\<lambda>tmp.
        bind (uint_select C res pi tmp) (\<lambda>res'.
        bind (uint_mul C base base) (\<lambda>bb. bind (uint_mod C bb q) (\<lambda>base'.
        ret (base', res'))))))) p (w, one)) (\<lambda>(base, res). ret res))"

text \<open>Width-changing views; the compile-time bounds are static assertions.\<close>

definition uint_slice :: "nat \<Rightarrow> nat \<Rightarrow> 'w list \<Rightarrow> 'w list" where
  "uint_slice lo hi w = take (hi - lo) (drop lo w)"

definition uint_extract :: "nat \<Rightarrow> nat \<Rightarrow> 'w list \<Rightarrow> 'w list" where
  "uint_extract base width w = uint_slice base (base + width) w"

definition uint_concat :: "'w list \<Rightarrow> 'w list \<Rightarrow> 'w list" where
  "uint_concat w hi = w @ hi"

definition uint_trunc :: "nat \<Rightarrow> 'w list \<Rightarrow> 'w list" where
  "uint_trunc M w = take M w"

definition fit_wires :: "nat \<Rightarrow> 'w list \<Rightarrow> 'w \<Rightarrow> ('s, 'w list) gm" where
  "fit_wires M w z = map_gm (\<lambda>i. if i < length w then rd w i else ret z) [0..<M]"

definition uint_zext :: "('s, 'w, 'z) ctx_scheme \<Rightarrow> nat \<Rightarrow> 'w list \<Rightarrow> ('s, 'w list) gm" where
  "uint_zext C M w = bind (public_bit C False) (fit_wires M w)"

definition uint_to_fixed :: "('s, 'w, 'z) ctx_scheme \<Rightarrow> nat \<Rightarrow> 'w list \<Rightarrow> ('s, 'w list) gm" where
  "uint_to_fixed C M w = bind (public_bit C False) (fit_wires M w)"

definition uint_resize :: "('s, 'w, 'z) ctx_scheme \<Rightarrow> int \<Rightarrow> 'w list \<Rightarrow> ('s, 'w list) gm" where
  "uint_resize C m w = validate_width m (bind (public_bit C False) (fit_wires (nat m) w))"

section \<open>Codecs\<close>

unbundle bit_operations_syntax

definition uint_encode :: "nat \<Rightarrow> 64 word \<Rightarrow> bool list" where
  "uint_encode N v = map (bit v) [0..<N]"

definition or_bits :: "bool list \<Rightarrow> 64 word" where
  "or_bits bs = fold (\<lambda>i v. v OR push_bit i (if bs ! i then 1 else 0)) [0..<length bs] 0"

definition uint_decode :: "bool list \<Rightarrow> 64 word" where
  "uint_decode bs = or_bits bs"

definition uint_encode_rt :: "64 word \<Rightarrow> int \<Rightarrow> 8 word list" where
  "uint_encode_rt v width = map (\<lambda>i. if i < 64 then of_bool (bit v i) else 0) [0..<nat width]"

definition uint_decode_rt :: "8 word list \<Rightarrow> 64 word" where
  "uint_decode_rt bs = or_bits (map (\<lambda>b. b \<noteq> 0) (take 64 bs))"

section \<open>Simulations\<close>

context ctx_sim
begin

lemma width_checks_transfer [transfer_rule]:
  "(rel_fun Ws (rel_fun Ws (rel_fun (S P) (S P)))) same_width same_width"
  "(rel_fun (=) (rel_fun (S P) (S P))) validate_width validate_width"
  unfolding same_width_def [abs_def] validate_width_def [abs_def] by transfer_prover+

lemma uint_ops_transfer [transfer_rule]:
  "(rel_fun (=) (rel_fun (=) (S Ws))) (uint_constant C) (uint_constant D)"
  "(rel_fun Ws (rel_fun Ws (S Ws))) (uint_add C) (uint_add D)"
  "(rel_fun Ws (rel_fun Ws (S Ws))) (uint_sub C) (uint_sub D)"
  "(rel_fun Ws (rel_fun Ws (S Ws))) (uint_and C) (uint_and D)"
  "(rel_fun Ws (rel_fun Ws (S Ws))) (uint_xor C) (uint_xor D)"
  "(rel_fun Ws (rel_fun Ws (S Ws))) (uint_or C) (uint_or D)"
  "(rel_fun Ws (S Ws)) (uint_not C) (uint_not D)"
  "(rel_fun Ws (rel_fun Ws (S Ws))) (uint_mul C) (uint_mul D)"
  "(rel_fun Ws (rel_fun Ws (S Ws))) (uint_div C) (uint_div D)"
  "(rel_fun Ws (rel_fun Ws (S Ws))) (uint_mod C) (uint_mod D)"
  "(rel_fun Ws (rel_fun Ws (S W))) (uint_eq C) (uint_eq D)"
  "(rel_fun Ws (rel_fun Ws (S W))) (uint_lt C) (uint_lt D)"
  "(rel_fun Ws (rel_fun W (rel_fun Ws (S Ws)))) (uint_select C) (uint_select D)"
  "(rel_fun Ws (rel_fun (=) (S Ws))) (uint_shl C) (uint_shl D)"
  "(rel_fun Ws (rel_fun (=) (S Ws))) (uint_shr C) (uint_shr D)"
  unfolding uint_constant_def [abs_def] uint_add_def [abs_def] uint_sub_def [abs_def] uint_and_def [abs_def]
    uint_xor_def [abs_def] uint_or_def [abs_def] uint_not_def [abs_def] uint_mul_def [abs_def]
    uint_div_def [abs_def] uint_mod_def [abs_def] uint_eq_def [abs_def] uint_lt_def [abs_def]
    uint_select_def [abs_def] uint_shl_def [abs_def] uint_shr_def [abs_def]
  by transfer_prover+

lemma uint_wiring_transfer [transfer_rule]:
  "(rel_fun Ws (rel_fun (=) (S Ws))) uint_rotl uint_rotl"
  "(rel_fun Ws (rel_fun (=) (S Ws))) uint_rotr uint_rotr"
  "(rel_fun (=) (rel_fun Ws (rel_fun W (S Ws)))) fit_wires fit_wires"
  unfolding uint_rotl_def [abs_def] uint_rotr_def [abs_def] fit_wires_def [abs_def] by transfer_prover+

lemma uint_derived_transfer [transfer_rule]:
  "(rel_fun (=) (rel_fun (=) (S Ws))) (uint_constant_rt C) (uint_constant_rt D)"
  "(rel_fun Ws (rel_fun Ws (S W))) (uint_neq C) (uint_neq D)"
  "(rel_fun Ws (rel_fun Ws (S W))) (uint_gt C) (uint_gt D)"
  "(rel_fun Ws (rel_fun Ws (S W))) (uint_ge C) (uint_ge D)"
  "(rel_fun Ws (rel_fun (=) (rel_fun (=) (S W)))) (barrel_overflow C) (barrel_overflow D)"
  "(rel_fun (=) (rel_fun Ws (S Ws))) (uint_popcount C) (uint_popcount D)"
  "(rel_fun Ws (S Ws)) (uint_saturate C) (uint_saturate D)"
  "(rel_fun Ws (rel_fun Ws (rel_fun Ws (S Ws)))) (uint_mod_exp C) (uint_mod_exp D)"
  "(rel_fun (=) (rel_fun Ws (S Ws))) (uint_zext C) (uint_zext D)"
  "(rel_fun (=) (rel_fun Ws (S Ws))) (uint_to_fixed C) (uint_to_fixed D)"
  "(rel_fun (=) (rel_fun Ws (S Ws))) (uint_resize C) (uint_resize D)"
  unfolding uint_constant_rt_def [abs_def] uint_neq_def [abs_def] uint_gt_def [abs_def] uint_ge_def [abs_def]
    barrel_overflow_def [abs_def] uint_popcount_def [abs_def] uint_saturate_def [abs_def]
    uint_mod_exp_def [abs_def] uint_zext_def [abs_def] uint_to_fixed_def [abs_def] uint_resize_def [abs_def]
  by transfer_prover+

lemma uint_compound_transfer [transfer_rule]:
  "(rel_fun Ws (rel_fun Ws (S W))) (uint_le C) (uint_le D)"
  "(rel_fun Ws (rel_fun Ws (S Ws))) (uint_barrel_shl C) (uint_barrel_shl D)"
  "(rel_fun Ws (rel_fun Ws (S Ws))) (uint_barrel_shr C) (uint_barrel_shr D)"
  "(rel_fun Ws (S Ws)) (uint_hamming_weight C) (uint_hamming_weight D)"
  "(rel_fun Ws (S Ws)) (uint_hamming_weight_rt C) (uint_hamming_weight_rt D)"
  unfolding uint_le_def [abs_def] uint_barrel_shl_def [abs_def] uint_barrel_shr_def [abs_def]
    uint_hamming_weight_def [abs_def] uint_hamming_weight_rt_def [abs_def]
  by transfer_prover+

lemma uint_leading_zeros_transfer [transfer_rule]:
  "(rel_fun Ws (S Ws)) (uint_leading_zeros C) (uint_leading_zeros D)"
  unfolding uint_leading_zeros_def [abs_def] by transfer_prover

end

section \<open>Meaning on truth values\<close>

lemma uint_constant_bool [simp]: "uint_constant bool_ctx N v = ret (to_bits N (unat v))"
proof -
  have "bit v i = odd (unat v div 2 ^ i)" for i
    by (simp add: bit_unsigned_iff flip: bit_iff_odd)
  then have "uint_constant bool_ctx N v = ret (map (\<lambda>i. i < 64 \<and> odd (unat v div 2 ^ i)) [0..<N])"
    unfolding uint_constant_def by (intro map_gm_ret) simp
  moreover have "odd (unat v div 2 ^ i) \<Longrightarrow> i < 64" for i
    using bit_imp_le_length [of v i] \<open>\<And>i. bit v i = odd (unat v div 2 ^ i)\<close> by simp
  ultimately show ?thesis by (auto simp: to_bits_nth intro!: nth_equalityI)
qed

lemma uint_ops_bool [simp]:
  assumes "length a = length b"
  shows "uint_add bool_ctx a b = ret (to_bits (length a) (bits_val a + bits_val b))"
    and "uint_sub bool_ctx a b = ret (to_bits (length a) (2 ^ length a + bits_val a - bits_val b))"
    and "uint_and bool_ctx a b = ret (map2 (\<and>) a b)"
    and "uint_xor bool_ctx a b = ret (map2 (\<noteq>) a b)"
    and "uint_or bool_ctx a b = ret (map2 (\<or>) a b)"
    and "uint_mul bool_ctx a b = ret (to_bits (length a) (bits_val a * bits_val b))"
    and "uint_eq bool_ctx a b = ret (a = b)"
    and "uint_neq bool_ctx a b = ret (a \<noteq> b)"
  using assms
  by (simp_all add: uint_add_def uint_sub_def uint_and_def uint_xor_def uint_or_def uint_mul_def uint_eq_def
      uint_neq_def same_width_def)

lemma uint_not_bool [simp]: "uint_not bool_ctx a = ret (map Not a)"
  by (simp add: uint_not_def map_gm_ret)

lemma uint_select_bool [simp]:
  "length a = length t \<Longrightarrow> uint_select bool_ctx a sel t = ret (if sel then t else a)"
  unfolding uint_select_def same_width_def by (simp add: map2_select del: mux_bool)

lemma uint_cmp_bool [simp]:
  assumes "length a = length b" and "a \<noteq> []"
  shows "uint_lt bool_ctx a b = ret (bits_val a < bits_val b)"
    and "uint_gt bool_ctx a b = ret (bits_val b < bits_val a)"
    and "uint_le bool_ctx a b = ret (bits_val a \<le> bits_val b)"
    and "uint_ge bool_ctx a b = ret (bits_val b \<le> bits_val a)"
proof -
  have "b \<noteq> []" using assms by auto
  with assms show "uint_lt bool_ctx a b = ret (bits_val a < bits_val b)"
    and "uint_gt bool_ctx a b = ret (bits_val b < bits_val a)"
    and "uint_le bool_ctx a b = ret (bits_val a \<le> bits_val b)"
    and "uint_ge bool_ctx a b = ret (bits_val b \<le> bits_val a)"
    by (simp_all add: uint_lt_def uint_gt_def uint_le_def uint_ge_def same_width_def not_less)
qed

lemma uint_div_bool [simp]:
  assumes "length a = length b" and "a \<noteq> []" and "0 < bits_val b"
  shows "uint_div bool_ctx a b = ret (to_bits (length a) (bits_val a div bits_val b))"
    and "uint_mod bool_ctx a b = ret (to_bits (length a) (bits_val a mod bits_val b))"
  using assms by (simp_all add: uint_div_def uint_mod_def same_width_def)

lemma uint_div_zero_bool:
  assumes "length a = length b" and "a \<noteq> []" and "bits_val b = 0"
  shows "uint_div bool_ctx a b = ret (replicate (length a) True)"
    and "uint_mod bool_ctx a b = ret a"
  using assms by (simp_all add: uint_div_def uint_mod_def same_width_def div_full_bool_zero)

lemma uint_shift_bool:
  assumes "0 \<le> s"
  shows "uint_shl bool_ctx w s = ret (to_bits (length w) (bits_val w * 2 ^ nat s))"
    and "uint_shr bool_ctx w s = ret (to_bits (length w) (bits_val w div 2 ^ nat s))"
  using assms by (simp_all add: uint_shl_def uint_shr_def shl_wires_bool shr_wires_bool)

lemma uint_shift_negative: "s < 0 \<Longrightarrow> uint_shl C w s = fail NegativeShift" "s < 0 \<Longrightarrow> uint_shr C w s = fail NegativeShift"
  by (simp_all add: uint_shl_def uint_shr_def)

subsection \<open>Rotations\<close>

lemma c_rem_norm: "0 < n \<Longrightarrow> c_rem (c_rem a n + n) n = a mod n"
proof -
  assume n: "0 < n"
  then have "- a mod n < n" "0 \<le> a mod n" by simp_all
  then have "0 \<le> c_rem a n + n" unfolding c_rem_def using n by (split if_split) linarith
  moreover have "(c_rem a n + n) mod n = a mod n" by (simp add: c_rem_def mod_minus_eq)
  ultimately show ?thesis by (simp add: c_rem_def)
qed

lemma uint_rotl_eq:
  assumes "w \<noteq> []"
  shows "uint_rotl w s = ret (map (\<lambda>i. w ! nat ((int i - s) mod int (length w))) [0..<length w])"
proof -
  have n: "0 < int (length w)" using assms by simp
  then have "nat (k mod int (length w)) < length w" for k
    using pos_mod_bound [OF n, of k] pos_mod_sign [OF n, of k] by linarith
  with n show ?thesis
    unfolding uint_rotl_def Let_def c_rem_norm [OF n] by (intro map_gm_ret) (simp add: mod_simps)
qed

lemma uint_rotr_eq:
  assumes "w \<noteq> []"
  shows "uint_rotr w s = ret (map (\<lambda>i. w ! nat ((int i + s) mod int (length w))) [0..<length w])"
proof -
  have n: "0 < int (length w)" using assms by simp
  then have "nat (k mod int (length w)) < length w" for k
    using pos_mod_bound [OF n, of k] pos_mod_sign [OF n, of k] by linarith
  with n show ?thesis
    unfolding uint_rotr_def Let_def c_rem_norm [OF n]
    by (intro map_gm_ret) (simp add: c_rem_def mod_simps)
qed

lemma rot_index:
  assumes "0 < n" and "i < n"
  shows "nat ((int (nat ((int i + s) mod int n)) - s) mod int n) = i"
  using assms by (simp add: mod_simps)

lemma uint_rotr_rotl:
  assumes "w \<noteq> []"
  shows "bind (uint_rotl w s) (\<lambda>v. uint_rotr v s) = ret w"
proof -
  define v where "v = map (\<lambda>i. w ! nat ((int i - s) mod int (length w))) [0..<length w]"
  have v: "v \<noteq> []" "length v = length w" using assms by (auto simp: v_def)
  have n: "0 < int (length w)" using assms by simp
  have "nat ((int i + s) mod int (length w)) < length w" for i
    using pos_mod_bound [OF n, of "int i + s"] pos_mod_sign [OF n, of "int i + s"] by linarith
  then have "map (\<lambda>i. v ! nat ((int i + s) mod int (length v))) [0..<length v] = w"
    using n rot_index [of "length w" _ s] unfolding v(2) by (intro nth_equalityI) (simp_all add: v_def)
  then show ?thesis unfolding uint_rotl_eq [OF assms] bind_ret v_def [symmetric] uint_rotr_eq [OF v(1)] by simp
qed

subsection \<open>Barrel shifts\<close>

lemma clog2_loop_ge: "n \<le> 2 ^ clog2_loop n b"
  by (induction n b rule: clog2_loop.induct) (subst clog2_loop.simps, simp add: not_less)

lemma clog2_loop_le: "n \<le> 2 ^ m \<Longrightarrow> b \<le> m \<Longrightarrow> clog2_loop n b \<le> m"
proof (induction n b rule: clog2_loop.induct)
  case (1 n b)
  have "2 ^ b < n \<Longrightarrow> Suc b \<le> m"
    using "1.prems" by (metis le_neq_implies_less less_le_not_le Suc_leI)
  with 1 show ?case by (subst clog2_loop.simps) simp
qed

lemma clog2_ceil_spec: "n \<le> 2 ^ m \<longleftrightarrow> clog2_ceil n \<le> m"
proof
  assume "clog2_ceil n \<le> m"
  then have "(2 :: nat) ^ clog2_ceil n \<le> 2 ^ m" by simp
  then show "n \<le> 2 ^ m" unfolding clog2_ceil_def using clog2_loop_ge [of n 0] by linarith
qed (simp add: clog2_ceil_def clog2_loop_le)

lemma bits_for_loop_gt: "n < 2 ^ bits_for_loop n b"
  by (induction n b rule: bits_for_loop.induct) (subst bits_for_loop.simps, simp add: not_le)

lemma bits_for_loop_le: "n < 2 ^ m \<Longrightarrow> b \<le> m \<Longrightarrow> bits_for_loop n b \<le> m"
proof (induction n b rule: bits_for_loop.induct)
  case (1 n b)
  have "2 ^ b \<le> n \<Longrightarrow> Suc b \<le> m"
    using "1.prems" by (metis le_neq_implies_less less_le_not_le Suc_leI)
  with 1 show ?case by (subst bits_for_loop.simps) simp
qed

lemma bits_for_pos: "b \<le> bits_for_loop n b"
  by (induction n b rule: bits_for_loop.induct) (subst bits_for_loop.simps, auto)

lemma barrel_use_bound: "N \<le> 2 ^ barrel_use N" "0 < N \<Longrightarrow> barrel_use N \<le> N"
  using clog2_ceil_spec [of N "clog2_ceil N"] clog2_ceil_spec [of N N] less_exp [of N]
  by (auto simp: barrel_use_def)

lemma barrel_overflow_bool:
  assumes "N \<le> length sh"
  shows "barrel_overflow bool_ctx sh u N = ret (\<exists>i. u \<le> i \<and> i < N \<and> sh ! i)"
proof -
  have "fold_gm (\<lambda>i ov. bind (rd sh i) (\<lambda>b. bit_or bool_ctx ov b)) is ov = ret (ov \<or> (\<exists>i \<in> set is. sh ! i))"
    if "\<forall>i \<in> set is. i < length sh" for "is" ov
    using that by (induction "is" arbitrary: ov) auto
  from this [of "[u..<N]"] assms show ?thesis by (auto simp: barrel_overflow_def)
qed

text \<open>The muxes of round \<open>i\<close> apply the shift by \<open>2 ^ i\<close> when amount bit \<open>i\<close> is set.\<close>

lemma bits_val_take_Suc:
  assumes "u < length sh"
  shows "bits_val (take (Suc u) sh) = bits_val (take u sh) + of_bool (sh ! u) * 2 ^ u"
  using assms by (simp add: take_Suc_conv_app_nth bits_val_append)

lemma barrel_shl_rounds:
  assumes "u \<le> length sh"
  shows "fold_gm (\<lambda>i res. bind (rd sh i) (\<lambda>sel. bind (uint_shl bool_ctx res (2 ^ i)) (uint_select bool_ctx res sel))) [0..<u] w
     = ret (to_bits (length w) (bits_val w * 2 ^ bits_val (take u sh)))"
  using assms
proof (induction u)
  case (Suc u)
  let ?r = "to_bits (length w) (bits_val w * 2 ^ bits_val (take u sh))"
  have "to_bits (length w) ((bits_val w * 2 ^ bits_val (take u sh)) mod 2 ^ length w * 2 ^ 2 ^ u) =
      to_bits (length w) (bits_val w * 2 ^ (bits_val (take u sh) + 2 ^ u))"
    by (rule to_bits_cong) (simp add: power_add mod_mult_left_eq mult.assoc)
  then show ?case
    using Suc by (simp add: fold_gm_append uint_shift_bool bits_val_take_Suc nat_power_eq)
qed simp

lemma barrel_shr_rounds:
  assumes "u \<le> length sh"
  shows "fold_gm (\<lambda>i res. bind (rd sh i) (\<lambda>sel. bind (uint_shr bool_ctx res (2 ^ i)) (uint_select bool_ctx res sel))) [0..<u] w
     = ret (to_bits (length w) (bits_val w div 2 ^ bits_val (take u sh)))"
  using assms
proof (induction u)
  case (Suc u)
  have "bits_val w div k < 2 ^ length w" for k
    using bits_val_less [of w] div_le_dividend [of "bits_val w" k] by linarith
  then show ?case
    using Suc by (simp add: fold_gm_append uint_shift_bool bits_val_take_Suc nat_power_eq power_add div_mult2_eq)
qed simp

lemma bits_val_split_high:
  assumes "u \<le> length sh"
  shows "if (\<exists>i. u \<le> i \<and> i < length sh \<and> sh ! i) then 2 ^ u \<le> bits_val sh else bits_val sh = bits_val (take u sh)"
proof -
  have sh: "bits_val sh = bits_val (take u sh) + 2 ^ u * bits_val (drop u sh)"
    using bits_val_append [of "take u sh" "drop u sh"] assms by simp
  have "drop u sh = map ((!) sh) [u..<length sh]" by (metis add_0 drop_map drop_upt map_nth)
  then have "(\<exists>i. u \<le> i \<and> i < length sh \<and> sh ! i) \<longleftrightarrow> True \<in> set (drop u sh)" by force
  moreover have "True \<in> set bs \<longleftrightarrow> 0 < bits_val bs" for bs by (induction bs) auto
  moreover have "2 ^ u \<le> bits_val (take u sh) + 2 ^ u * k" if "0 < k" for k :: nat
    using that by (cases k) auto
  ultimately show ?thesis using sh by auto
qed

lemma uint_barrel_bool:
  assumes "length sh = length w" and "w \<noteq> []"
  shows "uint_barrel_shl bool_ctx w sh = ret (to_bits (length w) (bits_val w * 2 ^ bits_val sh))"
    and "uint_barrel_shr bool_ctx w sh = ret (to_bits (length w) (bits_val w div 2 ^ bits_val sh))"
proof -
  let ?u = "barrel_use (length w)" and ?N = "length w"
  have u: "?u \<le> length sh" "?N \<le> 2 ^ ?u" using barrel_use_bound [of ?N] assms by auto
  note split = bits_val_split_high [OF u(1)]
  have big: "to_bits ?N (bits_val w * 2 ^ k) = replicate ?N False" "bits_val w div 2 ^ k = 0" if "2 ^ ?u \<le> k" for k
  proof -
    have "?N \<le> k" using u(2) that by linarith
    then obtain d where k: "k = ?N + d" using le_Suc_ex by blast
    have "to_bits ?N (bits_val w * 2 ^ k) = to_bits ?N 0" unfolding k by (rule to_bits_cong) (simp add: power_add)
    then show "to_bits ?N (bits_val w * 2 ^ k) = replicate ?N False" by simp
    show "bits_val w div 2 ^ k = 0"
      by (rule div_less) (use bits_val_less [of w] power_increasing [OF \<open>?N \<le> k\<close>, of "2 :: nat"] in linarith)
  qed
  show "uint_barrel_shl bool_ctx w sh = ret (to_bits ?N (bits_val w * 2 ^ bits_val sh))"
    using split big assms(1) u(1)
    by (auto simp: uint_barrel_shl_def Let_def barrel_shl_rounds barrel_overflow_bool split: if_splits)
  show "uint_barrel_shr bool_ctx w sh = ret (to_bits ?N (bits_val w div 2 ^ bits_val sh))"
    using split big assms(1) u(1)
    by (auto simp: uint_barrel_shr_def Let_def barrel_shr_rounds barrel_overflow_bool split: if_splits)
qed

subsection \<open>Bit counts\<close>

text \<open>\<open>bits_for n\<close> is the least positive width that represents \<open>n\<close>.\<close>

lemma bits_for_gt: "n < 2 ^ bits_for n"
  unfolding bits_for_def by (rule bits_for_loop_gt)

lemma bits_for_positive: "0 < bits_for n"
  using bits_for_pos [of 1 n] by (simp add: bits_for_def)

lemma bits_for_least: "n < 2 ^ m \<Longrightarrow> 0 < m \<Longrightarrow> bits_for n \<le> m"
  unfolding bits_for_def by (rule bits_for_loop_le) auto

definition count_true :: "bool list \<Rightarrow> nat" where
  "count_true w = length (filter (\<lambda>b. b) w)"

lemma count_true_le: "count_true w \<le> length w"
  by (simp add: count_true_def)

lemma popcount_loop:
  assumes "0 < R"
  shows "fold_gm (\<lambda>x acc. bind (uint_constant bool_ctx R 0) (\<lambda>b.
      check (0 < R) UndefinedBehaviour (uint_add bool_ctx acc (b[0 := x])))) w (to_bits R k)
    = ret (to_bits R (k + count_true w))"
proof (induction w arbitrary: k)
  case (Cons x w)
  obtain n where R: "R = Suc n" using assms by (cases R) auto
  have "(to_bits R 0)[0 := x] = to_bits R (of_bool x)"
    by (rule nth_equalityI) (auto simp: R to_bits_nth nth_list_update div_eq_0_iff)
  moreover have "to_bits R (k mod 2 ^ R + of_bool x mod 2 ^ R) = to_bits R (k + of_bool x)"
    by (rule to_bits_cong) (simp add: mod_simps)
  ultimately show ?case
    using Cons [of "k + of_bool x"] assms by (simp add: count_true_def add.assoc del: to_bits_0)
qed (simp add: count_true_def)

lemma uint_popcount_bool:
  "0 < R \<Longrightarrow> uint_popcount bool_ctx R w = ret (to_bits R (count_true w))"
  using popcount_loop [of R w 0] by (simp add: uint_popcount_def del: to_bits_0)

lemma uint_hamming_weight_bool:
  "uint_hamming_weight bool_ctx w = ret (to_bits (bits_for (length w)) (count_true w))"
  by (simp add: uint_hamming_weight_def uint_popcount_bool bits_for_positive)

lemma uint_hamming_weight_rt_bool:
  "uint_hamming_weight_rt bool_ctx w = ret (to_bits (bits_for (length w)) (count_true w))"
  using popcount_loop [OF bits_for_positive, of "length w" w 0] bits_for_positive [of "length w"]
  by (simp add: uint_hamming_weight_rt_def uint_constant_rt_def validate_width_def Let_def del: to_bits_0)

lemma count_val: "bits_val (to_bits (bits_for (length w)) (count_true w)) = count_true w"
  using bits_for_gt [of "length w"] count_true_le [of w] by simp

text \<open>After the pass, bit \<open>i\<close> is set when some bit at or above \<open>i\<close> was.\<close>

lemma saturate_loop:
  assumes "w \<noteq> []" and "m < length w"
  shows "fold_gm (\<lambda>i sat. bind (rd sat (i + 1)) (\<lambda>hi. bind (rd sat i) (\<lambda>lo.
       bind (or_gate bool_ctx hi lo) (\<lambda>y. ret (sat[i := y]))))) (rev [length w - 1 - m..<length w - 1]) w
    = ret (map (\<lambda>i. if length w - 1 - m \<le> i then \<exists>j \<ge> i. j < length w \<and> w ! j else w ! i) [0..<length w])"
  using assms(2)
proof (induction m)
  case 0
  have "map (\<lambda>i. if length w - 1 \<le> i then \<exists>j \<ge> i. j < length w \<and> w ! j else w ! i) [0..<length w] = w"
  proof (rule nth_equalityI)
    fix i assume "i < length (map (\<lambda>i. if length w - 1 \<le> i then \<exists>j \<ge> i. j < length w \<and> w ! j else w ! i) [0..<length w])"
    then have "i < length w" by simp
    moreover have "j = i" if "length w - 1 \<le> i" "i \<le> j" "j < length w" for j using that by linarith
    ultimately show "map (\<lambda>i. if length w - 1 \<le> i then \<exists>j \<ge> i. j < length w \<and> w ! j else w ! i) [0..<length w] ! i = w ! i"
      by auto
  qed simp
  then show ?case by simp
next
  case (Suc m)
  define k where "k = length w - 1 - Suc m"
  have k: "length w - 1 - m = Suc k" "Suc k < length w" using Suc.prems by (auto simp: k_def)
  let ?s = "map (\<lambda>i. if Suc k \<le> i then \<exists>j \<ge> i. j < length w \<and> w ! j else w ! i) [0..<length w]"
  have up: "rev [k..<length w - 1] = rev [Suc k..<length w - 1] @ [k]"
    using k by (simp add: upt_conv_Cons)
  have ex: "(\<exists>j \<ge> k. P j) \<longleftrightarrow> P k \<or> (\<exists>j \<ge> Suc k. P j)" for P
    by (metis Suc_leD le_eq_less_or_eq less_eq_Suc_le)
  have "?s[k := (\<exists>j \<ge> Suc k. j < length w \<and> w ! j) \<or> w ! k] =
      map (\<lambda>i. if k \<le> i then \<exists>j \<ge> i. j < length w \<and> w ! j else w ! i) [0..<length w]"
  proof (rule nth_equalityI)
    fix i assume "i < length (?s[k := (\<exists>j \<ge> Suc k. j < length w \<and> w ! j) \<or> w ! k])"
    then have i: "i < length w" by simp
    show "?s[k := (\<exists>j \<ge> Suc k. j < length w \<and> w ! j) \<or> w ! k] ! i =
        map (\<lambda>i. if k \<le> i then \<exists>j \<ge> i. j < length w \<and> w ! j else w ! i) [0..<length w] ! i"
      using i ex [of "\<lambda>j. j < length w \<and> w ! j"] by (cases "i = k") auto
  qed simp
  then show ?case
    using Suc k unfolding k_def [symmetric] up by (simp add: fold_gm_append)
qed

lemma uint_saturate_bool:
  "uint_saturate bool_ctx w = ret (map (\<lambda>i. \<exists>j \<ge> i. j < length w \<and> w ! j) [0..<length w])"
proof (cases "w = []")
  case False
  then show ?thesis using saturate_loop [OF False, of "length w - 1"] by (simp add: uint_saturate_def)
qed (simp add: uint_saturate_def)

text \<open>The leading zeros of a bit list are the high positions above every set bit.\<close>

definition leading_zeros :: "bool list \<Rightarrow> nat" where
  "leading_zeros w = length (takeWhile Not (rev w))"

lemma count_map: "count_true (map P xs) = length (filter P xs)"
  by (simp add: count_true_def filter_map comp_def)

lemma count_not_saturated:
  "length (filter (\<lambda>i. \<not> (\<exists>j \<ge> i. j < length w \<and> w ! j)) [0..<length w]) = leading_zeros w"
proof (induction w rule: rev_induct)
  case (snoc b w)
  define P P' where "P i \<longleftrightarrow> (\<exists>j \<ge> i. j < length w \<and> w ! j)"
    and "P' i \<longleftrightarrow> (\<exists>j \<ge> i. j < length (w @ [b]) \<and> (w @ [b]) ! j)" for i
  have "P' i \<longleftrightarrow> b \<or> P i" if i: "i < length w" for i
  proof -
    have "P' i \<longleftrightarrow> (\<exists>j \<ge> i. j < length w \<and> (w @ [b]) ! j) \<or> (w @ [b]) ! length w"
      using i by (auto simp: P'_def less_Suc_eq intro: exI [of _ "length w"])
    also have "\<dots> \<longleftrightarrow> b \<or> P i" by (auto simp: P_def nth_append)
    finally show ?thesis .
  qed
  then have "filter (\<lambda>i. \<not> P' i) [0..<length w] = filter (\<lambda>i. \<not> (b \<or> P i)) [0..<length w]"
    by (intro filter_cong) auto
  moreover have "P' (length w) \<longleftrightarrow> b" by (auto simp: P'_def nth_append less_Suc_eq)
  ultimately have "length (filter (\<lambda>i. \<not> P' i) [0..<length (w @ [b])]) =
      length (filter (\<lambda>i. \<not> (b \<or> P i)) [0..<length w]) + of_bool (\<not> b)"
    by simp
  then show ?case using snoc unfolding P_def [symmetric] P'_def [symmetric]
    by (cases b) (simp_all add: leading_zeros_def)
qed (simp add: leading_zeros_def)

lemma uint_leading_zeros_bool:
  "uint_leading_zeros bool_ctx w = ret (to_bits (bits_for (length w)) (leading_zeros w))"
  by (simp add: uint_leading_zeros_def uint_saturate_bool map_gm_ret comp_def uint_hamming_weight_bool
      count_map flip: count_not_saturated)

subsection \<open>Exponentiation\<close>

text \<open>Products are reduced modulo \<open>2 ^ N\<close> before \<open>% q\<close>, so the operands must leave room for a square.\<close>

definition mod_exp_round ::
  "('s, 'w, 'z) ctx_scheme \<Rightarrow> 'w list \<Rightarrow> 'w \<Rightarrow> 'w list \<times> 'w list \<Rightarrow> ('s, 'w list \<times> 'w list) gm" where
  "mod_exp_round C q pi br =
     (case br of (base, res) \<Rightarrow>
        bind (uint_mul C res base) (\<lambda>m. bind (uint_mod C m q) (\<lambda>tmp.
        bind (uint_select C res pi tmp) (\<lambda>res'.
        bind (uint_mul C base base) (\<lambda>bb. bind (uint_mod C bb q) (\<lambda>base'.
        ret (base', res')))))))"

lemma uint_mod_exp_rounds:
  "uint_mod_exp C w p q =
     bind (uint_constant C (length w) 1) (\<lambda>one.
       bind (fold_gm (mod_exp_round C q) p (w, one)) (\<lambda>(base, res). ret res))"
  by (simp add: uint_mod_exp_def mod_exp_round_def [abs_def])

lemma mod_exp_round_bool:
  assumes "q \<noteq> []" and "0 < bits_val q" and "base < 2 ^ length q" and "res < 2 ^ length q"
    and "res * base < 2 ^ length q" and "base * base < 2 ^ length q"
  shows "mod_exp_round bool_ctx q pi (to_bits (length q) base, to_bits (length q) res) =
    ret (to_bits (length q) (base * base mod bits_val q),
         to_bits (length q) (if pi then res * base mod bits_val q else res))"
proof -
  have ne: "to_bits (length q) k \<noteq> []" for k using assms(1) by (metis length_0_conv length_to_bits)
  then show ?thesis using assms by (simp add: mod_exp_round_def)
qed

lemma mod_exp_loop:
  assumes q: "q \<noteq> []" "0 < bits_val q" "bits_val q * bits_val q \<le> 2 ^ length q"
    and "base * base < 2 ^ length q" and "res = 1 \<or> res < bits_val q \<and> base < bits_val q"
  shows "\<exists>b. fold_gm (mod_exp_round bool_ctx q) p (to_bits (length q) base, to_bits (length q) res) =
    ret (b, to_bits (length q) (if bits_val p = 0 then res else res * base ^ bits_val p mod bits_val q))"
  using assms(4,5)
proof (induction p arbitrary: base res)
  case (Cons pi p)
  let ?n = "length q" and ?q = "bits_val q"
  have qlt: "?q < 2 ^ ?n" by (rule bits_val_less)
  have one: "(1 :: nat) < 2 ^ ?n" by (rule one_less_power) (use q(1) in auto)
  have "base < 2 ^ ?n" using Cons.prems(1) by (metis le_less_trans le_square)
  moreover have "res < 2 ^ ?n" using Cons.prems(2) qlt one by auto
  moreover have "res * base < 2 ^ ?n"
    using Cons.prems(2) \<open>base < 2 ^ ?n\<close> q(3) mult_strict_mono [of res ?q base ?q] by auto
  ultimately have round: "mod_exp_round bool_ctx q pi (to_bits ?n base, to_bits ?n res) =
      ret (to_bits ?n (base * base mod ?q), to_bits ?n (if pi then res * base mod ?q else res))"
    using q(1,2) Cons.prems(1) by (intro mod_exp_round_bool)
  define base' res' where "base' = base * base mod ?q" and "res' = (if pi then res * base mod ?q else res)"
  have b': "base' < ?q" using q(2) by (simp add: base'_def)
  then have "base' * base' < 2 ^ ?n" using q(3) mult_strict_mono [of base' ?q base' ?q] by linarith
  moreover have "res' = 1 \<or> res' < ?q \<and> base' < ?q" using Cons.prems(2) b' q(2) by (auto simp: res'_def)
  ultimately obtain b where "fold_gm (mod_exp_round bool_ctx q) p (to_bits ?n base', to_bits ?n res') =
      ret (b, to_bits ?n (if bits_val p = 0 then res' else res' * base' ^ bits_val p mod ?q))"
    using Cons.IH by blast
  moreover have "res' * base' ^ bits_val p mod ?q = res * base ^ bits_val (pi # p) mod ?q"
  proof -
    have "base' ^ bits_val p mod ?q = (base * base) ^ bits_val p mod ?q"
      unfolding base'_def by (rule power_mod)
    moreover have "res' mod ?q = (if pi then res * base else res) mod ?q" by (simp add: res'_def)
    ultimately have "res' * base' ^ bits_val p mod ?q = (if pi then res * base else res) * (base * base) ^ bits_val p mod ?q"
      by (rule mod_mult_cong [rotated])
    then show ?thesis by (simp add: power_mult_distrib power_mult power2_eq_square mult_ac)
  qed
  ultimately show ?case
    using round by (auto simp: base'_def [symmetric] res'_def [symmetric]) (auto simp: res'_def)
qed simp

lemma uint_mod_exp_bool:
  assumes "length q = length w" and "w \<noteq> []" and "0 < bits_val q"
    and "bits_val q * bits_val q \<le> 2 ^ length w" and "bits_val w * bits_val w < 2 ^ length w"
  shows "uint_mod_exp bool_ctx w p q =
    ret (to_bits (length w) (if bits_val p = 0 then 1 else bits_val w ^ bits_val p mod bits_val q))"
proof -
  have "q \<noteq> []" using assms by auto
  from mod_exp_loop [OF this assms(3), of "bits_val w" 1 p] assms show ?thesis
    by (auto simp: uint_mod_exp_rounds)
qed

lemma uint_mod_exp_exact:
  assumes "length q = length w" and "w \<noteq> []" and "0 < bits_val q"
    and "bits_val q * bits_val q \<le> 2 ^ length w" and "bits_val w * bits_val w < 2 ^ length w"
  shows "uint_mod_exp bool_ctx w p q =
    ret (to_bits (length w) (if bits_val p = 0 \<and> bits_val q = 1 then 1 else bits_val w ^ bits_val p mod bits_val q))"
proof -
  have "(if bits_val p = 0 then 1 else x ^ bits_val p mod bits_val q) =
      (if bits_val p = 0 \<and> bits_val q = 1 then 1 else x ^ bits_val p mod bits_val q)" for x
    using assms(3) by (auto simp: mod_less)
  then show ?thesis unfolding uint_mod_exp_bool [OF assms] by simp
qed

section \<open>Codecs\<close>

lemma bit_or_fold:
  "bit (fold (\<lambda>i v. v OR push_bit i (if f i then 1 else 0)) [0..<n] (v0 :: 64 word)) k \<longleftrightarrow>
     bit v0 k \<or> (k < n \<and> k < 64 \<and> f k)"
proof (induction n)
  case (Suc n)
  have "bit (push_bit n (if f n then 1 else 0 :: 64 word)) k \<longleftrightarrow> k = n \<and> k < 64 \<and> f n"
    by (auto simp: bit_push_bit_iff bit_1_iff)
  with Suc show ?case by (auto simp: bit_or_iff less_Suc_eq)
qed simp

lemma bit_or_bits: "bit (or_bits bs) k \<longleftrightarrow> k < length bs \<and> k < 64 \<and> bs ! k"
  by (simp add: or_bits_def bit_or_fold)

lemma unat_or_bits:
  assumes "length bs \<le> 64"
  shows "unat (or_bits bs) = bits_val bs"
proof (rule bit_eqI)
  fix n
  have "bit (bits_val bs) n \<longleftrightarrow> n < length bs \<and> bs ! n"
  proof (cases "n < length bs")
    case False
    then have "bits_val bs < 2 ^ n"
      using bits_val_less [of bs] power_increasing [of "length bs" n "2 :: nat"] by linarith
    with False show ?thesis by (simp add: bit_iff_odd)
  qed (simp add: bit_iff_odd bits_val_nth)
  then show "bit (unat (or_bits bs)) n \<longleftrightarrow> bit (bits_val bs) n"
    using assms by (auto simp: bit_unsigned_iff bit_or_bits)
qed

locale codec_width =
  fixes N :: nat
  assumes width_pos: "0 < N" and width_le: "N \<le> 64"

sublocale codec_width \<subseteq> unsigned_value: wire_value N "uint_encode N" uint_decode "\<lambda>v. unat v < 2 ^ N"
proof (unfold_locales, goal_cases)
  case (2 v)
  have "bit v k \<Longrightarrow> k < N" for k
  proof (rule ccontr)
    assume "bit v k" "\<not> k < N"
    then have "odd (unat v div 2 ^ k)" by (simp add: bit_unsigned_iff flip: bit_iff_odd)
    moreover have "unat v < 2 ^ k"
      using 2 power_increasing [of N k "2 :: nat"] \<open>\<not> k < N\<close> by linarith
    ultimately show False by simp
  qed
  then have "bit (uint_decode (uint_encode N v)) k = bit v k" for k
    using width_le by (auto simp: uint_decode_def bit_or_bits uint_encode_def dest: bit_imp_le_length)
  then show ?case by (rule bit_eqI)
next
  case (3 bs)
  then show ?case using width_le bits_val_less [of bs] by (simp add: uint_decode_def unat_or_bits)
next
  case (4 bs)
  then show ?case using width_le
    by (intro nth_equalityI) (auto simp: uint_encode_def uint_decode_def bit_or_bits)
qed (simp add: uint_encode_def)

context codec_width
begin

lemmas unsigned_codec = unsigned_value.decode_encode unsigned_value.encode_decode

end

interpretation codec64: codec_width 64 by unfold_locales auto

interpretation codec32: codec_width 32 by unfold_locales auto

interpretation codec8: codec_width 8 by unfold_locales auto

section \<open>Properties\<close>

text \<open>
  (C30) Unsigned arithmetic on plaintext wires: \<open>+\<close>, \<open>-\<close> and \<open>*\<close> wrap modulo \<open>2 ^ N\<close>, and \<open><\<close> and \<open>==\<close>
  compare the values. Every width is covered, by induction on the ripple and shift-add loops.
\<close>

theorem uint_arith_correct:
  assumes "length a = length b" and "a \<noteq> []"
  shows "uint_add ClearCtx (clear_bits a) (clear_bits b) = ret (clear_bits (to_bits (length a) (bits_val a + bits_val b))) \<and>
    uint_sub ClearCtx (clear_bits a) (clear_bits b) =
      ret (clear_bits (to_bits (length a) (2 ^ length a + bits_val a - bits_val b))) \<and>
    uint_mul ClearCtx (clear_bits a) (clear_bits b) = ret (clear_bits (to_bits (length a) (bits_val a * bits_val b))) \<and>
    uint_lt ClearCtx (clear_bits a) (clear_bits b) = ret (of_bool (bits_val a < bits_val b)) \<and>
    uint_eq ClearCtx (clear_bits a) (clear_bits b) = ret (of_bool (bits_val a = bits_val b))"
proof -
  have "a = b \<longleftrightarrow> bits_val a = bits_val b" using assms(1) bits_val_inj by blast
  then show ?thesis
    by (intro conjI clear_binop [OF bool_clear.uint_ops_transfer(2)] clear_binop [OF bool_clear.uint_ops_transfer(3)]
        clear_binop [OF bool_clear.uint_ops_transfer(8)] clear_binpred [OF bool_clear.uint_ops_transfer(12)]
        clear_binpred [OF bool_clear.uint_ops_transfer(11)])
      (simp_all add: assms)
qed

theorem uint_arith_correct_witness:
  "uint_mul ClearCtx (clear_bits [True, True, False]) (clear_bits [True, False, True]) = ret (clear_bits [True, True, True])"
proof -
  let ?a = "[True, True, False]" and ?b = "[True, False, True]"
  have "to_bits (length ?a) (bits_val ?a * bits_val ?b) = [True, True, True]" by code_simp
  then show ?thesis using uint_arith_correct [of ?a ?b] by simp
qed

text \<open>
  (C31) Unsigned restoring division on plaintext wires: quotient and remainder of the values; a zero divisor
  saturates to the all-ones quotient and leaves the dividend as remainder.
\<close>

theorem uint_div_correct:
  assumes "length a = length b" and "a \<noteq> []"
  shows "uint_div ClearCtx (clear_bits a) (clear_bits b) =
      ret (clear_bits (if bits_val b = 0 then replicate (length a) True
                       else to_bits (length a) (bits_val a div bits_val b))) \<and>
    uint_mod ClearCtx (clear_bits a) (clear_bits b) =
      ret (clear_bits (to_bits (length a) (bits_val a mod bits_val b)))"
  by (intro conjI clear_binop [OF bool_clear.uint_ops_transfer(9)] clear_binop [OF bool_clear.uint_ops_transfer(10)])
    (use assms uint_div_zero_bool [OF assms] in \<open>(cases "bits_val b = 0"; simp)+\<close>)

theorem uint_div_correct_witness:
  "uint_div ClearCtx (clear_bits [True, True, True]) (clear_bits [False, True, False]) = ret (clear_bits [True, True, False]) \<and>
   uint_div ClearCtx (clear_bits [True, False, False]) (clear_bits [False, False, False]) = ret (clear_bits [True, True, True])"
proof -
  let ?a = "[True, True, True]" and ?b = "[False, True, False]" and ?c = "[True, False, False]" and ?z = "[False, False, False]"
  have "(if bits_val ?b = 0 then replicate (length ?a) True else to_bits (length ?a) (bits_val ?a div bits_val ?b)) = [True, True, False]"
    "(if bits_val ?z = 0 then replicate (length ?c) True else to_bits (length ?c) (bits_val ?c div bits_val ?z)) = [True, True, True]"
    by code_simp+
  then show ?thesis using uint_div_correct [of ?a ?b] uint_div_correct [of ?c ?z] by simp
qed

text \<open>
  (C34) The barrel shifter on plaintext wires shifts by the whole value of the secret amount: the muxes over
  the low \<open>clog2_ceil N\<close> bits and the overflow select together give zero for every amount of \<open>N\<close> or more.
\<close>

theorem uint_barrel_correct:
  assumes "length sh = length w" and "w \<noteq> []"
  shows "uint_barrel_shl ClearCtx (clear_bits w) (clear_bits sh) =
      ret (clear_bits (to_bits (length w) (bits_val w * 2 ^ bits_val sh))) \<and>
    uint_barrel_shr ClearCtx (clear_bits w) (clear_bits sh) =
      ret (clear_bits (to_bits (length w) (bits_val w div 2 ^ bits_val sh)))"
  by (intro conjI clear_binop [OF bool_clear.uint_compound_transfer(2) uint_barrel_bool(1) [OF assms]]
      clear_binop [OF bool_clear.uint_compound_transfer(3) uint_barrel_bool(2) [OF assms]])

theorem uint_barrel_correct_witness:
  "uint_barrel_shr ClearCtx (clear_bits [False, False, True]) (clear_bits [True, False, False]) = ret (clear_bits [False, True, False])"
proof -
  let ?w = "[False, False, True]" and ?sh = "[True, False, False]"
  have "to_bits (length ?w) (bits_val ?w div 2 ^ bits_val ?sh) = [False, True, False]" by code_simp
  then show ?thesis using uint_barrel_correct [of ?sh ?w] by simp
qed

text \<open>
  (C36) Bit counting on plaintext wires: the natural result width \<open>bits_for N\<close> is the least positive width
  that holds \<open>N\<close>, and in it \<open>hamming_weight\<close> is exactly the number of set bits and \<open>leading_zeros\<close> exactly
  the length of the high zero run.
\<close>

theorem uint_counts_correct:
  "(\<exists>r. uint_hamming_weight ClearCtx (clear_bits w) = ret (clear_bits r) \<and> length r = bits_for (length w) \<and>
      bits_val r = length (filter (\<lambda>b. b) w)) \<and>
   (\<exists>r. uint_leading_zeros ClearCtx (clear_bits w) = ret (clear_bits r) \<and> length r = bits_for (length w) \<and>
      bits_val r = length (takeWhile Not (rev w))) \<and>
   (\<forall>m > 0. length w < 2 ^ m \<longleftrightarrow> bits_for (length w) \<le> m)"
proof (intro conjI allI impI)
  have "uint_hamming_weight ClearCtx (clear_bits w) = ret (clear_bits (to_bits (bits_for (length w)) (count_true w)))"
    by (rule clear_unop [OF bool_clear.uint_compound_transfer(4) uint_hamming_weight_bool])
  then show "\<exists>r. uint_hamming_weight ClearCtx (clear_bits w) = ret (clear_bits r) \<and> length r = bits_for (length w) \<and>
      bits_val r = length (filter (\<lambda>b. b) w)"
    using count_val [of w] by (auto simp: count_true_def [symmetric] simp del: bits_val_to_bits)
  have "uint_leading_zeros ClearCtx (clear_bits w) = ret (clear_bits (to_bits (bits_for (length w)) (leading_zeros w)))"
    by (rule clear_unop [OF bool_clear.uint_leading_zeros_transfer uint_leading_zeros_bool])
  moreover have "leading_zeros w \<le> length w" unfolding leading_zeros_def by (metis length_rev length_takeWhile_le)
  ultimately show "\<exists>r. uint_leading_zeros ClearCtx (clear_bits w) = ret (clear_bits r) \<and> length r = bits_for (length w) \<and>
      bits_val r = length (takeWhile Not (rev w))"
    using bits_for_gt [of "length w"] by (auto simp: leading_zeros_def)
next
  fix m :: nat assume "0 < m"
  then show "length w < 2 ^ m \<longleftrightarrow> bits_for (length w) \<le> m"
    using bits_for_least bits_for_gt [of "length w"] power_increasing [of "bits_for (length w)" m "2 :: nat"]
    by (meson less_le_trans one_le_numeral)
qed

theorem uint_counts_correct_witness:
  "\<exists>r. uint_leading_zeros ClearCtx (clear_bits [True, False, False]) = ret (clear_bits r) \<and> bits_val r = 2"
  using uint_counts_correct [of "[True, False, False]"] by auto

text \<open>
  (C37) Modular exponentiation on plaintext wires is correct when the modulus and the base leave room for a
  square: for \<open>0 < q\<close>, \<open>q * q \<le> 2 ^ N\<close> and \<open>base * base < 2 ^ N\<close> the result is \<open>base ^ p mod q\<close>, with one
  exception: for \<open>p = 0\<close> and \<open>q = 1\<close> the code returns the initial 1, which it never reduces, and not
  \<open>base ^ 0 mod 1 = 0\<close>.
\<close>

theorem uint_mod_exp_correct:
  assumes "length q = length w" and "w \<noteq> []" and "0 < bits_val q"
    and "bits_val q * bits_val q \<le> 2 ^ length w" and "bits_val w * bits_val w < 2 ^ length w"
  shows "uint_mod_exp ClearCtx (clear_bits w) (clear_bits p) (clear_bits q) =
    ret (clear_bits (to_bits (length w)
      (if bits_val p = 0 \<and> bits_val q = 1 then 1 else bits_val w ^ bits_val p mod bits_val q)))"
  by (rule clear_run [OF rel_funD [OF rel_funD [OF rel_funD [OF bool_clear.uint_derived_transfer(8)]]]
        uint_mod_exp_exact [OF assms]]) (simp_all add: clear_bits_rel)

theorem uint_mod_exp_correct_witness:
  "uint_mod_exp ClearCtx (clear_bits [True, True, False, False]) (clear_bits [True, True]) (clear_bits [False, False, True, False]) =
     ret (clear_bits [True, True, False, False])"
proof -
  let ?w = "[True, True, False, False]" and ?p = "[True, True]" and ?q = "[False, False, True, False]"
  have "to_bits (length ?w) (if bits_val ?p = 0 \<and> bits_val ?q = 1 then 1 else bits_val ?w ^ bits_val ?p mod bits_val ?q) = [True, True, False, False]"
    by code_simp
  then show ?thesis using uint_mod_exp_correct [of ?q ?w ?p] by simp
qed

text \<open>
  Without that room the intermediate products wrap: at width 4, \<open>7 ^ 2 mod 11\<close> is computed as 1, since
  \<open>49\<close> is reduced modulo 16 before it is reduced modulo 11; the mathematical value is 5.
\<close>

lemma uint_mod_exp_wraps:
  "uint_mod_exp ClearCtx (clear_bits (to_bits 4 7)) (clear_bits (to_bits 2 2)) (clear_bits (to_bits 4 11)) =
     ret (clear_bits (to_bits 4 1)) \<and> (7 ^ 2 mod 11 :: nat) = 5"
proof -
  have "uint_mod_exp bool_ctx (to_bits 4 7) (to_bits 2 2) (to_bits 4 11) () = Inr (to_bits 4 1, ())" by code_simp
  then have "uint_mod_exp bool_ctx (to_bits 4 7) (to_bits 2 2) (to_bits 4 11) = ret (to_bits 4 1)"
    by (intro ext) (simp add: ret_def)
  from clear_run [OF rel_funD [OF rel_funD [OF rel_funD [OF bool_clear.uint_derived_transfer(8)]]] this]
  show ?thesis by (simp add: clear_bits_rel del: to_bits.simps)
qed

text \<open>The exception of a zero exponent with modulus 1, at width 4: the comment's value is 0, the circuit's is 1.\<close>

lemma uint_mod_exp_zero_exponent:
  "uint_mod_exp bool_ctx (to_bits 4 3) (to_bits 2 0) (to_bits 4 1) () = Inr (to_bits 4 1, ()) \<and> (3 ^ 0 mod 1 :: nat) = 0"
proof
  show "uint_mod_exp bool_ctx (to_bits 4 3) (to_bits 2 0) (to_bits 4 1) () = Inr (to_bits 4 1, ())" by code_simp
qed simp

text \<open>
  The clear codec of unsigned values of width 1 to 64: encoding and decoding are inverse between the
  64-bit values below \<open>2 ^ N\<close> and the bit lists of length \<open>N\<close>.
\<close>

lemma uint_codec_roundtrip:
  assumes "0 < N" and "N \<le> 64"
  shows "(\<forall>v. unat v < 2 ^ N \<longrightarrow> uint_decode (uint_encode N v) = v) \<and>
    (\<forall>bs. length bs = N \<longrightarrow> uint_encode N (uint_decode bs) = bs \<and> unat (uint_decode bs) = bits_val bs)"
proof -
  have N: "codec_width N" using assms by unfold_locales
  show ?thesis
    using codec_width.unsigned_codec [OF N] assms
    by (auto simp: uint_decode_def unat_or_bits)
qed

lemma uint_codec_roundtrip_witness:
  "uint_decode (uint_encode 8 200) = 200 \<and> uint_encode 2 (uint_decode [False, True]) = [False, True]"
  using uint_codec_roundtrip [of 8] uint_codec_roundtrip [of 2] by simp

end
