(* ===== verification/Words.thy ===== *)
theory Words
  imports Unsigned Loops
begin

text \<open>
  Machine words as bit lists: \<open>wb w\<close> are the bits of the word \<open>w\<close>, the least significant first. The
  unsigned operations on truth values are the word operations of HOL, so a circuit over \<open>UInt_T\<close>
  values (\<open>circuits/crypto/\<close>) has a reference over words.
\<close>

unbundle bit_operations_syntax

section \<open>Words\<close>

definition wb :: "'a::len word \<Rightarrow> bool list" where
  "wb w = map (bit w) [0..<LENGTH('a)]"

definition bw :: "bool list \<Rightarrow> 'a::len word" where
  "bw bs = of_nat (bits_val bs)"

lemma length_wb [simp]: "length (wb (w :: 'a::len word)) = LENGTH('a)"
  by (simp add: wb_def)

lemma nth_wb [simp]: "i < LENGTH('a) \<Longrightarrow> wb (w :: 'a::len word) ! i = bit w i"
  by (simp add: wb_def)

lemma wb_not_Nil [simp]: "wb w \<noteq> []"
  using length_wb [of w] by (metis len_not_eq_0 list.size(3))

lemma wb_to_bits: "wb (w :: 'a::len word) = to_bits LENGTH('a) (unat w)"
  by (rule nth_equalityI) (simp_all add: to_bits_nth bit_unsigned_iff flip: bit_iff_odd)

lemma bits_val_wb [simp]: "bits_val (wb w) = unat w"
  by (simp add: wb_to_bits)

lemma wb_inject [simp]: "wb v = wb w \<longleftrightarrow> v = w"
  by (metis bits_val_wb word_unat_eq_iff)

lemma wb_of_nat: "wb (of_nat n :: 'a::len word) = to_bits LENGTH('a) n"
  by (simp add: wb_to_bits unat_of_nat)

lemma bw_wb [simp]: "bw (wb w) = w"
  by (simp add: bw_def)

lemma wb_bw [simp]: "length bs = LENGTH('a) \<Longrightarrow> wb (bw bs :: 'a::len word) = bs"
  by (simp add: bw_def wb_of_nat)

lemma bit_bw: "length bs \<le> LENGTH('a) \<Longrightarrow> bit (bw bs :: 'a::len word) i \<longleftrightarrow> i < length bs \<and> bs ! i"
proof -
  assume len: "length bs \<le> LENGTH('a)"
  have "bit (bw bs :: 'a word) i \<longleftrightarrow> i < LENGTH('a) \<and> odd (bits_val bs div 2 ^ i)"
    by (simp add: bw_def bit_of_nat_iff flip: bit_iff_odd [of "bits_val bs"])
  moreover have "bits_val bs div 2 ^ i = 0" if "length bs \<le> i"
    using less_le_trans [OF bits_val_less power_increasing [OF that]] by simp
  ultimately show ?thesis using len bits_val_nth [of i bs] by (cases "i < length bs") auto
qed

lemma wb_eqI: "length bs = LENGTH('a) \<Longrightarrow> (\<And>i. i < LENGTH('a) \<Longrightarrow> bs ! i = bit w i) \<Longrightarrow> bs = wb (w :: 'a::len word)"
  by (rule nth_equalityI) simp_all

lemma map2_wb [simp]:
  fixes x y :: "'a::len word"
  shows "map2 (\<and>) (wb x) (wb y) = wb (x AND y)" "map2 (\<lambda>a b. a = (\<not> b)) (wb x) (wb y) = wb (x XOR y)"
    "map2 (\<or>) (wb x) (wb y) = wb (x OR y)" "map Not (wb x) = wb (NOT x)"
  by (rule wb_eqI; simp add: bit_simps)+

lemma uint_wb [simp]:
  fixes x y :: "'a::len word"
  shows "uint_add bool_ctx (wb x) (wb y) = ret (wb (x + y))"
    and "uint_and bool_ctx (wb x) (wb y) = ret (wb (x AND y))"
    and "uint_xor bool_ctx (wb x) (wb y) = ret (wb (x XOR y))"
    and "uint_not bool_ctx (wb x) = ret (wb (NOT x))"
proof -
  have "to_bits LENGTH('a) (unat x + unat y) = wb (x + y)"
    by (simp flip: wb_of_nat)
  then show "uint_add bool_ctx (wb x) (wb y) = ret (wb (x + y))" by simp
qed simp_all

lemma uint_constant_wb: "LENGTH('a) \<le> 64 \<Longrightarrow> uint_constant bool_ctx LENGTH('a) v = ret (wb (ucast v :: 'a::len word))"
  by (simp add: uint_constant_def map_gm_ret) (rule wb_eqI; simp add: bit_simps)

lemma uint_shr_wb: "0 \<le> s \<Longrightarrow> uint_shr bool_ctx (wb x) s = ret (wb (drop_bit (nat s) x))"
  by (simp add: uint_shift_bool wb_to_bits unat_drop_bit_eq flip: drop_bit_eq_div [of _ "unat x"])

lemma uint_rotr_wb: "0 \<le> s \<Longrightarrow> uint_rotr (wb x) s = ret (wb (word_rotr (nat s) x))"
  by (simp add: uint_rotr_eq) (rule wb_eqI; simp add: bit_simps nat_mod_distrib nat_add_distrib)

lemma uint_rotl_wb:
  fixes x :: "'a::len word"
  assumes "0 \<le> s"
  shows "uint_rotl (wb x) s = ret (wb (word_rotl (nat s) x))"
proof -
  let ?n = "LENGTH('a)"
  have "nat ((int i - s) mod int ?n) = (i + (?n - nat s mod ?n)) mod ?n" for i
  proof -
    have "nat s mod ?n \<le> ?n" using mod_less_divisor [of ?n "nat s"] by (simp add: less_imp_le)
    then have "int ((i + (?n - nat s mod ?n)) mod ?n) = (int i + (int ?n - s mod int ?n)) mod int ?n"
      using assms by (simp only: zmod_int of_nat_add of_nat_diff int_nat_eq if_True)
    also have "\<dots> = (int i - s + int ?n) mod int ?n"
      unfolding add_diff_eq mod_diff_right_eq by (simp only: diff_add_eq)
    also have "\<dots> = (int i - s) mod int ?n" by (rule mod_add_self2)
    finally show ?thesis by (metis nat_int)
  qed
  then show ?thesis by (simp add: uint_rotl_eq) (rule wb_eqI; simp add: bit_simps)
qed

lemma bit_test: "drop_bit k w AND 1 = 1 \<longleftrightarrow> bit w k" for w :: "'a::len word"
  by (simp add: and_one_eq bit_iff_odd_drop_bit odd_iff_mod_2_eq_one)

text \<open>Byte strings.\<close>

lemma byte_index_less: "q < n \<Longrightarrow> r < 8 \<Longrightarrow> 8 * q + r < 8 * n" for n :: nat
  by linarith

lemma length_concat_wb [simp]: "length (concat (map wb (ws :: 'a::len word list))) = LENGTH('a) * length ws"
  by (subst length_concat_uniform [of _ "LENGTH('a)"]) auto

lemma nth_concat_wb:
  "i < LENGTH('a) * length ws \<Longrightarrow>
   concat (map wb (ws :: 'a::len word list)) ! i = bit (ws ! (i div LENGTH('a))) (i mod LENGTH('a))"
  by (subst nth_concat_uniform [of _ "LENGTH('a)"]) (auto simp: less_mult_imp_div_less mult.commute)

lemma nth_concat_bytes:
  assumes "q < length ws" and "r < 8"
  shows "concat (map wb (ws :: 8 word list)) ! (8 * q + r) = bit (ws ! q) r"
proof -
  have "(8 * q + r) div 8 = q" "(8 * q + r) mod 8 = r" using assms(2) by auto
  then show ?thesis using byte_index_less [OF assms] nth_concat_wb [of "8 * q + r" ws] by simp
qed

text \<open>Big-endian bytes.\<close>

definition be_bytes :: "'a::len word \<Rightarrow> 8 word list" where
  "be_bytes w = map (\<lambda>i. ucast (drop_bit (8 * i) w)) (rev [0..<LENGTH('a) div 8])"

definition be_word :: "8 word list \<Rightarrow> 'a::len word" where
  "be_word bs = bw (concat (map wb (rev bs)))"

lemma length_be_bytes [simp]: "length (be_bytes (w :: 'a::len word)) = LENGTH('a) div 8"
  by (simp add: be_bytes_def)

lemma bit_be_bytes:
  "t < 8 \<Longrightarrow> k < 8 \<Longrightarrow> bit (be_bytes (w :: 64 word) ! t) k = bit w (8 * (7 - t) + k)"
  by (simp add: be_bytes_def rev_nth bit_simps Suc_diff_le flip: upt_conv_Cons)

lemma be_word_be_bytes [simp]: "be_word (be_bytes w) = (w :: 64 word)"
proof (rule bit_word_eqI)
  fix n
  assume "n < LENGTH(64)"
  then have n: "n div 8 < 8" "n mod 8 < 8" "n < 64" by simp_all
  have "bit (be_word (be_bytes w) :: 64 word) n = bit (rev (be_bytes w) ! (n div 8)) (n mod 8)"
    using n by (simp add: be_word_def bit_bw nth_concat_wb)
  also have "rev (be_bytes w) ! (n div 8) = be_bytes w ! (7 - n div 8)" using n by (subst rev_nth) simp_all
  also have "bit \<dots> (n mod 8) = bit w n" using n by (simp add: bit_be_bytes)
  finally show "bit (be_word (be_bytes w) :: 64 word) n = bit w n" .
qed

lemma be_bytes_be_word [simp]:
  assumes "length bs = 8"
  shows "be_bytes (be_word bs :: 64 word) = bs"
proof (rule nth_equalityI)
  fix t
  assume "t < length (be_bytes (be_word bs :: 64 word))"
  then have t: "t < 8" by simp
  show "be_bytes (be_word bs :: 64 word) ! t = bs ! t"
  proof (rule bit_word_eqI)
    fix k
    assume "k < LENGTH(8)"
    then have k: "k < 8" by simp
    have q: "8 * (7 - t) + k < 64" "(8 * (7 - t) + k) div 8 = 7 - t" "(8 * (7 - t) + k) mod 8 = k"
      using byte_index_less [of "7 - t" 8 k] t k by simp_all
    have "bit (be_bytes (be_word bs :: 64 word) ! t) k = bit (be_word bs :: 64 word) (8 * (7 - t) + k)"
      by (rule bit_be_bytes [OF t k])
    also have "\<dots> = bit (rev bs ! (7 - t)) k"
      using q assms by (simp add: be_word_def bit_bw nth_concat_wb)
    also have "rev bs ! (7 - t) = bs ! t" using t assms by (subst rev_nth) simp_all
    finally show "bit (be_bytes (be_word bs :: 64 word) ! t) k = bit (bs ! t) k" .
  qed
qed (simp add: assms)

lemma clear_bits_wb_inject [simp]: "clear_bits a = clear_bits b \<longleftrightarrow> a = b"
  unfolding clear_bits_def by (rule inj_map_eq_map) (auto simp: inj_def of_bool_def split: if_splits)

end
