(* ===== verification/Packing.thy ===== *)
theory Packing
  imports Words
begin

text \<open>
  \<open>runtime/core/utils.hpp\<close>: packing of bools (bytes, any nonzero value is true) into bits and back. The
  32-at-a-time kernels exist in an AVX2 and an SSE form; the argument \<open>avx2\<close> selects the compiled one, and a
  SIMD register is the list of its bytes, the least significant first, with the documented meaning of each
  intrinsic written out. Buffers are byte lists; a load or store outside one is undefined behaviour.

  \<open>bufbits\<close> is the bit string of a buffer. The lemmas show that both forms of each kernel are the same
  function, that packing overwrites exactly the first \<open>len\<close> bits of the destination, and that unpacking
  reads them back.
\<close>

section \<open>Registers and memory\<close>

type_synonym bytes = "8 word list"

definition le_bytes :: "'a::len word \<Rightarrow> bytes" where
  "le_bytes w = map (\<lambda>i. ucast (drop_bit (8 * i) w)) [0..<LENGTH('a) div 8]"

definition bufbits :: "bytes \<Rightarrow> bool list" where
  "bufbits buf = concat (map wb buf)"

definition load_bytes :: "bytes \<Rightarrow> nat \<Rightarrow> nat \<Rightarrow> ('s, bytes) gm" where
  "load_bytes buf off n = check (off + n \<le> length buf) UndefinedBehaviour (ret (take n (drop off buf)))"

definition store_bytes :: "bytes \<Rightarrow> nat \<Rightarrow> bytes \<Rightarrow> ('s, bytes) gm" where
  "store_bytes buf off bs =
     check (off + length bs \<le> length buf) UndefinedBehaviour
       (ret (take off buf @ bs @ drop (off + length bs) buf))"

definition cmpeq_epi8 :: "bytes \<Rightarrow> bytes \<Rightarrow> bytes" where
  "cmpeq_epi8 = map2 (\<lambda>x y. if x = y then 255 else 0)"

definition movemask_epi8 :: "bytes \<Rightarrow> 32 word" where
  "movemask_epi8 v = bw (map (\<lambda>x. bit x 7) v)"

definition and_si :: "bytes \<Rightarrow> bytes \<Rightarrow> bytes" where
  "and_si = map2 (AND)"

definition min_epu8 :: "bytes \<Rightarrow> bytes \<Rightarrow> bytes" where
  "min_epu8 = map2 min"

definition shuffle_epi8 :: "bytes \<Rightarrow> bytes \<Rightarrow> bytes" where
  "shuffle_epi8 v idx = map (\<lambda>i. if bit i 7 then 0 else v ! unat (i AND 15)) idx"

text \<open>The 256-bit shuffle works on each 128-bit lane.\<close>

definition shuffle256_epi8 :: "bytes \<Rightarrow> bytes \<Rightarrow> bytes" where
  "shuffle256_epi8 v idx = shuffle_epi8 (take 16 v) (take 16 idx) @ shuffle_epi8 (drop 16 v) (drop 16 idx)"

definition set1_epi32_256 :: "32 word \<Rightarrow> bytes" where
  "set1_epi32_256 x = concat (replicate 8 (le_bytes x))"

definition cvtsi32_si128 :: "32 word \<Rightarrow> bytes" where
  "cvtsi32_si128 x = le_bytes x @ replicate 12 0"

section \<open>The kernels and the packing loops\<close>

definition bytes_to_bits32 :: "bool \<Rightarrow> bytes \<Rightarrow> 32 word" where
  "bytes_to_bits32 avx2 inp =
     (if avx2 then NOT (movemask_epi8 (cmpeq_epi8 inp (replicate 32 0)))
      else let z = replicate 16 0;
               lo = cmpeq_epi8 (take 16 inp) z;
               hi = cmpeq_epi8 (drop 16 inp) z;
               r = ucast (ucast (movemask_epi8 lo) :: 16 word) OR
                   push_bit 16 (ucast (ucast (movemask_epi8 hi) :: 16 word))
           in NOT r)"

definition bit_mask16 :: bytes where
  "bit_mask16 = [1, 2, 4, 8, 16, 32, 64, 128, 1, 2, 4, 8, 16, 32, 64, 128]"

definition bits32_to_bytes :: "bool \<Rightarrow> 32 word \<Rightarrow> bytes" where
  "bits32_to_bytes avx2 bits =
     (if avx2 then
        let v = set1_epi32_256 bits;
            shuf = replicate 8 0 @ replicate 8 1 @ replicate 8 2 @ replicate 8 3;
            mask = bit_mask16 @ bit_mask16
        in min_epu8 (and_si (shuffle256_epi8 v shuf) mask) (replicate 32 1)
      else
        let v = cvtsi32_si128 bits;
            lo = shuffle_epi8 v (replicate 8 0 @ replicate 8 1);
            hi = shuffle_epi8 v (replicate 8 2 @ replicate 8 3);
            one = replicate 16 1
        in min_epu8 (and_si lo bit_mask16) one @ min_epu8 (and_si hi bit_mask16) one)"

definition pack_tail_bit :: "bytes \<Rightarrow> nat \<Rightarrow> bytes \<Rightarrow> ('s, bytes) gm" where
  "pack_tail_bit bools i out' =
     bind (rd bools i) (\<lambda>b. bind (rd out' (i div 8)) (\<lambda>old.
     let mask = push_bit (i mod 8) 1; bit' = of_bool (b \<noteq> 0) in
     wr out' (i div 8) ((old AND NOT mask) OR push_bit (i mod 8) bit')))"

definition bools_to_bits :: "bool \<Rightarrow> bytes \<Rightarrow> bytes \<Rightarrow> int \<Rightarrow> ('s, bytes) gm" where
  "bools_to_bits avx2 out' bools len =
     check (0 \<le> len) NegativeCount
     (let n = nat len; full32 = n div 32 in
      bind (fold_gm (\<lambda>i o'. bind (load_bytes bools (i * 32) 32) (\<lambda>v.
              store_bytes o' (i * 4) (le_bytes (bytes_to_bits32 avx2 v)))) [0..<full32] out') (\<lambda>o'.
      fold_gm (pack_tail_bit bools) [full32 * 32..<n] o'))"

definition bits_to_bools :: "bool \<Rightarrow> bytes \<Rightarrow> bytes \<Rightarrow> int \<Rightarrow> ('s, bytes) gm" where
  "bits_to_bools avx2 bools inp len =
     check (0 \<le> len) NegativeCount
     (let n = nat len; full32 = n div 32 in
      bind (fold_gm (\<lambda>i bs. bind (load_bytes inp (i * 4) 4) (\<lambda>v.
              store_bytes bs (i * 32) (bits32_to_bytes avx2 (bw (bufbits v))))) [0..<full32] bools) (\<lambda>bs.
      fold_gm (\<lambda>i bs. bind (rd inp (i div 8)) (\<lambda>b. wr bs i (drop_bit (i mod 8) b AND 1))) [full32 * 32..<n] bs))"

definition bool_to_int :: "bool \<Rightarrow> bytes \<Rightarrow> ('s, 'a::len word) gm" where
  "bool_to_int avx2 data =
     bind (bools_to_bits avx2 (replicate (LENGTH('a) div 8) 0) data (int (LENGTH('a) div 8 * 8)))
       (\<lambda>o'. ret (bw (bufbits o')))"

text \<open>The local \<open>block r\<close> is not initialised: \<open>r0\<close> is what its bytes happen to be.\<close>

definition bool_to_block :: "bool \<Rightarrow> 128 word \<Rightarrow> bytes \<Rightarrow> ('s, 128 word) gm" where
  "bool_to_block avx2 r0 data = bind (bools_to_bits avx2 (le_bytes r0) data 128) (\<lambda>o'. ret (bw (bufbits o')))"

section \<open>Bit strings of buffers\<close>

lemma length_bufbits [simp]: "length (bufbits buf) = 8 * length buf"
  by (simp add: bufbits_def)

lemma bufbits_Nil [simp]: "bufbits [] = []"
  by (simp add: bufbits_def)

lemma bufbits_append [simp]: "bufbits (a @ b) = bufbits a @ bufbits b"
  by (simp add: bufbits_def)

lemma bufbits_take: "bufbits (take k buf) = take (8 * k) (bufbits buf)"
proof (cases "k \<le> length buf")
  case True
  have "bufbits buf = bufbits (take k buf) @ bufbits (drop k buf)" by (simp flip: bufbits_append)
  then show ?thesis using True by simp
qed simp

lemma bufbits_drop: "bufbits (drop k buf) = drop (8 * k) (bufbits buf)"
proof (cases "k \<le> length buf")
  case True
  have "bufbits buf = bufbits (take k buf) @ bufbits (drop k buf)" by (simp flip: bufbits_append)
  then show ?thesis using True by simp
qed simp

lemma bufbits_nth: "i < 8 * length buf \<Longrightarrow> bufbits buf ! i = bit (buf ! (i div 8)) (i mod 8)"
  unfolding bufbits_def using nth_concat_wb [of i buf] by simp

lemma bufbits_inject: "length a = length b \<Longrightarrow> bufbits a = bufbits b \<Longrightarrow> a = b"
proof (induction a b rule: list_induct2)
  case (Cons x xs y ys)
  then show ?case by (simp add: bufbits_def)
qed simp

lemma length_le_bytes [simp]: "length (le_bytes (w :: 'a::len word)) = LENGTH('a) div 8"
  by (simp add: le_bytes_def)

lemma bufbits_le_bytes:
  assumes "8 dvd LENGTH('a)"
  shows "bufbits (le_bytes (w :: 'a::len word)) = wb w"
proof (rule nth_equalityI)
  show len: "length (bufbits (le_bytes w)) = length (wb w)" using assms by simp
  fix i
  assume "i < length (bufbits (le_bytes w))"
  then have i: "i < LENGTH('a)" "i div 8 < LENGTH('a) div 8" using len assms by (auto simp: less_mult_imp_div_less)
  then show "bufbits (le_bytes w) ! i = wb w ! i"
    using assms by (simp add: bufbits_nth le_bytes_def bit_simps)
qed

lemmas bufbits_le32 = bufbits_le_bytes [where 'a = 32, simplified]
  and bufbits_le128 = bufbits_le_bytes [where 'a = 128, simplified]

lemma bit_replace:
  fixes x :: "8 word"
  assumes "k < 8" and "r < 8"
  shows "bit ((x AND NOT (push_bit k 1)) OR push_bit k (of_bool b)) r = (if r = k then b else bit x r)"
  using assms by (cases b) (auto simp: bit_or_iff bit_and_iff bit_not_iff bit_exp_iff)

lemma bufbits_set:
  assumes "i < 8 * length buf"
  shows "bufbits (buf[i div 8 := (buf ! (i div 8) AND NOT (push_bit (i mod 8) 1)) OR push_bit (i mod 8) (of_bool b)]) = (bufbits buf)[i := b]"
    (is "bufbits ?buf = _")
proof (rule nth_equalityI)
  fix j
  assume "j < length (bufbits ?buf)"
  then have j: "j < 8 * length buf" by simp
  have q: "i div 8 < length buf" "j div 8 < length buf" using assms j by (simp_all add: less_mult_imp_div_less)
  have "bufbits ?buf ! j = bit (?buf ! (j div 8)) (j mod 8)" using j by (simp add: bufbits_nth)
  also have "\<dots> = (if j = i then b else bufbits buf ! j)"
  proof (cases "j div 8 = i div 8")
    case True
    then have "j = i \<longleftrightarrow> j mod 8 = i mod 8" by (metis mult_div_mod_eq)
    moreover have "?buf ! (j div 8) = (buf ! (i div 8) AND NOT (push_bit (i mod 8) 1)) OR push_bit (i mod 8) (of_bool b)"
      using q(1) by (simp only: True nth_list_update_eq)
    moreover have "bufbits buf ! j = bit (buf ! (i div 8)) (j mod 8)" using j by (simp add: bufbits_nth True)
    ultimately show ?thesis using bit_replace [of "i mod 8" "j mod 8"] by simp
  next
    case False
    then have "j \<noteq> i" by auto
    with False j show ?thesis by (simp add: bufbits_nth)
  qed
  finally show "bufbits ?buf ! j = (bufbits buf)[i := b] ! j" using assms j by (simp add: nth_list_update)
qed simp

section \<open>The kernels\<close>

lemma movemask_cmpeq:
  "length v \<le> 32 \<Longrightarrow> bit (movemask_epi8 (cmpeq_epi8 v (replicate (length v) 0))) i \<longleftrightarrow> i < length v \<and> v ! i = 0"
  by (simp add: movemask_epi8_def cmpeq_epi8_def bit_bw) (auto simp: bit_numeral_simps split: if_splits)

lemma bytes_to_bits32_eq:
  assumes "length v = 32"
  shows "wb (bytes_to_bits32 avx2 v) = map (\<lambda>b. b \<noteq> 0) v"
proof (rule nth_equalityI)
  fix i
  assume "i < length (wb (bytes_to_bits32 avx2 v))"
  then have i: "i < 32" by simp
  then show "wb (bytes_to_bits32 avx2 v) ! i = map (\<lambda>b. b \<noteq> 0) v ! i"
    using assms movemask_cmpeq [of v i] movemask_cmpeq [of "take 16 v" i] movemask_cmpeq [of "drop 16 v" "i - 16"]
    by (cases "i < 16") (auto simp: bytes_to_bits32_def Let_def bit_simps)
qed (simp add: assms)

lemma min_one: "min x 1 = of_bool (x \<noteq> 0)" for x :: "8 word"
proof (cases "x = 0")
  case False
  then have "unat x \<noteq> 0" by (simp add: unat_eq_0)
  then have "1 \<le> unat x" by simp
  then have "1 \<le> x" by (simp add: word_le_nat_alt)
  with False show ?thesis by (simp add: min_def)
qed simp

lemma and_single: "x AND 2 ^ k = 0 \<longleftrightarrow> \<not> bit x k" if "k < 8" for x :: "8 word"
proof
  assume "x AND 2 ^ k = 0"
  then have "\<not> bit (x AND 2 ^ k) k" by simp
  with that show "\<not> bit x k" by (simp add: bit_and_iff bit_exp_iff)
next
  assume "\<not> bit x k"
  then show "x AND 2 ^ k = 0" by (intro bit_word_eqI) (auto simp: bit_and_iff bit_exp_iff)
qed

lemma mask_bytes: "bit_mask16 = map (\<lambda>i. push_bit (i mod 8) 1) [0..<16]"
  by code_simp

lemma masked_byte:
  assumes "i < 16"
  shows "min (x AND bit_mask16 ! i) 1 = of_bool (bit x (i mod 8))"
  using assms by (simp add: mask_bytes min_one and_single)

lemma bits32_to_bytes_eq: "bits32_to_bytes avx2 w = map of_bool (wb w)"
proof -
  obtain a b c d where w: "le_bytes w = [a, b, c, d]"
    by (simp add: le_bytes_def upt_rec)
  have half: "min_epu8 (and_si (replicate 8 x @ replicate 8 y) bit_mask16) (replicate 16 1) = map of_bool (wb x @ wb y)" for x y
  proof (rule nth_equalityI)
    fix i
    assume "i < length (min_epu8 (and_si (replicate 8 x @ replicate 8 y) bit_mask16) (replicate 16 1))"
    then have i: "i < 16" by (simp add: min_epu8_def and_si_def mask_bytes)
    then have "min_epu8 (and_si (replicate 8 x @ replicate 8 y) bit_mask16) (replicate 16 1) ! i =
        min ((if i < 8 then x else y) AND bit_mask16 ! i) 1"
      by (simp add: min_epu8_def and_si_def mask_bytes nth_append)
    also have "\<dots> = of_bool (bit (if i < 8 then x else y) (i mod 8))" by (rule masked_byte [OF i])
    also have "\<dots> = map of_bool (wb x @ wb y) ! i" using i by (auto simp: nth_append mod_if)
    finally show "min_epu8 (and_si (replicate 8 x @ replicate 8 y) bit_mask16) (replicate 16 1) ! i = map of_bool (wb x @ wb y) ! i" .
  qed (simp add: min_epu8_def and_si_def mask_bytes)
  have all: "wb w = (wb a @ wb b) @ wb c @ wb d" using bufbits_le_bytes [of w] by (simp add: w bufbits_def)
  have split: "min_epu8 (and_si (u @ v) (bit_mask16 @ bit_mask16)) (replicate 32 1) =
      min_epu8 (and_si u bit_mask16) (replicate 16 1) @ min_epu8 (and_si v bit_mask16) (replicate 16 1)" if "length u = 16" "length v = 16" for u v
  proof -
    have "(replicate 32 1 :: bytes) = replicate 16 1 @ replicate 16 1" by (simp flip: replicate_add)
    then show ?thesis using that by (simp add: min_epu8_def and_si_def mask_bytes)
  qed
  have v256: "shuffle256_epi8 (set1_epi32_256 w) (replicate 8 0 @ replicate 8 1 @ replicate 8 2 @ replicate 8 3) =
      (replicate 8 a @ replicate 8 b) @ (replicate 8 c @ replicate 8 d)"
  proof -
    have "set1_epi32_256 w = concat (replicate 4 [a, b, c, d]) @ concat (replicate 4 [a, b, c, d])"
      by (simp add: set1_epi32_256_def w flip: concat_append replicate_add)
    moreover have "concat (replicate 4 [a, b, c, d]) = [a, b, c, d, a, b, c, d, a, b, c, d, a, b, c, d]"
      by (simp add: numeral_eq_Suc)
    ultimately show ?thesis by (simp add: shuffle256_epi8_def shuffle_epi8_def)
  qed
  have v128: "shuffle_epi8 (cvtsi32_si128 w) (replicate 8 0 @ replicate 8 1) = replicate 8 a @ replicate 8 b"
    "shuffle_epi8 (cvtsi32_si128 w) (replicate 8 2 @ replicate 8 3) = replicate 8 c @ replicate 8 d"
    by (simp_all add: shuffle_epi8_def cvtsi32_si128_def w)
  have "min_epu8 (and_si ((replicate 8 a @ replicate 8 b) @ (replicate 8 c @ replicate 8 d)) (bit_mask16 @ bit_mask16)) (replicate 32 1) =
      map of_bool (wb w)"
    by (subst split) (simp_all add: half all)
  then show ?thesis
    unfolding bits32_to_bytes_def Let_def v256 v128 half by (simp add: all)
qed

section \<open>Packing and unpacking\<close>

text \<open>A store of whole bytes replaces a segment of the bit string.\<close>

lemma bufbits_store:
  "bufbits (take k buf @ bs @ drop (k + length bs) buf) =
    take (8 * k) (bufbits buf) @ bufbits bs @ drop (8 * k + 8 * length bs) (bufbits buf)"
  by (simp add: bufbits_take bufbits_drop distrib_left)

lemma bools_to_bits_ok:
  fixes out' bools :: bytes
  assumes "n \<le> length bools" and "n \<le> 8 * length out'"
  shows "\<exists>o'. bools_to_bits avx2 out' bools (int n) = (ret o' :: ('s, _) gm) \<and> length o' = length out' \<and>
    bufbits o' = map (\<lambda>b. b \<noteq> 0) (take n bools) @ drop n (bufbits out')"
proof -
  let ?nz = "map (\<lambda>b. b \<noteq> 0)" and ?q = "n div 32"
  let ?I = "\<lambda>i o'. length o' = length out' \<and> bufbits o' = ?nz (take i bools) @ drop i (bufbits out')"
  have q: "32 * ?q \<le> n" by simp
  let ?f = "\<lambda>i o'. bind (load_bytes bools (i * 32) 32) (\<lambda>v. store_bytes o' (i * 4) (le_bytes (bytes_to_bits32 avx2 v)))"
  have step: "\<exists>a'. ?f i o' = (ret a' :: ('s, _) gm) \<and> ?I (32 * Suc i) a'" if i: "i < ?q" and I: "?I (32 * i) o'" for i o'
  proof -
    have b: "32 * i + 32 \<le> n" using i by linarith
    let ?w = "bytes_to_bits32 avx2 (take 32 (drop (i * 32) bools))"
    have len: "length (take 32 (drop (i * 32) bools)) = 32" using b assms(1) by simp
    have "take (32 * i + 32) bools = take (32 * i) bools @ take 32 (drop (i * 32) bools)"
      by (simp add: take_add mult.commute)
    then have "bufbits (take (i * 4) o' @ le_bytes ?w @ drop (i * 4 + 4) o') = ?nz (take (32 * i + 32) bools) @ drop (32 * i + 32) (bufbits out')"
      using bufbits_store [of "i * 4" o' "le_bytes ?w"] I b assms(1)
      by (simp add: bufbits_le32 bytes_to_bits32_eq [OF len] add.commute)
    then show ?thesis using I b assms by (simp add: load_bytes_def store_bytes_def add.commute)
  qed
  have "\<exists>a'. fold_gm ?f [0..<?q] out' = (ret a' :: ('s, _) gm) \<and> ?I (32 * ?q) a'"
    by (rule fold_gm_invariant [where I = "\<lambda>i. ?I (32 * i)"]) (use step in simp_all)
  then obtain o1 where o1: "fold_gm ?f [0..<?q] out' = (ret o1 :: ('s, _) gm)" "?I (32 * ?q) o1" by auto
  have tail: "\<exists>a'. pack_tail_bit bools i o' = (ret a' :: ('s, _) gm) \<and> ?I (Suc i) a'" if "32 * ?q \<le> i" "i < n" "?I i o'" for i o'
  proof -
    have i: "i < 8 * length o'" "i div 8 < length o'" "i < length bools"
      using that assms by (auto simp: less_mult_imp_div_less)
    have "(bufbits o')[i := bools ! i \<noteq> 0] = ?nz (take (Suc i) bools) @ drop (Suc i) (bufbits out')"
      using that(3) i assms by (simp add: take_Suc_conv_app_nth list_update_append drop_Suc tl_drop list_update_code
          flip: Cons_nth_drop_Suc)
    with bufbits_set [OF i(1), of "bools ! i \<noteq> 0"] that(3) i show ?thesis by (simp add: pack_tail_bit_def Let_def)
  qed
  have "\<exists>a'. fold_gm (pack_tail_bit bools) [32 * ?q..<n] o1 = (ret a' :: ('s, _) gm) \<and> ?I n a'"
    by (rule fold_gm_invariant [where I = ?I]) (use tail o1(2) q in blast)+
  with o1(1) show ?thesis by (simp add: bools_to_bits_def Let_def mult.commute)
qed

lemma drop_bit_and_1: "drop_bit k x AND 1 = of_bool (bit x k)" for x :: "8 word"
  by (cases "bit x k") (simp_all add: and_one_eq bit_iff_odd_drop_bit odd_iff_mod_2_eq_one even_iff_mod_2_eq_zero)

lemma bits_to_bools_ok:
  fixes bools inp :: bytes
  assumes "n \<le> length bools" and "n \<le> 8 * length inp"
  shows "bits_to_bools avx2 bools inp (int n) = (ret (map of_bool (take n (bufbits inp)) @ drop n bools) :: ('s, _) gm)"
proof -
  let ?q = "n div 32" and ?b = "\<lambda>i. map of_bool (take i (bufbits inp)) @ drop i bools"
  have q: "32 * ?q \<le> n" by simp
  let ?f = "\<lambda>i bs. bind (load_bytes inp (i * 4) 4) (\<lambda>v. store_bytes bs (i * 32) (bits32_to_bytes avx2 (bw (bufbits v))))"
  have step: "?f i (?b (32 * i)) = (ret (?b (32 * Suc i)) :: ('s, _) gm)" if i: "i < ?q" for i
  proof -
    have b: "32 * i + 32 \<le> n" using i by linarith
    have len: "length (take 4 (drop (i * 4) inp)) = 4" using b assms(2) by simp
    have w: "wb (bw (bufbits (take 4 (drop (i * 4) inp))) :: 32 word) = take 32 (drop (32 * i) (bufbits inp))"
      using len by (subst wb_bw) (simp_all add: bufbits_take bufbits_drop mult.commute)
    have "?b (32 * Suc i) = map of_bool (take (32 * i) (bufbits inp)) @ map of_bool (take 32 (drop (32 * i) (bufbits inp))) @ drop (32 * i + 32) bools"
      using take_add [of "32 * i" 32 "bufbits inp"] by (simp add: add.commute)
    then show ?thesis
      using b assms len by (simp add: load_bytes_def store_bytes_def bits32_to_bytes_eq w mult.commute [of i 32] add.commute)
  qed
  have "\<exists>a'. fold_gm ?f [0..<?q] bools = (ret a' :: ('s, _) gm) \<and> a' = ?b (32 * ?q)"
    by (rule fold_gm_invariant [where I = "\<lambda>i bs. bs = ?b (32 * i)"]) (use step in auto)
  then have one: "fold_gm ?f [0..<?q] bools = (ret (?b (32 * ?q)) :: ('s, _) gm)" by auto
  let ?g = "\<lambda>i bs. bind (rd inp (i div 8)) (\<lambda>b. wr bs i (drop_bit (i mod 8) b AND 1))"
  have tail: "\<exists>a'. ?g i bs = (ret a' :: ('s, _) gm) \<and> a' = ?b (Suc i)"
    if "32 * ?q \<le> i" "i < n" "bs = ?b i" for i bs
  proof -
    have i: "i < 8 * length inp" "i div 8 < length inp" "i < length bools" using that assms by (auto simp: less_mult_imp_div_less)
    then show ?thesis
      using that(3) assms
      by (simp add: drop_bit_and_1 take_Suc_conv_app_nth bufbits_nth list_update_append flip: Cons_nth_drop_Suc)
  qed
  have "\<exists>a'. fold_gm ?g [32 * ?q..<n] (?b (32 * ?q)) = (ret a' :: ('s, _) gm) \<and> a' = ?b n"
    by (rule fold_gm_invariant [where I = "\<lambda>i bs. bs = ?b i"]) (use tail q in blast)+
  with one show ?thesis by (simp add: bits_to_bools_def Let_def mult.commute)
qed

text \<open>The fixed-size targets: every bit is written, so that the initial bytes do not matter.\<close>

lemma bool_to_block_eq:
  assumes "128 \<le> length data"
  shows "bool_to_block avx2 r0 data = (ret (bw (map (\<lambda>b. b \<noteq> 0) (take 128 data))) :: ('s, _) gm)"
  using bools_to_bits_ok [where 's = 's and n = 128 and bools = data and out' = "le_bytes r0" and ?avx2.0 = avx2] assms by (auto simp: bool_to_block_def)

lemma bool_to_int_eq:
  assumes "8 dvd LENGTH('a::len)" and "LENGTH('a) \<le> length data"
  shows "bool_to_int avx2 data = (ret (bw (map (\<lambda>b. b \<noteq> 0) (take LENGTH('a) data)) :: 'a word) :: ('s, _) gm)"
proof -
  have n: "LENGTH('a) div 8 * 8 = LENGTH('a)" using assms(1) by simp
  show ?thesis
    using bools_to_bits_ok [where 's = 's and n = "LENGTH('a)" and bools = data and out' = "replicate (LENGTH('a) div 8) 0" and ?avx2.0 = avx2] assms(2) n
    by (auto simp: bool_to_int_def mult.commute)
qed

text \<open>
  (C38) Packing \<open>n\<close> bools into a buffer that has room sets its first \<open>n\<close> bits to the truth of the bools
  and preserves every later bit, and unpacking \<open>n\<close> bits gives these truth values back as 0/1 bytes and
  leaves the later elements of the destination alone; the AVX2 and the SSE builds agree, whichever packs
  and whichever unpacks. A negative count is an error.
\<close>

theorem pack_unpack:
  fixes bools bools' :: bytes
  assumes "n \<le> length bools" and "n \<le> length bools'" and "n \<le> 8 * length buf"
  shows "(\<exists>buf'. bools_to_bits avx2 buf bools (int n) = (ret buf' :: (unit, _) gm) \<and> length buf' = length buf \<and>
      bufbits buf' = map (\<lambda>b. b \<noteq> 0) (take n bools) @ drop n (bufbits buf) \<and>
      bits_to_bools avx2' bools' buf' (int n) =
        (ret (map (\<lambda>b. of_bool (b \<noteq> 0)) (take n bools) @ drop n bools') :: (unit, _) gm)) \<and>
    (\<forall>k < 0. bools_to_bits avx2 buf bools k = (fail NegativeCount :: (unit, _) gm) \<and>
      bits_to_bools avx2 bools buf k = (fail NegativeCount :: (unit, _) gm))"
proof -
  obtain buf' where buf': "bools_to_bits avx2 buf bools (int n) = (ret buf' :: (unit, _) gm)" "length buf' = length buf"
    "bufbits buf' = map (\<lambda>b. b \<noteq> 0) (take n bools) @ drop n (bufbits buf)"
    using bools_to_bits_ok [OF assms(1,3)] by blast
  moreover have "take n (bufbits buf') = map (\<lambda>b. b \<noteq> 0) (take n bools)" using buf'(3) assms(1) by simp
  ultimately have "\<exists>buf'. bools_to_bits avx2 buf bools (int n) = (ret buf' :: (unit, _) gm) \<and> length buf' = length buf \<and>
      bufbits buf' = map (\<lambda>b. b \<noteq> 0) (take n bools) @ drop n (bufbits buf) \<and>
      bits_to_bools avx2' bools' buf' (int n) =
        (ret (map (\<lambda>b. of_bool (b \<noteq> 0)) (take n bools) @ drop n bools') :: (unit, _) gm)"
    using bits_to_bools_ok [of n bools' buf' avx2'] assms(2,3) by (auto simp: comp_def)
  then show ?thesis by (simp add: bools_to_bits_def bits_to_bools_def)
qed

theorem pack_unpack_witness:
  "\<exists>buf'. bools_to_bits True [0xFF] [1, 0, 7] 3 = (ret buf' :: (unit, _) gm) \<and>
    bufbits buf' = [True, False, True, True, True, True, True, True] \<and>
    bits_to_bools False [9, 9, 9, 9] buf' 3 = (ret [1, 0, 1, 9] :: (unit, _) gm)"
proof -
  have "bufbits [0xFF :: 8 word] = [True, True, True, True, True, True, True, True]" by code_simp
  with pack_unpack [of 3 "[1, 0, 7]" "[9, 9, 9, 9]" "[0xFF]" True False] show ?thesis
    by (auto simp: take_Cons' drop_Cons')
qed

end
