(* ===== verification/Simd.thy ===== *)
theory Simd
  imports Schedule Packing
begin

text \<open>
  \<open>ir/simd.h\<close>: one program on \<open>N\<close> independent instances, 128 of them packed into the lanes of a block and
  driven through the scheduled replay. Inputs and outputs are flat arrays of bools, instance-major. The
  local array \<open>bits\<close> and the block that \<open>bool_to_block\<close> fills are not initialised in the source: what they
  hold at first is the argument \<open>junk\<close>.

  The bitsliced plaintext context of \<open>test/ir/test_simd.cpp\<close> is related to the Boolean meaning lane by
  lane (one simulation for each lane); with the correctness of the scheduled replay and of the packing
  this gives the instance-by-instance meaning of the batched replay.
\<close>

definition BitslicedClearCtx :: "(unit, 128 word) bulk_ctx" where
  "BitslicedClearCtx =
     \<lparr>public_bit = (\<lambda>v. ret (if v then -1 else 0)),
      and_gate = (\<lambda>a b. ret (a AND b)),
      xor_gate = (\<lambda>a b. ret (a XOR b)),
      not_gate = (\<lambda>a. ret (a XOR -1)),
      wire_init = 0,
      and_many = map2_gm (\<lambda>a b. ret (a AND b))\<rparr>"

section \<open>The batched replay\<close>

definition simd_pack :: "bool \<Rightarrow> 128 word \<Rightarrow> nat \<Rightarrow> bytes \<Rightarrow> nat \<Rightarrow> nat \<Rightarrow> ('s, 128 word list) gm" where
  "simd_pack avx2 junk ni inp base lanes =
     map_gm (\<lambda>i. bind (map_gm (\<lambda>t. if t < lanes then bind (rd inp ((base + t) * ni + i)) (\<lambda>b. ret (of_bool (b \<noteq> 0)))
                                  else ret 0) [0..<128])
                 (bool_to_block avx2 junk)) [0..<ni]"

definition simd_unpack :: "bool \<Rightarrow> bytes \<Rightarrow> nat \<Rightarrow> 128 word list \<Rightarrow> nat \<Rightarrow> nat \<Rightarrow> bytes \<Rightarrow> ('s, bytes) gm" where
  "simd_unpack avx2 bits no outw base lanes out' =
     fold_gm (\<lambda>o' os. bind (rd outw o') (\<lambda>w. bind (bits_to_bools avx2 bits (le_bytes w) 128) (\<lambda>bs.
        fold_gm (\<lambda>t os. bind (rd bs t) (wr os ((base + t) * no + o'))) [0..<lanes] os))) [0..<no] out'"

definition simd_execute_program ::
  "bool \<Rightarrow> bool \<Rightarrow> 128 word \<Rightarrow> bytes \<Rightarrow> ('s, 128 word, 'z) bulk_ctx_scheme \<Rightarrow> BooleanProgram \<Rightarrow> ScheduledPlan \<Rightarrow>
   bytes \<Rightarrow> bytes \<Rightarrow> int \<Rightarrow> 128 word list \<Rightarrow> ('s, bytes \<times> 128 word list) gm" where
  "simd_execute_program debug avx2 junk bits C p plan inp out' N scratch =
     (let ni = num_inputs p; no = u32 (length (outputs p)); n = nat N in
      fold_gm (\<lambda>k (out', scratch).
        let base = 128 * k; lanes = min 128 (n - base) in
        bind (simd_pack avx2 junk ni inp base lanes) (\<lambda>inbuf.
        bind (scheduled_execute_program debug C p plan inbuf scratch) (\<lambda>(outw, scratch).
        bind (simd_unpack avx2 bits no outw base lanes out') (\<lambda>out'. ret (out', scratch)))))
        [0..<(n + 127) div 128] (out', scratch))"

definition simd_execute ::
  "bool \<Rightarrow> bool \<Rightarrow> 128 word \<Rightarrow> bytes \<Rightarrow> ('s, 128 word, 'z) bulk_ctx_scheme \<Rightarrow> BooleanProgram \<Rightarrow> bytes \<Rightarrow> bytes \<Rightarrow> int \<Rightarrow>
   ('s, bytes) gm" where
  "simd_execute debug avx2 junk bits C p inp out' N =
     (case make_scheduled_plan p of
        Inl e \<Rightarrow> fail e
      | Inr plan \<Rightarrow> bind (simd_execute_program debug avx2 junk bits C p plan inp out' N []) (\<lambda>(out', scratch). ret out'))"

section \<open>Lanes\<close>

interpretation pure_bitsliced: pure_bulk BitslicedClearCtx "\<lambda>v. if v then -1 else 0" "(AND)" "(XOR)" "\<lambda>a. a XOR -1"
  by unfold_locales (simp_all add: map2_gm_ret BitslicedClearCtx_def)

interpretation lane: ctx_sim BitslicedClearCtx bool_ctx "\<lambda>_. True" "\<lambda>_ _. True" "\<lambda>_. False"
    "\<lambda>w b. bit w (t mod 128) = b" for t
  by unfold_locales
    (auto simp: BitslicedClearCtx_def bool_ctx_def sim_def ret_def tot_def rel_fun_def bit_simps)

lemma simd_replay:
  assumes wf: "wf_program p" and dense: "wire_reuse p = ReuseNone" and u32: "num_wires p < 2 ^ 32"
    and ands: "num_ands (gates p) < INT_MAX" and plan: "make_scheduled_plan p = Inr plan" and len: "length inbuf = num_inputs p"
  shows "\<exists>os w. scheduled_execute_program debug BitslicedClearCtx p plan inbuf scratch = ret (os, w) \<and>
    length os = length (outputs p) \<and>
    (\<forall>t < 128. map (\<lambda>x. bit x t) os = program_fun p (map (\<lambda>x. bit x t) inbuf))"
proof -
  from pure_bitsliced.scheduled_pure [OF wf dense u32 ands plan len] obtain os w w' where
    os: "scheduled_execute_program debug BitslicedClearCtx p plan inbuf scratch = ret (os, w)"
    "execute_program_ws BitslicedClearCtx p inbuf scratch = ret (os, w')" by blast
  have lanes: "list_all2 (\<lambda>w b. bit w t = b) os (program_fun p (map (\<lambda>x. bit x t) inbuf))" if t: "t < 128" for t
  proof -
    have ins: "list_all2 (\<lambda>w b. bit w (t mod 128) = b) inbuf (map (\<lambda>x. bit x t) inbuf)"
      using t by (simp add: list_all2_conv_all_nth)
    obtain v where v: "execute_program_ws bool_ctx p (map (\<lambda>x. bit x t) inbuf) [] () = Inr ((program_fun p (map (\<lambda>x. bit x t) inbuf), v), ())"
      using bool_execute_total [OF wf, of "map (\<lambda>x. bit x t) inbuf"] len by (auto simp: execute_program_def bind_eq_Inr ret_def)
    have "execute_program_ws BitslicedClearCtx p inbuf scratch () = Inr ((os, w'), ())" by (simp add: os(2) ret_def)
    from lane.sim_execute_program_ws [OF wf ins, of scratch "[]"] this show ?thesis by (rule simD) (use v t in auto)
  qed
  have "length os = length (outputs p)"
    using list_all2_lengthD [OF lanes [of 0]] by simp
  moreover have "\<forall>t < 128. map (\<lambda>x. bit x t) os = program_fun p (map (\<lambda>x. bit x t) inbuf)"
    using lanes by (auto simp: list_all2_conv_all_nth intro!: nth_equalityI)
  ultimately show ?thesis using os(1) by blast
qed

lemma simd_pack_ok:
  assumes "\<forall>t < lanes. \<forall>i < ni. (base + t) * ni + i < length inp"
  shows "simd_pack avx2 junk ni inp base lanes =
    (ret (map (\<lambda>i. bw (map (\<lambda>t. t < lanes \<and> inp ! ((base + t) * ni + i) \<noteq> 0) [0..<128])) [0..<ni]) :: ('s, _) gm)"
proof -
  have "bind (map_gm (\<lambda>t. if t < lanes then bind (rd inp ((base + t) * ni + i)) (\<lambda>b. ret (of_bool (b \<noteq> 0))) else ret 0) [0..<128])
      (bool_to_block avx2 junk) = (ret (bw (map (\<lambda>t. t < lanes \<and> inp ! ((base + t) * ni + i) \<noteq> 0) [0..<128])) :: ('s, _) gm)"
    if i: "i < ni" for i
  proof -
    have "map_gm (\<lambda>t. if t < lanes then bind (rd inp ((base + t) * ni + i)) (\<lambda>b. ret (of_bool (b \<noteq> 0))) else ret 0) [0..<128] =
        (ret (map (\<lambda>t. of_bool (t < lanes \<and> inp ! ((base + t) * ni + i) \<noteq> 0)) [0..<128]) :: ('s, bytes) gm)"
      by (rule map_gm_ret) (use assms i in auto)
    then show ?thesis by (simp add: bool_to_block_eq comp_def del: upt_rec_numeral)
  qed
  then show ?thesis unfolding simd_pack_def by (intro map_gm_ret) simp
qed

text \<open>Writing the lanes of the output blocks fills the segment of the instances \<open>base, \<dots>, base + lanes - 1\<close>.\<close>

lemma instance_index:
  fixes no :: nat
  assumes "o' < no"
  shows "(t * no + o') mod no = o'" and "(t * no + o') div no = t" and "t < n \<Longrightarrow> t * no + o' < n * no"
proof -
  show "(t * no + o') mod no = o'" "(t * no + o') div no = t" using assms by simp_all
  assume "t < n"
  then have "Suc t * no \<le> n * no" by (intro mult_le_mono1) simp
  then show "t * no + o' < n * no" using assms by simp
qed

lemma simd_unpack_ok:
  assumes bits: "length bits = 128" and lanes: "lanes \<le> 128" and outw: "length outw = no"
    and room: "(base + lanes) * no \<le> length out'"
  shows "simd_unpack avx2 bits no outw base lanes out' =
    (ret (map (\<lambda>j. if base * no \<le> j \<and> j < (base + lanes) * no then of_bool (bit (outw ! (j mod no)) (j div no - base)) else out' ! j)
       [0..<length out']) :: ('s, _) gm)" (is "_ = ret ?ys")
proof -
  let ?v = "\<lambda>(o', t). of_bool (bit (outw ! o') t)" and ?q = "\<lambda>(o', t). (base + t) * no + o'"
  have body: "bind (rd outw o') (\<lambda>w. bind (bits_to_bools avx2 bits (le_bytes w) 128) (\<lambda>bs.
        fold_gm (\<lambda>t os. bind (rd bs t) (wr os ((base + t) * no + o'))) [0..<lanes] os)) =
      (fold_gm (\<lambda>t os. wr os (?q (o', t)) (?v (o', t))) [0..<lanes] os :: ('s, _) gm)" if o: "o' < no" for o' os
  proof -
    have "bits_to_bools avx2 bits (le_bytes (outw ! o')) 128 = (ret (map of_bool (wb (outw ! o'))) :: ('s, _) gm)"
      using bits_to_bools_ok [where 's = 's and n = 128 and bools = bits and inp = "le_bytes (outw ! o')" and ?avx2.0 = avx2] bits
      by (simp add: bufbits_le128)
    then show ?thesis using o outw lanes by (auto intro!: fold_gm_cong)
  qed
  have "simd_unpack avx2 bits no outw base lanes out' =
      (fold_gm (\<lambda>o'. fold_gm (\<lambda>t os. wr os (?q (o', t)) (?v (o', t))) [0..<lanes]) [0..<no] out' :: ('s, _) gm)"
    unfolding simd_unpack_def by (rule fold_gm_cong) (simp add: body)
  also have "\<dots> = fold_gm (\<lambda>x os. wr os (?q x) (?v x)) (List.product [0..<no] [0..<lanes]) out'"
    by (subst fold_gm_product) (rule fold_gm_cong, auto)
  also have "\<dots> = ret ?ys"
  proof (rule fill)
    have in_range: "?q (o', t) < (base + lanes) * no" "base * no \<le> ?q (o', t)" if "o' < no" "t < lanes" for o' t
      using instance_index(3) [OF that(1), of "base + t" "base + lanes"] that(2) by (simp, simp add: distrib_right)
    show "\<forall>x \<in> set (List.product [0..<no] [0..<lanes]). ?q x < length ?ys \<and> ?v x = ?ys ! ?q x"
    proof
      fix x
      assume "x \<in> set (List.product [0..<no] [0..<lanes])"
      then obtain o' t where x: "x = (o', t)" "o' < no" "t < lanes" by auto
      have "?q x < length out'" using in_range [OF x(2,3)] room x(1) by simp
      moreover have "?ys ! ?q x = ?v x"
        using in_range [OF x(2,3)] room instance_index(1,2) [OF x(2), of "base + t"] by (simp add: x(1))
      ultimately show "?q x < length ?ys \<and> ?v x = ?ys ! ?q x" by simp
    qed
    show "\<forall>j < length ?ys. (\<exists>x \<in> set (List.product [0..<no] [0..<lanes]). ?q x = j) \<or> out' ! j = ?ys ! j"
    proof (intro allI impI)
      fix j
      assume j: "j < length ?ys"
      show "(\<exists>x \<in> set (List.product [0..<no] [0..<lanes]). ?q x = j) \<or> out' ! j = ?ys ! j"
      proof (cases "base * no \<le> j \<and> j < (base + lanes) * no")
        case True
        then have no: "0 < no" by (cases no) auto
        have d: "base \<le> j div no" "j div no < base + lanes"
          using True no by (simp_all add: less_eq_div_iff_mult_less_eq div_less_iff_less_mult)
        have "?q (j mod no, j div no - base) = j" using d by simp
        moreover have "(j mod no, j div no - base) \<in> set (List.product [0..<no] [0..<lanes])" using no d by auto
        ultimately show ?thesis by blast
      qed (use j in auto)
    qed
  qed simp
  finally show ?thesis .
qed

section \<open>Every instance gets the program's outputs\<close>

text \<open>The bits of instance \<open>t\<close>, and the output array after the first \<open>m\<close> instances.\<close>

definition instance_inputs :: "BooleanProgram \<Rightarrow> bytes \<Rightarrow> nat \<Rightarrow> bool list" where
  "instance_inputs p inp t = map (\<lambda>i. inp ! (t * num_inputs p + i) \<noteq> 0) [0..<num_inputs p]"

definition instances_done :: "BooleanProgram \<Rightarrow> bytes \<Rightarrow> bytes \<Rightarrow> nat \<Rightarrow> bytes" where
  "instances_done p inp out' m =
     (let no = length (outputs p) in
      map (\<lambda>j. if j < m * no then of_bool (program_fun p (instance_inputs p inp (j div no)) ! (j mod no)) else out' ! j)
        [0..<length out'])"

lemma length_instances_done [simp]: "length (instances_done p inp out' m) = length out'"
  by (simp add: instances_done_def Let_def)

lemma simd_chunk:
  assumes wf: "wf_program p" and dense: "wire_reuse p = ReuseNone" and u32: "num_wires p < 2 ^ 32"
    and ands: "num_ands (gates p) < INT_MAX" and plan: "make_scheduled_plan p = Inr plan"
    and inp: "n * num_inputs p \<le> length inp" and room: "n * length (outputs p) \<le> length out'"
    and bits: "length bits = 128" and base: "base \<le> n" and lanes: "lanes = min 128 (n - base)"
  shows "\<exists>w. bind (simd_pack avx2 junk (num_inputs p) inp base lanes) (\<lambda>inbuf.
      bind (scheduled_execute_program debug BitslicedClearCtx p plan inbuf scratch) (\<lambda>(outw, scratch).
      bind (simd_unpack avx2 bits (length (outputs p)) outw base lanes (instances_done p inp out' base)) (\<lambda>out'. ret (out', scratch)))) =
    ret (instances_done p inp out' (base + lanes), w)"
proof -
  let ?no = "length (outputs p)" and ?ni = "num_inputs p"
  let ?inbuf = "map (\<lambda>i. bw (map (\<lambda>t. t < lanes \<and> inp ! ((base + t) * ?ni + i) \<noteq> 0) [0..<128]) :: 128 word) [0..<?ni]"
  have bl: "base + lanes \<le> n" "lanes \<le> 128" using base lanes by simp_all
  have "\<forall>t < lanes. \<forall>i < ?ni. (base + t) * ?ni + i < length inp"
  proof (intro allI impI)
    fix t i
    assume "t < lanes" "i < ?ni"
    then show "(base + t) * ?ni + i < length inp"
      using instance_index(3) [of i ?ni "base + t" n] bl(1) inp by simp
  qed
  note pack = simd_pack_ok [OF this, of avx2 junk]
  from simd_replay [OF wf dense u32 ands plan, of ?inbuf debug scratch] obtain os w where
    os: "scheduled_execute_program debug BitslicedClearCtx p plan ?inbuf scratch = ret (os, w)" "length os = ?no"
    "\<forall>t < 128. map (\<lambda>x. bit x t) os = program_fun p (map (\<lambda>x. bit x t) ?inbuf)" by (auto simp del: upt_rec_numeral)
  have lane: "bit (os ! o') t = program_fun p (instance_inputs p inp (base + t)) ! o'" if "o' < ?no" "t < lanes" for o' t
  proof -
    have "map (\<lambda>x. bit x t) ?inbuf = instance_inputs p inp (base + t)"
      using that(2) bl(2) by (auto simp: instance_inputs_def bit_bw simp del: upt_rec_numeral)
    with os(3) [rule_format, OF less_le_trans [OF that(2) bl(2)]]
    have "map (\<lambda>x. bit x t) os = program_fun p (instance_inputs p inp (base + t))" by (simp only:)
    from arg_cong [OF this, of "\<lambda>l. l ! o'"] os(2) that(1) show ?thesis by simp
  qed
  have "(base + lanes) * ?no \<le> length out'" using mult_le_mono1 [OF bl(1), of ?no] room by (rule le_trans)
  then have "(base + lanes) * ?no \<le> length (instances_done p inp out' base)" by (simp add: instances_done_def Let_def)
  note unpack = simd_unpack_ok [OF bits bl(2) os(2) this, of avx2]
  have "(if base * ?no \<le> j \<and> j < (base + lanes) * ?no then of_bool (bit (os ! (j mod ?no)) (j div ?no - base))
        else instances_done p inp out' base ! j) =
      instances_done p inp out' (base + lanes) ! j" if j: "j < length out'" for j
  proof (cases "base * ?no \<le> j \<and> j < (base + lanes) * ?no")
    case True
    then have no: "0 < ?no" by (cases ?no) auto
    have d: "base \<le> j div ?no" "j div ?no < base + lanes"
      using True no by (simp_all add: less_eq_div_iff_mult_less_eq div_less_iff_less_mult)
    from lane [of "j mod ?no" "j div ?no - base"] no d True j show ?thesis by (simp add: instances_done_def Let_def)
  next
    case False
    have "j < base * ?no \<Longrightarrow> j < (base + lanes) * ?no" by (erule less_le_trans) (rule mult_le_mono1, simp)
    with False j show ?thesis by (auto simp: instances_done_def Let_def)
  qed
  then have "map (\<lambda>j. if base * ?no \<le> j \<and> j < (base + lanes) * ?no then of_bool (bit (os ! (j mod ?no)) (j div ?no - base))
        else instances_done p inp out' base ! j) [0..<length (instances_done p inp out' base)] = instances_done p inp out' (base + lanes)"
    by (intro nth_equalityI) (simp_all only: length_map length_upt length_instances_done nth_map nth_upt minus_nat.diff_0 add_0)
  with unpack have "simd_unpack avx2 bits ?no os base lanes (instances_done p inp out' base) =
      (ret (instances_done p inp out' (base + lanes)) :: (unit, _) gm)" by (simp only:)
  then show ?thesis unfolding pack bind_ret os(1) split by simp
qed

text \<open>
  (C12) Batched replay over the bitsliced plaintext context of a validated dense program with fewer than
  \<open>2 ^ 31 - 1\<close> AND gates, for any number of instances (a multiple of 128 or not), returns, and writes for every instance the outputs of the program on that instance's
  inputs; nothing past the \<open>N\<close> instances is touched, and neither the uninitialised locals nor the scratch
  buffer nor the build influence the result.
\<close>

theorem simd_replay_correct:
  assumes "validate_program p = Inr ()" and "wire_reuse p = ReuseNone" and "num_wires p < 2 ^ 32"
    and "length (filter is_and (gates p)) < 2 ^ 31 - 1" and "length (outputs p) < 2 ^ 32" and "make_scheduled_plan p = Inr plan"
    and "n * num_inputs p \<le> length inp" and "n * length (outputs p) \<le> length out'" and "length bits = 128"
  shows "\<exists>scratch'. simd_execute_program debug avx2 junk bits BitslicedClearCtx p plan inp out' (int n) scratch () =
    Inr ((map (\<lambda>j. if j < n * length (outputs p)
           then of_bool (program_fun p (map (\<lambda>i. inp ! (j div length (outputs p) * num_inputs p + i) \<noteq> 0) [0..<num_inputs p])
                           ! (j mod length (outputs p)))
           else out' ! j) [0..<length out'], scratch'), ())"
proof -
  have wf: "wf_program p" using assms(1) by (simp add: validate_wf)
  have no: "u32 (length (outputs p)) = length (outputs p)" using assms(5) by (simp add: u32_def)
  have ands: "num_ands (gates p) < INT_MAX" using assms(4) by (simp add: INT_MAX_def)
  let ?f = "\<lambda>k (out', scratch). let base = 128 * k; lanes = min 128 (n - base) in
        bind (simd_pack avx2 junk (num_inputs p) inp base lanes) (\<lambda>inbuf.
        bind (scheduled_execute_program debug BitslicedClearCtx p plan inbuf scratch) (\<lambda>(outw, scratch).
        bind (simd_unpack avx2 bits (length (outputs p)) outw base lanes out') (\<lambda>out'. ret (out', scratch))))"
  let ?I = "\<lambda>k (o', w). o' = instances_done p inp out' (min n (128 * k))"
  have step: "\<exists>a'. ?f k a = (ret a' :: (unit, _) gm) \<and> ?I (Suc k) a'" if k: "k < (n + 127) div 128" and I: "?I k a" for k a
  proof -
    have b: "128 * k \<le> n" "min n (128 * k) = 128 * k" using k by auto
    obtain w where a: "a = (instances_done p inp out' (128 * k), w)" using I b(2) by (cases a) auto
    have "128 * k + min 128 (n - 128 * k) = min n (128 * Suc k)" using b(1) by auto
    with simd_chunk [OF wf assms(2,3) ands assms(6-9) b(1) refl, of avx2 junk debug w] show ?thesis by (auto simp: a Let_def)
  qed
  have "\<exists>a'. fold_gm ?f [0..<(n + 127) div 128] (out', scratch) = (ret a' :: (unit, _) gm) \<and> ?I ((n + 127) div 128) a'"
    by (rule fold_gm_invariant [where I = ?I]) (use step in \<open>auto simp: instances_done_def Let_def intro: nth_equalityI\<close>)
  then obtain w where "fold_gm ?f [0..<(n + 127) div 128] (out', scratch) =
      (ret (instances_done p inp out' (min n (128 * ((n + 127) div 128))), w) :: (unit, _) gm)" by (auto split: prod.splits)
  moreover have "min n (128 * ((n + 127) div 128)) = n" by simp
  ultimately show ?thesis
    by (simp add: simd_execute_program_def no ret_def instances_done_def instance_inputs_def Let_def)
qed

theorem simd_replay_correct_witness:
  "\<exists>plan scratch'. make_scheduled_plan half_adder = Inr plan \<and>
    simd_execute_program True False 5 (replicate 128 7) BitslicedClearCtx half_adder plan [1, 1, 1, 0] [9, 9, 9, 9, 9] 2 [] () =
      Inr (([0, 1, 1, 0, 9], scratch'), ())"
proof -
  have wf: "wf_program half_adder" using validate_half_adder by (simp add: validate_wf)
  have dense: "wire_reuse half_adder = ReuseNone" "num_wires half_adder < 2 ^ 32"
      "length (filter is_and (gates half_adder)) < 2 ^ 31 - 1" "length (outputs half_adder) < 2 ^ 32"
    and nums: "num_inputs half_adder = 2" "length (outputs half_adder) = 2"
    by (simp_all add: half_adder_def op_tests)
  have "\<exists>plan. make_scheduled_plan half_adder = Inr plan"
    by (rule make_scheduled_plan_ok [OF wf dense(1,2)]) (use dense(3) in \<open>simp_all add: INT_MAX_def\<close>)
  then obtain plan where plan: "make_scheduled_plan half_adder = Inr plan" by blast
  have fn: "program_fun half_adder [True, True] = [False, True]" "program_fun half_adder [True, False] = [True, False]" by code_simp+
  have "\<exists>scratch'. simd_execute_program True False 5 (replicate 128 7) BitslicedClearCtx half_adder plan [1, 1, 1, 0] [9, 9, 9, 9, 9]
      (int 2) [] () = Inr (([0, 1, 1, 0, 9], scratch'), ())"
    using simd_replay_correct [OF validate_half_adder dense plan, of 2 "[1, 1, 1, 0]" "[9, 9, 9, 9, 9]" "replicate 128 7" True False 5 "[]"]
    unfolding nums length_replicate by (simp only: list.size) (simp add: fn upt_rec [of _ 2])
  with plan show ?thesis by auto
qed

end
