(* ===== verification/Block.thy ===== *)
theory Block
  imports Packing
begin

text \<open>
  \<open>runtime/core/block.hpp\<close>: the 128-bit block. A block is a \<open>128 word\<close>; its 16 bytes in memory order are
  \<open>le_bytes\<close>, its lanes are the 64-bit halves. Arrays of blocks are lists; the loops over raw pointers run
  over indices, and an access outside an array is undefined behaviour.

  Lemmas: \<open>sigma\<close> is a linear orthomorphism (it and its sum with the identity are linear bijections, which
  is what the hash constructions built on it rely on), \<open>cmpBlock\<close> decides equality.
\<close>

type_synonym block = "128 word"

section \<open>Primitives\<close>

definition getLSB :: "block \<Rightarrow> bool" where
  "getLSB x \<longleftrightarrow> (ucast x :: 64 word) AND 1 = 1"

definition getBit :: "block \<Rightarrow> int \<Rightarrow> bool res" where
  "getBit x i =
     res_then (expecting (0 \<le> i \<and> i < 128) BitIndexOutOfRange)
       (Inr (if i < 64 then drop_bit (nat i) (ucast x :: 64 word) AND 1 = 1
             else drop_bit (nat (i - 64)) (ucast (drop_bit 64 x) :: 64 word) AND 1 = 1))"

definition makeBlock :: "64 word \<Rightarrow> 64 word \<Rightarrow> block" where
  "makeBlock high low = ucast low OR push_bit 64 (ucast high)"

text \<open>\<open>_mm_shuffle_epi32\<close>: the 32-bit lane \<open>k\<close> of the result is the lane that two bits of the immediate select.\<close>

definition shuffle_epi32 :: "block \<Rightarrow> nat \<Rightarrow> block" where
  "shuffle_epi32 a imm = bw (concat (map (\<lambda>k. take 32 (drop (32 * (imm div 4 ^ k mod 4)) (wb a))) [0..<4]))"

definition sigma :: "block \<Rightarrow> block" where
  "sigma a = shuffle_epi32 a 78 XOR (a AND makeBlock 0xFFFFFFFFFFFFFFFF 0)"

definition zero_block :: block where
  "zero_block = makeBlock 0 0"

definition all_one_block :: block where
  "all_one_block = makeBlock 0xFFFFFFFFFFFFFFFF 0xFFFFFFFFFFFFFFFF"

definition select_mask :: "bool \<Rightarrow> block" where
  "select_mask b = (if b then all_one_block else zero_block)"

definition set_bit :: "block \<Rightarrow> int \<Rightarrow> block res" where
  "set_bit a i =
     res_then (expecting (0 \<le> i \<and> i < 128) BitIndexOutOfRange)
       (Inr (if i < 64 then makeBlock 0 (push_bit (nat i) 1) OR a else makeBlock (push_bit (nat (i - 64)) 1) 0 OR a))"

definition hex_digits :: string where
  "hex_digits = ''0123456789abcdef''"

definition to_hex :: "bytes \<Rightarrow> string" where
  "to_hex data = concat (map (\<lambda>b. [hex_digits ! unat (drop_bit 4 b), hex_digits ! unat (b AND 0xF)]) data)"

definition xorBlocks_arr :: "block list \<Rightarrow> block list \<Rightarrow> block list \<Rightarrow> int \<Rightarrow> ('s, block list) gm" where
  "xorBlocks_arr r x y nblocks =
     check (0 \<le> nblocks) NegativeCount
     (fold_gm (\<lambda>i r. bind (rd x i) (\<lambda>a. bind (rd y i) (\<lambda>b. wr r i (a XOR b)))) [0..<nat nblocks] r)"

definition xorBlocksTo_arr :: "block list \<Rightarrow> block list \<Rightarrow> int \<Rightarrow> ('s, block list) gm" where
  "xorBlocksTo_arr dst src nblocks =
     check (0 \<le> nblocks) NegativeCount
     (fold_gm (\<lambda>i d. bind (rd d i) (\<lambda>a. bind (rd src i) (\<lambda>b. wr d i (a XOR b)))) [0..<nat nblocks] dst)"

definition xorBlocks_arr_const :: "block list \<Rightarrow> block list \<Rightarrow> block \<Rightarrow> int \<Rightarrow> ('s, block list) gm" where
  "xorBlocks_arr_const r x y nblocks =
     check (0 \<le> nblocks) NegativeCount
     (fold_gm (\<lambda>i r. bind (rd x i) (\<lambda>a. wr r i (a XOR y))) [0..<nat nblocks] r)"

definition cmpBlock :: "block list \<Rightarrow> block list \<Rightarrow> int \<Rightarrow> ('s, bool) gm" where
  "cmpBlock x y nblocks =
     check (0 \<le> nblocks) NegativeCount
     (bind (fold_gm (\<lambda>i acc. bind (rd x i) (\<lambda>a. bind (rd y i) (\<lambda>b. ret (acc OR (a XOR b))))) [0..<nat nblocks] 0)
        (\<lambda>acc. ret (acc AND acc = 0)))"

section \<open>Bits\<close>

lemma bit_makeBlock: "i < 128 \<Longrightarrow> bit (makeBlock h l) i = (if i < 64 then bit l i else bit h (i - 64))"
  by (auto simp: makeBlock_def bit_simps dest: bit_imp_le_length)

lemma getLSB_bit [simp]: "getLSB x \<longleftrightarrow> bit x 0"
  using bit_test [of 0 "ucast x :: 64 word"] by (simp add: getLSB_def bit_simps)

lemma getBit_bit: "i < 128 \<Longrightarrow> getBit x (int i) = Inr (bit x i)"
  by (auto simp: getBit_def bit_test bit_simps nat_diff_distrib)

lemma masks [simp]: "zero_block = 0" "all_one_block = -1" "select_mask b = (if b then -1 else 0)"
proof -
  show z: "zero_block = 0" by (simp add: zero_block_def makeBlock_def)
  show a: "all_one_block = -1" by (simp add: all_one_block_def makeBlock_def)
  show "select_mask b = (if b then -1 else 0)" by (simp add: select_mask_def z a)
qed

lemma set_bit_bit: "i < 128 \<Longrightarrow> \<exists>b. set_bit a (int i) = Inr b \<and> (\<forall>j < 128. bit b j \<longleftrightarrow> j = i \<or> bit a j)"
  by (auto simp: set_bit_def bit_or_iff bit_makeBlock bit_exp_iff nat_diff_distrib)

lemma bit_shuffle_78: "i < 128 \<Longrightarrow> bit (shuffle_epi32 a 78) i = bit a (if i < 64 then i + 64 else i - 64)"
proof -
  assume i: "i < 128"
  let ?part = "\<lambda>k. take 32 (drop (32 * (78 div 4 ^ k mod 4)) (wb a))"
  have parts: "map ?part [0..<4] = [?part 0, ?part 1, ?part 2, ?part 3]" by (simp add: upt_rec)
  have "\<forall>xs \<in> set (map ?part [0..<4]). length xs = 32" unfolding parts by simp
  moreover have len: "length (map ?part [0..<4]) = 4" by simp
  ultimately have nth: "concat (map ?part [0..<4]) ! i = map ?part [0..<4] ! (i div 32) ! (i mod 32)"
    "length (concat (map ?part [0..<4])) = 128"
    using nth_concat_uniform [of "map ?part [0..<4]" 32 i] length_concat_uniform [of "map ?part [0..<4]" 32] i by simp_all
  define r where "r = i mod 32"
  have r: "r < 32" and q: "i = 32 * (i div 32) + r" by (simp_all add: r_def)
  consider "i div 32 = 0" "i = r" | "i div 32 = 1" "i = 32 + r" | "i div 32 = 2" "i = 64 + r" | "i div 32 = 3" "i = 96 + r"
  proof -
    have "i div 32 < 4" using i by simp
    then have "i div 32 = 0 \<or> i div 32 = 1 \<or> i div 32 = 2 \<or> i div 32 = 3" by auto
    with q that show ?thesis by auto
  qed
  then have "map ?part [0..<4] ! (i div 32) ! r = bit a (if i < 64 then i + 64 else i - 64)"
    unfolding parts by cases (use r in \<open>simp_all add: add.commute\<close>)
  note this [unfolded r_def]
  with nth i show ?thesis by (simp add: shuffle_epi32_def bit_bw)
qed

lemma bit_sigma: "i < 128 \<Longrightarrow> bit (sigma a) i = (if i < 64 then bit a (i + 64) else bit a (i - 64) \<noteq> bit a i)"
proof -
  assume i: "i < 128"
  have m: "(0xFFFFFFFFFFFFFFFF :: 64 word) = -1" by simp
  show ?thesis unfolding sigma_def m using i by (auto simp: bit_xor_iff bit_and_iff bit_shuffle_78 bit_makeBlock)
qed

section \<open>The orthomorphism\<close>

lemma block_eqI: "(\<And>i. i < 128 \<Longrightarrow> bit x i = bit y i) \<Longrightarrow> x = y" for x y :: block
  by (rule bit_word_eqI) simp

lemma xor_zero_iff: "a XOR b = 0 \<longleftrightarrow> a = b" for a b :: "'a::len word"
  by (metis xor_self_eq xor.assoc xor.left_neutral xor.right_neutral)

lemma sigma_xor: "sigma (x XOR y) = sigma x XOR sigma y"
  by (rule block_eqI) (auto simp: bit_sigma bit_xor_iff)

lemma sigma_linear_bijections: "inj sigma" "inj (\<lambda>x. sigma x XOR x)"
proof -
  have "x = 0" if "sigma x = 0" for x
  proof (rule block_eqI)
    fix i :: nat
    assume i: "i < 128"
    have "\<not> bit (sigma x) k" for k using that by simp
    from this [of "i - 64"] this [of i] this [of "i + 64"] i show "bit x i = bit 0 i"
      by (cases "i < 64") (auto simp: bit_sigma split: if_splits)
  qed
  note zero = this
  show "inj sigma"
  proof (rule injI)
    fix x y
    assume "sigma x = sigma y"
    then have "sigma (x XOR y) = 0" by (simp add: sigma_xor)
    from zero [OF this] show "x = y" by (simp only: xor_zero_iff)
  qed
  have "x = 0" if "sigma x XOR x = 0" for x
  proof (rule block_eqI)
    fix i :: nat
    assume i: "i < 128"
    have "\<not> bit (sigma x XOR x) k" for k using that by simp
    from this [of "i - 64"] this [of i] this [of "i + 64"] i show "bit x i = bit 0 i"
      by (cases "i < 64") (auto simp: bit_sigma bit_xor_iff split: if_splits)
  qed
  note zero' = this
  show "inj (\<lambda>x. sigma x XOR x)"
  proof (rule injI)
    fix x y
    assume "sigma x XOR x = sigma y XOR y"
    then have "(sigma x XOR x) XOR (sigma y XOR y) = 0" by simp
    then have "sigma (x XOR y) XOR (x XOR y) = 0" by (simp add: sigma_xor xor.assoc xor.left_commute)
    from zero' [OF this] show "x = y" by (simp only: xor_zero_iff)
  qed
qed

section \<open>Arrays\<close>

lemma xorBlocks_ok:
  assumes "n \<le> length x" and "n \<le> length y" and "n \<le> length r"
  shows "xorBlocks_arr r x y (int n) = (ret (map2 (XOR) (take n x) (take n y) @ drop n r) :: ('s, _) gm)"
proof -
  have "\<exists>a'. fold_gm (\<lambda>i r. bind (rd x i) (\<lambda>a. bind (rd y i) (\<lambda>b. wr r i (a XOR b)))) [0..<n] r = (ret a' :: ('s, _) gm) \<and>
      a' = map2 (XOR) (take n x) (take n y) @ drop n r"
    by (rule fold_gm_invariant [where I = "\<lambda>i a. a = map2 (XOR) (take i x) (take i y) @ drop i r"])
      (use assms in \<open>auto simp: take_Suc_conv_app_nth list_update_append simp flip: Cons_nth_drop_Suc\<close>)
  then show ?thesis by (auto simp: xorBlocks_arr_def)
qed

lemma cmpBlock_ok:
  assumes "n \<le> length x" and "n \<le> length y"
  shows "cmpBlock x y (int n) = (ret (take n x = take n y) :: ('s, _) gm)"
proof -
  have "\<exists>a'. fold_gm (\<lambda>i acc. bind (rd x i) (\<lambda>a. bind (rd y i) (\<lambda>b. ret (acc OR (a XOR b))))) [0..<n] 0 = (ret a' :: ('s, _) gm) \<and>
      (a' = 0 \<longleftrightarrow> take n x = take n y)"
    by (rule fold_gm_invariant [where I = "\<lambda>i a. a = 0 \<longleftrightarrow> take i x = take i y"])
      (use assms in \<open>auto simp: take_Suc_conv_app_nth or_eq_0_iff xor_zero_iff\<close>)
  then show ?thesis by (auto simp: cmpBlock_def)
qed

end
