(* ===== verification/Fips197.thy ===== *)
theory Fips197
  imports Words
begin

text \<open>
  The reference for AES-128: FIPS 197 on bytes, with the S-box of the standard as a table that is shown to be the
  affine image of inversion in the field with 256 elements, key expansion, encryption and counter mode, and
  the worked example of the standard. Both the AES circuit (\<open>circuits/crypto/aes128.h\<close>) and the runtime's AES
  kernels (\<open>runtime/crypto/aes.hpp\<close>) are shown to compute it.
\<close>

unbundle bit_operations_syntax

section \<open>The reference\<close>

definition AES_SBOX :: "8 word list" where
  "AES_SBOX = [
    0x63, 0x7C, 0x77, 0x7B, 0xF2, 0x6B, 0x6F, 0xC5, 0x30, 0x01, 0x67, 0x2B, 0xFE, 0xD7, 0xAB, 0x76,
    0xCA, 0x82, 0xC9, 0x7D, 0xFA, 0x59, 0x47, 0xF0, 0xAD, 0xD4, 0xA2, 0xAF, 0x9C, 0xA4, 0x72, 0xC0,
    0xB7, 0xFD, 0x93, 0x26, 0x36, 0x3F, 0xF7, 0xCC, 0x34, 0xA5, 0xE5, 0xF1, 0x71, 0xD8, 0x31, 0x15,
    0x04, 0xC7, 0x23, 0xC3, 0x18, 0x96, 0x05, 0x9A, 0x07, 0x12, 0x80, 0xE2, 0xEB, 0x27, 0xB2, 0x75,
    0x09, 0x83, 0x2C, 0x1A, 0x1B, 0x6E, 0x5A, 0xA0, 0x52, 0x3B, 0xD6, 0xB3, 0x29, 0xE3, 0x2F, 0x84,
    0x53, 0xD1, 0x00, 0xED, 0x20, 0xFC, 0xB1, 0x5B, 0x6A, 0xCB, 0xBE, 0x39, 0x4A, 0x4C, 0x58, 0xCF,
    0xD0, 0xEF, 0xAA, 0xFB, 0x43, 0x4D, 0x33, 0x85, 0x45, 0xF9, 0x02, 0x7F, 0x50, 0x3C, 0x9F, 0xA8,
    0x51, 0xA3, 0x40, 0x8F, 0x92, 0x9D, 0x38, 0xF5, 0xBC, 0xB6, 0xDA, 0x21, 0x10, 0xFF, 0xF3, 0xD2,
    0xCD, 0x0C, 0x13, 0xEC, 0x5F, 0x97, 0x44, 0x17, 0xC4, 0xA7, 0x7E, 0x3D, 0x64, 0x5D, 0x19, 0x73,
    0x60, 0x81, 0x4F, 0xDC, 0x22, 0x2A, 0x90, 0x88, 0x46, 0xEE, 0xB8, 0x14, 0xDE, 0x5E, 0x0B, 0xDB,
    0xE0, 0x32, 0x3A, 0x0A, 0x49, 0x06, 0x24, 0x5C, 0xC2, 0xD3, 0xAC, 0x62, 0x91, 0x95, 0xE4, 0x79,
    0xE7, 0xC8, 0x37, 0x6D, 0x8D, 0xD5, 0x4E, 0xA9, 0x6C, 0x56, 0xF4, 0xEA, 0x65, 0x7A, 0xAE, 0x08,
    0xBA, 0x78, 0x25, 0x2E, 0x1C, 0xA6, 0xB4, 0xC6, 0xE8, 0xDD, 0x74, 0x1F, 0x4B, 0xBD, 0x8B, 0x8A,
    0x70, 0x3E, 0xB5, 0x66, 0x48, 0x03, 0xF6, 0x0E, 0x61, 0x35, 0x57, 0xB9, 0x86, 0xC1, 0x1D, 0x9E,
    0xE1, 0xF8, 0x98, 0x11, 0x69, 0xD9, 0x8E, 0x94, 0x9B, 0x1E, 0x87, 0xE9, 0xCE, 0x55, 0x28, 0xDF,
    0x8C, 0xA1, 0x89, 0x0D, 0xBF, 0xE6, 0x42, 0x68, 0x41, 0x99, 0x2D, 0x0F, 0xB0, 0x54, 0xBB, 0x16]"

definition ref_sbox :: "8 word \<Rightarrow> 8 word" where
  "ref_sbox x = AES_SBOX ! unat x"

text \<open>The field: multiplication by the indeterminate, and the product.\<close>

definition ref_xtime :: "8 word \<Rightarrow> 8 word" where
  "ref_xtime x = push_bit 1 x XOR (if bit x 7 then 0x1B else 0)"

definition ref_gmul :: "8 word \<Rightarrow> 8 word \<Rightarrow> 8 word" where
  "ref_gmul a b = fst (fold (\<lambda>i (acc, p). (if bit b i then acc XOR p else acc, ref_xtime p)) [0..<8] (0, a))"

definition ref_affine :: "8 word \<Rightarrow> 8 word" where
  "ref_affine y = y XOR (push_bit 1 y OR drop_bit 7 y) XOR (push_bit 2 y OR drop_bit 6 y) XOR
     (push_bit 3 y OR drop_bit 5 y) XOR (push_bit 4 y OR drop_bit 4 y) XOR 0x63"

definition AES_INVERSE :: "8 word list" where
  "AES_INVERSE = [
    0x00, 0x01, 0x8D, 0xF6, 0xCB, 0x52, 0x7B, 0xD1, 0xE8, 0x4F, 0x29, 0xC0, 0xB0, 0xE1, 0xE5, 0xC7,
    0x74, 0xB4, 0xAA, 0x4B, 0x99, 0x2B, 0x60, 0x5F, 0x58, 0x3F, 0xFD, 0xCC, 0xFF, 0x40, 0xEE, 0xB2,
    0x3A, 0x6E, 0x5A, 0xF1, 0x55, 0x4D, 0xA8, 0xC9, 0xC1, 0x0A, 0x98, 0x15, 0x30, 0x44, 0xA2, 0xC2,
    0x2C, 0x45, 0x92, 0x6C, 0xF3, 0x39, 0x66, 0x42, 0xF2, 0x35, 0x20, 0x6F, 0x77, 0xBB, 0x59, 0x19,
    0x1D, 0xFE, 0x37, 0x67, 0x2D, 0x31, 0xF5, 0x69, 0xA7, 0x64, 0xAB, 0x13, 0x54, 0x25, 0xE9, 0x09,
    0xED, 0x5C, 0x05, 0xCA, 0x4C, 0x24, 0x87, 0xBF, 0x18, 0x3E, 0x22, 0xF0, 0x51, 0xEC, 0x61, 0x17,
    0x16, 0x5E, 0xAF, 0xD3, 0x49, 0xA6, 0x36, 0x43, 0xF4, 0x47, 0x91, 0xDF, 0x33, 0x93, 0x21, 0x3B,
    0x79, 0xB7, 0x97, 0x85, 0x10, 0xB5, 0xBA, 0x3C, 0xB6, 0x70, 0xD0, 0x06, 0xA1, 0xFA, 0x81, 0x82,
    0x83, 0x7E, 0x7F, 0x80, 0x96, 0x73, 0xBE, 0x56, 0x9B, 0x9E, 0x95, 0xD9, 0xF7, 0x02, 0xB9, 0xA4,
    0xDE, 0x6A, 0x32, 0x6D, 0xD8, 0x8A, 0x84, 0x72, 0x2A, 0x14, 0x9F, 0x88, 0xF9, 0xDC, 0x89, 0x9A,
    0xFB, 0x7C, 0x2E, 0xC3, 0x8F, 0xB8, 0x65, 0x48, 0x26, 0xC8, 0x12, 0x4A, 0xCE, 0xE7, 0xD2, 0x62,
    0x0C, 0xE0, 0x1F, 0xEF, 0x11, 0x75, 0x78, 0x71, 0xA5, 0x8E, 0x76, 0x3D, 0xBD, 0xBC, 0x86, 0x57,
    0x0B, 0x28, 0x2F, 0xA3, 0xDA, 0xD4, 0xE4, 0x0F, 0xA9, 0x27, 0x53, 0x04, 0x1B, 0xFC, 0xAC, 0xE6,
    0x7A, 0x07, 0xAE, 0x63, 0xC5, 0xDB, 0xE2, 0xEA, 0x94, 0x8B, 0xC4, 0xD5, 0x9D, 0xF8, 0x90, 0x6B,
    0xB1, 0x0D, 0xD6, 0xEB, 0xC6, 0x0E, 0xCF, 0xAD, 0x08, 0x4E, 0xD7, 0xE3, 0x5D, 0x50, 0x1E, 0xB3,
    0x5B, 0x23, 0x38, 0x34, 0x68, 0x46, 0x03, 0x8C, 0xDD, 0x9C, 0x7D, 0xA0, 0xCD, 0x1A, 0x41, 0x1C]"

definition ref_sub_bytes :: "8 word list \<Rightarrow> 8 word list" where
  "ref_sub_bytes st = map ref_sbox st"

definition ref_shift_rows :: "8 word list \<Rightarrow> 8 word list" where
  "ref_shift_rows st = concat (map (\<lambda>c. map (\<lambda>row. st ! (4 * ((c + row) mod 4) + row)) [0..<4]) [0..<4])"

definition ref_mix_column :: "8 word \<Rightarrow> 8 word \<Rightarrow> 8 word \<Rightarrow> 8 word \<Rightarrow> 8 word list" where
  "ref_mix_column a b c d =
     [ref_gmul a 2 XOR ref_gmul b 3 XOR c XOR d, a XOR ref_gmul b 2 XOR ref_gmul c 3 XOR d,
      a XOR b XOR ref_gmul c 2 XOR ref_gmul d 3, ref_gmul a 3 XOR b XOR c XOR ref_gmul d 2]"

definition ref_mix_columns :: "8 word list \<Rightarrow> 8 word list" where
  "ref_mix_columns st =
     concat (map (\<lambda>c. ref_mix_column (st ! (4 * c)) (st ! (4 * c + 1)) (st ! (4 * c + 2)) (st ! (4 * c + 3))) [0..<4])"

definition ref_xor :: "8 word list \<Rightarrow> 8 word list \<Rightarrow> 8 word list" where
  "ref_xor xs ys = map2 (XOR) xs ys"

text \<open>Key expansion: the round constant is a power of the indeterminate.\<close>

definition ref_next_key :: "nat \<Rightarrow> 8 word list \<Rightarrow> 8 word list" where
  "ref_next_key r k =
     (let w = (\<lambda>i. take 4 (drop (4 * i) k));
          temp = ref_xor (map ref_sbox (rotate1 (w 3))) [(ref_xtime ^^ (r - 1)) 1, 0, 0, 0];
          w0 = ref_xor (w 0) temp; w1 = ref_xor w0 (w 1); w2 = ref_xor w1 (w 2); w3 = ref_xor w2 (w 3) in
      w0 @ w1 @ w2 @ w3)"

primrec ref_round_key :: "8 word list \<Rightarrow> nat \<Rightarrow> 8 word list" where
  "ref_round_key key 0 = key"
| "ref_round_key key (Suc r) = ref_next_key (Suc r) (ref_round_key key r)"

definition AES128 :: "8 word list \<Rightarrow> 8 word list \<Rightarrow> 8 word list" where
  "AES128 key m =
     fold (\<lambda>r st.
        let st = ref_shift_rows (ref_sub_bytes st) in
        ref_xor (if r \<noteq> 10 then ref_mix_columns st else st) (ref_round_key key r))
       [1..<11] (ref_xor m (ref_round_key key 0))"

text \<open>Counter mode with a 64-bit big-endian counter in the last eight bytes.\<close>

definition ref_counter :: "8 word list \<Rightarrow> 64 word \<Rightarrow> 8 word list" where
  "ref_counter iv n = take 8 iv @ be_bytes (be_word (drop 8 iv) + n)"

definition AES128_CTR :: "8 word list \<Rightarrow> 8 word list \<Rightarrow> 64 word \<Rightarrow> bool list \<Rightarrow> bool list" where
  "AES128_CTR key iv start m =
     map2 (\<noteq>) m (concat (map (\<lambda>i. concat (map wb (AES128 key (ref_counter iv (start + of_nat i)))))
       [0..<(length m + 127) div 128]))"

section \<open>Laws\<close>

text \<open>The table is the affine image of inversion.\<close>

definition sbox_entry :: "nat \<Rightarrow> 8 word \<Rightarrow> 8 word \<Rightarrow> bool" where
  "sbox_entry n s i \<longleftrightarrow> s = ref_affine i \<and> (if n = 0 then i = 0 else ref_gmul (of_nat n) i = 1)"

lemma sbox_entries: "list_all (\<lambda>(n, s, i). sbox_entry n s i) (zip [0..<256] (zip AES_SBOX AES_INVERSE))"
proof -
  have "list_all (\<lambda>(n, s, i). sbox_entry n s i) (zip [0..<256] (zip AES_SBOX AES_INVERSE))"
    unfolding AES_SBOX_def AES_INVERSE_def
    apply (simp add: upt_rec)
    apply (intro conjI)
    apply (simp_all only: sbox_entry_def ref_affine_def ref_gmul_def ref_xtime_def)
    apply (simp_all add: upt_rec)
    done
  then show ?thesis .
qed

lemma ref_sbox_affine_inverse:
  "\<exists>y. ref_sbox x = ref_affine y \<and> (if x = 0 then y = 0 else ref_gmul x y = 1)"
proof -
  let ?n = "unat x"
  have n: "?n < 256" using unsigned_less [where 'a = nat, of x] by simp
  have len: "length AES_SBOX = 256" "length AES_INVERSE = 256" by (simp_all add: AES_SBOX_def AES_INVERSE_def)
  from sbox_entries n len have "sbox_entry ?n (AES_SBOX ! ?n) (AES_INVERSE ! ?n)"
    by (auto simp: list_all_length dest!: spec [of _ ?n])
  then show ?thesis unfolding sbox_entry_def ref_sbox_def
    by (intro exI [of _ "AES_INVERSE ! ?n"], cases "x = 0") (simp_all add: unat_eq_0)
qed

lemma bit_ref_xtime: "bit (ref_xtime x) i \<longleftrightarrow> (0 < i \<and> i < 8 \<and> bit x (i - 1)) \<noteq> (bit x 7 \<and> bit (0x1B :: 8 word) i)"
  unfolding ref_xtime_def bit_xor_iff bit_push_bit_iff by (auto simp: bit_imp_le_length)

lemma ref_gmul_small: "ref_gmul a 2 = ref_xtime a" "ref_gmul a 3 = a XOR ref_xtime a"
  by (simp_all add: ref_gmul_def upt_rec)

lemma four: "[0..<4] = [0, 1, 2, 3]"
  by (simp add: upt_rec)

lemma ref_xtime_xor: "ref_xtime (x XOR y) = ref_xtime x XOR ref_xtime y"
  by (rule bit_word_eqI) (auto simp: bit_ref_xtime bit_xor_iff)

lemma xor_left_self: "x XOR (x XOR y) = y" for x y :: "'a::len word"
  by (simp flip: xor.assoc)

lemmas xor_ac = xor.assoc xor.commute xor.left_commute xor_left_self

lemma length_ref_steps [simp]:
  "length (ref_sub_bytes st) = length st" "length (ref_shift_rows st) = 16" "length (ref_mix_columns st) = 16"
  "length (ref_xor xs ys) = min (length xs) (length ys)" "length (ref_mix_column a b c d) = 4"
  by (simp_all add: ref_sub_bytes_def ref_shift_rows_def ref_mix_columns_def ref_mix_column_def ref_xor_def four)

lemma length_ref_next_key: "length k = 16 \<Longrightarrow> length (ref_next_key r k) = 16"
  by (simp add: ref_next_key_def Let_def)

lemma length_ref_round_key [simp]: "length key = 16 \<Longrightarrow> length (ref_round_key key r) = 16"
  by (induction r) (simp_all add: length_ref_next_key)

text \<open>The example of FIPS 197, appendix C.1: round keys, states after each round, and the ciphertext.\<close>

lemma ref_round_key_numeral: "ref_round_key key (numeral n) = ref_next_key (numeral n) (ref_round_key key (pred_numeral n))"
  by (simp add: numeral_eq_Suc)

lemma ref_xtime_power: "(ref_xtime ^^ numeral n) x = (ref_xtime ^^ pred_numeral n) (ref_xtime x)"
  by (simp add: numeral_eq_Suc funpow_swap1)

lemma example_round_keys:
  "ref_next_key 1
    [0x00, 0x01, 0x02, 0x03, 0x04, 0x05, 0x06, 0x07, 0x08, 0x09, 0x0A, 0x0B, 0x0C, 0x0D, 0x0E, 0x0F] =
    [0xD6, 0xAA, 0x74, 0xFD, 0xD2, 0xAF, 0x72, 0xFA, 0xDA, 0xA6, 0x78, 0xF1, 0xD6, 0xAB, 0x76, 0xFE]"
  "ref_next_key 2
    [0xD6, 0xAA, 0x74, 0xFD, 0xD2, 0xAF, 0x72, 0xFA, 0xDA, 0xA6, 0x78, 0xF1, 0xD6, 0xAB, 0x76, 0xFE] =
    [0xB6, 0x92, 0xCF, 0x0B, 0x64, 0x3D, 0xBD, 0xF1, 0xBE, 0x9B, 0xC5, 0x00, 0x68, 0x30, 0xB3, 0xFE]"
  "ref_next_key 3
    [0xB6, 0x92, 0xCF, 0x0B, 0x64, 0x3D, 0xBD, 0xF1, 0xBE, 0x9B, 0xC5, 0x00, 0x68, 0x30, 0xB3, 0xFE] =
    [0xB6, 0xFF, 0x74, 0x4E, 0xD2, 0xC2, 0xC9, 0xBF, 0x6C, 0x59, 0x0C, 0xBF, 0x04, 0x69, 0xBF, 0x41]"
  "ref_next_key 4
    [0xB6, 0xFF, 0x74, 0x4E, 0xD2, 0xC2, 0xC9, 0xBF, 0x6C, 0x59, 0x0C, 0xBF, 0x04, 0x69, 0xBF, 0x41] =
    [0x47, 0xF7, 0xF7, 0xBC, 0x95, 0x35, 0x3E, 0x03, 0xF9, 0x6C, 0x32, 0xBC, 0xFD, 0x05, 0x8D, 0xFD]"
  "ref_next_key 5
    [0x47, 0xF7, 0xF7, 0xBC, 0x95, 0x35, 0x3E, 0x03, 0xF9, 0x6C, 0x32, 0xBC, 0xFD, 0x05, 0x8D, 0xFD] =
    [0x3C, 0xAA, 0xA3, 0xE8, 0xA9, 0x9F, 0x9D, 0xEB, 0x50, 0xF3, 0xAF, 0x57, 0xAD, 0xF6, 0x22, 0xAA]"
  "ref_next_key 6
    [0x3C, 0xAA, 0xA3, 0xE8, 0xA9, 0x9F, 0x9D, 0xEB, 0x50, 0xF3, 0xAF, 0x57, 0xAD, 0xF6, 0x22, 0xAA] =
    [0x5E, 0x39, 0x0F, 0x7D, 0xF7, 0xA6, 0x92, 0x96, 0xA7, 0x55, 0x3D, 0xC1, 0x0A, 0xA3, 0x1F, 0x6B]"
  "ref_next_key 7
    [0x5E, 0x39, 0x0F, 0x7D, 0xF7, 0xA6, 0x92, 0x96, 0xA7, 0x55, 0x3D, 0xC1, 0x0A, 0xA3, 0x1F, 0x6B] =
    [0x14, 0xF9, 0x70, 0x1A, 0xE3, 0x5F, 0xE2, 0x8C, 0x44, 0x0A, 0xDF, 0x4D, 0x4E, 0xA9, 0xC0, 0x26]"
  "ref_next_key 8
    [0x14, 0xF9, 0x70, 0x1A, 0xE3, 0x5F, 0xE2, 0x8C, 0x44, 0x0A, 0xDF, 0x4D, 0x4E, 0xA9, 0xC0, 0x26] =
    [0x47, 0x43, 0x87, 0x35, 0xA4, 0x1C, 0x65, 0xB9, 0xE0, 0x16, 0xBA, 0xF4, 0xAE, 0xBF, 0x7A, 0xD2]"
  "ref_next_key 9
    [0x47, 0x43, 0x87, 0x35, 0xA4, 0x1C, 0x65, 0xB9, 0xE0, 0x16, 0xBA, 0xF4, 0xAE, 0xBF, 0x7A, 0xD2] =
    [0x54, 0x99, 0x32, 0xD1, 0xF0, 0x85, 0x57, 0x68, 0x10, 0x93, 0xED, 0x9C, 0xBE, 0x2C, 0x97, 0x4E]"
  "ref_next_key 10
    [0x54, 0x99, 0x32, 0xD1, 0xF0, 0x85, 0x57, 0x68, 0x10, 0x93, 0xED, 0x9C, 0xBE, 0x2C, 0x97, 0x4E] =
    [0x13, 0x11, 0x1D, 0x7F, 0xE3, 0x94, 0x4A, 0x17, 0xF3, 0x07, 0xA7, 0x8B, 0x4D, 0x2B, 0x30, 0xC5]"
  by (simp_all add: ref_next_key_def Let_def ref_xor_def ref_sbox_def AES_SBOX_def ref_xtime_def ref_xtime_power)

lemma example_first:
  "ref_xor [0x00, 0x11, 0x22, 0x33, 0x44, 0x55, 0x66, 0x77, 0x88, 0x99, 0xAA, 0xBB, 0xCC, 0xDD, 0xEE, 0xFF]
    [0x00, 0x01, 0x02, 0x03, 0x04, 0x05, 0x06, 0x07, 0x08, 0x09, 0x0A, 0x0B, 0x0C, 0x0D, 0x0E, 0x0F] =
    [0x00, 0x10, 0x20, 0x30, 0x40, 0x50, 0x60, 0x70, 0x80, 0x90, 0xA0, 0xB0, 0xC0, 0xD0, 0xE0, 0xF0]"
  by (simp add: ref_xor_def)

lemma example_rounds:
  "ref_xor (ref_mix_columns (ref_shift_rows (ref_sub_bytes
    [0x00, 0x10, 0x20, 0x30, 0x40, 0x50, 0x60, 0x70, 0x80, 0x90, 0xA0, 0xB0, 0xC0, 0xD0, 0xE0, 0xF0])))
    [0xD6, 0xAA, 0x74, 0xFD, 0xD2, 0xAF, 0x72, 0xFA, 0xDA, 0xA6, 0x78, 0xF1, 0xD6, 0xAB, 0x76, 0xFE] =
    [0x89, 0xD8, 0x10, 0xE8, 0x85, 0x5A, 0xCE, 0x68, 0x2D, 0x18, 0x43, 0xD8, 0xCB, 0x12, 0x8F, 0xE4]"
  "ref_xor (ref_mix_columns (ref_shift_rows (ref_sub_bytes
    [0x89, 0xD8, 0x10, 0xE8, 0x85, 0x5A, 0xCE, 0x68, 0x2D, 0x18, 0x43, 0xD8, 0xCB, 0x12, 0x8F, 0xE4])))
    [0xB6, 0x92, 0xCF, 0x0B, 0x64, 0x3D, 0xBD, 0xF1, 0xBE, 0x9B, 0xC5, 0x00, 0x68, 0x30, 0xB3, 0xFE] =
    [0x49, 0x15, 0x59, 0x8F, 0x55, 0xE5, 0xD7, 0xA0, 0xDA, 0xCA, 0x94, 0xFA, 0x1F, 0x0A, 0x63, 0xF7]"
  "ref_xor (ref_mix_columns (ref_shift_rows (ref_sub_bytes
    [0x49, 0x15, 0x59, 0x8F, 0x55, 0xE5, 0xD7, 0xA0, 0xDA, 0xCA, 0x94, 0xFA, 0x1F, 0x0A, 0x63, 0xF7])))
    [0xB6, 0xFF, 0x74, 0x4E, 0xD2, 0xC2, 0xC9, 0xBF, 0x6C, 0x59, 0x0C, 0xBF, 0x04, 0x69, 0xBF, 0x41] =
    [0xFA, 0x63, 0x6A, 0x28, 0x25, 0xB3, 0x39, 0xC9, 0x40, 0x66, 0x8A, 0x31, 0x57, 0x24, 0x4D, 0x17]"
  "ref_xor (ref_mix_columns (ref_shift_rows (ref_sub_bytes
    [0xFA, 0x63, 0x6A, 0x28, 0x25, 0xB3, 0x39, 0xC9, 0x40, 0x66, 0x8A, 0x31, 0x57, 0x24, 0x4D, 0x17])))
    [0x47, 0xF7, 0xF7, 0xBC, 0x95, 0x35, 0x3E, 0x03, 0xF9, 0x6C, 0x32, 0xBC, 0xFD, 0x05, 0x8D, 0xFD] =
    [0x24, 0x72, 0x40, 0x23, 0x69, 0x66, 0xB3, 0xFA, 0x6E, 0xD2, 0x75, 0x32, 0x88, 0x42, 0x5B, 0x6C]"
  "ref_xor (ref_mix_columns (ref_shift_rows (ref_sub_bytes
    [0x24, 0x72, 0x40, 0x23, 0x69, 0x66, 0xB3, 0xFA, 0x6E, 0xD2, 0x75, 0x32, 0x88, 0x42, 0x5B, 0x6C])))
    [0x3C, 0xAA, 0xA3, 0xE8, 0xA9, 0x9F, 0x9D, 0xEB, 0x50, 0xF3, 0xAF, 0x57, 0xAD, 0xF6, 0x22, 0xAA] =
    [0xC8, 0x16, 0x77, 0xBC, 0x9B, 0x7A, 0xC9, 0x3B, 0x25, 0x02, 0x79, 0x92, 0xB0, 0x26, 0x19, 0x96]"
  "ref_xor (ref_mix_columns (ref_shift_rows (ref_sub_bytes
    [0xC8, 0x16, 0x77, 0xBC, 0x9B, 0x7A, 0xC9, 0x3B, 0x25, 0x02, 0x79, 0x92, 0xB0, 0x26, 0x19, 0x96])))
    [0x5E, 0x39, 0x0F, 0x7D, 0xF7, 0xA6, 0x92, 0x96, 0xA7, 0x55, 0x3D, 0xC1, 0x0A, 0xA3, 0x1F, 0x6B] =
    [0xC6, 0x2F, 0xE1, 0x09, 0xF7, 0x5E, 0xED, 0xC3, 0xCC, 0x79, 0x39, 0x5D, 0x84, 0xF9, 0xCF, 0x5D]"
  "ref_xor (ref_mix_columns (ref_shift_rows (ref_sub_bytes
    [0xC6, 0x2F, 0xE1, 0x09, 0xF7, 0x5E, 0xED, 0xC3, 0xCC, 0x79, 0x39, 0x5D, 0x84, 0xF9, 0xCF, 0x5D])))
    [0x14, 0xF9, 0x70, 0x1A, 0xE3, 0x5F, 0xE2, 0x8C, 0x44, 0x0A, 0xDF, 0x4D, 0x4E, 0xA9, 0xC0, 0x26] =
    [0xD1, 0x87, 0x6C, 0x0F, 0x79, 0xC4, 0x30, 0x0A, 0xB4, 0x55, 0x94, 0xAD, 0xD6, 0x6F, 0xF4, 0x1F]"
  "ref_xor (ref_mix_columns (ref_shift_rows (ref_sub_bytes
    [0xD1, 0x87, 0x6C, 0x0F, 0x79, 0xC4, 0x30, 0x0A, 0xB4, 0x55, 0x94, 0xAD, 0xD6, 0x6F, 0xF4, 0x1F])))
    [0x47, 0x43, 0x87, 0x35, 0xA4, 0x1C, 0x65, 0xB9, 0xE0, 0x16, 0xBA, 0xF4, 0xAE, 0xBF, 0x7A, 0xD2] =
    [0xFD, 0xE3, 0xBA, 0xD2, 0x05, 0xE5, 0xD0, 0xD7, 0x35, 0x47, 0x96, 0x4E, 0xF1, 0xFE, 0x37, 0xF1]"
  "ref_xor (ref_mix_columns (ref_shift_rows (ref_sub_bytes
    [0xFD, 0xE3, 0xBA, 0xD2, 0x05, 0xE5, 0xD0, 0xD7, 0x35, 0x47, 0x96, 0x4E, 0xF1, 0xFE, 0x37, 0xF1])))
    [0x54, 0x99, 0x32, 0xD1, 0xF0, 0x85, 0x57, 0x68, 0x10, 0x93, 0xED, 0x9C, 0xBE, 0x2C, 0x97, 0x4E] =
    [0xBD, 0x6E, 0x7C, 0x3D, 0xF2, 0xB5, 0x77, 0x9E, 0x0B, 0x61, 0x21, 0x6E, 0x8B, 0x10, 0xB6, 0x89]"
  "ref_xor (ref_shift_rows (ref_sub_bytes
    [0xBD, 0x6E, 0x7C, 0x3D, 0xF2, 0xB5, 0x77, 0x9E, 0x0B, 0x61, 0x21, 0x6E, 0x8B, 0x10, 0xB6, 0x89]))
    [0x13, 0x11, 0x1D, 0x7F, 0xE3, 0x94, 0x4A, 0x17, 0xF3, 0x07, 0xA7, 0x8B, 0x4D, 0x2B, 0x30, 0xC5] =
    [0x69, 0xC4, 0xE0, 0xD8, 0x6A, 0x7B, 0x04, 0x30, 0xD8, 0xCD, 0xB7, 0x80, 0x70, 0xB4, 0xC5, 0x5A]"
  by (simp_all add: ref_xor_def ref_sbox_def AES_SBOX_def ref_sub_bytes_def ref_shift_rows_def ref_mix_columns_def
      ref_mix_column_def ref_gmul_small ref_xtime_def four)

lemma AES128_example:
  "AES128 [0x00, 0x01, 0x02, 0x03, 0x04, 0x05, 0x06, 0x07, 0x08, 0x09, 0x0A, 0x0B, 0x0C, 0x0D, 0x0E, 0x0F]
     [0x00, 0x11, 0x22, 0x33, 0x44, 0x55, 0x66, 0x77, 0x88, 0x99, 0xAA, 0xBB, 0xCC, 0xDD, 0xEE, 0xFF] =
   [0x69, 0xC4, 0xE0, 0xD8, 0x6A, 0x7B, 0x04, 0x30, 0xD8, 0xCD, 0xB7, 0x80, 0x70, 0xB4, 0xC5, 0x5A]"
proof -
  have "[1..<11] = [1, 2, 3, 4, 5, 6, 7, 8, 9, 10]" by (simp add: upt_rec)
  then show ?thesis
    by (simp add: AES128_def ref_round_key_numeral example_round_keys [simplified] example_rounds [simplified] example_first [simplified])
qed

end
