(* ===== verification/Aes_Tiles.thy ===== *)
theory Aes_Tiles
  imports Block Fips197
begin

text \<open>
  \<open>runtime/crypto/aes.hpp\<close> and the AES lanes of \<open>runtime/core/simd_tier.h\<close>: the tile kernels and tile ladders of the
  runtime's batched AES-128 (key schedule and public functions: \<open>Aes_Kernels\<close>). A vector register of \<open>N\<close> blocks is the list of its blocks; \<open>AesLane1\<close>, \<open>AesLane2\<close>, \<open>AesLane4\<close> and the
  NEON lane are records of the lane's operations, written with the documented meaning of their
  intrinsics. The compiled tiers are the record \<open>tier\<close>, so that every statement is about every build.

  The destination buffer is the state of the computation. The source is another buffer or, for the
  in-place form, the destination itself (\<open>None\<close>), so that the order of loads and stores is that of the code.

  The locale \<open>aes_lane\<close> is what the kernels need of a lane: each operation works block by block. Every lane
  interprets it. A tile then writes \<open>\<phi> i (src ! i)\<close> at each position of its range and nothing else
  (\<open>writes\<close>), whatever the tier, and the tile ladders only cut a range into pieces: the locale \<open>mem_tile\<close> is the
  contract of a tile, the ladders are proved in it once, and each of the five tiles interprets it.
\<close>

section \<open>Intrinsics on blocks\<close>

definition block_of :: "bytes \<Rightarrow> block" where
  "block_of bs = bw (bufbits bs)"

definition aesenc_si128 :: "block \<Rightarrow> block \<Rightarrow> block" where
  "aesenc_si128 s k = block_of (ref_mix_columns (ref_shift_rows (ref_sub_bytes (le_bytes s)))) XOR k"

definition aesenclast_si128 :: "block \<Rightarrow> block \<Rightarrow> block" where
  "aesenclast_si128 s k = block_of (ref_shift_rows (ref_sub_bytes (le_bytes s))) XOR k"

text \<open>NEON: AESE adds the key before the round, AESMC mixes the columns.\<close>

definition vaeseq_u8 :: "block \<Rightarrow> block \<Rightarrow> block" where
  "vaeseq_u8 s k = block_of (ref_shift_rows (ref_sub_bytes (le_bytes (s XOR k))))"

definition vaesmcq_u8 :: "block \<Rightarrow> block" where
  "vaesmcq_u8 s = block_of (ref_mix_columns (le_bytes s))"

definition add_epi64 :: "block \<Rightarrow> block \<Rightarrow> block" where
  "add_epi64 a b = makeBlock (ucast (drop_bit 64 a) + ucast (drop_bit 64 b)) (ucast a + ucast b)"

definition shuffle_bytes :: "block \<Rightarrow> block \<Rightarrow> block" where
  "shuffle_bytes v idx = block_of (shuffle_epi8 (le_bytes v) (le_bytes idx))"

definition slli_epi64 :: "block \<Rightarrow> nat \<Rightarrow> block" where
  "slli_epi64 a n = makeBlock (push_bit n (ucast (drop_bit 64 a))) (push_bit n (ucast a))"

definition set_epi32 :: "32 word \<Rightarrow> 32 word \<Rightarrow> 32 word \<Rightarrow> 32 word \<Rightarrow> block" where
  "set_epi32 e3 e2 e1 e0 = block_of (le_bytes e0 @ le_bytes e1 @ le_bytes e2 @ le_bytes e3)"

definition slli_epi32 :: "block \<Rightarrow> nat \<Rightarrow> block" where
  "slli_epi32 a n =
     block_of (concat (map (\<lambda>k. le_bytes (push_bit n (bw (take 32 (drop (32 * k) (wb a))) :: 32 word))) [0..<4]))"

section \<open>Lanes\<close>

type_synonym vec = "block list"

record AesLane =
  lane_n :: nat
  broadcast :: "block \<Rightarrow> vec"
  xorv :: "vec \<Rightarrow> vec \<Rightarrow> vec"
  aesenc :: "vec \<Rightarrow> vec \<Rightarrow> vec"
  aesenclast :: "vec \<Rightarrow> vec \<Rightarrow> vec"
  ctr_xor_tweak :: "64 word \<Rightarrow> nat \<Rightarrow> vec \<Rightarrow> vec"
  lane_sigma :: "vec \<Rightarrow> vec"
  add64 :: "vec \<Rightarrow> vec \<Rightarrow> vec"
  lane_offsets :: "nat \<Rightarrow> nat \<Rightarrow> vec"

definition AesLane1 :: AesLane where
  "AesLane1 =
     \<lparr>lane_n = 1, broadcast = (\<lambda>k. [k]), xorv = map2 (XOR), aesenc = map2 aesenc_si128, aesenclast = map2 aesenclast_si128,
      ctr_xor_tweak = (\<lambda>b0 slot. map2 (XOR) [makeBlock 0 (b0 + of_nat slot)]),
      lane_sigma = map (\<lambda>a. shuffle_epi32 a 78 XOR (a AND makeBlock 0xFFFFFFFFFFFFFFFF 0)),
      add64 = map2 add_epi64,
      lane_offsets = (\<lambda>span b0. [makeBlock (of_nat (b0 div span)) 0])\<rparr>"

definition AesLane2 :: AesLane where
  "AesLane2 =
     \<lparr>lane_n = 2, broadcast = (\<lambda>k. [k, k]), xorv = map2 (XOR), aesenc = map2 aesenc_si128, aesenclast = map2 aesenclast_si128,
      ctr_xor_tweak = (\<lambda>b0 slot. map2 (XOR) [makeBlock 0 (b0 + 2 * of_nat slot), makeBlock 0 (b0 + 2 * of_nat slot + 1)]),
      lane_sigma = (\<lambda>a. map2 (XOR) (map (\<lambda>x. shuffle_epi32 x 78) a)
        (map2 (AND) a [makeBlock 0xFFFFFFFFFFFFFFFF 0, makeBlock 0xFFFFFFFFFFFFFFFF 0])),
      add64 = map2 add_epi64,
      lane_offsets = (\<lambda>span b0. [makeBlock (of_nat (b0 div span)) 0, makeBlock (of_nat ((b0 + 1) div span)) 0])\<rparr>"

definition AesLane4 :: AesLane where
  "AesLane4 =
     \<lparr>lane_n = 4, broadcast = (\<lambda>k. [k, k, k, k]), xorv = map2 (XOR), aesenc = map2 aesenc_si128, aesenclast = map2 aesenclast_si128,
      ctr_xor_tweak = (\<lambda>b0 slot. map2 (XOR)
        [makeBlock 0 (b0 + 4 * of_nat slot), makeBlock 0 (b0 + 4 * of_nat slot + 1),
         makeBlock 0 (b0 + 4 * of_nat slot + 2), makeBlock 0 (b0 + 4 * of_nat slot + 3)]),
      lane_sigma = (\<lambda>a. map2 (XOR) (map (\<lambda>x. shuffle_epi32 x 78) a)
        (map2 (AND) a (replicate 4 (makeBlock 0xFFFFFFFFFFFFFFFF 0)))),
      add64 = map2 add_epi64,
      lane_offsets = (\<lambda>span b0.
        [makeBlock (of_nat (b0 div span)) 0, makeBlock (of_nat ((b0 + 1) div span)) 0,
         makeBlock (of_nat ((b0 + 2) div span)) 0, makeBlock (of_nat ((b0 + 3) div span)) 0])\<rparr>"

definition AesLaneNeon :: AesLane where
  "AesLaneNeon =
     \<lparr>lane_n = 1, broadcast = (\<lambda>k. [k]), xorv = map2 (XOR),
      aesenc = map2 (\<lambda>s k. vaesmcq_u8 (vaeseq_u8 s 0) XOR k), aesenclast = map2 (\<lambda>s k. vaeseq_u8 s 0 XOR k),
      ctr_xor_tweak = (\<lambda>b0 slot. map2 (XOR) [makeBlock 0 (b0 + of_nat slot)]),
      lane_sigma = map (\<lambda>a. shuffle_epi32 a 78 XOR (a AND makeBlock 0xFFFFFFFFFFFFFFFF 0)),
      add64 = map2 add_epi64,
      lane_offsets = (\<lambda>span b0. [makeBlock (of_nat (b0 div span)) 0])\<rparr>"

text \<open>The build: which tiers are compiled in. VAES implies x86, where the NEON lane does not exist.\<close>

record tier =
  vaes512 :: bool
  vaes256 :: bool
  aarch64 :: bool

definition lane1 :: "tier \<Rightarrow> AesLane" where
  "lane1 T = (if aarch64 T then AesLaneNeon else AesLane1)"

section \<open>Tiles\<close>

text \<open>An \<open>AES_KEY\<close> is its eleven round keys. \<open>lane_load\<close> and \<open>lane_store\<close> move \<open>N\<close> consecutive blocks.\<close>

type_synonym AES_KEY = "block list"

definition lane_load :: "AesLane \<Rightarrow> block list option \<Rightarrow> nat \<Rightarrow> (block list, vec) gm" where
  "lane_load L src p = (\<lambda>mem.
     let buf = (case src of None \<Rightarrow> mem | Some b \<Rightarrow> b) in
     if p + lane_n L \<le> length buf then Inr (take (lane_n L) (drop p buf), mem) else Inl UndefinedBehaviour)"

definition lane_store :: "nat \<Rightarrow> vec \<Rightarrow> (block list, unit) gm" where
  "lane_store p v = (\<lambda>mem. if p + length v \<le> length mem then Inr ((), take p mem @ v @ drop (p + length v) mem)
                      else Inl UndefinedBehaviour)"

text \<open>One tile on the serial path, in the order of the NEON instructions on \<open>aarch64\<close>.\<close>

definition aes_one :: "tier \<Rightarrow> AesLane \<Rightarrow> vec list \<Rightarrow> vec \<Rightarrow> vec" where
  "aes_one T L rk pt =
     (if aarch64 T \<and> lane_n L = 1 then
        let x = fold (\<lambda>r x. map2 (\<lambda>b k. vaesmcq_u8 (vaeseq_u8 b k)) x (rk ! r)) [0..<9] pt;
            x = map2 vaeseq_u8 x (rk ! 9) in
        map2 (XOR) x (rk ! 10)
      else
        let x = xorv L pt (rk ! 0);
            x = fold (\<lambda>r x. aesenc L x (rk ! r)) [1..<10] x in
        aesenclast L x (rk ! 10))"

definition aes_tiles_src ::
  "tier \<Rightarrow> AesLane \<Rightarrow> nat \<Rightarrow> (nat \<Rightarrow> (block list, vec) gm) \<Rightarrow> (nat \<Rightarrow> vec \<Rightarrow> vec \<Rightarrow> (block list, unit) gm) \<Rightarrow> AES_KEY \<Rightarrow>
   (block list, unit) gm" where
  "aes_tiles_src T L n_tiles src st kk =
     (if n_tiles = 0 then ret ()
      else bind (map_gm (\<lambda>r. bind (rd kk r) (\<lambda>k. ret (broadcast L k))) [0..<11]) (\<lambda>rk.
        if vaes512 T \<and> lane_n L = 4 \<and> 1 < n_tiles \<and> n_tiles \<le> 4 then
          bind (map_gm src [0..<n_tiles]) (\<lambda>pt.
          let x = map (\<lambda>p. xorv L p (rk ! 0)) pt;
              x = fold (\<lambda>r x. map (\<lambda>v. aesenc L v (rk ! r)) x) [1..<10] x in
          fold_gm (\<lambda>t u. st t (aesenclast L (x ! t) (rk ! 10)) (pt ! t)) [0..<n_tiles] ())
        else
          fold_gm (\<lambda>t u. bind (src t) (\<lambda>pt. st t (aes_one T L rk pt) pt)) [0..<n_tiles] ()))"

text \<open>The plain-store overload and its memory-source forms.\<close>

definition aes_tiles_to :: "tier \<Rightarrow> AesLane \<Rightarrow> nat \<Rightarrow> nat \<Rightarrow> (nat \<Rightarrow> (block list, vec) gm) \<Rightarrow> AES_KEY \<Rightarrow> (block list, unit) gm" where
  "aes_tiles_to T L n pd src kk = aes_tiles_src T L n src (\<lambda>t x pt. lane_store (pd + t * lane_n L) x) kk"

definition aes_tiles :: "tier \<Rightarrow> AesLane \<Rightarrow> nat \<Rightarrow> nat \<Rightarrow> block list option \<Rightarrow> nat \<Rightarrow> AES_KEY \<Rightarrow> (block list, unit) gm" where
  "aes_tiles T L n pd src ps kk = aes_tiles_to T L n pd (\<lambda>t. lane_load L src (ps + t * lane_n L)) kk"

definition aes_tiles_xor_input :: "tier \<Rightarrow> AesLane \<Rightarrow> nat \<Rightarrow> nat \<Rightarrow> block list option \<Rightarrow> nat \<Rightarrow> AES_KEY \<Rightarrow> (block list, unit) gm" where
  "aes_tiles_xor_input T L n pd src ps kk =
     aes_tiles_src T L n (\<lambda>t. lane_load L src (ps + t * lane_n L)) (\<lambda>t x pt. lane_store (pd + t * lane_n L) (xorv L x pt)) kk"

text \<open>
  The memory tiles. A tile of lane \<open>L\<close> reads at \<open>ps\<close> and writes at \<open>pd\<close>; \<open>off\<close> is the index of its first block
  in the key's run and \<open>tb\<close> the key's base tweak (used by the tweaked tiles only).
\<close>

type_synonym mem_tile =
  "tier \<Rightarrow> AesLane \<Rightarrow> nat \<Rightarrow> nat \<Rightarrow> block list option \<Rightarrow> nat \<Rightarrow> AES_KEY \<Rightarrow> nat \<Rightarrow> block \<Rightarrow> (block list, unit) gm"

definition AesMemPlainTile :: mem_tile where
  "AesMemPlainTile T L n pd src ps kk off tb =
     aes_tiles T L n pd src ps kk"

definition AesMemXorInputTile :: mem_tile where
  "AesMemXorInputTile T L n pd src ps kk off tb =
     aes_tiles_xor_input T L n pd src ps kk"

definition AesMemXorSigmaTile :: mem_tile where
  "AesMemXorSigmaTile T L n pd src ps kk off tb =
     aes_tiles_src T L n (\<lambda>t. bind (lane_load L src (ps + t * lane_n L)) (\<lambda>v. ret (lane_sigma L v)))
       (\<lambda>t x pt. lane_store (pd + t * lane_n L) (xorv L x pt)) kk"

definition AesMemXorInputTweakTile :: "nat \<Rightarrow> mem_tile" where
  "AesMemXorInputTweakTile span T L n pd src ps kk off tb =
     (let base = broadcast L tb in
      aes_tiles_src T L n
        (\<lambda>t. bind (lane_load L src (ps + t * lane_n L)) (\<lambda>v.
               ret (xorv L v (add64 L base (lane_offsets L span (off + t * lane_n L))))))
        (\<lambda>t x pt. lane_store (pd + t * lane_n L) (xorv L x pt)) kk)"

definition AesMemXorSigmaTweakTile :: "nat \<Rightarrow> mem_tile" where
  "AesMemXorSigmaTweakTile span T L n pd src ps kk off tb =
     (let base = broadcast L tb in
      aes_tiles_src T L n
        (\<lambda>t. bind (lane_load L src (ps + t * lane_n L)) (\<lambda>v.
               ret (xorv L (lane_sigma L v) (add64 L base (lane_offsets L span (off + t * lane_n L))))))
        (\<lambda>t x pt. lane_store (pd + t * lane_n L) (xorv L x pt)) kk)"

fun apply_grouped :: "mem_tile \<Rightarrow> mem_tile" where
  "apply_grouped tile T L n pd src ps kk off tb =
     (if 4 < n then
        bind (tile T L 4 pd src ps kk off tb) (\<lambda>_.
          apply_grouped tile T L (n - 4) (pd + 4 * lane_n L) src (ps + 4 * lane_n L) kk (off + 4 * lane_n L) tb)
      else if 0 < n then tile T L n pd src ps kk off tb
      else ret ())"

declare apply_grouped.simps [simp del]

definition ParaEnc_mem_tiles_impl ::
  "mem_tile \<Rightarrow> tier \<Rightarrow> nat \<Rightarrow> nat \<Rightarrow> nat \<Rightarrow> block list option \<Rightarrow> nat \<Rightarrow> AES_KEY list \<Rightarrow> block list option \<Rightarrow> (block list, unit) gm" where
  "ParaEnc_mem_tiles_impl tile T numKeys numEncs dst src ps0 keys aux =
     (let N4 = (if vaes512 T then numEncs div 4 else 0); W4 = (if vaes512 T then 4 else 0);
          N2 = (if vaes256 T then (numEncs - N4 * W4) div 2 else 0); W2 = (if vaes256 T then 2 else 0);
          N1 = numEncs - N4 * W4 - N2 * W2 in
      fold_gm (\<lambda>k u. bind (rd keys k) (\<lambda>kk. bind (case aux of None \<Rightarrow> ret 0 | Some a \<Rightarrow> rd a k) (\<lambda>tb.
        let pd = dst + k * numEncs; ps = ps0 + k * numEncs in
        bind (if 0 < N4 then apply_grouped tile T AesLane4 N4 pd src ps kk 0 tb else ret ()) (\<lambda>_.
        bind (if 0 < N2 then tile T AesLane2 N2 (pd + N4 * W4) src (ps + N4 * W4) kk (N4 * W4) tb else ret ()) (\<lambda>_.
        if 0 < N1 then tile T (lane1 T) N1 (pd + N4 * W4 + N2 * W2) src (ps + N4 * W4 + N2 * W2) kk (N4 * W4 + N2 * W2) tb
        else ret ()))))) [0..<numKeys] ())"

definition ParaEnc_impl where
  "ParaEnc_impl T numKeys numEncs dst src ps keys = ParaEnc_mem_tiles_impl AesMemPlainTile T numKeys numEncs dst src ps keys None"

definition ParaEncXorInput_impl where
  "ParaEncXorInput_impl T numKeys numEncs dst src ps keys =
     ParaEnc_mem_tiles_impl AesMemXorInputTile T numKeys numEncs dst src ps keys None"

text \<open>The tile ladder: \<open>run c W\<close> emits a tile of \<open>W\<close> blocks when the operation's cursor has advanced by \<open>c\<close>.\<close>

function drain_while :: "nat \<Rightarrow> (nat \<Rightarrow> nat \<Rightarrow> (block list, unit) gm) \<Rightarrow> nat \<Rightarrow> nat \<Rightarrow> (block list, nat \<times> nat) gm" where
  "drain_while w run c n =
     (if 0 < w \<and> w \<le> n then bind (run c w) (\<lambda>_. drain_while w run (c + w) (n - w)) else ret (c, n))"
  by pat_completeness auto
termination by (relation "measure (\<lambda>(w, run, c, n). n)") auto

declare drain_while.simps [simp del]

definition drain_if :: "nat \<Rightarrow> (nat \<Rightarrow> nat \<Rightarrow> (block list, unit) gm) \<Rightarrow> nat \<Rightarrow> nat \<Rightarrow> (block list, nat \<times> nat) gm" where
  "drain_if w run c n = (if w \<le> n then bind (run c w) (\<lambda>_. ret (c + w, n - w)) else ret (c, n))"

definition drain_tiles :: "tier \<Rightarrow> (nat \<Rightarrow> nat \<Rightarrow> (block list, unit) gm) \<Rightarrow> int \<Rightarrow> (block list, unit) gm" where
  "drain_tiles T run n =
     bind (if vaes512 T then drain_while 16 run 0 (nat n) else ret (0, nat n)) (\<lambda>(c, n).
     bind (drain_while 8 run c n) (\<lambda>(c, n).
     bind (drain_if 4 run c n) (\<lambda>(c, n).
     bind (drain_if 2 run c n) (\<lambda>(c, n).
     bind (drain_if 1 run c n) (\<lambda>_. ret ())))))"

definition MemTileOp :: "mem_tile \<Rightarrow> tier \<Rightarrow> nat \<Rightarrow> block list option \<Rightarrow> nat \<Rightarrow> AES_KEY \<Rightarrow> nat \<Rightarrow> nat \<Rightarrow> (block list, unit) gm" where
  "MemTileOp tile T pd src ps kk c W = ParaEnc_mem_tiles_impl tile T 1 W (pd + c) src (ps + c) [kk] None"

definition ParaEnc_mem_tiles_runtime_impl ::
  "mem_tile \<Rightarrow> tier \<Rightarrow> nat \<Rightarrow> block list option \<Rightarrow> nat \<Rightarrow> AES_KEY list \<Rightarrow> int \<Rightarrow> int \<Rightarrow> (block list, unit) gm" where
  "ParaEnc_mem_tiles_runtime_impl tile T dst src ps keys K N =
     fold_gm (\<lambda>k u. bind (rd keys k) (\<lambda>kk.
        drain_tiles T (MemTileOp tile T (dst + k * nat N) src (ps + k * nat N) kk) N)) [0..<nat K] ()"

definition ParaEnc_runtime_impl where
  "ParaEnc_runtime_impl = ParaEnc_mem_tiles_runtime_impl AesMemPlainTile"

definition ParaEncXorInput_runtime_impl where
  "ParaEncXorInput_runtime_impl = ParaEnc_mem_tiles_runtime_impl AesMemXorInputTile"

section \<open>Counter mode\<close>

text \<open>The counter is an \<open>int64_t\<close> read as its 64 bits; a signed addition that overflows is undefined behaviour.\<close>

datatype CtrStore = Plain | XorBack

definition aes_ctr_fill_lane :: "CtrStore \<Rightarrow> tier \<Rightarrow> AesLane \<Rightarrow> nat \<Rightarrow> nat \<Rightarrow> 64 word \<Rightarrow> AES_KEY \<Rightarrow> block \<Rightarrow> (block list, unit) gm" where
  "aes_ctr_fill_lane St T L W dst counter kk tweak =
     check (sint counter + int W \<le> 2 ^ 63) UndefinedBehaviour
     (aes_tiles_src T L (W div lane_n L)
       (\<lambda>t. ret (ctr_xor_tweak L counter t (broadcast L (if St = XorBack then tweak else 0))))
       (\<lambda>t x pt. lane_store (dst + t * lane_n L) (if St = XorBack then xorv L x pt else x)) kk)"

definition aes_ctr_fill_impl :: "CtrStore \<Rightarrow> tier \<Rightarrow> nat \<Rightarrow> nat \<Rightarrow> 64 word \<Rightarrow> AES_KEY \<Rightarrow> block \<Rightarrow> (block list, unit) gm" where
  "aes_ctr_fill_impl St T W dst counter kk tweak =
     (if vaes512 T \<and> W mod 4 = 0 then aes_ctr_fill_lane St T AesLane4 W dst counter kk tweak
      else if vaes256 T \<and> W mod 2 = 0 then aes_ctr_fill_lane St T AesLane2 W dst counter kk tweak
      else aes_ctr_fill_lane St T (lane1 T) W dst counter kk tweak)"

definition aes_ctr_fill where
  "aes_ctr_fill T W dst counter kk = aes_ctr_fill_impl Plain T W dst counter kk zero_block"

definition CtrFillOp :: "tier \<Rightarrow> nat \<Rightarrow> 64 word \<Rightarrow> AES_KEY \<Rightarrow> nat \<Rightarrow> nat \<Rightarrow> (block list, unit) gm" where
  "CtrFillOp T dst counter kk c W =
     bind (aes_ctr_fill T W (dst + c) (counter + of_nat c) kk) (\<lambda>_.
     check (sint (counter + of_nat c) + int W < 2 ^ 63) UndefinedBehaviour (ret ()))"

definition ParaCtrEnc :: "tier \<Rightarrow> nat \<Rightarrow> 64 word \<Rightarrow> AES_KEY \<Rightarrow> int \<Rightarrow> (block list, unit) gm" where
  "ParaCtrEnc T dst counter kk n = drain_tiles T (CtrFillOp T dst counter kk) n"

definition aes_ctr_fill_dm where
  "aes_ctr_fill_dm T W dst counter kk tweak = aes_ctr_fill_impl XorBack T W dst counter kk tweak"

section \<open>Ranges\<close>

text \<open>
  \<open>seg \<phi> S pd ps n mem\<close> is \<open>mem\<close> with the \<open>n\<close> blocks at \<open>pd\<close> replaced by \<open>\<phi> i\<close> of the source's block \<open>ps + i\<close>. A
  computation \<open>writes\<close> that range when it does so for every buffer that holds the range, and does nothing else.
\<close>

definition srcbuf :: "block list option \<Rightarrow> block list \<Rightarrow> block list" where
  "srcbuf S mem = (case S of None \<Rightarrow> mem | Some b \<Rightarrow> b)"

definition seg :: "(nat \<Rightarrow> block \<Rightarrow> block) \<Rightarrow> block list option \<Rightarrow> nat \<Rightarrow> nat \<Rightarrow> nat \<Rightarrow> block list \<Rightarrow> block list" where
  "seg \<phi> S pd ps n mem = take pd mem @ map (\<lambda>i. \<phi> i (srcbuf S mem ! (ps + i))) [0..<n] @ drop (pd + n) mem"

definition range_ok :: "block list option \<Rightarrow> nat \<Rightarrow> nat \<Rightarrow> nat \<Rightarrow> block list \<Rightarrow> bool" where
  "range_ok S pd ps n mem \<longleftrightarrow> pd + n \<le> length mem \<and> (case S of None \<Rightarrow> ps = pd | Some b \<Rightarrow> ps + n \<le> length b)"

definition writes ::
  "(block list, unit) gm \<Rightarrow> (nat \<Rightarrow> block \<Rightarrow> block) \<Rightarrow> block list option \<Rightarrow> nat \<Rightarrow> nat \<Rightarrow> nat \<Rightarrow> bool" where
  "writes m \<phi> S pd ps n \<longleftrightarrow> (\<forall>mem. range_ok S pd ps n mem \<longrightarrow> m mem = Inr ((), seg \<phi> S pd ps n mem))"

lemma length_seg [simp]: "pd + n \<le> length mem \<Longrightarrow> length (seg \<phi> S pd ps n mem) = length mem"
  by (simp add: seg_def)

lemma seg_0 [simp]: "seg \<phi> S pd ps 0 mem = mem"
  by (simp add: seg_def)

lemma in_range_split:
  "range_ok S pd ps (n + k) mem \<Longrightarrow> range_ok S pd ps n mem"
  "range_ok S pd ps (n + k) mem \<Longrightarrow> range_ok S (pd + n) (ps + n) k mem"
  by (auto simp: range_ok_def split: option.splits)

lemma in_range_sub:
  "range_ok S pd ps n mem \<Longrightarrow> a + k \<le> n \<Longrightarrow> range_ok S (pd + a) (ps + a) k mem"
  by (auto simp: range_ok_def split: option.splits)

lemma in_range_seg: "range_ok S pd ps n mem \<Longrightarrow> range_ok S pd' ps' k mem \<Longrightarrow> range_ok S pd' ps' k (seg \<phi> S pd ps n mem)"
  by (simp add: range_ok_def)

lemma seg_append:
  assumes "range_ok S pd ps (n + k) mem"
  shows "seg (\<lambda>i. \<phi> (n + i)) S (pd + n) (ps + n) k (seg \<phi> S pd ps n mem) = seg \<phi> S pd ps (n + k) mem"
proof -
  have len: "pd + n + k \<le> length mem" using assms by (simp add: range_ok_def)
  let ?m = "seg \<phi> S pd ps n mem"
  have src: "srcbuf S ?m ! (ps + n + i) = srcbuf S mem ! (ps + n + i)" if "i < k" for i
  proof (cases S)
    case None
    then have "ps = pd" using assms by (simp add: range_ok_def)
    with None len that show ?thesis by (simp add: srcbuf_def seg_def nth_append)
  qed (simp add: srcbuf_def)
  have split: "[0..<n + k] = [0..<n] @ map (\<lambda>i. n + i) [0..<k]"
    using upt_add_eq_append [of 0 n k] map_add_upt [of n k] by (simp add: add.commute)
  have take: "take (pd + n) ?m = take pd mem @ map (\<lambda>i. \<phi> i (srcbuf S mem ! (ps + i))) [0..<n]"
    using len by (simp add: seg_def)
  have drop: "drop (pd + n + k) ?m = drop (pd + n + k) mem"
    using len by (simp add: seg_def add.commute add.left_commute)
  have mid: "map (\<lambda>i. \<phi> (n + i) (srcbuf S ?m ! (ps + n + i))) [0..<k] =
      map (\<lambda>i. \<phi> (n + i) (srcbuf S mem ! (ps + n + i))) [0..<k]"
    by (rule map_cong) (simp_all add: src)
  show ?thesis
    unfolding seg_def [of "\<lambda>i. \<phi> (n + i)"] take drop mid
    by (simp add: seg_def split add.assoc)
qed

lemma writes_ret [simp]: "writes (ret ()) \<phi> S pd ps 0"
  by (simp add: writes_def ret_apply)

lemma writes_bind:
  assumes "writes m \<phi> S pd ps n" and "writes m' (\<lambda>i. \<phi> (n + i)) S (pd + n) (ps + n) k"
  shows "writes (bind m (\<lambda>_. m')) \<phi> S pd ps (n + k)"
  unfolding writes_def
proof (intro allI impI)
  fix mem
  assume r: "range_ok S pd ps (n + k) mem"
  from assms(1) in_range_split(1) [OF r] have "m mem = Inr ((), seg \<phi> S pd ps n mem)" by (simp add: writes_def)
  moreover from assms(2) in_range_seg [OF in_range_split [OF r]]
  have "m' (seg \<phi> S pd ps n mem) = Inr ((), seg (\<lambda>i. \<phi> (n + i)) S (pd + n) (ps + n) k (seg \<phi> S pd ps n mem))"
    by (simp add: writes_def)
  ultimately show "bind m (\<lambda>_. m') mem = Inr ((), seg \<phi> S pd ps (n + k) mem)"
    by (simp add: bind_Inr seg_append [OF r])
qed

lemma writes_fold:
  assumes "\<And>t. t < T \<Longrightarrow> writes (f t) (\<lambda>i. \<phi> (t * N + i)) S (pd + t * N) (ps + t * N) N"
  shows "writes (fold_gm (\<lambda>t u. f t) [0..<T] ()) \<phi> S pd ps (T * N)"
  using assms
proof (induction T)
  case (Suc T)
  have "writes (bind (fold_gm (\<lambda>t u. f t) [0..<T] ()) (\<lambda>_. f T)) \<phi> S pd ps (T * N + N)"
    by (rule writes_bind) (use Suc in simp_all)
  then show ?case by (simp add: fold_gm_snoc add.commute)
qed simp

lemma writes_cong:
  "(\<And>i b. i < n \<Longrightarrow> \<phi> i b = \<psi> i b) \<Longrightarrow> writes m \<phi> S pd ps n \<Longrightarrow> writes m \<psi> S pd ps n"
  by (auto simp: writes_def seg_def)

lemma writes_store: "length v = n \<Longrightarrow> writes (lane_store pd v) (\<lambda>j b. v ! j) S pd ps n"
proof -
  assume n: "length v = n"
  have "map (\<lambda>j. v ! j) [0..<n] = v" using map_nth [of v] n by simp
  with n show ?thesis by (auto simp: writes_def lane_store_def seg_def range_ok_def)
qed

lemma writes_tile:
  assumes src: "\<And>mem. range_ok S pd ps n mem \<Longrightarrow> src mem = Inr (map (\<lambda>j. p j (srcbuf S mem ! (ps + j))) [0..<n], mem)"
    and k: "\<And>pt. length pt = n \<Longrightarrow> k pt = lane_store pd (map \<omega> pt)"
  shows "writes (bind src k) (\<lambda>j b. \<omega> (p j b)) S pd ps n"
  unfolding writes_def
proof (intro allI impI)
  fix mem
  assume r: "range_ok S pd ps n mem"
  then show "bind src k mem = Inr ((), seg (\<lambda>j b. \<omega> (p j b)) S pd ps n mem)"
    by (simp add: src bind_Inr k lane_store_def seg_def range_ok_def comp_def)
qed

lemma map_gm_ok: "(\<And>x. x \<in> set xs \<Longrightarrow> f x = ret (g x)) \<Longrightarrow> map_gm f xs = ret (map g xs)"
  by (induction xs) simp_all

lemma map_gm_reads: "(\<And>x. x \<in> set xs \<Longrightarrow> f x mem = Inr (g x, mem)) \<Longrightarrow> map_gm f xs mem = Inr (map g xs, mem)"
  by (induction xs) (simp_all add: ret_apply bind_Inr)

section \<open>Rounds\<close>

lemma block_of_le_bytes [simp]: "block_of (le_bytes b) = b"
  by (simp add: block_of_def bufbits_le_bytes)

lemma le_bytes_block_of [simp]: "length bs = 16 \<Longrightarrow> le_bytes (block_of bs) = bs"
  by (rule bufbits_inject) (simp_all add: block_of_def bufbits_le_bytes)

text \<open>One block under a schedule, in the order of the x86 instructions; the NEON order gives the same block.\<close>

definition aes_rounds :: "AES_KEY \<Rightarrow> block \<Rightarrow> block" where
  "aes_rounds kk b = aesenclast_si128 (fold (\<lambda>r x. aesenc_si128 x (kk ! r)) [1..<10] (b XOR kk ! 0)) (kk ! 10)"

lemma neon_round: "vaesmcq_u8 (vaeseq_u8 s k) XOR k' = aesenc_si128 (s XOR k) k'"
  by (simp add: vaesmcq_u8_def vaeseq_u8_def aesenc_si128_def)

lemma neon_last: "vaeseq_u8 s k XOR k' = aesenclast_si128 (s XOR k) k'"
  by (simp add: vaeseq_u8_def aesenclast_si128_def)

lemma neon_fold:
  "fold (\<lambda>r x. vaesmcq_u8 (vaeseq_u8 x (kk ! r))) [0..<n] b XOR kk ! n =
   fold (\<lambda>r x. aesenc_si128 x (kk ! r)) [1..<Suc n] (b XOR kk ! 0)"
  by (induction n) (simp_all add: neon_round)

lemma neon_rounds:
  "vaeseq_u8 (fold (\<lambda>r x. vaesmcq_u8 (vaeseq_u8 x (kk ! r))) [0..<9] b) (kk ! 9) XOR kk ! 10 = aes_rounds kk b"
  using neon_fold [of kk 9 b] by (simp add: neon_last aes_rounds_def del: upt_rec_numeral)

lemma map2_replicate: "length v = n \<Longrightarrow> map2 f v (replicate n k) = map (\<lambda>b. f b k) v"
  by (induction v arbitrary: n) auto

lemma map2_left [simp]: "length x = length v \<Longrightarrow> map2 (\<lambda>x y. x) x v = x"
  by (induction x v rule: list_induct2) auto

lemma map2_map_same: "map2 f (map g v) v = map (\<lambda>b. f (g b) b) v"
  by (induction v) auto

text \<open>What the kernels rely on: every operation of a lane works block by block.\<close>

locale aes_lane =
  fixes L :: AesLane
  assumes lane_pos: "0 < lane_n L"
    and broadcast: "broadcast L k = replicate (lane_n L) k"
    and xorv: "length a = lane_n L \<Longrightarrow> length b = lane_n L \<Longrightarrow> xorv L a b = map2 (XOR) a b"
    and aesenc: "length a = lane_n L \<Longrightarrow> length b = lane_n L \<Longrightarrow> aesenc L a b = map2 aesenc_si128 a b"
    and aesenclast: "length a = lane_n L \<Longrightarrow> length b = lane_n L \<Longrightarrow> aesenclast L a b = map2 aesenclast_si128 a b"
    and ctr_xor_tweak: "length a = lane_n L \<Longrightarrow>
      ctr_xor_tweak L c t a = map2 (XOR) (map (\<lambda>j. makeBlock 0 (c + of_nat (t * lane_n L + j))) [0..<lane_n L]) a"
    and sigma: "length a = lane_n L \<Longrightarrow> lane_sigma L a = map sigma a"
    and add64: "length a = lane_n L \<Longrightarrow> length b = lane_n L \<Longrightarrow> add64 L a b = map2 add_epi64 a b"
    and offsets: "lane_offsets L span b0 = map (\<lambda>j. makeBlock (of_nat ((b0 + j) div span)) 0) [0..<lane_n L]"
begin

lemma lane_fold:
  assumes "length v = lane_n L" and "\<forall>r \<in> set rs. r < length kk"
  shows "fold (\<lambda>r x. aesenc L x (map (broadcast L) kk ! r)) rs (map f v) =
     map (\<lambda>b. fold (\<lambda>r x. aesenc_si128 x (kk ! r)) rs (f b)) v"
  using assms(2)
proof (induction rs arbitrary: f)
  case (Cons r rs)
  have "aesenc L (map f v) (map (broadcast L) kk ! r) = map (\<lambda>b. aesenc_si128 (f b) (kk ! r)) v"
    using Cons.prems assms by (simp add: aesenc broadcast map2_replicate comp_def)
  with Cons show ?case by simp
qed simp

lemma lane_rounds:
  assumes "length v = lane_n L" and "length kk = 11"
  shows "aesenclast L (fold (\<lambda>r x. aesenc L x (map (broadcast L) kk ! r)) [1..<10] (xorv L v (map (broadcast L) kk ! 0)))
     (map (broadcast L) kk ! 10) = map (aes_rounds kk) v"
proof -
  have "xorv L v (map (broadcast L) kk ! 0) = map (\<lambda>b. b XOR kk ! 0) v"
    using assms by (simp add: xorv broadcast map2_replicate)
  moreover have "\<forall>r \<in> set [1..<10]. r < length kk" using assms(2) by simp
  note lane_fold [OF assms(1) this, of "\<lambda>b. b XOR kk ! 0"]
  ultimately show ?thesis
    using assms by (simp add: aesenclast broadcast map2_replicate comp_def aes_rounds_def del: upt_rec_numeral)
qed

lemma interleaved_fold:
  "fold (\<lambda>r x. map (\<lambda>v. aesenc L v (rk ! r)) x) rs xs = map (fold (\<lambda>r x. aesenc L x (rk ! r)) rs) xs"
  by (induction rs arbitrary: xs) (simp_all add: comp_def)

lemma neon_lane_fold:
  "fold (\<lambda>r x. map2 (\<lambda>b k. vaesmcq_u8 (vaeseq_u8 b k)) x (map (broadcast L) kk ! r)) rs [b] =
     [fold (\<lambda>r x. vaesmcq_u8 (vaeseq_u8 x (kk ! r))) rs b]" if "lane_n L = 1" "\<forall>r \<in> set rs. r < length kk"
  using that by (induction rs arbitrary: b) (simp_all add: broadcast)

lemma neon_lane_rounds:
  assumes "length v = 1" and "lane_n L = 1" and "length kk = 11"
  shows "map2 (XOR) (map2 vaeseq_u8 (fold (\<lambda>r x. map2 (\<lambda>b k. vaesmcq_u8 (vaeseq_u8 b k)) x (map (broadcast L) kk ! r)) [0..<9] v)
     (map (broadcast L) kk ! 9)) (map (broadcast L) kk ! 10) = map (aes_rounds kk) v"
proof -
  from assms(1) obtain b where v: "v = [b]" by (auto simp: length_Suc_conv)
  have "\<forall>r \<in> set [0..<9]. r < length kk" using assms(3) by simp
  note neon_lane_fold [OF assms(2) this, of b]
  then show ?thesis
    using assms(2,3) by (simp add: v broadcast neon_rounds del: upt_rec_numeral)
qed

lemma lane_one: "length v = lane_n L \<Longrightarrow> length kk = 11 \<Longrightarrow> aes_one T L (map (broadcast L) kk) v = map (aes_rounds kk) v"
  using neon_lane_rounds [of v kk] lane_rounds [of v kk] by (simp only: aes_one_def Let_def split: if_split) simp

lemma length_lane_ops [simp]:
  "length (broadcast L k) = lane_n L"
  "length (lane_offsets L span b0) = lane_n L"
  "length a = lane_n L \<Longrightarrow> length (lane_sigma L a) = lane_n L"
  "length a = lane_n L \<Longrightarrow> length b = lane_n L \<Longrightarrow> length (xorv L a b) = lane_n L"
  "length a = lane_n L \<Longrightarrow> length b = lane_n L \<Longrightarrow> length (add64 L a b) = lane_n L"
  by (simp_all add: broadcast offsets sigma xorv add64)

lemma lane_round_keys: "length kk = 11 \<Longrightarrow>
    map_gm (\<lambda>r. bind (rd kk r) (\<lambda>k. ret (broadcast L k))) [0..<11] = ret (map (broadcast L) kk)"
proof -
  assume k: "length kk = 11"
  have "map_gm (\<lambda>r. bind (rd kk r) (\<lambda>k. ret (broadcast L k))) [0..<11] = ret (map (\<lambda>r. broadcast L (kk ! r)) [0..<11])"
    by (rule map_gm_ok) (simp add: k)
  also have "map (\<lambda>r. broadcast L (kk ! r)) [0..<11] = map (broadcast L) (map (\<lambda>r. kk ! r) [0..<length kk])"
    by (simp add: k comp_def del: upt_rec_numeral)
  also have "\<dots> = map (broadcast L) kk" by (simp only: map_nth)
  finally show ?thesis .
qed

lemma load_ok:
  "range_ok S (pd + t * lane_n L) (ps + t * lane_n L) (lane_n L) mem \<Longrightarrow>
   lane_load L S (ps + t * lane_n L) mem = Inr (map (\<lambda>j. srcbuf S mem ! (ps + t * lane_n L + j)) [0..<lane_n L], mem)"
  by (auto simp: lane_load_def range_ok_def srcbuf_def Let_def split: option.splits intro!: nth_equalityI)

lemma tiles:
  assumes kk: "length kk = 11"
    and src: "\<And>t mem. t < n \<Longrightarrow> range_ok S (pd + t * lane_n L) (ps + t * lane_n L) (lane_n L) mem \<Longrightarrow>
      src t mem = Inr (map (\<lambda>j. p (t * lane_n L + j) (srcbuf S mem ! (ps + t * lane_n L + j))) [0..<lane_n L], mem)"
    and st: "\<And>t x v. length x = lane_n L \<Longrightarrow> length v = lane_n L \<Longrightarrow> st t x v = lane_store (pd + t * lane_n L) (map2 \<omega> x v)"
  shows "writes (aes_tiles_src T L n src st kk) (\<lambda>i b. \<omega> (aes_rounds kk (p i b)) (p i b)) S pd ps (n * lane_n L)"
proof -
  let ?N = "lane_n L" and ?rk = "map (broadcast L) kk" and ?\<phi> = "\<lambda>i b. \<omega> (aes_rounds kk (p i b)) (p i b)"
  let ?\<omega> = "\<lambda>b. \<omega> (aes_rounds kk b) b"
  have stv: "st t (map (aes_rounds kk) v) v = lane_store (pd + t * ?N) (map ?\<omega> v)" if "length v = ?N" for t v
    using that by (simp add: st map2_map_same)
  show ?thesis
  proof (cases "vaes512 T \<and> ?N = 4 \<and> 1 < n \<and> n \<le> 4")
    case False
    have "writes (fold_gm (\<lambda>t u. bind (src t) (\<lambda>pt. st t (aes_one T L ?rk pt) pt)) [0..<n] ()) ?\<phi> S pd ps (n * ?N)"
      by (rule writes_fold, rule writes_tile [where \<omega> = ?\<omega>]) (simp_all add: src lane_one [OF _ kk] stv)
    with False show ?thesis
      by (cases "n = 0") (simp_all only: aes_tiles_src_def lane_round_keys [OF kk] bind_ret if_False if_True simp_thms writes_ret mult_0)
  next
    case True
    let ?pt = "\<lambda>mem t. map (\<lambda>j. p (t * ?N + j) (srcbuf S mem ! (ps + t * ?N + j))) [0..<?N]"
    let ?x = "\<lambda>pt. fold (\<lambda>r x. map (\<lambda>v. aesenc L v (?rk ! r)) x) [1..<10] (map (\<lambda>p. xorv L p (?rk ! 0)) pt)"
    have unf: "aes_tiles_src T L n src st kk = bind (map_gm src [0..<n]) (\<lambda>pt.
        fold_gm (\<lambda>t u. st t (aesenclast L (?x pt ! t) (?rk ! 10)) (pt ! t)) [0..<n] ())"
      using True by (simp add: aes_tiles_src_def lane_round_keys [OF kk] Let_def del: upt_rec_numeral)
    show ?thesis
      unfolding writes_def
    proof (intro allI impI)
      fix mem
      assume r: "range_ok S pd ps (n * ?N) mem"
      have sub: "range_ok S (pd + t * ?N) (ps + t * ?N) ?N mem" if "t < n" for t
        by (rule in_range_sub [OF r]) (use that mult_le_mono1 [of "Suc t" n ?N] in simp)
      have read: "map_gm src [0..<n] mem = Inr (map (?pt mem) [0..<n], mem)"
        by (rule map_gm_reads) (simp add: src [OF _ sub])
      let ?f = "\<lambda>t. st t (aesenclast L (?x (map (?pt mem) [0..<n]) ! t) (?rk ! 10)) (map (?pt mem) [0..<n] ! t)"
      have f: "?f t = lane_store (pd + t * ?N) (map ?\<omega> (?pt mem t))" if "t < n" for t
        using that stv [of "?pt mem t" t] lane_rounds [of "?pt mem t", OF _ kk]
        by (simp add: interleaved_fold del: upt_rec_numeral)
      have "writes (fold_gm (\<lambda>t u. ?f t) [0..<n] ()) (\<lambda>i b. map ?\<omega> (?pt mem (i div ?N)) ! (i mod ?N)) S pd ps (n * ?N)"
        by (rule writes_fold) (use lane_pos f writes_store [where S = S] in \<open>auto intro!: writes_cong [OF _ writes_store]\<close>)
      moreover have "seg (\<lambda>i b. map ?\<omega> (?pt mem (i div ?N)) ! (i mod ?N)) S pd ps (n * ?N) mem = seg ?\<phi> S pd ps (n * ?N) mem"
        using lane_pos by (simp add: seg_def add.assoc)
      ultimately show "aes_tiles_src T L n src st kk mem = Inr ((), seg ?\<phi> S pd ps (n * ?N) mem)"
        using r by (simp add: unf bind_Inr [where m = "map_gm src [0..<n]" and s = mem, OF read] writes_def)
    qed
  qed
qed

lemma plain_tile: "length kk = 11 \<Longrightarrow>
    writes (AesMemPlainTile T L n pd S ps kk off tb) (\<lambda>i. aes_rounds kk) S pd ps (n * lane_n L)"
  unfolding AesMemPlainTile_def aes_tiles_def aes_tiles_to_def
  by (rule tiles [where \<omega> = "\<lambda>x v. x" and p = "\<lambda>i b. b"]) (simp_all add: load_ok)

lemma xor_input_tile: "length kk = 11 \<Longrightarrow>
    writes (AesMemXorInputTile T L n pd S ps kk off tb) (\<lambda>i b. aes_rounds kk b XOR b) S pd ps (n * lane_n L)"
  unfolding AesMemXorInputTile_def aes_tiles_xor_input_def
  by (rule tiles [where \<omega> = "(XOR)" and p = "\<lambda>i b. b"]) (simp_all add: load_ok xorv)

lemma xor_sigma_tile: "length kk = 11 \<Longrightarrow>
    writes (AesMemXorSigmaTile T L n pd S ps kk off tb) (\<lambda>i b. aes_rounds kk (sigma b) XOR sigma b) S pd ps (n * lane_n L)"
  unfolding AesMemXorSigmaTile_def
  by (rule tiles [where \<omega> = "(XOR)" and p = "\<lambda>i b. sigma b"]) (simp_all add: xorv bind_Inr [OF load_ok] ret_apply sigma comp_def)

lemma lane_tweaks:
  "add64 L (broadcast L tb) (lane_offsets L span (off + t * lane_n L)) =
   map (\<lambda>j. add_epi64 tb (makeBlock (of_nat ((off + (t * lane_n L + j)) div span)) 0)) [0..<lane_n L]"
  by (rule nth_equalityI) (simp_all add: add64 broadcast offsets add.assoc)

lemma xor_input_tweak_tile: "length kk = 11 \<Longrightarrow>
    writes (AesMemXorInputTweakTile span T L n pd S ps kk off tb)
      (\<lambda>i b. let y = b XOR add_epi64 tb (makeBlock (of_nat ((off + i) div span)) 0) in aes_rounds kk y XOR y) S pd ps (n * lane_n L)"
  unfolding AesMemXorInputTweakTile_def Let_def
  by (rule tiles [where \<omega> = "(XOR)" and p = "\<lambda>i b. b XOR add_epi64 tb (makeBlock (of_nat ((off + i) div span)) 0)"])
    (simp_all add: xorv bind_Inr [OF load_ok] ret_apply lane_tweaks map2_map_map del: of_nat_add)

lemma xor_sigma_tweak_tile: "length kk = 11 \<Longrightarrow>
    writes (AesMemXorSigmaTweakTile span T L n pd S ps kk off tb)
      (\<lambda>i b. let y = sigma b XOR add_epi64 tb (makeBlock (of_nat ((off + i) div span)) 0) in aes_rounds kk y XOR y) S pd ps (n * lane_n L)"
  unfolding AesMemXorSigmaTweakTile_def Let_def
  by (rule tiles [where \<omega> = "(XOR)" and p = "\<lambda>i b. sigma b XOR add_epi64 tb (makeBlock (of_nat ((off + i) div span)) 0)"])
    (simp_all add: xorv bind_Inr [OF load_ok] ret_apply lane_tweaks sigma map2_map_map comp_def del: of_nat_add)

lemma ctr_tile:
  assumes "length kk = 11" and "W mod lane_n L = 0" and "sint counter + int W \<le> 2 ^ 63"
  shows "writes (aes_ctr_fill_lane St T L W dst counter kk tweak)
     (\<lambda>i b. let y = makeBlock 0 (counter + of_nat i) XOR (if St = XorBack then tweak else 0) in
        if St = XorBack then aes_rounds kk y XOR y else aes_rounds kk y) S dst ps W"
proof -
  let ?tw = "if St = XorBack then tweak else 0"
  have W: "W = W div lane_n L * lane_n L" using assms(2) by auto
  have "writes (aes_tiles_src T L (W div lane_n L)
       (\<lambda>t. ret (ctr_xor_tweak L counter t (broadcast L ?tw)))
       (\<lambda>t x pt. lane_store (dst + t * lane_n L) (if St = XorBack then xorv L x pt else x)) kk)
     (\<lambda>i b. (if St = XorBack then (XOR) else (\<lambda>x v. x)) (aes_rounds kk (makeBlock 0 (counter + of_nat i) XOR ?tw)) (makeBlock 0 (counter + of_nat i) XOR ?tw))
     S dst ps (W div lane_n L * lane_n L)"
    by (rule tiles [where p = "\<lambda>i b. makeBlock 0 (counter + of_nat i) XOR ?tw", OF assms(1)])
      (auto simp: ret_apply ctr_xor_tweak broadcast xorv intro!: nth_equalityI)
  then show ?thesis using assms(3) by (cases St) (simp_all add: aes_ctr_fill_lane_def Let_def flip: W)
qed

end

interpretation lane1: aes_lane AesLane1
  by unfold_locales (auto simp: AesLane1_def sigma_def length_Suc_conv)

interpretation lane_neon: aes_lane AesLaneNeon
  by unfold_locales (auto simp: AesLaneNeon_def sigma_def length_Suc_conv neon_round neon_last)

interpretation lane2: aes_lane AesLane2
  by unfold_locales (auto simp: AesLane2_def sigma_def length_Suc_conv numeral_eq_Suc add.assoc)

interpretation lane4: aes_lane AesLane4
  by unfold_locales (auto simp: AesLane4_def sigma_def length_Suc_conv numeral_eq_Suc add.assoc)

lemma lane1_ok: "aes_lane (lane1 T)"
  by (simp add: lane1_def lane1.aes_lane_axioms lane_neon.aes_lane_axioms)

section \<open>Ladders\<close>

text \<open>The contract of a memory tile: on every lane it writes \<open>\<phi> kk tb i\<close> of block \<open>i\<close> of the key's run.\<close>

definition tweak_of :: "block list option \<Rightarrow> nat \<Rightarrow> block" where
  "tweak_of aux k = (case aux of None \<Rightarrow> 0 | Some a \<Rightarrow> a ! k)"

locale mem_tile =
  fixes tile :: mem_tile and \<phi> :: "AES_KEY \<Rightarrow> block \<Rightarrow> nat \<Rightarrow> block \<Rightarrow> block"
  assumes tile_writes: "aes_lane L \<Longrightarrow> length kk = 11 \<Longrightarrow>
    writes (tile T L n pd S ps kk off tb) (\<lambda>i. \<phi> kk tb (off + i)) S pd ps (n * lane_n L)"
begin

lemma grouped:
  assumes "aes_lane L" and "length kk = 11"
  shows "writes (apply_grouped tile T L n pd S ps kk off tb) (\<lambda>i. \<phi> kk tb (off + i)) S pd ps (n * lane_n L)"
proof (induction n arbitrary: pd ps off rule: less_induct)
  case (less n)
  show ?case
  proof (cases "4 < n")
    case True
    have "n * lane_n L = 4 * lane_n L + (n - 4) * lane_n L" using True by (simp flip: add_mult_distrib)
    with True show ?thesis
      using writes_bind [OF tile_writes [OF assms, of T 4 pd S ps off tb], of "apply_grouped tile T L (n - 4) (pd + 4 * lane_n L) S (ps + 4 * lane_n L) kk (off + 4 * lane_n L) tb" "(n - 4) * lane_n L"]
        less [of "n - 4" "pd + 4 * lane_n L" "ps + 4 * lane_n L" "off + 4 * lane_n L"]
      by (simp add: apply_grouped.simps [of tile T L n] add.assoc)
  next
    case False
    then show ?thesis using tile_writes [OF assms] by (simp add: apply_grouped.simps [of tile T L n])
  qed
qed

lemma key_tiles:
  assumes "length kk = 11" and "N4 * W4 + (N2 * W2 + N1) = n"
    and "0 < N4 \<Longrightarrow> W4 = 4" and "0 < N2 \<Longrightarrow> W2 = 2"
  shows "writes
    (bind (if 0 < N4 then apply_grouped tile T AesLane4 N4 pd S ps kk 0 tb else ret ()) (\<lambda>_.
     bind (if 0 < N2 then tile T AesLane2 N2 (pd + N4 * W4) S (ps + N4 * W4) kk (N4 * W4) tb else ret ()) (\<lambda>_.
     if 0 < N1 then tile T (lane1 T) N1 (pd + N4 * W4 + N2 * W2) S (ps + N4 * W4 + N2 * W2) kk (N4 * W4 + N2 * W2) tb
     else ret ()))) (\<phi> kk tb) S pd ps n"
proof -
  have n4: "lane_n AesLane4 = 4" and n2: "lane_n AesLane2 = 2" and n1: "lane_n (lane1 T) = 1"
    by (simp_all add: AesLane4_def AesLane2_def lane1_def AesLane1_def AesLaneNeon_def)
  have four: "writes (if 0 < N4 then apply_grouped tile T AesLane4 N4 pd S ps kk 0 tb else ret ()) (\<phi> kk tb) S pd ps (N4 * W4)"
    using grouped [OF lane4.aes_lane_axioms assms(1), of T N4 pd S ps 0 tb] assms(3) n4 by simp
  have two: "writes (if 0 < N2 then tile T AesLane2 N2 (pd + N4 * W4) S (ps + N4 * W4) kk (N4 * W4) tb else ret ())
      (\<lambda>i. \<phi> kk tb (N4 * W4 + i)) S (pd + N4 * W4) (ps + N4 * W4) (N2 * W2)"
    using tile_writes [OF lane2.aes_lane_axioms assms(1)] assms(4) n2 by simp
  have one: "writes (if 0 < N1 then tile T (lane1 T) N1 (pd + N4 * W4 + N2 * W2) S (ps + N4 * W4 + N2 * W2) kk (N4 * W4 + N2 * W2) tb
     else ret ()) (\<lambda>i. \<phi> kk tb (N4 * W4 + (N2 * W2 + i))) S (pd + N4 * W4 + N2 * W2) (ps + N4 * W4 + N2 * W2) N1"
    using tile_writes [OF lane1_ok assms(1), of T T N1 "pd + N4 * W4 + N2 * W2" S "ps + N4 * W4 + N2 * W2" "N4 * W4 + N2 * W2" tb] n1
    by (simp add: add.assoc)
  show ?thesis using writes_bind [OF four writes_bind [OF two one]] by (simp add: assms(2))
qed

lemma mem_tiles:
  assumes "K \<le> length keys" and "\<forall>kk \<in> set keys. length kk = 11" and "case aux of None \<Rightarrow> True | Some a \<Rightarrow> K \<le> length a"
  shows "writes (ParaEnc_mem_tiles_impl tile T K N dst S ps keys aux)
    (\<lambda>i. \<phi> (keys ! (i div N)) (tweak_of aux (i div N)) (i mod N)) S dst ps (K * N)"
proof -
  let ?N4 = "if vaes512 T then N div 4 else 0" and ?W4 = "if vaes512 T then 4 else 0 :: nat"
  let ?N2 = "if vaes256 T then (N - ?N4 * ?W4) div 2 else 0" and ?W2 = "if vaes256 T then 2 else 0 :: nat"
  let ?N1 = "N - ?N4 * ?W4 - ?N2 * ?W2"
  have sum: "?N4 * ?W4 + (?N2 * ?W2 + ?N1) = N"
  proof -
    have "?N4 * ?W4 \<le> N" by simp
    moreover have "?N2 * ?W2 \<le> N - ?N4 * ?W4" by simp
    ultimately show ?thesis by linarith
  qed
  show ?thesis
    unfolding ParaEnc_mem_tiles_impl_def Let_def
  proof (rule writes_fold, goal_cases)
    case (1 k)
    then have k: "k < length keys" using assms(1) by simp
    with assms(2) have kk: "length (keys ! k) = 11" by simp
    have aux: "(case aux of None \<Rightarrow> ret 0 | Some a \<Rightarrow> rd a k) = (ret (tweak_of aux k) :: (block list, _) gm)"
      using assms(3) 1 by (cases aux) (simp_all add: tweak_of_def)
    show ?case
      unfolding rd_ok [OF k] bind_ret aux
    proof (rule writes_cong)
      show "\<phi> (keys ! k) (tweak_of aux k) i b =
          \<phi> (keys ! ((k * N + i) div N)) (tweak_of aux ((k * N + i) div N)) ((k * N + i) mod N) b" if "i < N" for i b
        using that by simp
    qed (rule key_tiles [OF kk sum], simp_all split: if_splits)
  qed
qed

end

text \<open>The runtime ladder: from cursor \<open>c\<close> with \<open>n\<close> blocks left, a stage consumes \<open>k\<close> of them.\<close>

definition drains ::
  "(block list, nat \<times> nat) gm \<Rightarrow> (nat \<Rightarrow> block \<Rightarrow> block) \<Rightarrow> block list option \<Rightarrow> nat \<Rightarrow> nat \<Rightarrow> nat \<Rightarrow> nat \<Rightarrow> nat \<Rightarrow> bool" where
  "drains m \<phi> S pd ps c n k \<longleftrightarrow> k \<le> n \<and> (\<forall>mem. range_ok S (pd + c) (ps + c) n mem \<longrightarrow>
     m mem = Inr ((c + k, n - k), seg (\<lambda>i. \<phi> (c + i)) S (pd + c) (ps + c) k mem))"

lemma drains_ret [simp]: "drains (ret (c, n)) \<phi> S pd ps c n 0"
  by (simp add: drains_def ret_apply)

lemma drains_bind:
  assumes "drains m \<phi> S pd ps c n k" and "drains (f (c + k, n - k)) \<phi> S pd ps (c + k) (n - k) k'"
  shows "drains (bind m f) \<phi> S pd ps c n (k + k')"
  unfolding drains_def
proof (intro conjI allI impI)
  from assms have k: "k \<le> n" "k' \<le> n - k" by (simp_all add: drains_def)
  then show "k + k' \<le> n" by simp
  fix mem
  assume r: "range_ok S (pd + c) (ps + c) n mem"
  with assms(1) have m: "m mem = Inr ((c + k, n - k), seg (\<lambda>i. \<phi> (c + i)) S (pd + c) (ps + c) k mem)"
    by (simp add: drains_def)
  from r k have r': "range_ok S (pd + c) (ps + c) (k + (n - k)) mem" by simp
  note s = in_range_split(2) [OF this]
  from r' k have r'': "range_ok S (pd + c) (ps + c) (k + k') mem" by (auto simp: range_ok_def split: option.splits)
  have "range_ok S (pd + (c + k)) (ps + (c + k)) (n - k) (seg (\<lambda>i. \<phi> (c + i)) S (pd + c) (ps + c) k mem)"
    using in_range_seg [OF in_range_split(1) [OF r'] s] by (simp add: add.assoc)
  with assms(2) seg_append [OF r'', of "\<lambda>i. \<phi> (c + i)"] k
  show "bind m f mem = Inr ((c + (k + k'), n - (k + k')), seg (\<lambda>i. \<phi> (c + i)) S (pd + c) (ps + c) (k + k') mem)"
    by (simp add: bind_Inr [where m = m, OF m] drains_def add.assoc)
qed

lemma drains_writes: "writes m (\<lambda>i. \<phi> (c + i)) S (pd + c) (ps + c) w \<Longrightarrow> w \<le> n \<Longrightarrow>
    drains (bind m (\<lambda>_. ret (c + w, n - w))) \<phi> S pd ps c n w"
proof -
  assume w: "writes m (\<lambda>i. \<phi> (c + i)) S (pd + c) (ps + c) w" "w \<le> n"
  have "m mem = Inr ((), seg (\<lambda>i. \<phi> (c + i)) S (pd + c) (ps + c) w mem)" if "range_ok S (pd + c) (ps + c) n mem" for mem
    using w that in_range_split(1) [of S "pd + c" "ps + c" w "n - w" mem] by (simp add: writes_def)
  with w show ?thesis by (simp add: drains_def bind_Inr ret_apply)
qed

lemma drain_while_ok:
  assumes run: "\<And>c w. c + w \<le> N \<Longrightarrow> 0 < w \<Longrightarrow> writes (run c w) (\<lambda>i. \<phi> (c + i)) S (pd + c) (ps + c) w"
    and "0 < w" and "c + n \<le> N"
  shows "drains (drain_while w run c n) \<phi> S pd ps c n (n div w * w)"
  using assms(3)
proof (induction n arbitrary: c rule: less_induct)
  case (less n)
  show ?case
  proof (cases "w \<le> n")
    case True
    from True less.prems assms(2) have "drains (drain_while w run (c + w) (n - w)) \<phi> S pd ps (c + w) (n - w) ((n - w) div w * w)"
      by (intro less.IH) simp_all
    moreover have "drains (bind (run c w) (\<lambda>_. ret (c + w, n - w))) \<phi> S pd ps c n w"
      by (rule drains_writes) (use run [of c w] True less.prems assms(2) in simp_all)
    ultimately have "drains (bind (bind (run c w) (\<lambda>_. ret (c + w, n - w))) (\<lambda>(c, n). drain_while w run c n)) \<phi> S pd ps c n
        (w + (n - w) div w * w)"
      by (intro drains_bind) simp_all
    moreover have "n div w * w = w + (n - w) div w * w" using True assms(2) by (simp add: le_div_geq)
    ultimately show ?thesis using True assms(2) by (simp add: drain_while.simps [of w run c n] bind_assoc)
  next
    case False
    then show ?thesis by (simp add: drain_while.simps [of w run c n])
  qed
qed

lemma drain_if_ok:
  assumes run: "\<And>c w. c + w \<le> N \<Longrightarrow> 0 < w \<Longrightarrow> writes (run c w) (\<lambda>i. \<phi> (c + i)) S (pd + c) (ps + c) w"
    and "0 < w" and "c + n \<le> N"
  shows "drains (drain_if w run c n) \<phi> S pd ps c n (if w \<le> n then w else 0)"
  using drains_writes [OF run [of c w], of n] assms(2,3) by (simp add: drain_if_def)

lemma drain_tiles_ok:
  assumes run: "\<And>c w. c + w \<le> n \<Longrightarrow> 0 < w \<Longrightarrow> writes (run c w) (\<lambda>i. \<phi> (c + i)) S (pd + c) (ps + c) w"
  shows "writes (drain_tiles T run (int n)) \<phi> S pd ps n"
proof -
  define k16 where "k16 = (if vaes512 T then n div 16 * 16 else 0)"
  define n8 where "n8 = n - k16"
  define k8 where "k8 = n8 div 8 * 8"
  define n4 where "n4 = n8 - k8"
  define k4 where "k4 = (if 4 \<le> n4 then 4 else 0 :: nat)"
  define n2 where "n2 = n4 - k4"
  define k2 where "k2 = (if 2 \<le> n2 then 2 else 0 :: nat)"
  define n1 where "n1 = n2 - k2"
  define k1 where "k1 = (if 1 \<le> n1 then 1 else 0 :: nat)"
  have le: "k16 \<le> n" "k8 \<le> n8" "k4 \<le> n4" "k2 \<le> n2" "k1 \<le> n1"
    by (simp add: k16_def, simp add: k8_def, simp add: k4_def, simp add: k2_def, simp add: k1_def)
  have "n4 < 8" by (simp add: n4_def k8_def minus_div_mult_eq_mod)
  then have "n2 < 4" by (auto simp: n2_def k4_def)
  then have "n1 < 2" by (auto simp: n1_def k2_def)
  then have all: "k1 = n1" by (auto simp: k1_def)
  have sums: "k16 + n8 = n" "k16 + k8 + n4 = n" "k16 + k8 + k4 + n2 = n" "k16 + k8 + k4 + k2 + n1 = n"
    using le n8_def n4_def n2_def n1_def by linarith+
  have d16: "drains (if vaes512 T then drain_while 16 run 0 n else ret (0, n)) \<phi> S pd ps 0 n k16"
    using drain_while_ok [where N = n, OF run, of 16 0 n] by (simp add: k16_def)
  have d8: "drains (drain_while 8 run k16 n8) \<phi> S pd ps k16 n8 k8"
    unfolding k8_def by (rule drain_while_ok [where N = n, OF run]) (use sums in simp_all)
  have d4: "drains (drain_if 4 run (k16 + k8) n4) \<phi> S pd ps (k16 + k8) n4 k4"
    unfolding k4_def by (rule drain_if_ok [where N = n, OF run]) (use sums in simp_all)
  have d2: "drains (drain_if 2 run (k16 + k8 + k4) n2) \<phi> S pd ps (k16 + k8 + k4) n2 k2"
    unfolding k2_def by (rule drain_if_ok [where N = n, OF run]) (use sums in simp_all)
  have d1: "drains (drain_if 1 run (k16 + k8 + k4 + k2) n1) \<phi> S pd ps (k16 + k8 + k4 + k2) n1 k1"
    unfolding k1_def by (rule drain_if_ok [where N = n, OF run]) (use sums in simp_all)
  have "drains (bind (if vaes512 T then drain_while 16 run 0 n else ret (0, n)) (\<lambda>(c, n).
      bind (drain_while 8 run c n) (\<lambda>(c, n). bind (drain_if 4 run c n) (\<lambda>(c, n).
      bind (drain_if 2 run c n) (\<lambda>(c, n). drain_if 1 run c n))))) \<phi> S pd ps 0 n (k16 + (k8 + (k4 + (k2 + k1))))"
    (is "drains ?m _ _ _ _ _ _ _")
    by (rule drains_bind [OF d16], simp flip: n8_def, rule drains_bind [OF d8], simp flip: n4_def,
      rule drains_bind [OF d4], simp flip: n2_def, rule drains_bind [OF d2], use d1 in \<open>simp flip: n1_def\<close>)
  moreover have "k16 + (k8 + (k4 + (k2 + k1))) = n" using sums(4) by (simp add: all)
  moreover have "drain_tiles T run (int n) = bind ?m (\<lambda>_. ret ())"
    by (simp add: drain_tiles_def bind_assoc case_prod_beta')
  ultimately show ?thesis by (simp add: drains_def writes_def bind_Inr ret_apply)
qed

section \<open>The tiles and the ladders\<close>

text \<open>A tile that does not look at the block's index can also be run by the runtime ladder.\<close>

locale plain_tile =
  fixes tile :: mem_tile and \<psi> :: "AES_KEY \<Rightarrow> block \<Rightarrow> block"
  assumes plain_writes: "aes_lane L \<Longrightarrow> length kk = 11 \<Longrightarrow>
    writes (tile T L n pd S ps kk off tb) (\<lambda>i. \<psi> kk) S pd ps (n * lane_n L)"

sublocale plain_tile \<subseteq> mem_tile tile "\<lambda>kk tb i. \<psi> kk"
  by unfold_locales (rule plain_writes)

context plain_tile
begin

lemma runtime:
  assumes "K \<le> length keys" and "\<forall>kk \<in> set keys. length kk = 11"
  shows "writes (ParaEnc_mem_tiles_runtime_impl tile T dst S ps keys (int K) (int N)) (\<lambda>i. \<psi> (keys ! (i div N))) S dst ps (K * N)"
  unfolding ParaEnc_mem_tiles_runtime_impl_def nat_int
proof (rule writes_fold)
  fix k
  assume "k < K"
  with assms have k: "k < length keys" and kk: "length (keys ! k) = 11" by simp_all
  have "writes (drain_tiles T (MemTileOp tile T (dst + k * N) S (ps + k * N) (keys ! k)) (int N)) (\<lambda>i. \<psi> (keys ! k)) S (dst + k * N) (ps + k * N) N"
  proof (rule drain_tiles_ok)
    fix c w :: nat
    assume w: "0 < w"
    show "writes (MemTileOp tile T (dst + k * N) S (ps + k * N) (keys ! k) c w) (\<lambda>i. \<psi> (keys ! k)) S (dst + k * N + c) (ps + k * N + c) w"
      unfolding MemTileOp_def
      by (rule writes_cong [rotated, OF mem_tiles [of 1 "[keys ! k]" None, unfolded mult_1]]) (use kk w in simp_all)
  qed
  then show "writes (bind (rd keys k) (\<lambda>kk. drain_tiles T (MemTileOp tile T (dst + k * N) S (ps + k * N) kk) (int N)))
      (\<lambda>i. \<psi> (keys ! ((k * N + i) div N))) S (dst + k * N) (ps + k * N) N"
    unfolding rd_ok [OF k] bind_ret by (rule writes_cong [rotated]) simp
qed

end

interpretation plain: plain_tile AesMemPlainTile aes_rounds
  by unfold_locales (rule aes_lane.plain_tile)

interpretation xor_input: plain_tile AesMemXorInputTile "\<lambda>kk b. aes_rounds kk b XOR b"
  by unfold_locales (rule aes_lane.xor_input_tile)

interpretation xor_sigma: plain_tile AesMemXorSigmaTile "\<lambda>kk b. aes_rounds kk (sigma b) XOR sigma b"
  by unfold_locales (rule aes_lane.xor_sigma_tile)

interpretation xor_input_tweak: mem_tile "AesMemXorInputTweakTile span"
    "\<lambda>kk tb i b. let y = b XOR add_epi64 tb (makeBlock (of_nat (i div span)) 0) in aes_rounds kk y XOR y" for span
  by unfold_locales (rule aes_lane.xor_input_tweak_tile)

interpretation xor_sigma_tweak: mem_tile "AesMemXorSigmaTweakTile span"
    "\<lambda>kk tb i b. let y = sigma b XOR add_epi64 tb (makeBlock (of_nat (i div span)) 0) in aes_rounds kk y XOR y" for span
  by unfold_locales (rule aes_lane.xor_sigma_tweak_tile)

lemma ctr_fill_ok:
  assumes "length kk = 11" and "sint counter + int W \<le> 2 ^ 63"
  shows "writes (aes_ctr_fill_impl St T W dst counter kk tweak)
     (\<lambda>i b. let y = makeBlock 0 (counter + of_nat i) XOR (if St = XorBack then tweak else 0) in
        if St = XorBack then aes_rounds kk y XOR y else aes_rounds kk y) S dst ps W"
proof -
  have n: "lane_n AesLane4 = 4" "lane_n AesLane2 = 2" "lane_n (lane1 T) = 1"
    by (simp_all add: AesLane4_def AesLane2_def lane1_def AesLane1_def AesLaneNeon_def)
  show ?thesis
  proof (cases "vaes512 T \<and> W mod 4 = 0")
    case True
    then show ?thesis unfolding aes_ctr_fill_impl_def if_P [OF True] by (intro lane4.ctr_tile assms) (simp add: n)
  next
    case four: False
    show ?thesis
    proof (cases "vaes256 T \<and> W mod 2 = 0")
      case True
      then show ?thesis unfolding aes_ctr_fill_impl_def if_not_P [OF four] if_P [OF True]
        by (intro lane2.ctr_tile assms) (simp add: n)
    next
      case False
      show ?thesis unfolding aes_ctr_fill_impl_def if_not_P [OF four] if_not_P [OF False]
        by (intro aes_lane.ctr_tile assms lane1_ok) (simp add: n)
    qed
  qed
qed

lemma sint_add_small: "sint c + int n < 2 ^ 63 \<Longrightarrow> sint (c + of_nat n) = sint c + int n" for c :: "64 word"
proof -
  assume a: "sint c + int n < 2 ^ 63"
  have "- (2 ^ 63) \<le> sint c" using sint_greater_eq [of c] by simp
  with a have "signed_take_bit 63 (sint c + int n) = sint c + int n" by (intro signed_take_bit_int_eq_self) simp_all
  then show ?thesis using sint_sbintrunc' [where 'a = 64, of "sint c + int n"] by simp
qed

lemma ParaCtrEnc_ok:
  assumes "length kk = 11" and "sint counter + int n < 2 ^ 63"
  shows "writes (ParaCtrEnc T dst counter kk (int n)) (\<lambda>i b. aes_rounds kk (makeBlock 0 (counter + of_nat i))) S dst ps n"
  unfolding ParaCtrEnc_def
proof (rule drain_tiles_ok)
  fix c w :: nat
  assume "c + w \<le> n"
  then have c: "sint (counter + of_nat c) = sint counter + int c" and w: "sint counter + int c + int w < 2 ^ 63"
    using assms(2) sint_add_small [of counter c] by simp_all
  have "writes (aes_ctr_fill T w (dst + c) (counter + of_nat c) kk) (\<lambda>i b. aes_rounds kk (makeBlock 0 (counter + of_nat (c + i)))) S (dst + c) (ps + c) w"
    unfolding aes_ctr_fill_def
    by (rule writes_cong [OF _ ctr_fill_ok [OF assms(1)]]) (use w in \<open>simp_all add: c add.assoc\<close>)
  then show "writes (CtrFillOp T dst counter kk c w) (\<lambda>i b. aes_rounds kk (makeBlock 0 (counter + of_nat (c + i)))) S (dst + c) (ps + c) w"
    using w by (simp add: CtrFillOp_def c)
qed

end
