(* ===== verification/Aes_Kernels.thy ===== *)
theory Aes_Kernels
  imports Aes_Tiles
begin

text \<open>
  \<open>runtime/crypto/aes.hpp\<close>, the public part: the AES-128 key schedule and the batched encryption functions. The
  key schedule works on whole registers (byte shuffles, 64-bit shifts and the last-round instruction in place
  of word operations); it is shown to produce the round keys of FIPS 197, so that every batched function
  applies AES-128 of the standard to each block, on every tier, in place or not.
\<close>

section \<open>The key schedule and the public functions\<close>

definition ks_round :: "block \<Rightarrow> block \<Rightarrow> block \<Rightarrow> block \<Rightarrow> block" where
  "ks_round con con3 msk key =
     (let x2 = shuffle_bytes key msk;
          aux = aesenclast_si128 x2 con;
          globAux = slli_epi64 key 32;
          key = globAux XOR key;
          globAux = shuffle_bytes key con3;
          key = globAux XOR key in
      aux XOR key)"

text \<open>Round \<open>r\<close> for every key: \<open>rd_key[r]\<close> from \<open>rd_key[r - 1]\<close>; the round keys so far are a list.\<close>

definition ks_rounds :: "block \<Rightarrow> block \<Rightarrow> block \<Rightarrow> AES_KEY list \<Rightarrow> AES_KEY list" where
  "ks_rounds con con3 msk keys = map (\<lambda>k. k @ [ks_round con con3 msk (last k)]) keys"

definition AES_opt_key_schedule :: "block list \<Rightarrow> AES_KEY list" where
  "AES_opt_key_schedule user_key =
     (let con = set_epi32 1 1 1 1; con2 = set_epi32 0x1b 0x1b 0x1b 0x1b;
          con3 = set_epi32 0x07060504 0x07060504 0xffffffff 0xffffffff;
          msk = set_epi32 0x0c0f0e0d 0x0c0f0e0d 0x0c0f0e0d 0x0c0f0e0d;
          keys = map (\<lambda>k. [k]) user_key;
          (keys, con) = fold (\<lambda>r (keys, con). (ks_rounds con con3 msk keys, slli_epi32 con 1)) [1..<9] (keys, con);
          keys = ks_rounds con2 con3 msk keys;
          con2 = slli_epi32 con2 1 in
      ks_rounds con2 con3 msk keys)"

definition ParaEnc :: "tier \<Rightarrow> nat \<Rightarrow> nat \<Rightarrow> block list option \<Rightarrow> AES_KEY list \<Rightarrow> (block list, unit) gm" where
  "ParaEnc T numKeys numEncs src keys = ParaEnc_impl T numKeys numEncs 0 src 0 keys"

definition ParaEnc_rt :: "tier \<Rightarrow> block list option \<Rightarrow> AES_KEY list \<Rightarrow> int \<Rightarrow> int \<Rightarrow> (block list, unit) gm" where
  "ParaEnc_rt T src keys K N = ParaEnc_runtime_impl T 0 src 0 keys K N"

definition AES_set_encrypt_key :: "block \<Rightarrow> AES_KEY" where
  "AES_set_encrypt_key userkey = hd (AES_opt_key_schedule [userkey])"

definition AES_ecb_encrypt_blks :: "tier \<Rightarrow> int \<Rightarrow> AES_KEY \<Rightarrow> (block list, unit) gm" where
  "AES_ecb_encrypt_blks T nblks key = ParaEnc_rt T None [key] 1 nblks"

definition AES_ecb_encrypt_blks_N :: "tier \<Rightarrow> nat \<Rightarrow> AES_KEY \<Rightarrow> (block list, unit) gm" where
  "AES_ecb_encrypt_blks_N T N key = ParaEnc T 1 N None [key]"

section \<open>The key schedule\<close>

lemma le_bytes_xor: "le_bytes (a XOR b) = ref_xor (le_bytes a) (le_bytes b)"
  by (rule nth_equalityI) (auto simp: le_bytes_def ref_xor_def intro!: bit_word_eqI simp: bit_simps)

lemma slli_set_epi32: "slli_epi32 (set_epi32 d c b a) n = set_epi32 (push_bit n d) (push_bit n c) (push_bit n b) (push_bit n a)"
proof -
  have "wb (set_epi32 d c b a) = wb a @ wb b @ wb c @ wb d"
    by (simp add: set_epi32_def block_of_def bufbits_le32)
  then show ?thesis by (simp add: slli_epi32_def set_epi32_def four)
qed

lemma le_bytes_slli_epi64:
  "le_bytes (slli_epi64 key 32) = (let k = le_bytes key in
     [0, 0, 0, 0, k ! 0, k ! 1, k ! 2, k ! 3, 0, 0, 0, 0, k ! 8, k ! 9, k ! 10, k ! 11])"
proof -
  have byte: "ucast (drop_bit (8 * i) (slli_epi64 key 32)) =
      (if i mod 8 < 4 then 0 else ucast (drop_bit (8 * (i - 4)) key) :: 8 word)" if "i < 16" for i
  proof (rule bit_word_eqI)
    fix j
    assume "j < LENGTH(8)"
    then have j: "j < 8" by simp
    with that have b: "bit (slli_epi64 key 32) (8 * i + j) = (if 8 * i + j < 64 then 32 \<le> 8 * i + j \<and> bit key (8 * i + j - 32)
        else 96 \<le> 8 * i + j \<and> bit key (8 * i + j - 32))"
      by (auto simp: slli_epi64_def bit_makeBlock bit_simps)
    show "bit (ucast (drop_bit (8 * i) (slli_epi64 key 32)) :: 8 word) j =
        bit (if i mod 8 < 4 then 0 else ucast (drop_bit (8 * (i - 4)) key) :: 8 word) j"
    proof (cases "i mod 8 < 4")
      case True
      define q where "q = i div 8"
      have q: "i = 8 * q + i mod 8" "q < 2" using that by (simp_all add: q_def)
      from q(2) have "q = 0 \<or> q = 1" by auto
      then have "8 * i + j < 32 \<or> (64 \<le> 8 * i + j \<and> 8 * i + j < 96)" using q(1) True j by auto
      with True j b show ?thesis by (auto simp: bit_simps)
    next
      case False
      define q where "q = i div 8"
      have q: "i = 8 * q + i mod 8" "q < 2" using that by (simp_all add: q_def)
      have m: "i mod 8 < 8" by simp
      from q(2) have "q = 0 \<or> q = 1" by auto
      then have "(32 \<le> 8 * i + j \<and> 8 * i + j < 64) \<or> 96 \<le> 8 * i + j" using q(1) False m j by auto
      moreover have "8 * i + j - 32 = 8 * (i - 4) + j" using q(1) False by simp
      ultimately show ?thesis using False j b by (auto simp: bit_simps)
    qed
  qed
  have "le_bytes (slli_epi64 key 32) = map (\<lambda>i. if i mod 8 < 4 then 0 else le_bytes key ! (i - 4)) [0..<16]"
    unfolding le_bytes_def by (rule nth_equalityI) (auto simp: byte simp del: upt_rec_numeral)
  then show ?thesis by (simp add: upt_rec Let_def) (simp add: eval_nat_numeral)
qed

lemma list16: "length bs = 16 \<Longrightarrow> \<exists>a b c d e f g h i j k l m n p q. bs = [a, b, c, d, e, f, g, h, i, j, k, l, m, n, p, q]"
  by (auto simp: numeral_eq_Suc length_Suc_conv)

lemma schedule_constants:
  "le_bytes (set_epi32 0x07060504 0x07060504 0xffffffff 0xffffffff) = [255, 255, 255, 255, 255, 255, 255, 255, 4, 5, 6, 7, 4, 5, 6, 7]"
  "le_bytes (set_epi32 0x0c0f0e0d 0x0c0f0e0d 0x0c0f0e0d 0x0c0f0e0d) = [13, 14, 15, 12, 13, 14, 15, 12, 13, 14, 15, 12, 13, 14, 15, 12]"
  by (simp_all add: set_epi32_def le_bytes_def [where 'a = 32] four)

lemma ks_round_ref:
  assumes c: "le_bytes c = [rc, 0, 0, 0]" and rc: "(ref_xtime ^^ (r - 1)) 1 = rc"
  shows "le_bytes (ks_round (set_epi32 c c c c) (set_epi32 0x07060504 0x07060504 0xffffffff 0xffffffff)
     (set_epi32 0x0c0f0e0d 0x0c0f0e0d 0x0c0f0e0d 0x0c0f0e0d) key) = ref_next_key r (le_bytes key)"
proof -
  have con: "le_bytes (set_epi32 c c c c) = [rc, 0, 0, 0, rc, 0, 0, 0, rc, 0, 0, 0, rc, 0, 0, 0]"
    by (simp add: set_epi32_def c)
  obtain b0 b1 b2 b3 b4 b5 b6 b7 b8 b9 b10 b11 b12 b13 b14 b15 where
    k: "le_bytes key = [b0, b1, b2, b3, b4, b5, b6, b7, b8, b9, b10, b11, b12, b13, b14, b15]"
    using list16 [of "le_bytes key"] by auto
  have x2: "le_bytes (shuffle_bytes key (set_epi32 0x0c0f0e0d 0x0c0f0e0d 0x0c0f0e0d 0x0c0f0e0d)) =
      [b13, b14, b15, b12, b13, b14, b15, b12, b13, b14, b15, b12, b13, b14, b15, b12]"
    by (simp add: shuffle_bytes_def schedule_constants shuffle_epi8_def k)
  have aux: "le_bytes (aesenclast_si128 (shuffle_bytes key (set_epi32 0x0c0f0e0d 0x0c0f0e0d 0x0c0f0e0d 0x0c0f0e0d)) (set_epi32 c c c c)) =
      [ref_sbox b13 XOR rc, ref_sbox b14, ref_sbox b15, ref_sbox b12, ref_sbox b13 XOR rc, ref_sbox b14, ref_sbox b15, ref_sbox b12,
       ref_sbox b13 XOR rc, ref_sbox b14, ref_sbox b15, ref_sbox b12, ref_sbox b13 XOR rc, ref_sbox b14, ref_sbox b15, ref_sbox b12]"
    by (simp add: aesenclast_si128_def le_bytes_xor x2 con ref_xor_def ref_sub_bytes_def ref_shift_rows_def four)
  let ?key = "slli_epi64 key 32 XOR key"
  have key: "le_bytes ?key = [b0, b1, b2, b3, b0 XOR b4, b1 XOR b5, b2 XOR b6, b3 XOR b7,
      b8, b9, b10, b11, b8 XOR b12, b9 XOR b13, b10 XOR b14, b11 XOR b15]"
    by (simp add: le_bytes_xor le_bytes_slli_epi64 k ref_xor_def)
  have glob: "le_bytes (shuffle_bytes ?key (set_epi32 0x07060504 0x07060504 0xffffffff 0xffffffff)) =
      [0, 0, 0, 0, 0, 0, 0, 0, b0 XOR b4, b1 XOR b5, b2 XOR b6, b3 XOR b7, b0 XOR b4, b1 XOR b5, b2 XOR b6, b3 XOR b7]"
    by (simp add: shuffle_bytes_def schedule_constants shuffle_epi8_def key)
  show ?thesis
    unfolding ks_round_def Let_def le_bytes_xor [of "aesenclast_si128 _ _"] le_bytes_xor [of "shuffle_bytes _ _"] aux glob key k
    unfolding ref_next_key_def rc by (simp add: Let_def ref_xor_def xor_ac)
qed

definition sched_keys :: "nat \<Rightarrow> block \<Rightarrow> AES_KEY" where
  "sched_keys n k = map (\<lambda>r. block_of (ref_round_key (le_bytes k) r)) [0..<Suc n]"

lemma last_round_keys [simp]: "last (sched_keys n k) = block_of (ref_round_key (le_bytes k) n)"
  by (simp add: sched_keys_def)

lemma ks_rounds_step:
  assumes "le_bytes c = [rc, 0, 0, 0]" and "(ref_xtime ^^ n) 1 = rc"
  shows "ks_rounds (set_epi32 c c c c) (set_epi32 0x07060504 0x07060504 0xffffffff 0xffffffff)
     (set_epi32 0x0c0f0e0d 0x0c0f0e0d 0x0c0f0e0d 0x0c0f0e0d) (map (sched_keys n) us) = map (sched_keys (Suc n)) us"
proof -
  have "ks_round (set_epi32 c c c c) (set_epi32 0x07060504 0x07060504 0xffffffff 0xffffffff)
      (set_epi32 0x0c0f0e0d 0x0c0f0e0d 0x0c0f0e0d 0x0c0f0e0d) (last (sched_keys n k)) = block_of (ref_round_key (le_bytes k) (Suc n))" for k
    using ks_round_ref [OF assms(1), of "Suc n" "last (sched_keys n k)", THEN arg_cong [where f = block_of]] assms(2) by simp
  moreover have "sched_keys (Suc n) k = sched_keys n k @ [block_of (ref_round_key (le_bytes k) (Suc n))]" for k
    by (simp add: sched_keys_def)
  ultimately show ?thesis by (simp add: ks_rounds_def)
qed

lemma round_constants:
  "le_bytes (1 :: 32 word) = [1, 0, 0, 0]" "le_bytes (2 :: 32 word) = [2, 0, 0, 0]" "le_bytes (4 :: 32 word) = [4, 0, 0, 0]"
  "le_bytes (8 :: 32 word) = [8, 0, 0, 0]" "le_bytes (16 :: 32 word) = [16, 0, 0, 0]" "le_bytes (32 :: 32 word) = [32, 0, 0, 0]"
  "le_bytes (64 :: 32 word) = [64, 0, 0, 0]" "le_bytes (128 :: 32 word) = [128, 0, 0, 0]"
  "le_bytes (0x1b :: 32 word) = [0x1b, 0, 0, 0]" "le_bytes (0x36 :: 32 word) = [0x36, 0, 0, 0]"
  by (simp_all add: le_bytes_def four)

lemma key_schedule: "AES_opt_key_schedule us = map (sched_keys 10) us"
proof -
  have start: "map (\<lambda>k. [k]) us = map (sched_keys 0) us" by (simp add: sched_keys_def)
  have rounds: "[1..<9] = [1, 2, 3, 4, 5, 6, 7, 8]" by (simp add: upt_rec)
  show ?thesis
    unfolding AES_opt_key_schedule_def Let_def start rounds
    by (simp add: slli_set_epi32 round_constants [THEN ks_rounds_step] ref_xtime_def ref_xtime_power) (simp add: eval_nat_numeral)
qed

section \<open>One block\<close>

definition aes128_block :: "block \<Rightarrow> block \<Rightarrow> block" where
  "aes128_block key b = block_of (AES128 (le_bytes key) (le_bytes b))"

lemma length_round_keys [simp]: "length (sched_keys n k) = Suc n"
  by (simp add: sched_keys_def)

lemma nth_round_keys: "r \<le> n \<Longrightarrow> sched_keys n k ! r = block_of (ref_round_key (le_bytes k) r)"
  by (simp add: sched_keys_def less_Suc_eq_le nth_append)

lemma aes_rounds_ref: "aes_rounds (sched_keys 10 key) b = aes128_block key b"
proof -
  let ?kk = "sched_keys 10 key" and ?k = "ref_round_key (le_bytes key)"
  let ?step = "\<lambda>r st. ref_xor (if r \<noteq> 10 then ref_mix_columns (ref_shift_rows (ref_sub_bytes st)) else ref_shift_rows (ref_sub_bytes st)) (?k r)"
  have len: "length (?k r) = 16" for r by simp
  have "le_bytes (fold (\<lambda>r x. aesenc_si128 x (?kk ! r)) [1..<n] (b XOR ?kk ! 0)) =
      fold ?step [1..<n] (ref_xor (le_bytes b) (?k 0))" if "n \<le> 10" for n
    using that
  proof (induction n)
    case (Suc n)
    show ?case
    proof (cases "n = 0")
      case False
      with Suc show ?thesis by (simp add: aesenc_si128_def le_bytes_xor nth_round_keys len)
    qed (simp add: le_bytes_xor nth_round_keys len)
  qed (simp add: le_bytes_xor nth_round_keys len)
  from this [of 10]
  have "le_bytes (aes_rounds ?kk b) = ?step 10 (fold ?step [1..<10] (ref_xor (le_bytes b) (?k 0)))"
    by (simp add: aes_rounds_def aesenclast_si128_def le_bytes_xor nth_round_keys len del: upt_rec_numeral)
  also have "\<dots> = AES128 (le_bytes key) (le_bytes b)"
    using upt_Suc_append [of 1 10] by (simp add: AES128_def Let_def del: upt_rec_numeral)
  finally show ?thesis unfolding aes128_block_def by (metis block_of_le_bytes)
qed

section \<open>Batches\<close>

lemma key_schedule_keys: "\<forall>kk \<in> set (AES_opt_key_schedule us). length kk = 11" "length (AES_opt_key_schedule us) = length us"
  by (simp_all add: key_schedule)

lemma set_encrypt_key: "AES_set_encrypt_key k = sched_keys 10 k"
  by (simp add: AES_set_encrypt_key_def key_schedule)

text \<open>A range that starts both buffers.\<close>

lemma writes_start:
  "writes m \<phi> S 0 0 n \<Longrightarrow> n \<le> length mem \<Longrightarrow> case S of None \<Rightarrow> True | Some b \<Rightarrow> n \<le> length b \<Longrightarrow>
   m mem = Inr ((), map (\<lambda>i. \<phi> i (srcbuf S mem ! i)) [0..<n] @ drop n mem)"
  by (simp add: writes_def range_ok_def seg_def split: option.splits)

lemma batch_block:
  "i < K * N \<Longrightarrow> length us = K \<Longrightarrow> aes_rounds (AES_opt_key_schedule us ! (i div N)) b = aes128_block (us ! (i div N)) b"
  using less_mult_imp_div_less [of i K N] by (simp add: key_schedule aes_rounds_ref)

lemma ecb_map: "n \<le> length blks \<Longrightarrow> map (\<lambda>i. f (blks ! i)) [0..<n] = map f (take n blks)"
  by (rule nth_equalityI) simp_all

text \<open>
  (C7) The batched encryption functions compute AES-128 of FIPS 197. For every compiled tier, with the keys
  expanded by the register-wide key schedule, encrypting \<open>N\<close> blocks under each of \<open>K\<close> keys (compile-time or runtime
  sizes, in place or from another buffer) writes the AES-128 encryption of block \<open>i\<close> under key \<open>i / N\<close> at position \<open>i\<close>
  and leaves the rest of the buffer; the one-key ECB functions encrypt the first \<open>n\<close> blocks in place.
\<close>

theorem batched_aes_correct:
  assumes "length us = K" and "K * N \<le> length dst" and "case S of None \<Rightarrow> True | Some b \<Rightarrow> K * N \<le> length b" and "n \<le> length dst"
  shows "let enc = map (\<lambda>i. aes128_block (us ! (i div N)) (srcbuf S dst ! i)) [0..<K * N] @ drop (K * N) dst in
    ParaEnc T K N S (AES_opt_key_schedule us) dst = Inr ((), enc) \<and>
    ParaEnc_rt T S (AES_opt_key_schedule us) (int K) (int N) dst = Inr ((), enc) \<and>
    AES_ecb_encrypt_blks T (int n) (AES_set_encrypt_key k) dst = Inr ((), map (aes128_block k) (take n dst) @ drop n dst) \<and>
    AES_ecb_encrypt_blks_N T n (AES_set_encrypt_key k) dst = Inr ((), map (aes128_block k) (take n dst) @ drop n dst)"
proof -
  define enc where "enc = map (\<lambda>i. aes128_block (us ! (i div N)) (srcbuf S dst ! i)) [0..<K * N] @ drop (K * N) dst"
  have keys: "K \<le> length (AES_opt_key_schedule us)" using assms(1) by (simp add: key_schedule_keys)
  have e: "map (\<lambda>i. aes_rounds (AES_opt_key_schedule us ! (i div N)) (srcbuf S dst ! i)) [0..<K * N] @ drop (K * N) dst = enc"
    unfolding enc_def by (simp add: batch_block [OF _ assms(1)])
  have ct: "ParaEnc T K N S (AES_opt_key_schedule us) dst = Inr ((), enc)"
    unfolding ParaEnc_def ParaEnc_impl_def
    using writes_start [OF plain.mem_tiles [OF keys key_schedule_keys(1), where aux = None] assms(2,3)] by (simp add: e)
  have rt: "ParaEnc_rt T S (AES_opt_key_schedule us) (int K) (int N) dst = Inr ((), enc)"
    unfolding ParaEnc_rt_def ParaEnc_runtime_impl_def
    using writes_start [OF plain.runtime [OF keys key_schedule_keys(1)] assms(2,3)] by (simp add: e)
  have one: "map (\<lambda>i. aes_rounds ([AES_set_encrypt_key k] ! (i div n)) (dst ! i)) [0..<n] = map (aes128_block k) (take n dst)"
    using assms(4) by (simp add: set_encrypt_key aes_rounds_ref flip: ecb_map)
  have k1: "1 \<le> length [AES_set_encrypt_key k]" "\<forall>kk \<in> set [AES_set_encrypt_key k]. length kk = 11" by (simp_all add: set_encrypt_key)
  have ecb: "AES_ecb_encrypt_blks T (int n) (AES_set_encrypt_key k) dst = Inr ((), map (aes128_block k) (take n dst) @ drop n dst)"
    unfolding AES_ecb_encrypt_blks_def ParaEnc_rt_def ParaEnc_runtime_impl_def
    using writes_start [OF plain.runtime [OF k1, of T 0 None 0 n], of dst] assms(4) one by (simp add: srcbuf_def)
  have ecbN: "AES_ecb_encrypt_blks_N T n (AES_set_encrypt_key k) dst = Inr ((), map (aes128_block k) (take n dst) @ drop n dst)"
    unfolding AES_ecb_encrypt_blks_N_def ParaEnc_def ParaEnc_impl_def
    using writes_start [OF plain.mem_tiles [OF k1, of None T n 0 None 0], of dst] assms(4) one by (simp add: srcbuf_def)
  from ct rt ecb ecbN show ?thesis unfolding Let_def enc_def by blast
qed

lemma batched_aes_correct_witness:
  "let key = block_of [0x00, 0x01, 0x02, 0x03, 0x04, 0x05, 0x06, 0x07, 0x08, 0x09, 0x0A, 0x0B, 0x0C, 0x0D, 0x0E, 0x0F];
       m = block_of [0x00, 0x11, 0x22, 0x33, 0x44, 0x55, 0x66, 0x77, 0x88, 0x99, 0xAA, 0xBB, 0xCC, 0xDD, 0xEE, 0xFF];
       c = block_of [0x69, 0xC4, 0xE0, 0xD8, 0x6A, 0x7B, 0x04, 0x30, 0xD8, 0xCD, 0xB7, 0x80, 0x70, 0xB4, 0xC5, 0x5A] in
   ParaEnc_rt \<lparr>vaes512 = True, vaes256 = True, aarch64 = False\<rparr> None (AES_opt_key_schedule [key, key]) 2 3 (replicate 6 m) =
     Inr ((), replicate 6 c) \<and>
   AES_ecb_encrypt_blks \<lparr>vaes512 = False, vaes256 = False, aarch64 = True\<rparr> 1 (AES_set_encrypt_key key) [m, m] = Inr ((), [c, m])"
proof -
  define key where "key = block_of [0x00, 0x01, 0x02, 0x03, 0x04, 0x05, 0x06, 0x07, 0x08, 0x09, 0x0A, 0x0B, 0x0C, 0x0D, 0x0E, 0x0F]"
  define m where "m = block_of [0x00, 0x11, 0x22, 0x33, 0x44, 0x55, 0x66, 0x77, 0x88, 0x99, 0xAA, 0xBB, 0xCC, 0xDD, 0xEE, 0xFF]"
  define c where "c = block_of [0x69, 0xC4, 0xE0, 0xD8, 0x6A, 0x7B, 0x04, 0x30, 0xD8, 0xCD, 0xB7, 0x80, 0x70, 0xB4, 0xC5, 0x5A]"
  have enc: "aes128_block key m = c"
    unfolding aes128_block_def key_def m_def c_def using AES128_example by simp
  have six: "map (\<lambda>i. aes128_block ([key, key] ! (i div 3)) (replicate 6 m ! i)) [0..<6] = replicate 6 c"
  proof (rule nth_equalityI)
    fix i
    assume "i < length (map (\<lambda>i. aes128_block ([key, key] ! (i div 3)) (replicate 6 m ! i)) [0..<6])"
    then have "i < 6" "i div 3 = 0 \<or> i div 3 = 1" by auto
    then show "map (\<lambda>i. aes128_block ([key, key] ! (i div 3)) (replicate 6 m ! i)) [0..<6] ! i = replicate 6 c ! i"
      using enc by (auto simp del: upt_rec_numeral)
  qed simp
  have "ParaEnc_rt \<lparr>vaes512 = True, vaes256 = True, aarch64 = False\<rparr> None (AES_opt_key_schedule [key, key]) 2 3 (replicate 6 m) =
      Inr ((), replicate 6 c)"
    using batched_aes_correct [of "[key, key]" 2 3 "replicate 6 m" None 0 "\<lparr>vaes512 = True, vaes256 = True, aarch64 = False\<rparr>" 0] six
    by (simp add: srcbuf_def Let_def del: upt_rec_numeral)
  moreover have "AES_ecb_encrypt_blks \<lparr>vaes512 = False, vaes256 = False, aarch64 = True\<rparr> 1 (AES_set_encrypt_key key) [m, m] =
      Inr ((), [c, m])"
    using batched_aes_correct [of "[]" 0 0 "[m, m]" None 1] enc by (simp add: Let_def)
  ultimately show ?thesis unfolding Let_def key_def m_def c_def by blast
qed

end
