(* ===== verification/Mitccrh.thy ===== *)
theory Mitccrh
  imports Aes_Kernels
begin

text \<open>
  \<open>runtime/crypto/mitccrh.h\<close>: the multi-instance tweakable correlation-robust hash. The class is the record
  \<open>MITCCRH\<close>; its template parameters \<open>BatchSize\<close> and \<open>ReuseShift\<close> are the arguments \<open>B\<close> and \<open>R\<close>. The gate id is a
  64-bit counter that wraps.

  The specification of a hash depends on the start point, the gate id and \<open>R\<close> only: block \<open>i\<close> of a call that
  starts at gate id \<open>g\<close> is hashed under \<open>g + i / H\<close>. The invariant \<open>mitccrh_ok\<close> says that the cached key schedule is
  the one this specification asks for; every operation preserves it, so batching, bucket reuse and schedule
  caching cannot be observed.
\<close>

section \<open>The class\<close>

record MITCCRH =
  scheduled_key :: "AES_KEY list"
  mi_keys :: "block list"
  key_used :: nat
  start_point :: block
  gid :: "64 word"
  scheduled_bucket :: "64 word"
  lane_gid0 :: "64 word"

text \<open>A fresh object: the arrays and the start point are uninitialised, \<open>junk\<close>.\<close>

definition MITCCRH_new :: "nat \<Rightarrow> AES_KEY list \<times> block list \<times> block \<Rightarrow> MITCCRH" where
  "MITCCRH_new B junk = (case junk of (sk, ks, sp) \<Rightarrow>
     \<lparr>scheduled_key = sk, mi_keys = ks, key_used = B, start_point = sp, gid = 0, scheduled_bucket = NOT 0, lane_gid0 = 0\<rparr>)"

definition setS :: "nat \<Rightarrow> block \<Rightarrow> MITCCRH \<Rightarrow> MITCCRH" where
  "setS B sin st = st\<lparr>start_point := sin, gid := 0, key_used := B, scheduled_bucket := NOT 0, lane_gid0 := 0\<rparr>"

text \<open>\<open>AES_opt_key_schedule<1>\<close> writes the first entry of the schedule array only.\<close>

definition renew_ks :: "nat \<Rightarrow> nat \<Rightarrow> MITCCRH \<Rightarrow> MITCCRH" where
  "renew_ks B R st =
     (let st = st\<lparr>lane_gid0 := gid st\<rparr>;
          st = (if R = 0 then
                  let (ks, g) = fold (\<lambda>i (ks, g). (ks[i := start_point st XOR makeBlock g 0], g + 1)) [0..<B] (mi_keys st, gid st) in
                  st\<lparr>mi_keys := ks, gid := g, scheduled_key := AES_opt_key_schedule ks\<rparr>
                else
                  let first = drop_bit R (gid st); last = drop_bit R (gid st + of_nat B - 1);
                      st = (if first = last then
                              if first \<noteq> scheduled_bucket st then
                                let ks = (mi_keys st)[0 := start_point st XOR makeBlock first 0] in
                                st\<lparr>mi_keys := ks, scheduled_key := (scheduled_key st)[0 := hd (AES_opt_key_schedule [ks ! 0])],
                                   scheduled_bucket := first\<rparr>
                              else st
                            else
                              let ks = fold (\<lambda>i ks. ks[i := start_point st XOR makeBlock (drop_bit R (gid st + of_nat i)) 0]) [0..<B] (mi_keys st) in
                              st\<lparr>mi_keys := ks, scheduled_key := AES_opt_key_schedule ks, scheduled_bucket := NOT 0\<rparr>) in
                  st\<lparr>gid := gid st + of_nat B\<rparr>) in
      st\<lparr>key_used := 0\<rparr>)"

definition renew_ks_at :: "nat \<Rightarrow> nat \<Rightarrow> 64 word \<Rightarrow> MITCCRH \<Rightarrow> MITCCRH" where
  "renew_ks_at B R g st = renew_ks B R (st\<lparr>gid := g\<rparr>)"

definition consume ::
  "nat \<Rightarrow> nat \<Rightarrow> mem_tile \<Rightarrow> tier \<Rightarrow> nat \<Rightarrow> nat \<Rightarrow> block list option \<Rightarrow> MITCCRH \<Rightarrow> (block list, MITCCRH) gm" where
  "consume B R tile T K H src st =
     (let st = (if B < key_used st + K then renew_ks B R st else st);
          g0 = lane_gid0 st + of_nat (key_used st) in
      if 0 < R \<and> scheduled_bucket st \<noteq> NOT 0 then
        bind (ParaEnc_mem_tiles_impl tile T 1 (K * H) 0 src 0 (scheduled_key st) (Some [makeBlock g0 0])) (\<lambda>_.
        ret (st\<lparr>key_used := key_used st + K\<rparr>))
      else
        let tb = map (\<lambda>k. makeBlock (g0 + of_nat k) 0) [0..<K] in
        bind (ParaEnc_mem_tiles_impl tile T K H 0 src 0 (drop (key_used st) (scheduled_key st)) (Some tb)) (\<lambda>_.
        ret (st\<lparr>key_used := key_used st + K\<rparr>)))"

text \<open>\<open>hash_cir\<close> and \<open>hash\<close>; \<open>None\<close> is the in-place overload.\<close>

definition hash_cir :: "nat \<Rightarrow> nat \<Rightarrow> tier \<Rightarrow> nat \<Rightarrow> nat \<Rightarrow> block list option \<Rightarrow> MITCCRH \<Rightarrow> (block list, MITCCRH) gm" where
  "hash_cir B R T K H src st = consume B R (AesMemXorSigmaTweakTile H) T K H src st"

definition hash :: "nat \<Rightarrow> nat \<Rightarrow> tier \<Rightarrow> nat \<Rightarrow> nat \<Rightarrow> block list option \<Rightarrow> MITCCRH \<Rightarrow> (block list, MITCCRH) gm" where
  "hash B R T K H src st = consume B R (AesMemXorInputTweakTile H) T K H src st"

section \<open>The specification\<close>

definition mi_key :: "nat \<Rightarrow> block \<Rightarrow> 64 word \<Rightarrow> block" where
  "mi_key R S g = S XOR makeBlock (drop_bit R g) 0"

definition mi_hash :: "nat \<Rightarrow> block \<Rightarrow> 64 word \<Rightarrow> block \<Rightarrow> block" where
  "mi_hash R S g x = (let y = x XOR makeBlock g 0 in aes128_block (mi_key R S g) y XOR y)"

definition valid_params :: "nat \<Rightarrow> nat \<Rightarrow> bool" where
  "valid_params B R \<longleftrightarrow> 0 < B \<and> B < 2 ^ 31 \<and> R < 32"

text \<open>The schedule array holds what the next lanes need, and the cached bucket is really scheduled.\<close>

definition lane_keys_ok :: "nat \<Rightarrow> nat \<Rightarrow> MITCCRH \<Rightarrow> bool" where
  "lane_keys_ok B R st \<longleftrightarrow>
     (\<forall>k < B. let key = mi_key R (start_point st) (lane_gid0 st + of_nat k) in
        scheduled_key st ! (if 0 < R \<and> scheduled_bucket st \<noteq> NOT 0 then 0 else k) = sched_keys 10 key)"

text \<open>The C array types: \<open>B\<close> entries, and an \<open>AES_KEY\<close> is eleven blocks.\<close>

definition arrays_ok :: "nat \<Rightarrow> MITCCRH \<Rightarrow> bool" where
  "arrays_ok B st \<longleftrightarrow> length (scheduled_key st) = B \<and> (\<forall>kk \<in> set (scheduled_key st). length kk = 11) \<and> length (mi_keys st) = B"

definition mitccrh_ok :: "nat \<Rightarrow> nat \<Rightarrow> MITCCRH \<Rightarrow> bool" where
  "mitccrh_ok B R st \<longleftrightarrow>
     arrays_ok B st \<and> key_used st \<le> B \<and>
     (0 < R \<and> scheduled_bucket st \<noteq> NOT 0 \<longrightarrow>
        scheduled_key st ! 0 = sched_keys 10 (start_point st XOR makeBlock (scheduled_bucket st) 0)) \<and>
     (key_used st < B \<longrightarrow> lane_keys_ok B R st \<and> gid st = lane_gid0 st + of_nat B)"

text \<open>The gate id the next call of \<open>K\<close> lanes starts at.\<close>

definition next_gid :: "nat \<Rightarrow> nat \<Rightarrow> MITCCRH \<Rightarrow> 64 word" where
  "next_gid B K st = (if B < key_used st + K then gid st else lane_gid0 st + of_nat (key_used st))"

section \<open>The cached schedule\<close>

lemma makeBlock_halves: "ucast (makeBlock h l) = l" "ucast (drop_bit 64 (makeBlock h l)) = h"
  by (rule bit_word_eqI, simp add: bit_simps bit_makeBlock)+

lemma add_tweak: "add_epi64 (makeBlock g 0) (makeBlock n 0) = makeBlock (g + n) 0"
  by (simp add: add_epi64_def makeBlock_halves)

lemma fold_keys:
  "n \<le> length ks \<Longrightarrow> fold (\<lambda>i ks. ks[i := f i]) [0..<n] ks = map f [0..<n] @ drop n ks"
  by (induction n) (simp_all add: list_update_append flip: Cons_nth_drop_Suc)

lemma fold_keys_counter:
  "n \<le> length ks \<Longrightarrow> fold (\<lambda>i (ks, g). (ks[i := f g], g + 1)) [0..<n] (ks, g) =
    (map (\<lambda>i. f (g + of_nat i)) [0..<n] @ drop n ks, g + of_nat n)" for g :: "64 word"
  by (induction n) (simp_all add: list_update_append ac_simps flip: Cons_nth_drop_Suc)

lemma drop_bit_not_all_ones: "0 < R \<Longrightarrow> drop_bit R g \<noteq> (NOT 0 :: 64 word)"
proof
  assume "0 < R" and "drop_bit R g = (NOT 0 :: 64 word)"
  then have "bit (drop_bit R g) 63" by simp
  then have "bit g (R + 63)" by (simp add: bit_drop_bit_eq)
  from bit_imp_le_length [OF this] \<open>0 < R\<close> show False by simp
qed

lemma same_bucket:
  assumes "valid_params B R" and "k < B" and "drop_bit R g = drop_bit R (g + of_nat B - 1)"
  shows "drop_bit R (g + of_nat k) = (drop_bit R g :: 64 word)"
proof -
  have B: "0 < B" "B < 2 ^ 31" and R: "R < 32" using assms(1) by (simp_all add: valid_params_def)
  have div: "unat (drop_bit R w) = unat w div 2 ^ R" for w :: "64 word"
    by (simp only: unat_drop_bit_eq [of R w] drop_bit_eq_div [of R "unat w"])
  define a where "a = unat g"
  have a: "a < 2 ^ 64" using unsigned_less [where 'a = nat, of g] by (simp add: a_def)
  have add: "unat (g + of_nat i) = (a + i) mod 2 ^ 64" for i
    by (simp add: a_def unat_word_ariths unat_of_nat mod_add_right_eq)
  have g: "g + of_nat B - 1 = g + of_nat (B - 1)" using B(1) by (simp add: of_nat_diff)
  have eq: "a div 2 ^ R = (a + (B - 1)) mod 2 ^ 64 div 2 ^ R"
    using arg_cong [OF assms(3), of unat] unfolding g div add by (simp add: a_def)
  have p: "(2 :: nat) ^ R \<le> 2 ^ 31" using R by (intro power_increasing) simp_all
  have small: "a + (B - 1) < 2 ^ 64"
  proof (rule ccontr)
    assume n: "\<not> a + (B - 1) < 2 ^ 64"
    then have m: "(a + (B - 1)) mod 2 ^ 64 = a + (B - 1) - 2 ^ 64" using a B(2) by (simp add: mod_if)
    have "a < Suc (a div 2 ^ R) * 2 ^ R" using dividend_less_div_times [of "2 ^ R" a] by simp
    moreover have "a div 2 ^ R * 2 ^ R \<le> a + (B - 1) - 2 ^ 64" unfolding eq m by (rule div_times_less_eq_dividend)
    ultimately show False using n p B(2) a by simp
  qed
  then have "a div 2 ^ R \<le> (a + k) div 2 ^ R" "(a + k) div 2 ^ R \<le> (a + (B - 1)) div 2 ^ R"
    using assms(2) by (simp_all add: div_le_mono)
  then have "unat (drop_bit R (g + of_nat k)) = unat (drop_bit R g)"
    unfolding div add using eq small assms(2) by (simp flip: a_def)
  then show ?thesis by (simp only: word_unat_eq_iff)
qed

definition cache_ok :: "nat \<Rightarrow> nat \<Rightarrow> MITCCRH \<Rightarrow> bool" where
  "cache_ok B R st \<longleftrightarrow> arrays_ok B st \<and>
     (0 < R \<and> scheduled_bucket st \<noteq> NOT 0 \<longrightarrow>
        scheduled_key st ! 0 = sched_keys 10 (start_point st XOR makeBlock (scheduled_bucket st) 0))"

lemma renew_ks_ok:
  assumes p: "valid_params B R" and c: "cache_ok B R st"
  shows "mitccrh_ok B R (renew_ks B R st) \<and> key_used (renew_ks B R st) = 0 \<and> lane_gid0 (renew_ks B R st) = gid st \<and>
    gid (renew_ks B R st) = gid st + of_nat B \<and> start_point (renew_ks B R st) = start_point st"
proof -
  have B: "0 < B" using p by (simp add: valid_params_def)
  have len: "length (scheduled_key st) = B" "length (mi_keys st) = B" "\<forall>kk \<in> set (scheduled_key st). length kk = 11"
    using c by (simp_all add: cache_ok_def arrays_ok_def)
  have upd: "\<forall>kk \<in> set ((scheduled_key st)[0 := sched_keys 10 k]). length kk = 11" for k
    using len(3) by (auto dest: set_mp [OF set_update_subset_insert])
  consider (fresh) "R = 0" | (uniform) "0 < R" "drop_bit R (gid st) = drop_bit R (gid st + of_nat B - 1)"
    | (mixed) "0 < R" "drop_bit R (gid st) \<noteq> drop_bit R (gid st + of_nat B - 1)" by auto
  then show ?thesis
  proof cases
    case fresh
    then show ?thesis
      using len by (simp add: renew_ks_def Let_def fold_keys_counter mitccrh_ok_def arrays_ok_def lane_keys_ok_def key_schedule mi_key_def)
  next
    case mixed
    then show ?thesis
      using len by (simp add: renew_ks_def Let_def fold_keys mitccrh_ok_def arrays_ok_def lane_keys_ok_def key_schedule mi_key_def)
  next
    case uniform
    let ?g = "gid st" and ?b = "drop_bit R (gid st)"
    have key: "mi_key R S (?g + of_nat k) = S XOR makeBlock ?b 0" if "k < B" for k S
      using same_bucket [OF p that uniform(2)] by (simp add: mi_key_def)
    have ne: "?b \<noteq> NOT 0" by (rule drop_bit_not_all_ones [OF uniform(1)])
    show ?thesis
    proof (cases "?b = scheduled_bucket st")
      case True
      then have "scheduled_key st ! 0 = sched_keys 10 (start_point st XOR makeBlock ?b 0)"
        using c ne uniform(1) by (simp add: cache_ok_def)
      moreover from True uniform have "renew_ks B R st = st\<lparr>lane_gid0 := ?g, gid := ?g + of_nat B, key_used := 0\<rparr>"
        by (simp add: renew_ks_def Let_def)
      ultimately show ?thesis
        using True ne uniform(1) len key by (simp add: mitccrh_ok_def arrays_ok_def lane_keys_ok_def Let_def)
    next
      case False
      let ?k = "start_point st XOR makeBlock ?b 0"
      from False uniform len B have "renew_ks B R st = st\<lparr>lane_gid0 := ?g, mi_keys := (mi_keys st)[0 := ?k],
          scheduled_key := (scheduled_key st)[0 := sched_keys 10 ?k], scheduled_bucket := ?b, gid := ?g + of_nat B, key_used := 0\<rparr>"
        by (simp add: renew_ks_def Let_def key_schedule)
      then show ?thesis
        using ne uniform(1) len upd key B by (simp add: mitccrh_ok_def arrays_ok_def lane_keys_ok_def Let_def)
    qed
  qed
qed

lemma mitccrh_ok_cache: "mitccrh_ok B R st \<Longrightarrow> cache_ok B R (st\<lparr>gid := g\<rparr>)"
  by (simp add: mitccrh_ok_def cache_ok_def arrays_ok_def)

lemma setS_ok: "arrays_ok B st \<Longrightarrow> mitccrh_ok B R (setS B S st)"
  by (simp add: setS_def mitccrh_ok_def arrays_ok_def)

lemma renew_ks_at_ok:
  "valid_params B R \<Longrightarrow> mitccrh_ok B R st \<Longrightarrow>
   mitccrh_ok B R (renew_ks_at B R g st) \<and> key_used (renew_ks_at B R g st) = 0 \<and> lane_gid0 (renew_ks_at B R g st) = g \<and>
   start_point (renew_ks_at B R g st) = start_point st"
  using renew_ks_ok [of B R "st\<lparr>gid := g\<rparr>"] mitccrh_ok_cache [of B R st g] by (simp add: renew_ks_at_def)

text \<open>What a tweaked tile computes on block \<open>i\<close> of a key's run, with \<open>\<tau>\<close> the identity or \<open>sigma\<close>.\<close>

definition tweaked :: "(block \<Rightarrow> block) \<Rightarrow> nat \<Rightarrow> AES_KEY \<Rightarrow> block \<Rightarrow> nat \<Rightarrow> block \<Rightarrow> block" where
  "tweaked \<tau> span kk tb i b = (let y = \<tau> b XOR add_epi64 tb (makeBlock (of_nat (i div span)) 0) in aes_rounds kk y XOR y)"

lemma tweaked_tiles:
  "mem_tile (AesMemXorSigmaTweakTile span) (tweaked sigma span)" "mem_tile (AesMemXorInputTweakTile span) (tweaked (\<lambda>b. b) span)"
  using xor_sigma_tweak.mem_tile_axioms [of span] xor_input_tweak.mem_tile_axioms [of span] by (simp_all add: tweaked_def [abs_def])

lemma tweaked_hash:
  "kk = sched_keys 10 (mi_key R S (g + of_nat (i div span))) \<Longrightarrow>
   tweaked \<tau> span kk (makeBlock g 0) i b = mi_hash R S (g + of_nat (i div span)) (\<tau> b)"
  by (simp add: tweaked_def mi_hash_def add_tweak aes_rounds_ref)

definition mi_advance :: "nat \<Rightarrow> nat \<Rightarrow> nat \<Rightarrow> MITCCRH \<Rightarrow> MITCCRH" where
  "mi_advance B R K st = (let st = (if B < key_used st + K then renew_ks B R st else st) in st\<lparr>key_used := key_used st + K\<rparr>)"

text \<open>The state a call computes with: it has \<open>K\<close> lanes left, and its schedule is right.\<close>

lemma ready_state:
  assumes "valid_params B R" and "mitccrh_ok B R st" and "0 < K" and "K \<le> B"
  defines "st1 \<equiv> if B < key_used st + K then renew_ks B R st else st"
  shows "mitccrh_ok B R st1" "lane_keys_ok B R st1" "key_used st1 + K \<le> B" "start_point st1 = start_point st"
    "lane_gid0 st1 + of_nat (key_used st1) = next_gid B K st" "gid st1 = lane_gid0 st1 + of_nat B"
proof -
  have r: "cache_ok B R st" using assms(2) mitccrh_ok_cache [of B R st "gid st"] by simp
  note renew = renew_ks_ok [OF assms(1) r]
  show ok: "mitccrh_ok B R st1" and ku: "key_used st1 + K \<le> B" and "start_point st1 = start_point st"
    and "lane_gid0 st1 + of_nat (key_used st1) = next_gid B K st"
    using renew assms by (auto simp: st1_def next_gid_def)
  from ok ku assms(3) show "lane_keys_ok B R st1" "gid st1 = lane_gid0 st1 + of_nat B"
    by (auto simp: mitccrh_ok_def)
qed

lemma consume_ok:
  assumes p: "valid_params B R" and ok: "mitccrh_ok B R st" and K: "0 < K" "K \<le> B" and H: "0 < H"
    and tile: "mem_tile tile (tweaked \<tau> H)"
    and mem: "K * H \<le> length mem" "case src of None \<Rightarrow> True | Some b \<Rightarrow> K * H \<le> length b"
  shows "consume B R tile T K H src st mem =
    Inr (mi_advance B R K st,
      map (\<lambda>i. mi_hash R (start_point st) (next_gid B K st + of_nat (i div H)) (\<tau> (srcbuf src mem ! i))) [0..<K * H] @ drop (K * H) mem)"
proof -
  define st1 where "st1 = (if B < key_used st + K then renew_ks B R st else st)"
  note st1 = ready_state [OF p ok K, folded st1_def]
  let ?g = "next_gid B K st" and ?S = "start_point st"
  have adv: "mi_advance B R K st = st1\<lparr>key_used := key_used st1 + K\<rparr>" by (simp add: mi_advance_def st1_def Let_def)
  have len: "length (scheduled_key st1) = B" "\<forall>kk \<in> set (scheduled_key st1). length kk = 11"
    using st1(1) by (simp_all add: mitccrh_ok_def arrays_ok_def)
  have lane: "lane_gid0 st1 + of_nat (key_used st1 + k) = ?g + of_nat k" for k using st1(5) by (simp flip: add.assoc)
  have key: "scheduled_key st1 ! (if 0 < R \<and> scheduled_bucket st1 \<noteq> NOT 0 then 0 else key_used st1 + k) =
      sched_keys 10 (mi_key R ?S (?g + of_nat k))" if "k < K" for k
    using st1(2) [unfolded lane_keys_ok_def Let_def, rule_format, of "key_used st1 + k"] st1(3) that by (simp only: lane st1(4))
  have div: "i div H < K" if "i < K * H" for i using that by (simp add: less_mult_imp_div_less)
  show ?thesis
  proof (cases "0 < R \<and> scheduled_bucket st1 \<noteq> NOT 0")
    case True
    let ?m = "ParaEnc_mem_tiles_impl tile T 1 (K * H) 0 src 0 (scheduled_key st1) (Some [makeBlock ?g 0])"
    have "writes ?m (\<lambda>i b. mi_hash R ?S (?g + of_nat (i div H)) (\<tau> b)) src 0 0 (1 * (K * H))"
    proof (rule writes_cong)
      fix i b
      assume i: "i < 1 * (K * H)"
      with key [OF div [of i]] True
      show "tweaked \<tau> H (scheduled_key st1 ! (i div (K * H))) (tweak_of (Some [makeBlock ?g 0]) (i div (K * H))) (i mod (K * H)) b =
          mi_hash R ?S (?g + of_nat (i div H)) (\<tau> b)"
        by (simp add: tweak_of_def tweaked_hash)
    qed (rule mem_tile.mem_tiles [OF tile], use len K in simp_all)
    from writes_start [OF this [unfolded mult_1] mem]
    have "?m mem = Inr ((), map (\<lambda>i. mi_hash R ?S (?g + of_nat (i div H)) (\<tau> (srcbuf src mem ! i))) [0..<K * H] @ drop (K * H) mem)"
      by simp
    with True show ?thesis
      unfolding consume_def st1_def [symmetric] Let_def st1(5) adv by (simp add: bind_Inr ret_apply)
  next
    case False
    let ?tb = "map (\<lambda>k. makeBlock (?g + of_nat k) 0) [0..<K]"
    let ?m = "ParaEnc_mem_tiles_impl tile T K H 0 src 0 (drop (key_used st1) (scheduled_key st1)) (Some ?tb)"
    have "writes ?m (\<lambda>i b. mi_hash R ?S (?g + of_nat (i div H)) (\<tau> b)) src 0 0 (K * H)"
    proof (rule writes_cong)
      fix i b
      assume i: "i < K * H"
      have tw: "tweak_of (Some ?tb) (i div H) = makeBlock (?g + of_nat (i div H)) 0" using div [OF i] by (simp add: tweak_of_def)
      have "drop (key_used st1) (scheduled_key st1) ! (i div H) = sched_keys 10 (mi_key R ?S (?g + of_nat (i div H)))"
        using key [OF div [OF i]] False len st1(3) by (simp add: if_not_P)
      with H show "tweaked \<tau> H (drop (key_used st1) (scheduled_key st1) ! (i div H)) (tweak_of (Some ?tb) (i div H)) (i mod H) b =
          mi_hash R ?S (?g + of_nat (i div H)) (\<tau> b)"
        unfolding tw using tweaked_hash [of _ R ?S "?g + of_nat (i div H)" "i mod H" H] by simp
    qed (rule mem_tile.mem_tiles [OF tile], use len st1(3) in \<open>auto dest: in_set_dropD\<close>)
    from writes_start [OF this mem]
    have "?m mem = Inr ((), map (\<lambda>i. mi_hash R ?S (?g + of_nat (i div H)) (\<tau> (srcbuf src mem ! i))) [0..<K * H] @ drop (K * H) mem)"
      by simp
    with False show ?thesis
      unfolding consume_def st1_def [symmetric] Let_def st1(5) adv if_not_P [OF False] by (simp add: bind_Inr ret_apply)
  qed
qed

lemma advance_ok:
  assumes p: "valid_params B R" and ok: "mitccrh_ok B R st" and K: "0 < K" "K \<le> B"
  shows "mitccrh_ok B R (mi_advance B R K st)" "start_point (mi_advance B R K st) = start_point st"
    "K dvd B \<Longrightarrow> K dvd key_used st \<Longrightarrow>
      K dvd key_used (mi_advance B R K st) \<and> next_gid B K (mi_advance B R K st) = next_gid B K st + of_nat K"
proof -
  define st1 where "st1 = (if B < key_used st + K then renew_ks B R st else st)"
  note st1 = ready_state [OF p ok K, folded st1_def]
  have adv: "mi_advance B R K st = st1\<lparr>key_used := key_used st1 + K\<rparr>" by (simp add: mi_advance_def st1_def Let_def)
  show "mitccrh_ok B R (mi_advance B R K st)" "start_point (mi_advance B R K st) = start_point st"
    using st1 by (simp_all add: adv mitccrh_ok_def arrays_ok_def lane_keys_ok_def)
  assume d: "K dvd B" "K dvd key_used st"
  have r: "key_used (renew_ks B R st) = 0"
    using renew_ks_ok [OF p] ok mitccrh_ok_cache [of B R st "gid st"] by simp
  have "K dvd key_used st1" unfolding st1_def using d(2) r by (simp split: if_split)
  then have d': "K dvd key_used st1 + K" by simp
  have next': "next_gid B K (mi_advance B R K st) = lane_gid0 st1 + of_nat (key_used st1 + K)"
  proof (cases "B < key_used st1 + K + K")
    case True
    from d(1) d' obtain b k where bk: "B = K * b" "key_used st1 + K = K * k" by (auto simp: dvd_def)
    with True st1(3) have "K * b < K * Suc k" "K * k \<le> K * b" by simp_all
    with K(1) have "k = b" unfolding mult_less_cancel1 mult_le_cancel1 by simp
    with bk have "key_used st1 + K = B" by simp
    with True show ?thesis by (simp add: adv next_gid_def st1(6))
  qed (simp add: adv next_gid_def)
  with d' st1(5) show "K dvd key_used (mi_advance B R K st) \<and> next_gid B K (mi_advance B R K st) = next_gid B K st + of_nat K"
    by (simp add: adv flip: add.assoc)
qed

text \<open>
  (C6) The hash computes its specification whatever is batched, shared or cached. In every reachable state a call
  of \<open>hash_cir\<close> (with the orthomorphism) or \<open>hash\<close> on \<open>K\<close> lanes of \<open>H\<close> blocks, in place or not, on every tier, writes
  \<open>y \<oplus> AES(S \<oplus> (g >> R), y)\<close> with \<open>y = x \<oplus> T(g)\<close> for block \<open>i\<close>, where \<open>g\<close> is the next gate id plus \<open>i / H\<close>; it keeps the
  invariant and the start point, and calls of one lane count consume consecutive gate ids. \<open>setS\<close> starts the
  stream at 0 and \<open>renew_ks\<close> repositions it.
\<close>

theorem mitccrh_hash_correct:
  assumes "valid_params B R" and "mitccrh_ok B R st" and "0 < K" and "K \<le> B" and "0 < H"
    and "K * H \<le> length mem" and "case src of None \<Rightarrow> True | Some b \<Rightarrow> K * H \<le> length b"
  shows "(\<exists>st'. (\<forall>cir. (if cir then hash_cir else hash) B R T K H src st mem =
      Inr (st', map (\<lambda>i. mi_hash R (start_point st) (next_gid B K st + of_nat (i div H))
          (if cir then sigma (srcbuf src mem ! i) else srcbuf src mem ! i)) [0..<K * H] @ drop (K * H) mem)) \<and>
      mitccrh_ok B R st' \<and> start_point st' = start_point st \<and>
      (K dvd B \<and> K dvd key_used st \<longrightarrow> K dvd key_used st' \<and> next_gid B K st' = next_gid B K st + of_nat K)) \<and>
    mitccrh_ok B R (setS B S st) \<and> next_gid B K (setS B S st) = 0 \<and> start_point (setS B S st) = S \<and>
    mitccrh_ok B R (renew_ks_at B R g st) \<and> next_gid B K (renew_ks_at B R g st) = g"
proof -
  note c = consume_ok [OF assms(1-5) tweaked_tiles(1) assms(6,7)] consume_ok [OF assms(1-5) tweaked_tiles(2) assms(6,7)]
  note adv = advance_ok [OF assms(1-4)]
  have S: "mitccrh_ok B R (setS B S st) \<and> next_gid B K (setS B S st) = 0 \<and> start_point (setS B S st) = S"
    using assms(2,3) setS_ok by (simp add: mitccrh_ok_def next_gid_def setS_def)
  have at: "mitccrh_ok B R (renew_ks_at B R g st) \<and> next_gid B K (renew_ks_at B R g st) = g"
    using renew_ks_at_ok [OF assms(1,2), of g] assms(4) by (simp add: next_gid_def)
  have "\<forall>cir. (if cir then hash_cir else hash) B R T K H src st mem =
      Inr (mi_advance B R K st, map (\<lambda>i. mi_hash R (start_point st) (next_gid B K st + of_nat (i div H))
          (if cir then sigma (srcbuf src mem ! i) else srcbuf src mem ! i)) [0..<K * H] @ drop (K * H) mem)"
    using c by (simp add: hash_cir_def hash_def)
  with adv S at show ?thesis by blast
qed

lemma mitccrh_hash_correct_witness:
  "\<exists>st' mem'. hash_cir 8 3 \<lparr>vaes512 = False, vaes256 = False, aarch64 = False\<rparr> 2 2 (Some [1, 2, 3, 4])
      (setS 8 7 (MITCCRH_new 8 (replicate 8 (replicate 11 0), replicate 8 0, 0))) (replicate 4 0) = Inr (st', mem') \<and>
     mem' = map (\<lambda>i. mi_hash 3 7 (of_nat (i div 2)) (sigma ([1, 2, 3, 4] ! i))) [0..<4] \<and> next_gid 8 2 st' = 2"
proof -
  let ?st = "setS 8 7 (MITCCRH_new 8 (replicate 8 (replicate 11 0), replicate 8 0, 0))"
  have ok: "mitccrh_ok 8 3 ?st" by (rule setS_ok) (simp add: arrays_ok_def MITCCRH_new_def)
  have st: "start_point ?st = 7" "next_gid 8 2 ?st = 0" "2 dvd key_used ?st" by (simp_all add: setS_def next_gid_def)
  from mitccrh_hash_correct [OF _ ok, of 2 2 "replicate 4 0" "Some [1, 2, 3, 4]" "\<lparr>vaes512 = False, vaes256 = False, aarch64 = False\<rparr>" 0 0]
  obtain st' where h: "\<forall>cir. (if cir then hash_cir else hash) 8 3 \<lparr>vaes512 = False, vaes256 = False, aarch64 = False\<rparr> 2 2
        (Some [1, 2, 3, 4]) ?st (replicate 4 0) =
      Inr (st', map (\<lambda>i. mi_hash 3 7 (0 + of_nat (i div 2))
          (if cir then sigma ([1, 2, 3, 4] ! i) else [1, 2, 3, 4] ! i)) [0..<4] @ drop 4 (replicate 4 0))"
    and n: "next_gid 8 2 st' = 0 + of_nat 2"
    unfolding st by (auto simp: valid_params_def srcbuf_def st)
  from h [rule_format, of True] n show ?thesis by (simp del: upt_rec_numeral)
qed

end
