(* ===== verification/Garble.thy ===== *)
theory Garble
  imports Mitccrh
begin

text \<open>
  \<open>runtime/execution/half_gate.h\<close> and \<open>runtime/execution/privacy_free.h\<close>: garbling and evaluating one AND gate.
  \<open>halfgates_garble\<close> and \<open>halfgates_eval\<close> are templates over the hash class; here they take the class's \<open>hash_cir\<close> as
  an argument, and the locale \<open>gate_hash\<close> is what they need of it: two lanes of a common hash function at
  consecutive gate ids. The half-gates theorem is proved from two such hashes that agree on the function, one
  for each party, and every instantiation of \<open>MITCCRH\<close> interprets the locale, so the parties may differ in batch
  size and tier. Local arrays start with arbitrary contents, \<open>junk\<close>.
\<close>

section \<open>Half gates\<close>

type_synonym 'm hash2 = "nat \<Rightarrow> nat \<Rightarrow> block list option \<Rightarrow> 'm \<Rightarrow> (block list, 'm) gm"

definition halfgates_garble ::
  "'m hash2 \<Rightarrow> block list \<Rightarrow> block \<Rightarrow> block \<Rightarrow> block \<Rightarrow> block \<Rightarrow> block \<Rightarrow> 'm \<Rightarrow> (block \<times> block list \<times> 'm) res" where
  "halfgates_garble hc junk LA0 A1 LB0 B1 delta mitccrh =
     (let pa = getLSB LA0; pb = getLSB LB0 in
      res_bind (hc 2 2 (Some [LA0, A1, LB0, B1]) mitccrh junk) (\<lambda>(mitccrh, H).
        let HLA0 = H ! 0; HA1 = H ! 1; HLB0 = H ! 2; HB1 = H ! 3;
            table0 = HLA0 XOR HA1 XOR (select_mask pb AND delta);
            W0 = HLA0 XOR (select_mask pa AND table0);
            tmp = HLB0 XOR HB1;
            table1 = tmp XOR LA0;
            W0 = W0 XOR (HLB0 XOR (select_mask pb AND tmp)) in
        Inr (W0, [table0, table1], mitccrh)))"

definition halfgates_eval ::
  "'m hash2 \<Rightarrow> block list \<Rightarrow> block \<Rightarrow> block \<Rightarrow> block list \<Rightarrow> 'm \<Rightarrow> (block \<times> 'm) res" where
  "halfgates_eval hc junk A B table mitccrh =
     (let sa = getLSB A; sb = getLSB B in
      res_bind (hc 2 1 (Some [A, B]) mitccrh junk) (\<lambda>(mitccrh, H).
        let W = H ! 0 XOR H ! 1;
            W = W XOR (select_mask sa AND table ! 0);
            W = W XOR (select_mask sb AND table ! 1);
            W = W XOR (select_mask sb AND A) in
        Inr (W, mitccrh)))"

section \<open>Privacy-free garbling\<close>

text \<open>A bit operation on the first byte of a block.\<close>

definition on_byte0 :: "(8 word \<Rightarrow> 8 word) \<Rightarrow> block \<Rightarrow> block" where
  "on_byte0 f x = block_of ((le_bytes x)[0 := f (le_bytes x ! 0)])"

definition privacy_free_garble ::
  "tier \<Rightarrow> block \<Rightarrow> block \<Rightarrow> block \<Rightarrow> block \<Rightarrow> block \<Rightarrow> 64 word \<Rightarrow> AES_KEY \<Rightarrow> (block \<times> block) res" where
  "privacy_free_garble T LA0 A1 LB0 B1 delta idx key =
     (let tweak = makeBlock (2 * idx) 0;
          masks = [sigma LA0 XOR tweak, sigma A1 XOR tweak] in
      res_bind (AES_ecb_encrypt_blks T 2 key masks) (\<lambda>(_, keys).
        let HLA0 = keys ! 0 XOR masks ! 0;
            HA1 = keys ! 1 XOR masks ! 1;
            HLA0 = on_byte0 (\<lambda>c. c AND 0xfe) HLA0;
            HA1 = on_byte0 (\<lambda>c. c OR 1) HA1;
            tmp = HLA0 XOR HA1 in
        Inr (HLA0, tmp XOR LB0)))"

definition privacy_free_eval :: "tier \<Rightarrow> block \<Rightarrow> block \<Rightarrow> block \<Rightarrow> 64 word \<Rightarrow> AES_KEY \<Rightarrow> block res" where
  "privacy_free_eval T A B table idx key =
     (let tweak = makeBlock (2 * idx) 0;
          tmp = sigma A XOR tweak;
          msk = tmp in
      res_bind (AES_ecb_encrypt_blks T 1 key [tmp]) (\<lambda>(_, t).
        let HA = t ! 0 XOR msk in
        if getLSB A then Inr (on_byte0 (\<lambda>c. c OR 1) HA XOR table XOR B)
        else Inr (on_byte0 (\<lambda>c. c AND 0xfe) HA)))"

section \<open>Correctness of half gates\<close>

locale gate_hash =
  fixes hc :: "'m hash2" and ok :: "'m \<Rightarrow> bool" and inst :: "'m \<Rightarrow> block" and nxt :: "'m \<Rightarrow> 64 word"
    and fn :: "block \<Rightarrow> 64 word \<Rightarrow> block \<Rightarrow> block"
  assumes two_lanes: "ok st \<Longrightarrow> 0 < h \<Longrightarrow> 2 * h = length inp \<Longrightarrow> 2 * h = length mem \<Longrightarrow>
    \<exists>st'. hc 2 h (Some inp) st mem = Inr (st', map (\<lambda>i. fn (inst st) (nxt st + of_nat (i div h)) (inp ! i)) [0..<2 * h]) \<and>
      ok st' \<and> inst st' = inst st \<and> nxt st' = nxt st + 2"
    and same_advance: "ok st \<Longrightarrow> 0 < h \<Longrightarrow> 2 * h = length inp \<Longrightarrow> 2 * h = length mem \<Longrightarrow>
      2 * h = length inp' \<Longrightarrow> hc 2 h (Some inp) st mem = Inr (st', v) \<Longrightarrow> hc 2 h (Some inp') st mem = Inr (st'', v') \<Longrightarrow>
      st' = st''"
begin

lemma four_lanes:
  assumes "ok st" and "length mem = 4"
  shows "\<exists>st'. hc 2 2 (Some [a, b, c, d]) st mem =
      Inr (st', [fn (inst st) (nxt st) a, fn (inst st) (nxt st) b, fn (inst st) (nxt st + 1) c, fn (inst st) (nxt st + 1) d]) \<and>
      ok st' \<and> inst st' = inst st \<and> nxt st' = nxt st + 2"
  using two_lanes [OF assms(1), of 2 "[a, b, c, d]" mem] assms(2) by (simp add: four)

lemma pair_lanes:
  assumes "ok st" and "length mem = 2"
  shows "\<exists>st'. \<forall>a b. hc 2 1 (Some [a, b]) st mem = Inr (st', [fn (inst st) (nxt st) a, fn (inst st) (nxt st + 1) b]) \<and>
      ok st' \<and> inst st' = inst st \<and> nxt st' = nxt st + 2"
proof -
  have one: "\<exists>st'. hc 2 1 (Some [a, b]) st mem = Inr (st', [fn (inst st) (nxt st) a, fn (inst st) (nxt st + 1) b]) \<and>
      ok st' \<and> inst st' = inst st \<and> nxt st' = nxt st + 2" for a b
    using two_lanes [OF assms(1), of 1 "[a, b]" mem] assms(2) by (simp add: upt_rec)
  from one [of 0 0] obtain st' where st': "hc 2 1 (Some [0, 0]) st mem = Inr (st', [fn (inst st) (nxt st) 0, fn (inst st) (nxt st + 1) 0])"
    "ok st'" "inst st' = inst st" "nxt st' = nxt st + 2" by blast
  have "hc 2 1 (Some [a, b]) st mem = Inr (st', [fn (inst st) (nxt st) a, fn (inst st) (nxt st + 1) b])" for a b
    using one [of a b] same_advance [OF assms(1), of 1 "[a, b]" mem "[0, 0]"] st'(1) assms(2) by auto
  with st' show ?thesis by blast
qed

end

text \<open>The algebra of one gate: the four hashes are arbitrary functions.\<close>

lemma halfgate_algebra:
  fixes a b :: bool and delta LA0 LB0 :: block and f g :: "block \<Rightarrow> block"
  assumes "bit delta 0"
  defines "A \<equiv> LA0 XOR (if a then delta else 0)" and "B \<equiv> LB0 XOR (if b then delta else 0)"
    and "t0 \<equiv> f LA0 XOR f (LA0 XOR delta) XOR (if bit LB0 0 then delta else 0)"
    and "t1 \<equiv> g LB0 XOR g (LB0 XOR delta) XOR LA0"
  shows "f A XOR g B XOR (if bit A 0 then t0 else 0) XOR (if bit B 0 then t1 else 0) XOR (if bit B 0 then A else 0) =
    f LA0 XOR (if bit LA0 0 then t0 else 0) XOR (g LB0 XOR (if bit LB0 0 then g LB0 XOR g (LB0 XOR delta) else 0)) XOR
    (if a \<and> b then delta else 0)"
  using assms(1) unfolding A_def B_def t0_def t1_def
  by (cases a; cases b; cases "bit LA0 0"; cases "bit LB0 0") (simp_all add: bit_xor_iff xor_ac)

locale half_gates = G: gate_hash hashG okG instG nxtG fn + E: gate_hash hashE okE instE nxtE fn
  for hashG :: "'g hash2" and okG instG nxtG and hashE :: "'e hash2" and okE instE nxtE and fn
begin

lemma gate_correct:
  assumes "bit delta 0" and "okG mg" and "okE me" and "instG mg = instE me" and "nxtG mg = nxtE me"
    and "length jg = 4" and "length je = 2"
  shows "\<exists>W0 table mg' me'. halfgates_garble hashG jg LA0 (LA0 XOR delta) LB0 (LB0 XOR delta) delta mg = Inr (W0, table, mg') \<and>
    (\<forall>a b. halfgates_eval hashE je (LA0 XOR (if a then delta else 0)) (LB0 XOR (if b then delta else 0)) table me =
       Inr (W0 XOR (if a \<and> b then delta else 0), me')) \<and>
    okG mg' \<and> okE me' \<and> instG mg' = instG mg \<and> instE me' = instE me \<and> nxtG mg' = nxtG mg + 2 \<and> nxtE me' = nxtE me + 2"
proof -
  let ?f = "fn (instG mg) (nxtG mg)" and ?g = "fn (instG mg) (nxtG mg + 1)"
  from G.four_lanes [OF assms(2,6)] obtain mg' where
    g: "hashG 2 2 (Some [LA0, LA0 XOR delta, LB0, LB0 XOR delta]) mg jg = Inr (mg', [?f LA0, ?f (LA0 XOR delta), ?g LB0, ?g (LB0 XOR delta)])"
    "okG mg'" "instG mg' = instG mg" "nxtG mg' = nxtG mg + 2" by blast
  from E.pair_lanes [OF assms(3,7)] obtain me' where
    e: "\<And>a b. hashE 2 1 (Some [a, b]) me je = Inr (me', [?f a, ?g b])" "okE me'" "instE me' = instE me" "nxtE me' = nxtE me + 2"
    unfolding assms(4,5) by blast
  let ?t0 = "?f LA0 XOR ?f (LA0 XOR delta) XOR (if bit LB0 0 then delta else 0)"
  let ?t1 = "?g LB0 XOR ?g (LB0 XOR delta) XOR LA0"
  let ?W0 = "?f LA0 XOR (if bit LA0 0 then ?t0 else 0) XOR (?g LB0 XOR (if bit LB0 0 then ?g LB0 XOR ?g (LB0 XOR delta) else 0))"
  have mask: "(if c then - 1 else 0) AND x = (if c then x else 0)" for c and x :: block by simp
  have G: "halfgates_garble hashG jg LA0 (LA0 XOR delta) LB0 (LB0 XOR delta) delta mg = Inr (?W0, [?t0, ?t1], mg')"
    unfolding halfgates_garble_def Let_def g(1) getLSB_bit masks(3) mask by (simp add: xor_ac)
  have "halfgates_eval hashE je (LA0 XOR (if a then delta else 0)) (LB0 XOR (if b then delta else 0)) [?t0, ?t1] me =
      Inr (?W0 XOR (if a \<and> b then delta else 0), me')" for a b
    using halfgate_algebra [OF assms(1), where f = ?f and g = ?g and a = a and b = b and ?LA0.0 = LA0 and ?LB0.0 = LB0]
    unfolding halfgates_eval_def Let_def e(1) getLSB_bit masks(3) mask
    by (simp only: xor.assoc res_bind_Inr prod.case nth_Cons_0 nth_Cons_Suc One_nat_def sum.inject prod.inject simp_thms)
  with G g e show ?thesis by blast
qed

end

text \<open>Every instantiation of \<open>MITCCRH\<close> with an even batch is such a hash.\<close>

definition mi_gate_ok :: "nat \<Rightarrow> nat \<Rightarrow> MITCCRH \<Rightarrow> bool" where
  "mi_gate_ok B R st \<longleftrightarrow> valid_params B R \<and> even B \<and> even (key_used st) \<and> mitccrh_ok B R st"

definition mi_gate_fn :: "nat \<Rightarrow> block \<Rightarrow> 64 word \<Rightarrow> block \<Rightarrow> block" where
  "mi_gate_fn R S g x = mi_hash R S g (sigma x)"

lemma mi_two_lanes:
  assumes "mi_gate_ok B R st" and "0 < h" and "2 * h = length inp" and "2 * h = length mem"
  shows "hash_cir B R T 2 h (Some inp) st mem =
      Inr (mi_advance B R 2 st, map (\<lambda>i. mi_gate_fn R (start_point st) (next_gid B 2 st + of_nat (i div h)) (inp ! i)) [0..<2 * h]) \<and>
    mi_gate_ok B R (mi_advance B R 2 st) \<and> start_point (mi_advance B R 2 st) = start_point st \<and>
    next_gid B 2 (mi_advance B R 2 st) = next_gid B 2 st + 2"
proof -
  from assms(1) have v: "valid_params B R" "mitccrh_ok B R st" "2 \<le> B" and d: "2 dvd B" "2 dvd key_used st"
    by (auto simp: mi_gate_ok_def valid_params_def elim: evenE)
  have "0 < (2 :: nat)" by simp
  note adv = advance_ok [OF v(1,2) this v(3)] advance_ok(3) [OF v(1,2) this v(3) d]
  have "hash_cir B R T 2 h (Some inp) st mem =
      Inr (mi_advance B R 2 st, map (\<lambda>i. mi_gate_fn R (start_point st) (next_gid B 2 st + of_nat (i div h)) (inp ! i)) [0..<2 * h])"
    unfolding hash_cir_def
    using consume_ok [OF v(1,2) _ v(3) assms(2) tweaked_tiles(1), of mem "Some inp" T] assms(3,4)
    by (simp add: mi_gate_fn_def srcbuf_def)
  with adv d v show ?thesis by (simp add: mi_gate_ok_def mi_gate_fn_def fun_eq_iff)
qed

interpretation mi: gate_hash "hash_cir B R T" "mi_gate_ok B R" start_point "next_gid B 2" "mi_gate_fn R" for B R T
proof unfold_locales
  fix st h and inp mem :: "block list"
  assume "mi_gate_ok B R st" and "0 < h" and "2 * h = length inp" and "2 * h = length mem"
  note l = mi_two_lanes [OF this]
  show "\<exists>st'. hash_cir B R T 2 h (Some inp) st mem =
      Inr (st', map (\<lambda>i. mi_gate_fn R (start_point st) (next_gid B 2 st + of_nat (i div h)) (inp ! i)) [0..<2 * h]) \<and>
      mi_gate_ok B R st' \<and> start_point st' = start_point st \<and> next_gid B 2 st' = next_gid B 2 st + 2"
    using l by blast
next
  fix st h and inp mem inp' :: "block list" and st' v st'' v'
  assume ok: "mi_gate_ok B R st" "0 < h" and len: "2 * h = length inp" "2 * h = length mem" "2 * h = length inp'"
    and r: "hash_cir B R T 2 h (Some inp) st mem = Inr (st', v)" "hash_cir B R T 2 h (Some inp') st mem = Inr (st'', v')"
  show "st' = st''" using mi_two_lanes [OF ok len(1,2)] mi_two_lanes [OF ok len(3,2)] r by auto
qed

interpretation mi_gates: half_gates "hash_cir BG R TG" "mi_gate_ok BG R" start_point "next_gid BG 2"
    "hash_cir BE R TE" "mi_gate_ok BE R" start_point "next_gid BE 2" "mi_gate_fn R" for BG BE R TG TE
  by unfold_locales

text \<open>
  (C5) Half gates are correct. Let \<open>\<Delta>\<close> have its lowest bit set, and let garbler and evaluator hold \<open>MITCCRH\<close> objects
  with the same reuse shift and start point and the same next gate id, possibly of different batch sizes and
  built for different tiers. Garbling an AND gate on the labels \<open>LA0, LB0\<close> succeeds, and for all truth values
  \<open>a, b\<close> evaluating the table on the labels of \<open>a\<close> and \<open>b\<close> gives the label of \<open>a \<and> b\<close>; both objects move two gate ids
  ahead and stay in step, so the statement applies to the next gate.
\<close>

theorem halfgates_correct:
  assumes "getLSB delta" and "mi_gate_ok BG R mg" and "mi_gate_ok BE R me"
    and "start_point mg = start_point me" and "next_gid BG 2 mg = next_gid BE 2 me"
    and "length jg = 4" and "length je = 2"
  shows "\<exists>W0 table mg' me'.
    halfgates_garble (hash_cir BG R TG) jg LA0 (LA0 XOR delta) LB0 (LB0 XOR delta) delta mg = Inr (W0, table, mg') \<and>
    (\<forall>a b. halfgates_eval (hash_cir BE R TE) je (LA0 XOR (if a then delta else 0)) (LB0 XOR (if b then delta else 0)) table me =
       Inr (W0 XOR (if a \<and> b then delta else 0), me')) \<and>
    mi_gate_ok BG R mg' \<and> mi_gate_ok BE R me' \<and> start_point mg' = start_point mg \<and> start_point me' = start_point me \<and>
    next_gid BG 2 mg' = next_gid BG 2 mg + 2 \<and> next_gid BE 2 me' = next_gid BE 2 me + 2"
  using assms(1) by (intro mi_gates.gate_correct assms) simp

lemma halfgates_correct_witness:
  "\<exists>W0 table mg' me'.
    halfgates_garble (hash_cir 8 3 \<lparr>vaes512 = True, vaes256 = True, aarch64 = False\<rparr>) (replicate 4 0) 10 (10 XOR 5) 6 (6 XOR 5) 5
      (setS 8 7 (MITCCRH_new 8 (replicate 8 (replicate 11 0), replicate 8 0, 0))) = Inr (W0, table, mg') \<and>
    halfgates_eval (hash_cir 2 3 \<lparr>vaes512 = False, vaes256 = False, aarch64 = True\<rparr>) (replicate 2 0) (10 XOR 5) (6 XOR 5) table
      (setS 2 7 (MITCCRH_new 2 (replicate 2 (replicate 11 0), replicate 2 0, 0))) = Inr (W0 XOR 5, me') \<and>
    next_gid 8 2 mg' = 2 \<and> next_gid 2 2 me' = 2"
proof -
  let ?st = "\<lambda>B. setS B 7 (MITCCRH_new B (replicate B (replicate 11 0), replicate B 0, 0))"
  have ok: "mi_gate_ok B 3 (?st B)" if "0 < B" "even B" "B < 2 ^ 31" for B
    using that setS_ok [of B "MITCCRH_new B (replicate B (replicate 11 0), replicate B 0, 0)" 3 7]
    by (simp add: mi_gate_ok_def valid_params_def arrays_ok_def MITCCRH_new_def setS_def)
  have st: "start_point (?st B) = 7" "next_gid B 2 (?st B) = 0" for B by (simp_all add: setS_def next_gid_def)
  have "\<exists>W0 table mg' me'.
      halfgates_garble (hash_cir 8 3 \<lparr>vaes512 = True, vaes256 = True, aarch64 = False\<rparr>) (replicate 4 0) 10 (10 XOR 5) 6 (6 XOR 5) 5
        (?st 8) = Inr (W0, table, mg') \<and>
      (\<forall>a b. halfgates_eval (hash_cir 2 3 \<lparr>vaes512 = False, vaes256 = False, aarch64 = True\<rparr>) (replicate 2 0)
         (10 XOR (if a then 5 else 0)) (6 XOR (if b then 5 else 0)) table (?st 2) = Inr (W0 XOR (if a \<and> b then 5 else 0), me')) \<and>
      mi_gate_ok 8 3 mg' \<and> mi_gate_ok 2 3 me' \<and> start_point mg' = start_point (?st 8) \<and> start_point me' = start_point (?st 2) \<and>
      next_gid 8 2 mg' = next_gid 8 2 (?st 8) + 2 \<and> next_gid 2 2 me' = next_gid 2 2 (?st 2) + 2"
    by (rule halfgates_correct) (simp_all add: ok st)
  then obtain W0 table mg' me' where
    "halfgates_garble (hash_cir 8 3 \<lparr>vaes512 = True, vaes256 = True, aarch64 = False\<rparr>) (replicate 4 0) 10 (10 XOR 5) 6 (6 XOR 5) 5
        (?st 8) = Inr (W0, table, mg')"
    "\<forall>a b. halfgates_eval (hash_cir 2 3 \<lparr>vaes512 = False, vaes256 = False, aarch64 = True\<rparr>) (replicate 2 0)
         (10 XOR (if a then 5 else 0)) (6 XOR (if b then 5 else 0)) table (?st 2) = Inr (W0 XOR (if a \<and> b then 5 else 0), me')"
    "next_gid 8 2 mg' = 2" "next_gid 2 2 me' = 2" unfolding st by auto
  then show ?thesis using spec [of _ True] by (intro exI conjI) (auto dest!: spec [of _ True])
qed

section \<open>Correctness of privacy-free garbling\<close>

lemma ecb_rounds:
  assumes "length kk = 11" and "n \<le> length dst"
  shows "AES_ecb_encrypt_blks T (int n) kk dst = Inr ((), map (aes_rounds kk) (take n dst) @ drop n dst)"
proof -
  have w: "writes (ParaEnc_mem_tiles_runtime_impl AesMemPlainTile T 0 None 0 [kk] (int 1) (int n)) (\<lambda>i. aes_rounds ([kk] ! (i div n))) None 0 0 (1 * n)"
    by (rule plain.runtime) (use assms in simp_all)
  have "map (\<lambda>i. aes_rounds ([kk] ! (i div n)) (dst ! i)) [0..<n] = map (aes_rounds kk) (take n dst)"
    using assms(2) by (simp flip: ecb_map)
  then show ?thesis
    using writes_start [OF w, of dst] assms(2)
    by (simp add: AES_ecb_encrypt_blks_def ParaEnc_rt_def ParaEnc_runtime_impl_def srcbuf_def)
qed

lemma bit_block_of: "length bs = 16 \<Longrightarrow> i < 128 \<Longrightarrow> bit (block_of bs) i = bit (bs ! (i div 8)) (i mod 8)"
  by (simp add: block_of_def bit_bw bufbits_nth)

lemma bit_on_byte0: "i < 128 \<Longrightarrow> bit (on_byte0 f x) i = (if i < 8 then bit (f (ucast x)) i else bit x i)"
proof -
  assume i: "i < 128"
  have b: "bit (le_bytes x ! (i div 8)) (i mod 8) = bit x i" if "i < 128"
    using bit_block_of [of "le_bytes x" i] that by simp
  have "le_bytes x ! 0 = ucast x" by (simp add: le_bytes_def)
  then show ?thesis using i b by (cases "i < 8") (simp_all add: on_byte0_def bit_block_of div_eq_0_iff)
qed

lemma clear_bit0: "on_byte0 (\<lambda>c. c AND 0xfe) x = x AND NOT 1"
proof (rule block_eqI)
  fix i :: nat
  assume i: "i < 128"
  have n: "(0xfe :: 8 word) = NOT 1" by simp
  show "bit (on_byte0 (\<lambda>c. c AND 0xfe) x) i = bit (x AND NOT 1) i"
    unfolding n bit_on_byte0 [OF i] bit_and_iff bit_not_iff using i by (auto simp: bit_simps)
qed

lemma set_bit0: "on_byte0 (\<lambda>c. c OR 1) x = x OR 1"
  by (rule block_eqI) (auto simp: bit_on_byte0 bit_simps)

text \<open>
  (C29) Privacy-free garbling is correct. With \<open>\<Delta>\<close> odd and the zero label of the first input even (the evaluator reads
  the first input's value off its label), evaluating the one-row table on the labels of \<open>a\<close> and \<open>b\<close> gives the label
  of \<open>a \<and> b\<close>, for every key schedule, gate index and tier; the zero label it outputs is even again.
\<close>

theorem privacy_free_correct:
  assumes "getLSB delta" and "\<not> getLSB LA0" and "length key = 11"
  shows "\<exists>W0 table. privacy_free_garble TG LA0 (LA0 XOR delta) LB0 (LB0 XOR delta) delta idx key = Inr (W0, table) \<and> \<not> getLSB W0 \<and>
    (\<forall>a b. privacy_free_eval TE (LA0 XOR (if a then delta else 0)) (LB0 XOR (if b then delta else 0)) table idx key =
       Inr (W0 XOR (if a \<and> b then delta else 0)))"
proof -
  define h where "h x = aes_rounds key (sigma x XOR makeBlock (2 * idx) 0) XOR (sigma x XOR makeBlock (2 * idx) 0)" for x
  let ?W0 = "h LA0 AND NOT 1" and ?W1 = "h (LA0 XOR delta) OR 1"
  have g: "privacy_free_garble TG LA0 (LA0 XOR delta) LB0 (LB0 XOR delta) delta idx key = Inr (?W0, ?W0 XOR ?W1 XOR LB0)"
    using ecb_rounds [OF assms(3), of 2 "[sigma LA0 XOR makeBlock (2 * idx) 0, sigma (LA0 XOR delta) XOR makeBlock (2 * idx) 0]" TG]
    by (simp add: privacy_free_garble_def Let_def h_def clear_bit0 set_bit0 xor.assoc)
  have e: "privacy_free_eval TE A B t idx key = Inr (if bit A 0 then (h A OR 1) XOR t XOR B else h A AND NOT 1)" for A B t
    using ecb_rounds [OF assms(3), of 1 "[sigma A XOR makeBlock (2 * idx) 0]" TE]
    by (simp add: privacy_free_eval_def Let_def h_def clear_bit0 set_bit0 xor.assoc)
  have "privacy_free_eval TE (LA0 XOR (if a then delta else 0)) (LB0 XOR (if b then delta else 0)) (?W0 XOR ?W1 XOR LB0) idx key =
      Inr (?W0 XOR (if a \<and> b then delta else 0))" for a b
    using assms(1,2) by (cases a; cases b) (simp_all add: e bit_xor_iff xor_ac)
  with g show ?thesis by (auto simp: bit_and_iff bit_not_iff)
qed

lemma privacy_free_correct_witness:
  "\<exists>W0 table. privacy_free_garble \<lparr>vaes512 = False, vaes256 = True, aarch64 = False\<rparr> 10 (10 XOR 5) 6 (6 XOR 5) 5 3 (AES_set_encrypt_key 9) =
      Inr (W0, table) \<and>
    privacy_free_eval \<lparr>vaes512 = False, vaes256 = False, aarch64 = True\<rparr> (10 XOR 5) (6 XOR 5) table 3 (AES_set_encrypt_key 9) =
      Inr (W0 XOR 5)"
proof -
  have "getLSB (5 :: block)" "\<not> getLSB (10 :: block)" "length (AES_set_encrypt_key 9) = 11"
    by (simp_all add: set_encrypt_key)
  from privacy_free_correct [OF this, of "\<lparr>vaes512 = False, vaes256 = True, aarch64 = False\<rparr>" 6 3
      "\<lparr>vaes512 = False, vaes256 = False, aarch64 = True\<rparr>"]
  obtain W0 table where
    "privacy_free_garble \<lparr>vaes512 = False, vaes256 = True, aarch64 = False\<rparr> 10 (10 XOR 5) 6 (6 XOR 5) 5 3 (AES_set_encrypt_key 9) =
      Inr (W0, table)"
    and e: "\<forall>a b. privacy_free_eval \<lparr>vaes512 = False, vaes256 = False, aarch64 = True\<rparr> (10 XOR (if a then 5 else 0))
      (6 XOR (if b then 5 else 0)) table 3 (AES_set_encrypt_key 9) = Inr (W0 XOR (if a \<and> b then 5 else 0))" by blast
  moreover from e [rule_format, of True True]
  have "privacy_free_eval \<lparr>vaes512 = False, vaes256 = False, aarch64 = True\<rparr> (10 XOR 5) (6 XOR 5) table 3 (AES_set_encrypt_key 9) =
      Inr (W0 XOR 5)" by (simp only: if_True simp_thms)
  ultimately show ?thesis by blast
qed

end
