(* ===== verification/Prg.thy ===== *)
theory Prg
  imports Garble
begin

text \<open>
  \<open>runtime/crypto/prg.h\<close>, \<open>runtime/crypto/prp.h\<close> and \<open>runtime/crypto/ccrh.h\<close>: the counter-mode generator, the fixed-key
  permutation and the circular correlation-robust hash. \<open>PRG\<close> is a record of the members of the class. Raw
  memory is a byte list whose first byte has address \<open>addr\<close>; a data pointer is an offset into it, so that
  alignment is \<open>(addr + off) mod 16\<close>. Test-mode seeds and kernel entropy are arguments of the constructor.

  The reference is one keystream per key: block \<open>c\<close> is AES-128 of the counter \<open>c\<close>. Every way of drawing
  output (blocks, aligned or unaligned bytes, packed bits) is shown to write a prefix of the keystream from
  the current position and to move the position by the blocks it started.
\<close>

section \<open>The generator\<close>

definition AES_BATCH_SIZE :: nat where
  "AES_BATCH_SIZE = 64"

record PRG =
  counter :: "64 word"
  prg_aes :: AES_KEY
  prg_key :: block
  prg_buffer :: "64 word list"
  ptr :: nat

definition reseed :: "block \<Rightarrow> 64 word \<Rightarrow> PRG \<Rightarrow> PRG" where
  "reseed seed id' prg =
     (let v = seed XOR makeBlock 0 id' in
      prg\<lparr>prg_key := v, prg_aes := AES_set_encrypt_key v, counter := 0\<rparr>)"

definition from_urand :: "block option \<Rightarrow> block res" where
  "from_urand entropy = (case entropy of None \<Rightarrow> Inl EntropyUnavailable | Some v \<Rightarrow> Inr v)"

text \<open>The constructor: the \<open>int\<close> id is converted to \<open>uint64_t\<close>; \<open>raw\<close> is the uninitialised object.\<close>

definition PRG_new :: "block option \<Rightarrow> 32 word \<Rightarrow> (64 word \<times> 64 word) option \<Rightarrow> block option \<Rightarrow> PRG \<Rightarrow> PRG res" where
  "PRG_new seed id' test_seed entropy raw =
     (let prg = raw\<lparr>counter := 0, ptr := 32\<rparr> in
      case seed of Some v \<Rightarrow> Inr (reseed v (scast id') prg)
      | None \<Rightarrow>
        (case test_seed of Some (lane, ordinal) \<Rightarrow> Inr (reseed (makeBlock lane ordinal) (scast id') prg)
         | None \<Rightarrow> res_bind (from_urand entropy) (\<lambda>v. Inr (reseed v (scast id') prg))))"

definition seek :: "64 word \<Rightarrow> PRG \<Rightarrow> PRG" where
  "seek block_counter prg = prg\<lparr>counter := block_counter, ptr := 32\<rparr>"

definition fork_at :: "64 word \<Rightarrow> PRG \<Rightarrow> PRG" where
  "fork_at block_counter prg = seek block_counter prg"

function random_block_loop :: "tier \<Rightarrow> nat \<Rightarrow> nat \<Rightarrow> PRG \<Rightarrow> (block list, PRG) gm" where
  "random_block_loop T data nblocks prg =
     (if nblocks = 0 then ret prg
      else let n = (if nblocks < AES_BATCH_SIZE then nblocks else AES_BATCH_SIZE) in
        bind (ParaCtrEnc T data (counter prg) (prg_aes prg) (int n)) (\<lambda>_.
        random_block_loop T (data + n) (nblocks - n) (prg\<lparr>counter := counter prg + of_nat n\<rparr>)))"
  by pat_completeness auto
termination by (relation "measure (\<lambda>(T, data, nblocks, prg). nblocks)") (auto simp: AES_BATCH_SIZE_def)

declare random_block_loop.simps [simp del]

definition random_block :: "tier \<Rightarrow> nat \<Rightarrow> nat \<Rightarrow> int \<Rightarrow> PRG \<Rightarrow> (block list, PRG) gm" where
  "random_block T address data nblocks prg =
     check (0 \<le> nblocks) NegativeCount
     (if nblocks = 0 then ret prg
      else check (address mod 16 = 0) MisalignedData (random_block_loop T data (nat nblocks) prg))"

text \<open>
  Bytes: \<open>as_blocks\<close> views \<open>n\<close> blocks of memory at a pointer, \<open>with_local\<close> runs on a local block array (aligned, with
  arbitrary initial contents), \<open>memcpy_to\<close> copies bytes to a pointer.
\<close>

definition as_blocks :: "nat \<Rightarrow> nat \<Rightarrow> (block list, 'a) gm \<Rightarrow> (bytes, 'a) gm" where
  "as_blocks off n k = (\<lambda>mem.
     if off + 16 * n \<le> length mem then
       res_bind (k (map (\<lambda>i. block_of (take 16 (drop (off + 16 * i) mem))) [0..<n])) (\<lambda>(x, blks).
         Inr (x, take off mem @ concat (map le_bytes blks) @ drop (off + 16 * n) mem))
     else Inl UndefinedBehaviour)"

definition with_local :: "block list \<Rightarrow> (block list, 'a) gm \<Rightarrow> ('a \<Rightarrow> bytes \<Rightarrow> ('s, 'b) gm) \<Rightarrow> ('s, 'b) gm" where
  "with_local junk k f = (\<lambda>mem. res_bind (k junk) (\<lambda>(x, blks). f x (concat (map le_bytes blks)) mem))"

definition memcpy_to :: "nat \<Rightarrow> bytes \<Rightarrow> (bytes, unit) gm" where
  "memcpy_to off bs = (\<lambda>mem.
     if off + length bs \<le> length mem then Inr ((), take off mem @ bs @ drop (off + length bs) mem) else Inl UndefinedBehaviour)"

definition memmove_in :: "nat \<Rightarrow> nat \<Rightarrow> nat \<Rightarrow> (bytes, unit) gm" where
  "memmove_in dst src n = (\<lambda>mem.
     if src + n \<le> length mem then memcpy_to dst (take n (drop src mem)) mem else Inl UndefinedBehaviour)"

definition random_data :: "tier \<Rightarrow> block \<Rightarrow> nat \<Rightarrow> nat \<Rightarrow> int \<Rightarrow> PRG \<Rightarrow> (bytes, PRG) gm" where
  "random_data T junk addr data nbytes prg =
     check (0 \<le> nbytes) NegativeCount
     (if nbytes = 0 then ret prg
      else check ((addr + data) mod 16 = 0) MisalignedData
        (let n = nat nbytes in
         bind (as_blocks data (n div 16) (random_block T (addr + data) 0 (int (n div 16)) prg)) (\<lambda>prg.
         if n mod 16 \<noteq> 0 then
           with_local [junk] (random_block T 0 0 1 prg) (\<lambda>prg extra.
           bind (memcpy_to (data + n div 16 * 16) (take (n mod 16) extra)) (\<lambda>_. ret prg))
         else ret prg)))"

function unaligned_tail :: "tier \<Rightarrow> block \<Rightarrow> nat \<Rightarrow> nat \<Rightarrow> PRG \<Rightarrow> (bytes, PRG) gm" where
  "unaligned_tail T junk end' remaining prg =
     (if remaining = 0 then ret prg
      else with_local [junk] (random_block T 0 0 1 prg) (\<lambda>prg tmp.
        let bytes_to_copy = min remaining 16 in
        bind (memcpy_to (end' - remaining) (take bytes_to_copy tmp)) (\<lambda>_.
        unaligned_tail T junk end' (remaining - bytes_to_copy) prg)))"
  by pat_completeness auto
termination by (relation "measure (\<lambda>(T, junk, end', remaining, prg). remaining)") auto

declare unaligned_tail.simps [simp del]

definition random_data_unaligned :: "tier \<Rightarrow> block \<Rightarrow> nat \<Rightarrow> nat \<Rightarrow> int \<Rightarrow> PRG \<Rightarrow> (bytes, PRG) gm" where
  "random_data_unaligned T junk addr data nbytes prg =
     check (0 \<le> nbytes) NegativeCount
     (if nbytes = 0 then ret prg
      else if nbytes \<le> 32 then
        with_local [junk, junk] (random_block T 0 0 ((nbytes + 15) div 16) prg) (\<lambda>prg tmp.
        bind (memcpy_to data (take (nat nbytes) tmp)) (\<lambda>_. ret prg))
      else
        let n = nat nbytes;
            skew = (16 - (addr + data) mod 16) mod 16;
            aligned_data = data + skew;
            size = 16 * ((n - skew) div 16);
            chopped = n - size in
        bind (random_data T junk addr aligned_data (int (n - chopped)) prg) (\<lambda>prg.
        bind (memmove_in data aligned_data (n - chopped)) (\<lambda>_.
        unaligned_tail T junk (data + n) chopped prg)))"

text \<open>The bits of one pass: whole 32-bit words through the SIMD kernel, the tail bit by bit.\<close>

definition unpack_pass :: "bool \<Rightarrow> bytes \<Rightarrow> nat \<Rightarrow> nat \<Rightarrow> (bytes, unit) gm" where
  "unpack_pass avx2 bytes produced bits_pass =
     (let full32 = bits_pass div 32 in
      bind (fold_gm (\<lambda>i u. memcpy_to (produced + i * 32) (bits32_to_bytes avx2 (bw (bufbits (take 4 (drop (i * 4) bytes)))))) [0..<full32] ()) (\<lambda>_.
      let produced = produced + full32 * 32; tail_bits = bits_pass - full32 * 32 in
      if 0 < tail_bits then
        let nb = (tail_bits + 7) div 8;
            b32 = (bw (bufbits (take nb (drop (full32 * 4) bytes) @ replicate (4 - nb) 0)) :: 32 word) in
        fold_gm (\<lambda>i u. memcpy_to (produced + i) [ucast (drop_bit i b32 AND 1)]) [0..<tail_bits] ()
      else ret ()))"

function random_bool_loop :: "tier \<Rightarrow> bool \<Rightarrow> block list \<Rightarrow> nat \<Rightarrow> nat \<Rightarrow> PRG \<Rightarrow> (bytes, PRG) gm" where
  "random_bool_loop T avx2 buf produced length' prg =
     (if produced < length' then
        let remaining = length' - produced;
            bits_pass = (if remaining < 16 * 128 then remaining else 16 * 128);
            blocks_pass = (bits_pass + 127) div 128 in
        (\<lambda>mem. res_bind (random_block T 0 0 (int blocks_pass) prg buf) (\<lambda>(prg, buf).
           bind (unpack_pass avx2 (concat (map le_bytes buf)) produced bits_pass) (\<lambda>_.
           random_bool_loop T avx2 buf (produced + bits_pass) length' prg) mem))
      else ret prg)"
  by pat_completeness auto
termination by (relation "measure (\<lambda>(T, avx2, buf, produced, length', prg). length' - produced)") auto

declare random_bool_loop.simps [simp del]

definition random_bool :: "tier \<Rightarrow> bool \<Rightarrow> block list \<Rightarrow> int \<Rightarrow> PRG \<Rightarrow> (bytes, PRG) gm" where
  "random_bool T avx2 junk length' prg =
     check (0 \<le> length') NegativeCount (if length' = 0 then ret prg else random_bool_loop T avx2 junk 0 (nat length') prg)"

text \<open>\<open>operator()\<close>: the next word of a buffer of 16 blocks.\<close>

definition words_of :: "block list \<Rightarrow> 64 word list" where
  "words_of blks = concat (map (\<lambda>b. [ucast b, ucast (drop_bit 64 b)]) blks)"

definition prg_next :: "tier \<Rightarrow> PRG \<Rightarrow> (64 word \<times> PRG) res" where
  "prg_next T prg =
     res_bind (if ptr prg = 32 then
         res_bind (random_block T 0 0 16 prg (map (\<lambda>i. makeBlock (prg_buffer prg ! (2 * i + 1)) (prg_buffer prg ! (2 * i))) [0..<16]))
           (\<lambda>(prg, blks). Inr (prg\<lparr>prg_buffer := words_of blks, ptr := 0\<rparr>))
       else Inr prg) (\<lambda>prg.
     if ptr prg < length (prg_buffer prg) then Inr (prg_buffer prg ! ptr prg, prg\<lparr>ptr := ptr prg + 1\<rparr>) else Inl UndefinedBehaviour)"

section \<open>The permutation and the hash\<close>

definition PRP_new :: "block option \<Rightarrow> AES_KEY" where
  "PRP_new key = AES_set_encrypt_key (case key of None \<Rightarrow> zero_block | Some k \<Rightarrow> k)"

function permute_loop :: "tier \<Rightarrow> AES_KEY \<Rightarrow> nat \<Rightarrow> nat \<Rightarrow> (block list, unit) gm" where
  "permute_loop T aes data nblocks =
     (if nblocks = 0 then ret ()
      else let n = (if nblocks < AES_BATCH_SIZE then nblocks else AES_BATCH_SIZE) in
        bind (ParaEnc_runtime_impl T data None data [aes] 1 (int n)) (\<lambda>_.
        permute_loop T aes (data + n) (nblocks - n)))"
  by pat_completeness auto
termination by (relation "measure (\<lambda>(T, aes, data, nblocks). nblocks)") (auto simp: AES_BATCH_SIZE_def)

declare permute_loop.simps [simp del]

definition permute_block :: "tier \<Rightarrow> AES_KEY \<Rightarrow> nat \<Rightarrow> int \<Rightarrow> (block list, unit) gm" where
  "permute_block T aes address nblocks =
     check (0 \<le> nblocks) NegativeCount
     (if nblocks = 0 then ret ()
      else check (address mod 16 = 0) MisalignedData (permute_loop T aes 0 (nat nblocks)))"

definition CCRH_H :: "tier \<Rightarrow> AES_KEY \<Rightarrow> block \<Rightarrow> block res" where
  "CCRH_H T aes inp = res_bind (ParaEncXorInput_impl T 1 1 0 None 0 [aes] [sigma inp]) (\<lambda>(_, t). Inr (t ! 0))"

definition CCRH_H_n :: "tier \<Rightarrow> nat \<Rightarrow> block list option \<Rightarrow> AES_KEY \<Rightarrow> (block list, unit) gm" where
  "CCRH_H_n T n inp aes = ParaEnc_mem_tiles_impl AesMemXorSigmaTile T 1 n 0 inp 0 [aes] None"

definition Hn :: "tier \<Rightarrow> block list option \<Rightarrow> AES_KEY \<Rightarrow> int \<Rightarrow> (block list, unit) gm" where
  "Hn T inp aes length' =
     (if length' \<le> 0 then ret () else drain_tiles T (MemTileOp AesMemXorSigmaTile T 0 inp 0 aes) length')"

section \<open>The keystream\<close>

text \<open>Block \<open>c\<close> of the keystream of key \<open>k\<close>, and its bytes from a position.\<close>

definition ks_block :: "block \<Rightarrow> 64 word \<Rightarrow> block" where
  "ks_block k c = aes128_block k (makeBlock 0 c)"

definition ks_blocks :: "block \<Rightarrow> 64 word \<Rightarrow> nat \<Rightarrow> block list" where
  "ks_blocks k c n = map (\<lambda>i. ks_block k (c + of_nat i)) [0..<n]"

definition ks_bytes :: "block \<Rightarrow> 64 word \<Rightarrow> nat \<Rightarrow> bytes" where
  "ks_bytes k c n = take n (concat (map le_bytes (ks_blocks k c ((n + 15) div 16))))"

definition prg_ok :: "PRG \<Rightarrow> bool" where
  "prg_ok prg \<longleftrightarrow> prg_aes prg = AES_set_encrypt_key (prg_key prg)"

text \<open>The state after \<open>n\<close> more blocks.\<close>

definition advance :: "nat \<Rightarrow> PRG \<Rightarrow> PRG" where
  "advance n prg = prg\<lparr>counter := counter prg + of_nat n\<rparr>"

definition room :: "nat \<Rightarrow> PRG \<Rightarrow> bool" where
  "room n prg \<longleftrightarrow> sint (counter prg) + int n < 2 ^ 63"

lemma advance_simps [simp]:
  "counter (advance n prg) = counter prg + of_nat n" "prg_key (advance n prg) = prg_key prg" "prg_aes (advance n prg) = prg_aes prg"
  "prg_ok (advance n prg) = prg_ok prg" "advance 0 prg = prg" "advance m (advance n prg) = advance (n + m) prg"
  by (simp_all add: advance_def prg_ok_def add.assoc)

lemma room_advance: "room (n + m) prg \<Longrightarrow> room m (advance n prg)"
  using sint_add_small [of "counter prg" n] by (simp add: room_def)

lemma room_mono: "room n prg \<Longrightarrow> m \<le> n \<Longrightarrow> room m prg"
  by (simp add: room_def)

lemma length_ks_blocks [simp]: "length (ks_blocks k c n) = n"
  by (simp add: ks_blocks_def)

lemma ks_blocks_add: "ks_blocks k c (m + n) = ks_blocks k c m @ ks_blocks k (c + of_nat m) n"
  by (rule nth_equalityI) (auto simp: ks_blocks_def nth_append of_nat_diff)

lemma length_block_bytes [simp]: "length (concat (map le_bytes (bs :: block list))) = 16 * length bs"
  by (induction bs) simp_all

lemma length_ks_bytes [simp]: "length (ks_bytes k c n) = n"
  by (simp add: ks_bytes_def)

lemma random_block_loop_ok:
  "prg_ok prg \<Longrightarrow> room n prg \<Longrightarrow> data + n \<le> length mem \<Longrightarrow>
   random_block_loop T data n prg mem =
     Inr (advance n prg, take data mem @ ks_blocks (prg_key prg) (counter prg) n @ drop (data + n) mem)"
proof (induction n arbitrary: data prg mem rule: less_induct)
  case (less n)
  show ?case
  proof (cases "n = 0")
    case False
    define k where "k = (if n < AES_BATCH_SIZE then n else AES_BATCH_SIZE)"
    have k: "0 < k" "k \<le> n" using False by (simp_all add: k_def AES_BATCH_SIZE_def)
    let ?mem = "take data mem @ ks_blocks (prg_key prg) (counter prg) k @ drop (data + k) mem"
    have "length (prg_aes prg) = 11" using less.prems(1) by (simp add: prg_ok_def set_encrypt_key)
    from ParaCtrEnc_ok [OF this, of "counter prg" k T data None data] less.prems k
    have "ParaCtrEnc T data (counter prg) (prg_aes prg) (int k) mem = Inr ((), ?mem)"
      by (simp add: room_def writes_def range_ok_def seg_def ks_blocks_def ks_block_def prg_ok_def set_encrypt_key aes_rounds_ref)
    moreover have "random_block_loop T (data + k) (n - k) (advance k prg) ?mem =
        Inr (advance (n - k) (advance k prg), take (data + k) ?mem @ ks_blocks (prg_key prg) (counter prg + of_nat k) (n - k) @
          drop (data + k + (n - k)) ?mem)"
      using less.IH [of "n - k" "advance k prg" "data + k" ?mem] less.prems k room_advance [of k "n - k" prg] by simp
    moreover have "take (data + k) ?mem @ ks_blocks (prg_key prg) (counter prg + of_nat k) (n - k) @ drop (data + k + (n - k)) ?mem =
        take data mem @ ks_blocks (prg_key prg) (counter prg) n @ drop (data + n) mem"
      using less.prems(3) k ks_blocks_add [of "prg_key prg" "counter prg" k "n - k"] by (simp add: add.commute)
    ultimately show ?thesis
      using False k by (simp add: random_block_loop.simps [of T data n prg] k_def [symmetric] Let_def bind_Inr flip: advance_def)
  qed (simp add: random_block_loop.simps ret_apply ks_blocks_def)
qed

lemma random_block_ok:
  assumes "prg_ok prg" and "room n prg" and "data + n \<le> length mem" and "address mod 16 = 0"
  shows "random_block T address data (int n) prg mem =
     Inr (advance n prg, take data mem @ ks_blocks (prg_key prg) (counter prg) n @ drop (data + n) mem)"
  using random_block_loop_ok [OF assms(1-3)] assms(4) by (cases "n = 0") (simp_all add: random_block_def ret_apply ks_blocks_def)

section \<open>Bytes\<close>

lemma ks_bytes_add:
  assumes "16 dvd m"
  shows "ks_bytes k c (m + n) = ks_bytes k c m @ ks_bytes k (c + of_nat (m div 16)) n"
proof -
  from assms obtain q where m: "m = 16 * q" by (auto elim: dvdE)
  have "(m + n + 15) div 16 = q + (n + 15) div 16" unfolding m by simp
  moreover have "(m + 15) div 16 = q" unfolding m by simp
  ultimately show ?thesis by (simp add: ks_bytes_def ks_blocks_add m)
qed

lemma ks_bytes_blocks: "ks_bytes k c (16 * n) = concat (map le_bytes (ks_blocks k c n))"
  by (simp add: ks_bytes_def)

lemma ks_bytes_one: "n \<le> 16 \<Longrightarrow> 0 < n \<Longrightarrow> ks_bytes k c n = take n (le_bytes (ks_block k c))"
proof -
  assume n: "n \<le> 16" "0 < n"
  then have "(n + 15) div 16 = 1" by (intro div_nat_eqI) simp_all
  then show ?thesis by (simp add: ks_bytes_def ks_blocks_def)
qed

text \<open>A computation \<open>fills\<close> a range of memory with the next bytes of the keystream.\<close>

definition fills :: "(bytes, PRG) gm \<Rightarrow> PRG \<Rightarrow> nat \<Rightarrow> nat \<Rightarrow> bool" where
  "fills m prg off n \<longleftrightarrow> (\<forall>mem. off + n \<le> length mem \<longrightarrow>
     m mem = Inr (advance ((n + 15) div 16) prg, take off mem @ ks_bytes (prg_key prg) (counter prg) n @ drop (off + n) mem))"

lemma fills_bind:
  assumes "fills m prg off (16 * q)" and "fills (f (advance q prg)) (advance q prg) (off + 16 * q) k"
  shows "fills (bind m f) prg off (16 * q + k)"
  unfolding fills_def
proof (intro allI impI)
  fix mem :: bytes
  assume len: "off + (16 * q + k) \<le> length mem"
  let ?k = "prg_key prg" and ?c = "counter prg"
  let ?mem = "take off mem @ ks_bytes ?k ?c (16 * q) @ drop (off + 16 * q) mem"
  have d: "(16 * q + 15) div 16 = q" "(16 * q + k + 15) div 16 = q + (k + 15) div 16" by simp_all
  from assms(1) len have "m mem = Inr (advance q prg, ?mem)" by (simp add: fills_def d(1))
  moreover from assms(2) len have "f (advance q prg) ?mem = Inr (advance ((k + 15) div 16) (advance q prg),
      take (off + 16 * q) ?mem @ ks_bytes ?k (?c + of_nat q) k @ drop (off + 16 * q + k) ?mem)"
    by (simp add: fills_def)
  moreover have "drop (off + 16 * q + k) ?mem = drop (off + (16 * q + k)) mem" using len by (simp add: ac_simps)
  ultimately show "bind m f mem = Inr (advance ((16 * q + k + 15) div 16) prg,
      take off mem @ ks_bytes ?k ?c (16 * q + k) @ drop (off + (16 * q + k)) mem)"
    using len ks_bytes_add [of "16 * q" ?k ?c k] by (simp add: bind_Inr d(2))
qed

lemma fills_ret: "fills (ret prg) prg off 0"
  by (simp add: fills_def ret_apply ks_bytes_def ks_blocks_def)

lemma fills_blocks:
  assumes "prg_ok prg" and "room n prg" and "address mod 16 = 0"
  shows "fills (as_blocks off n (random_block T address 0 (int n) prg)) prg off (16 * n)"
proof -
  let ?view = "\<lambda>mem. map (\<lambda>i. block_of (take 16 (drop (off + 16 * i) mem))) [0..<n]"
  have "random_block T address 0 (int n) prg (?view mem) = Inr (advance n prg, ks_blocks (prg_key prg) (counter prg) n)" for mem
    using random_block_ok [OF assms(1,2) _ assms(3), of 0 "?view mem" T] by simp
  then show ?thesis by (simp add: fills_def as_blocks_def ks_bytes_blocks)
qed

lemma local_block:
  assumes "prg_ok prg" and "room 1 prg"
  shows "with_local [junk] (random_block T 0 0 1 prg) f = f (advance 1 prg) (le_bytes (ks_block (prg_key prg) (counter prg)))"
  using random_block_ok [OF assms, of 0 "[junk]" 0 T] by (simp add: with_local_def ks_blocks_def fun_eq_iff)

lemma memcpy_ok: "off + length bs \<le> length mem \<Longrightarrow> memcpy_to off bs mem = Inr ((), take off mem @ bs @ drop (off + length bs) mem)"
  by (simp add: memcpy_to_def)

lemma fills_partial:
  assumes "prg_ok prg" and "room 1 prg" and "0 < n" and "n \<le> 16"
  shows "fills (with_local [junk] (random_block T 0 0 1 prg) (\<lambda>prg tmp. bind (memcpy_to off (take n tmp)) (\<lambda>_. ret prg))) prg off n"
proof -
  have "(n + 15) div 16 = 1" using assms(3,4) by (intro div_nat_eqI) simp_all
  with assms(3,4) show ?thesis
    by (simp add: fills_def local_block [OF assms(1,2)] bind_Inr memcpy_ok ret_apply ks_bytes_one)
qed

lemma random_data_fills:
  assumes "prg_ok prg" and "room ((n + 15) div 16) prg" and "(addr + off) mod 16 = 0"
  shows "fills (random_data T junk addr off (int n) prg) prg off n"
proof (cases "n = 0")
  case False
  have q: "n div 16 \<le> (n + 15) div 16" by (rule div_le_mono) simp
  have blocks: "fills (as_blocks off (n div 16) (random_block T (addr + off) 0 (int (n div 16)) prg)) prg off (16 * (n div 16))"
    by (rule fills_blocks [OF assms(1) room_mono [OF assms(2) q] assms(3)])
  let ?tail = "\<lambda>prg. if n mod 16 \<noteq> 0 then
      with_local [junk] (random_block T 0 0 1 prg) (\<lambda>prg extra. bind (memcpy_to (off + 16 * (n div 16)) (take (n mod 16) extra)) (\<lambda>_. ret prg))
    else ret prg"
  have tail: "fills (?tail (advance (n div 16) prg)) (advance (n div 16) prg) (off + 16 * (n div 16)) (n mod 16)"
  proof (cases "n mod 16 = 0")
    case False
    have "n div 16 + 1 \<le> (n + 15) div 16"
    proof -
      have "n + 15 = 16 * (n div 16) + (n mod 16 + 15)" by simp
      then have "(n + 15) div 16 = n div 16 + (n mod 16 + 15) div 16" by (metis add.commute div_mult_self2 zero_neq_numeral)
      moreover have "1 \<le> (n mod 16 + 15) div 16" using False by simp
      ultimately show ?thesis by simp
    qed
    from room_advance [OF room_mono [OF assms(2) this]] False
    show ?thesis using fills_partial [of "advance (n div 16) prg" "n mod 16"] assms(1) by simp
  qed (simp add: fills_ret)
  from fills_bind [OF blocks, of ?tail "n mod 16", OF tail] False assms(3)
  show ?thesis unfolding random_data_def Let_def nat_int mult.commute [of "n div 16" 16] by simp
qed (simp add: random_data_def fills_ret)

lemma unaligned_tail_fills:
  "prg_ok prg \<Longrightarrow> room ((n + 15) div 16) prg \<Longrightarrow> fills (unaligned_tail T junk (off + n) n prg) prg off n"
proof (induction n arbitrary: prg off rule: less_induct)
  case (less n)
  consider (none) "n = 0" | (last) "0 < n" "n \<le> 16" | (more) "16 < n" by linarith
  then show ?case
  proof cases
    case none
    then show ?thesis by (simp add: unaligned_tail.simps fills_ret)
  next
    case last
    then have c: "(n + 15) div 16 = 1" by (intro div_nat_eqI) simp_all
    have "unaligned_tail T junk (off + n) n prg =
        with_local [junk] (random_block T 0 0 1 prg) (\<lambda>prg tmp. bind (memcpy_to off (take n tmp)) (\<lambda>_. ret prg))"
      unfolding unaligned_tail.simps [of T junk "off + n" n] using last by (simp add: Let_def unaligned_tail.simps [of T junk "off + n" 0])
    with fills_partial [of prg n junk T off] last less.prems c show ?thesis by simp
  next
    case more
    define k where "k = n - 16"
    have n: "n = 16 + k" and c: "(n + 15) div 16 = 1 + (k + 15) div 16" using more by (simp_all add: k_def)
    from less.prems(2) c have r: "room 1 prg" "room ((k + 15) div 16) (advance 1 prg)"
      using room_mono [of "(n + 15) div 16" prg 1] room_advance [of 1 "(k + 15) div 16" prg] by simp_all
    have one: "fills (with_local [junk] (random_block T 0 0 1 prg) (\<lambda>prg tmp. bind (memcpy_to off (take 16 tmp)) (\<lambda>_. ret prg))) prg off (16 * 1)"
      using fills_partial [OF less.prems(1) r(1), of 16] by simp
    have rest: "fills (unaligned_tail T junk (off + 16 * 1 + k) k (advance 1 prg)) (advance 1 prg) (off + 16 * 1) k"
      using less.IH [of k "advance 1 prg" "off + 16"] less.prems(1) r(2) more by (simp add: k_def)
    have "unaligned_tail T junk (off + n) n prg =
        bind (with_local [junk] (random_block T 0 0 1 prg) (\<lambda>prg tmp. bind (memcpy_to off (take 16 tmp)) (\<lambda>_. ret prg)))
          (unaligned_tail T junk (off + 16 * 1 + k) k)"
      using more unfolding unaligned_tail.simps [of T junk "off + n" n] local_block [OF less.prems(1) r(1)]
      by (simp add: n min_def Let_def bind_assoc add.assoc)
    with fills_bind [OF one, of "unaligned_tail T junk (off + 16 * 1 + k) k" k, OF rest] show ?thesis by (simp add: n)
  qed
qed

lemma fills_small:
  assumes "prg_ok prg" and "room ((n + 15) div 16) prg" and "0 < n" and "n \<le> 32"
  shows "fills (with_local [junk, junk] (random_block T 0 0 ((int n + 15) div 16) prg)
     (\<lambda>prg tmp. bind (memcpy_to off (take n tmp)) (\<lambda>_. ret prg))) prg off n"
proof -
  let ?q = "(n + 15) div 16"
  have q: "?q \<le> 2" "n \<le> 16 * ?q" using assms(4) by linarith+
  have "(int n + 15) div 16 = int ?q" by (simp add: zdiv_int)
  moreover have "random_block T 0 0 (int ?q) prg [junk, junk] =
      Inr (advance ?q prg, ks_blocks (prg_key prg) (counter prg) ?q @ drop ?q [junk, junk])"
    using random_block_ok [OF assms(1,2), of 0 "[junk, junk]" 0 T] q(1) by simp
  ultimately have "with_local [junk, junk] (random_block T 0 0 ((int n + 15) div 16) prg) f =
      f (advance ?q prg) (concat (map le_bytes (ks_blocks (prg_key prg) (counter prg) ?q)) @ concat (map le_bytes (drop ?q [junk, junk])))"
    for f :: "PRG \<Rightarrow> bytes \<Rightarrow> (bytes, PRG) gm"
    by (simp add: with_local_def fun_eq_iff)
  then show ?thesis
    using q(2) by (simp add: fills_def bind_Inr memcpy_ok ret_apply ks_bytes_def)
qed

lemma memmove_ok:
  "src + n \<le> length mem \<Longrightarrow> dst + n \<le> length mem \<Longrightarrow>
   memmove_in dst src n mem = Inr ((), take dst mem @ take n (drop src mem) @ drop (dst + n) mem)"
  by (simp add: memmove_in_def memcpy_to_def)

text \<open>The bulk path: whole blocks at the aligned address, moved down to the start of the buffer.\<close>

lemma moved_blocks_fill:
  assumes "prg_ok prg" and "room q prg" and "(addr + (off + skew)) mod 16 = 0"
  shows "off + skew + 16 * q \<le> length mem \<Longrightarrow>
    bind (random_data T junk addr (off + skew) (int (16 * q)) prg) (\<lambda>prg. bind (memmove_in off (off + skew) (16 * q)) (\<lambda>_. ret prg)) mem =
    Inr (advance q prg, take off mem @ ks_bytes (prg_key prg) (counter prg) (16 * q) @
      drop (off + 16 * q) (take (off + skew) mem @ ks_bytes (prg_key prg) (counter prg) (16 * q) @ drop (off + skew + 16 * q) mem))"
proof -
  assume len: "off + skew + 16 * q \<le> length mem"
  let ?ks = "ks_bytes (prg_key prg) (counter prg) (16 * q)"
  let ?mem = "take (off + skew) mem @ ?ks @ drop (off + skew + 16 * q) mem"
  have "fills (random_data T junk addr (off + skew) (int (16 * q)) prg) prg (off + skew) (16 * q)"
    by (rule random_data_fills) (use assms in simp_all)
  with len have "random_data T junk addr (off + skew) (int (16 * q)) prg mem = Inr (advance q prg, ?mem)" by (simp add: fills_def)
  moreover have "memmove_in off (off + skew) (16 * q) ?mem = Inr ((), take off mem @ ?ks @ drop (off + 16 * q) ?mem)"
    using memmove_ok [of "off + skew" "16 * q" ?mem off] len by simp
  ultimately show ?thesis by (simp add: bind_Inr ret_apply)
qed

lemma drop_overlap: "length xs = a \<Longrightarrow> a \<le> k \<Longrightarrow> drop k (xs @ drop a ys) = drop k ys"
  by simp

lemma random_data_unaligned_fills:
  assumes "prg_ok prg" and "room ((n + 15) div 16) prg"
  shows "fills (random_data_unaligned T junk addr off (int n) prg) prg off n"
proof -
  consider (none) "n = 0" | (small) "0 < n" "n \<le> 32" | (bulk) "32 < n" by linarith
  then show ?thesis
  proof cases
    case none
    then show ?thesis by (simp add: random_data_unaligned_def fills_ret)
  next
    case small
    then show ?thesis using fills_small [OF assms, of junk T off] by (simp add: random_data_unaligned_def)
  next
    case bulk
    define skew where "skew = (16 - (addr + off) mod 16) mod 16"
    define q where "q = (n - skew) div 16"
    define rest where "rest = n - 16 * q"
    have skew: "skew < 16" by (simp add: skew_def)
    have al: "(addr + (off + skew)) mod 16 = 0"
    proof -
      define r where "r = (addr + off) mod 16"
      have "r < 16" by (simp add: r_def)
      have "(addr + (off + skew)) mod 16 = (r + skew) mod 16"
        unfolding r_def mod_add_left_eq by (simp add: add.assoc)
      also have "\<dots> = (r + (16 - r) mod 16) mod 16" by (simp only: skew_def r_def)
      also have "\<dots> = 0" using \<open>r < 16\<close> by (cases "r = 0") simp_all
      finally show ?thesis .
    qed
    have le: "skew + 16 * q \<le> n" "16 * q \<le> n" using bulk skew by (simp_all add: q_def)
    have n: "n = 16 * q + rest" using le by (simp add: rest_def)
    have c: "(n + 15) div 16 = q + (rest + 15) div 16" unfolding n by simp
    have r: "room q prg" "room ((rest + 15) div 16) (advance q prg)"
      using assms(2) c room_mono [of "(n + 15) div 16" prg q] room_advance [of q "(rest + 15) div 16" prg] by simp_all
    let ?ks = "ks_bytes (prg_key prg) (counter prg) (16 * q)"
    have tail: "fills (unaligned_tail T junk (off + 16 * q + rest) rest (advance q prg)) (advance q prg) (off + 16 * q) rest"
      by (rule unaligned_tail_fills) (use assms(1) r(2) in simp_all)
    show ?thesis
      unfolding fills_def
    proof (intro allI impI)
      fix mem :: bytes
      assume len: "off + n \<le> length mem"
      define moved where "moved = take off mem @ ?ks @ drop (off + 16 * q) (take (off + skew) mem @ ?ks @ drop (off + skew + 16 * q) mem)"
      have lm: "length moved = length mem" using len le by (simp add: moved_def)
      have tk: "take (off + 16 * q) moved = take off mem @ ?ks" using len le by (simp add: moved_def)
      have dr: "drop (off + n) moved = drop (off + n) mem"
        using len le drop_overlap [of "take (off + skew) mem @ ?ks" "off + skew + 16 * q" "off + n" mem]
          drop_overlap [of "take off mem @ ?ks" "off + 16 * q" "off + n" "take (off + skew) mem @ ?ks @ drop (off + skew + 16 * q) mem"]
        by (simp only: moved_def append_assoc length_append length_take length_ks_bytes)
      define bm where "bm = bind (random_data T junk addr (off + skew) (int (16 * q)) prg) (\<lambda>prg. bind (memmove_in off (off + skew) (16 * q)) (\<lambda>_. ret prg))"
      have m: "bm mem =
          Inr (advance q prg, moved)"
        unfolding bm_def moved_def by (rule moved_blocks_fill [OF assms(1) r(1) al]) (use len le in simp)
      have e: "off + 16 * q + rest = off + n" by (simp add: n)
      have "unaligned_tail T junk (off + n) rest (advance q prg) moved =
          Inr (advance ((rest + 15) div 16) (advance q prg),
            take (off + 16 * q) moved @ ks_bytes (prg_key prg) (counter prg + of_nat q) rest @ drop (off + n) moved)"
        using tail [unfolded fills_def e, rule_format, of moved] lm len by simp
      moreover have "random_data_unaligned T junk addr off (int n) prg =
          bind bm (unaligned_tail T junk (off + n) rest)"
        using bulk le(2) by (simp add: bm_def random_data_unaligned_def Let_def bind_assoc skew_def [symmetric] q_def [symmetric] rest_def)
      ultimately show "random_data_unaligned T junk addr off (int n) prg mem =
          Inr (advance ((n + 15) div 16) prg, take off mem @ ks_bytes (prg_key prg) (counter prg) n @ drop (off + n) mem)"
        using ks_bytes_add [of "16 * q" "prg_key prg" "counter prg" rest] unfolding tk dr c
        by (simp add: bind_Inr [where m = bm and s = mem, OF m] flip: n)
    qed
  qed
qed

section \<open>Bits\<close>

definition ks_bits :: "block \<Rightarrow> 64 word \<Rightarrow> nat \<Rightarrow> bool list" where
  "ks_bits k c n = take n (bufbits (concat (map le_bytes (ks_blocks k c ((n + 127) div 128)))))"

lemma length_ks_bits [simp]: "length (ks_bits k c n) = n"
  by (simp add: ks_bits_def)

lemma ks_bits_add: "ks_bits k c (128 * q + n) = ks_bits k c (128 * q) @ ks_bits k (c + of_nat q) n"
proof -
  have "(128 * q + n + 127) div 128 = q + (n + 127) div 128" "(128 * q + 127) div 128 = q" by simp_all
  then show ?thesis by (simp add: ks_bits_def ks_blocks_add)
qed

lemma fold_memcpy:
  assumes "\<And>i. i < n \<Longrightarrow> length (v i) = w" and "off + n * w \<le> length mem"
  shows "fold_gm (\<lambda>i u. memcpy_to (off + i * w) (v i)) [0..<n] () mem =
    Inr ((), take off mem @ concat (map v [0..<n]) @ drop (off + n * w) mem)"
  using assms
proof (induction n)
  case (Suc n)
  let ?mem = "take off mem @ concat (map v [0..<n]) @ drop (off + n * w) mem"
  have len: "length (concat (map v [0..<n])) = n * w"
    using length_concat_uniform [of "map v [0..<n]" w] Suc.prems(1) by simp
  have "fold_gm (\<lambda>i u. memcpy_to (off + i * w) (v i)) [0..<n] () mem = Inr ((), ?mem)"
    by (rule Suc.IH) (use Suc.prems in simp_all)
  moreover have "memcpy_to (off + n * w) (v n) ?mem = Inr ((), take (off + n * w) ?mem @ v n @ drop (off + n * w + w) ?mem)"
    using Suc.prems len by (simp add: memcpy_to_def)
  moreover have "take (off + n * w) ?mem = take off mem @ concat (map v [0..<n])" using Suc.prems len by simp
  moreover have "drop (off + n * w + w) ?mem = drop (off + n * w + w) mem"
    using Suc.prems(2) len drop_overlap [of "take off mem @ concat (map v [0..<n])" "off + n * w" "off + n * w + w" mem] by simp
  ultimately show ?case by (simp add: fold_gm_snoc bind_Inr ac_simps)
qed (simp add: ret_apply)

lemma concat_slices: "n * w \<le> length xs \<Longrightarrow> concat (map (\<lambda>i. take w (drop (i * w) xs)) [0..<n]) = take (n * w) xs"
proof (induction n)
  case (Suc n)
  have "Suc n * w = n * w + w" by simp
  with Suc show ?case by (simp add: take_add del: mult_Suc)
qed simp

lemma low_bit: "ucast (drop_bit i w AND 1) = (of_bool (bit w i) :: 8 word)" for w :: "32 word"
  by (rule bit_word_eqI) (auto simp: bit_simps)

lemma unpack_pass_ok:
  assumes bits: "n \<le> 8 * length bytes" and len: "off + n \<le> length mem"
  shows "unpack_pass avx2 bytes off n mem = Inr ((), take off mem @ map of_bool (take n (bufbits bytes)) @ drop (off + n) mem)"
proof -
  define q where "q = n div 32"
  define r where "r = n - q * 32"
  have n: "n = q * 32 + r" and r: "r < 32" by (simp_all add: q_def r_def)
  let ?bits = "bufbits bytes" and ?ob = "map of_bool :: bool list \<Rightarrow> bytes"
  let ?mem = "take off mem @ ?ob (take (q * 32) ?bits) @ drop (off + q * 32) mem"
  have q4: "i * 4 + 4 \<le> length bytes" if "i < q" for i using that bits n by linarith
  have word: "bits32_to_bytes avx2 (bw (bufbits (take 4 (drop (i * 4) bytes)))) = ?ob (take 32 (drop (i * 32) ?bits))" if "i < q" for i
    using q4 [OF that] by (simp add: bits32_to_bytes_eq bufbits_take bufbits_drop mult.commute [of i] flip: of_bool_eq_iff)
  have words: "fold_gm (\<lambda>i u. memcpy_to (off + i * 32) (bits32_to_bytes avx2 (bw (bufbits (take 4 (drop (i * 4) bytes)))))) [0..<q] () mem =
      Inr ((), ?mem)"
  proof -
    have c: "map (\<lambda>i. bits32_to_bytes avx2 (bw (bufbits (take 4 (drop (i * 4) bytes))))) [0..<q] =
        map (\<lambda>i. ?ob (take 32 (drop (i * 32) ?bits))) [0..<q]" by (rule map_cong) (simp_all add: word)
    have "concat (map (\<lambda>i. ?ob (take 32 (drop (i * 32) ?bits))) [0..<q]) = ?ob (take (q * 32) ?bits)"
      using concat_slices [of q 32 ?bits, THEN arg_cong [where f = ?ob]] bits n by (simp add: map_concat comp_def)
    moreover have "length (bits32_to_bytes avx2 w) = 32" for w by (simp add: bits32_to_bytes_eq)
    ultimately show ?thesis
      using fold_memcpy [of q "\<lambda>i. bits32_to_bytes avx2 (bw (bufbits (take 4 (drop (i * 4) bytes))))" 32 off mem, unfolded c] len n
      by simp
  qed
  define nb where "nb = (r + 7) div 8"
  define b32 where "b32 = (bw (bufbits (take nb (drop (q * 4) bytes) @ replicate (4 - nb) 0)) :: 32 word)"
  have nb: "nb \<le> 4" "r \<le> 8 * nb" "q * 4 + nb \<le> length bytes" using r bits n by (simp_all add: nb_def)
  have tail: "fold_gm (\<lambda>i u. memcpy_to (off + q * 32 + i) [ucast (drop_bit i b32 AND 1)]) [0..<r] () ?mem =
      Inr ((), take (off + q * 32) ?mem @ ?ob (take r (drop (q * 32) ?bits)) @ drop (off + n) ?mem)"
  proof -
    have "bit b32 i = ?bits ! (q * 32 + i)" if "i < r" for i
      using that nb r bits n by (simp add: b32_def bit_bw bufbits_take bufbits_drop nth_append mult.commute [of q])
    then have "map (\<lambda>i. ucast (drop_bit i b32 AND 1) :: 8 word) [0..<r] = ?ob (take r (drop (q * 32) ?bits))"
      using bits n by (intro nth_equalityI) (simp_all add: low_bit)
    moreover have "concat (map (\<lambda>i. [ucast (drop_bit i b32 AND 1) :: 8 word]) [0..<r]) = map (\<lambda>i. ucast (drop_bit i b32 AND 1)) [0..<r]"
      by (induction r) simp_all
    ultimately show ?thesis
      using fold_memcpy [of r "\<lambda>i. [ucast (drop_bit i b32 AND 1)]" 1 "off + q * 32" ?mem] len n bits by (simp add: add.assoc)
  qed
  have fin: "take (off + q * 32) ?mem @ ?ob (take r (drop (q * 32) ?bits)) @ drop (off + n) ?mem =
      take off mem @ ?ob (take n ?bits) @ drop (off + n) mem"
  proof -
    have l: "length (take off mem @ ?ob (take (q * 32) ?bits)) = off + q * 32" using len bits n by simp
    then have "drop (off + n) ?mem = drop (off + n) mem"
      using drop_overlap [OF l, of "off + n" mem] n by simp
    moreover have "take (off + q * 32) ?mem = take off mem @ ?ob (take (q * 32) ?bits)"
      using l append_eq_conv_conj by (metis append.assoc)
    moreover have "take n ?bits = take (q * 32) ?bits @ take r (drop (q * 32) ?bits)" unfolding n by (rule take_add)
    ultimately show ?thesis by simp
  qed
  have m0: "off + n = off + q * 32 + r" by (simp add: n)
  show ?thesis
  proof (cases "r = 0")
    case True
    then show ?thesis
      unfolding unpack_pass_def Let_def q_def [symmetric] r_def [symmetric]
      using words fin tail by (simp add: bind_Inr ret_apply)
  next
    case False
    then show ?thesis
      unfolding unpack_pass_def Let_def q_def [symmetric] r_def [symmetric] nb_def [symmetric] b32_def [symmetric]
      using words fin tail by (simp add: bind_Inr)
  qed
qed

lemma random_bool_loop_ok:
  "prg_ok prg \<Longrightarrow> room ((n + 127) div 128) prg \<Longrightarrow> length buf = 16 \<Longrightarrow> off + n \<le> length mem \<Longrightarrow>
   random_bool_loop T avx2 buf off (off + n) prg mem =
     Inr (advance ((n + 127) div 128) prg, take off mem @ map of_bool (ks_bits (prg_key prg) (counter prg) n) @ drop (off + n) mem)"
proof (induction n arbitrary: off prg buf mem rule: less_induct)
  case (less n)
  show ?case
  proof (cases "n = 0")
    case False
    define bits where "bits = (if n < 16 * 128 then n else 16 * 128)"
    define q where "q = (bits + 127) div 128"
    define k where "k = n - bits"
    have b: "0 < bits" "bits \<le> n" "bits \<le> 128 * q" using False by (auto simp: bits_def q_def)
    have q16: "q \<le> 16"
    proof -
      have "bits \<le> 2048" by (simp add: bits_def)
      then have "(bits + 127) div 128 \<le> (2048 + 127) div 128" by (intro div_le_mono) simp
      then show ?thesis by (simp add: q_def)
    qed
    have n: "n = bits + k" and whole: "k = 0 \<or> bits = 128 * q" by (auto simp: k_def bits_def q_def)
    have c: "(n + 127) div 128 = q + (k + 127) div 128"
    proof (cases "k = 0")
      case False
      with whole have "bits = 128 * q" by blast
      then show ?thesis by (simp add: n)
    qed (simp add: n q_def)
    have r: "room q prg" "room ((k + 127) div 128) (advance q prg)"
      using less.prems(2) c room_mono [of "(n + 127) div 128" prg q] room_advance [of q "(k + 127) div 128" prg] by simp_all
    have e: "off + bits + k = off + n" by (simp add: n)
    let ?ks = "ks_blocks (prg_key prg) (counter prg) q" and ?bits = "ks_bits (prg_key prg) (counter prg) bits"
    have rb: "random_block T 0 0 (int q) prg buf = Inr (advance q prg, ?ks @ drop q buf)"
      using random_block_ok [OF less.prems(1) r(1), of 0 buf 0 T] less.prems(3) q16 by simp
    let ?mem = "take off mem @ map of_bool ?bits @ drop (off + bits) mem"
    have up: "unpack_pass avx2 (concat (map le_bytes (?ks @ drop q buf))) off bits mem = Inr ((), ?mem)"
      using unpack_pass_ok [of bits "concat (map le_bytes (?ks @ drop q buf))" off mem avx2] less.prems(3,4) b q16
      by (simp add: ks_bits_def flip: q_def)
    have "random_bool_loop T avx2 (?ks @ drop q buf) (off + bits) (off + bits + k) (advance q prg) ?mem =
        Inr (advance ((k + 127) div 128) (advance q prg),
          take (off + bits) ?mem @ map of_bool (ks_bits (prg_key prg) (counter prg + of_nat q) k) @ drop (off + bits + k) ?mem)"
      (is "?loop = Inr (_, ?l @ _ @ ?r)")
      using less.IH [of k "advance q prg" "?ks @ drop q buf" "off + bits" ?mem] less.prems r(2) b q16 by (simp add: n)
    moreover have "?l = take off mem @ map of_bool ?bits" using less.prems(4) by (simp add: n)
    moreover have "?r = drop (off + n) mem"
      using less.prems(4) drop_overlap [of "take off mem @ map of_bool ?bits" "off + bits" "off + n" mem] by (simp add: n add.assoc)
    moreover have "ks_bits (prg_key prg) (counter prg) n = ?bits @ ks_bits (prg_key prg) (counter prg + of_nat q) k"
    proof (cases "k = 0")
      case False
      with whole have "bits = 128 * q" by blast
      then show ?thesis using ks_bits_add [of "prg_key prg" "counter prg" q k] by (simp add: n)
    qed (simp add: n ks_bits_def)
    ultimately have rest: "random_bool_loop T avx2 (?ks @ drop q buf) (off + bits) (off + n) (advance q prg) ?mem =
        Inr (advance ((n + 127) div 128) prg, take off mem @ map of_bool (ks_bits (prg_key prg) (counter prg) n) @ drop (off + n) mem)"
      by (simp only: e c advance_simps append_assoc map_append)
    have "random_bool_loop T avx2 buf off (off + n) prg mem =
        res_bind (random_block T 0 0 (int q) prg buf) (\<lambda>(prg, buf).
           bind (unpack_pass avx2 (concat (map le_bytes buf)) off bits) (\<lambda>_.
           random_bool_loop T avx2 buf (off + bits) (off + n) prg) mem)"
      using False by (simp add: random_bool_loop.simps [of T avx2 buf off "off + n"] Let_def bits_def q_def)
    then show ?thesis
      unfolding rb res_bind_Inr prod.case
        bind_Inr [where m = "unpack_pass avx2 (concat (map le_bytes (?ks @ drop q buf))) off bits" and s = mem, OF up] rest .
  qed (simp add: random_bool_loop.simps ret_apply ks_bits_def)
qed

text \<open>
  (C8) The generator is one keystream. Every PRG object whose schedule belongs to its key, with fewer than \<open>2^63\<close>
  blocks drawn, produces from position \<open>c\<close> the keystream blocks \<open>AES(key, c), AES(key, c + 1), ...\<close>: as blocks, as bytes at
  an aligned address, as bytes at any address, and as bits, always written to the requested range only and
  advancing the position by the blocks started. Seeding and seeking keep the object well formed, and a fork at
  a position continues from there.
\<close>

theorem prg_keystream:
  assumes "prg_ok prg" and "room ((n + 15) div 16) prg" and "room n prg" and "room ((n + 127) div 128) prg"
    and "off + n \<le> length mem" and "n \<le> length blks" and "n \<le> length bools" and "length buf = 16"
  shows "random_block T 0 0 (int n) prg blks = Inr (advance n prg, ks_blocks (prg_key prg) (counter prg) n @ drop n blks) \<and>
    ((addr + off) mod 16 = 0 \<longrightarrow> random_data T junk addr off (int n) prg mem =
      Inr (advance ((n + 15) div 16) prg, take off mem @ ks_bytes (prg_key prg) (counter prg) n @ drop (off + n) mem)) \<and>
    random_data_unaligned T junk addr off (int n) prg mem =
      Inr (advance ((n + 15) div 16) prg, take off mem @ ks_bytes (prg_key prg) (counter prg) n @ drop (off + n) mem) \<and>
    random_bool T avx2 buf (int n) prg bools =
      Inr (advance ((n + 127) div 128) prg, map of_bool (ks_bits (prg_key prg) (counter prg) n) @ drop n bools) \<and>
    prg_ok (reseed seed id' prg) \<and> prg_key (reseed seed id' prg) = seed XOR makeBlock 0 id' \<and> counter (reseed seed id' prg) = 0 \<and>
    prg_ok (fork_at c prg) \<and> prg_key (fork_at c prg) = prg_key prg \<and> counter (fork_at c prg) = c"
proof -
  have "random_block T 0 0 (int n) prg blks = Inr (advance n prg, ks_blocks (prg_key prg) (counter prg) n @ drop n blks)"
    using random_block_ok [OF assms(1,3), of 0 blks 0 T] assms(6) by simp
  moreover have "random_data T junk addr off (int n) prg mem =
      Inr (advance ((n + 15) div 16) prg, take off mem @ ks_bytes (prg_key prg) (counter prg) n @ drop (off + n) mem)"
    if "(addr + off) mod 16 = 0"
    using random_data_fills [OF assms(1,2) that] assms(5) by (simp add: fills_def)
  moreover have "random_data_unaligned T junk addr off (int n) prg mem =
      Inr (advance ((n + 15) div 16) prg, take off mem @ ks_bytes (prg_key prg) (counter prg) n @ drop (off + n) mem)"
    using random_data_unaligned_fills [OF assms(1,2)] assms(5) by (simp add: fills_def)
  moreover have "random_bool T avx2 buf (int n) prg bools =
      Inr (advance ((n + 127) div 128) prg, map of_bool (ks_bits (prg_key prg) (counter prg) n) @ drop n bools)"
    using random_bool_loop_ok [OF assms(1,4,8), of 0 bools T avx2] assms(7)
    by (cases "n = 0") (simp_all add: random_bool_def ret_apply ks_bits_def)
  moreover have "prg_ok (fork_at c prg)" using assms(1) by (simp add: prg_ok_def fork_at_def seek_def)
  ultimately show ?thesis by (simp add: reseed_def fork_at_def seek_def Let_def prg_ok_def [of "prg\<lparr>prg_key := _, prg_aes := _, counter := _\<rparr>"])
qed

lemma prg_keystream_witness:
  "random_data_unaligned \<lparr>vaes512 = True, vaes256 = True, aarch64 = False\<rparr> 0 3 1 40
     (reseed 9 4 \<lparr>counter = 0, prg_aes = [], prg_key = 0, prg_buffer = [], ptr = 32\<rparr>) (replicate 50 0) =
   Inr (advance 3 (reseed 9 4 \<lparr>counter = 0, prg_aes = [], prg_key = 0, prg_buffer = [], ptr = 32\<rparr>),
     replicate 1 0 @ ks_bytes (9 XOR makeBlock 0 4) 0 40 @ replicate 9 0)"
proof -
  let ?prg = "reseed 9 4 \<lparr>counter = 0, prg_aes = [], prg_key = 0, prg_buffer = [], ptr = 32\<rparr>"
  have "prg_ok ?prg" "prg_key ?prg = 9 XOR makeBlock 0 4" "counter ?prg = 0" and r: "room n ?prg" if "n < 100" for n
    using that by (simp_all add: prg_ok_def reseed_def Let_def room_def)
  note p = this(1-3) [of 0, simplified]
  from prg_keystream [OF p(1) r r r, where n = 40 and off = 1 and mem = "replicate 50 0" and blks = "replicate 40 0" and bools = "replicate 40 0"
      and buf = "replicate 16 0" and addr = 3 and junk = 0 and T = "\<lparr>vaes512 = True, vaes256 = True, aarch64 = False\<rparr>"]
  show ?thesis by (simp add: p)
qed

text \<open>Reseeding leaves the words that \<open>operator()\<close> has buffered: up to 32 words of the old stream follow.\<close>

lemma reseed_keeps_buffered_words:
  "ptr prg < 32 \<Longrightarrow> length (prg_buffer prg) = 32 \<Longrightarrow>
   \<exists>prg'. prg_next T (reseed seed id' prg) = Inr (prg_buffer prg ! ptr prg, prg')"
  by (simp add: prg_next_def reseed_def Let_def)

section \<open>The permutation and the hash: correctness\<close>

lemma one_key_runtime:
  assumes "length aes = 11" and "plain_tile tile \<psi>"
  shows "writes (ParaEnc_mem_tiles_runtime_impl tile T data S ps [aes] 1 (int n)) (\<lambda>i. \<psi> aes) S data ps n"
  using plain_tile.runtime [OF assms(2), of 1 "[aes]" T data S ps n] assms(1) by (auto intro: writes_cong [rotated])

lemma permute_loop_ok: "length aes = 11 \<Longrightarrow> writes (permute_loop T aes data n) (\<lambda>i. aes_rounds aes) None data data n"
proof (induction n arbitrary: data rule: less_induct)
  case (less n)
  show ?case
  proof (cases "n = 0")
    case False
    define k where "k = (if n < AES_BATCH_SIZE then n else AES_BATCH_SIZE)"
    have k: "0 < k" "k \<le> n" using False by (simp_all add: k_def AES_BATCH_SIZE_def)
    have "writes (ParaEnc_runtime_impl T data None data [aes] 1 (int k)) (\<lambda>i. aes_rounds aes) None data data k"
      unfolding ParaEnc_runtime_impl_def by (rule one_key_runtime [OF less.prems plain.plain_tile_axioms])
    from writes_bind [OF this less.IH [of "n - k" "data + k"]] k less.prems False
    show ?thesis by (simp add: permute_loop.simps [of T aes data n] k_def [symmetric] Let_def)
  qed (simp add: permute_loop.simps)
qed

lemma permute_block_ok:
  assumes "n \<le> length mem" and "address mod 16 = 0"
  shows "permute_block T (PRP_new (Some key)) address (int n) mem = Inr ((), map (aes128_block key) (take n mem) @ drop n mem)"
proof -
  have "length (PRP_new (Some key)) = 11" by (simp add: PRP_new_def set_encrypt_key)
  from writes_start [OF permute_loop_ok [OF this], of n mem T] assms ecb_map [OF assms(1), of "aes128_block key"]
  show ?thesis by (cases "n = 0") (simp_all add: permute_block_def ret_apply srcbuf_def PRP_new_def set_encrypt_key aes_rounds_ref)
qed

lemma CCRH_ok:
  assumes "n \<le> length mem" and "case S of None \<Rightarrow> True | Some b \<Rightarrow> n \<le> length b"
  shows "Hn T S (PRP_new (Some key)) (int n) mem =
      Inr ((), map (\<lambda>i. let y = sigma (srcbuf S mem ! i) in aes128_block key y XOR y) [0..<n] @ drop n mem)"
    and "CCRH_H T (PRP_new (Some key)) x = Inr (aes128_block key (sigma x) XOR sigma x)"
proof -
  let ?aes = "PRP_new (Some key)"
  have aes: "length ?aes = 11" "aes_rounds ?aes b = aes128_block key b" for b
    by (simp_all add: PRP_new_def set_encrypt_key aes_rounds_ref)
  have "writes (drain_tiles T (MemTileOp AesMemXorSigmaTile T 0 S 0 ?aes) (int n)) (\<lambda>i b. aes_rounds ?aes (sigma b) XOR sigma b) S 0 0 n"
    using one_key_runtime [OF aes(1) xor_sigma.plain_tile_axioms, of T 0 S 0 n] by (simp add: ParaEnc_mem_tiles_runtime_impl_def)
  from writes_start [OF this assms]
  show "Hn T S ?aes (int n) mem =
      Inr ((), map (\<lambda>i. let y = sigma (srcbuf S mem ! i) in aes128_block key y XOR y) [0..<n] @ drop n mem)"
    by (cases "n = 0") (simp_all add: Hn_def ret_apply aes Let_def)
  have "writes (ParaEncXorInput_impl T 1 1 0 None 0 [?aes]) (\<lambda>i b. aes_rounds ([?aes] ! (i div 1)) b XOR b) None 0 0 (1 * 1)"
    unfolding ParaEncXorInput_impl_def by (rule xor_input.mem_tiles) (simp_all add: aes)
  from writes_start [OF this, of "[sigma x]"] show "CCRH_H T ?aes x = Inr (aes128_block key (sigma x) XOR sigma x)"
    by (simp add: CCRH_H_def srcbuf_def aes)
qed

end
