(* ===== verification/Io_Channel.thy ===== *)
theory Io_Channel
  imports Block
begin

text \<open>
  \<open>runtime/io/io_channel.h\<close>: the base class of every transport. The virtual functions of a transport are the
  record \<open>transport\<close>, over the transport's own state; the members of the class are the record \<open>IOChannel\<close>. A
  pointer and a byte count are a byte list and an \<open>int\<close>; a receive returns the bytes it writes through the pointer.
  A running transcript is the bytes it has absorbed, and its hash function (a library's) is the argument \<open>H\<close> of
  the digest functions. A local buffer starts with arbitrary contents, \<open>junk\<close>.

  The locale \<open>byte_stream\<close> is what the base class relies on: a transport is a reliable byte stream each way, with
  bytes staged at the sender (\<open>staged\<close>), bytes on the wire, and bytes read from the wire but not yet delivered
  (\<open>ready\<close>). Two endpoints joined by two wires form a transition system, \<open>link_step\<close>; the locale's lemmas
  are its invariant (what one side has absorbed as sent is what the other has absorbed as received, followed by
  what is in flight), its progress, and the round trip of packed bools.
\<close>

section \<open>The channel\<close>

record 'n transport =
  send_data_internal :: "bytes \<Rightarrow> int \<Rightarrow> ('n, unit) gm"
  recv_data_internal :: "int \<Rightarrow> ('n, bytes) gm"
  flush :: "('n, unit) gm"
  sync :: "('n, unit) gm"

datatype Dir = DirNone | DirSend | DirRecv

record IOChannel =
  send_counter :: "64 word"
  recv_counter :: "64 word"
  rounds :: "64 word"
  last_dir :: Dir
  fs :: "(bytes \<times> bytes) option"
  fs_send_first :: bool

definition IOChannel_new :: IOChannel where
  "IOChannel_new = \<lparr>send_counter = 0, recv_counter = 0, rounds = 0, last_dir = DirNone, fs = None, fs_send_first = False\<rparr>"

definition fs_enabled :: "IOChannel \<Rightarrow> bool" where
  "fs_enabled ch \<longleftrightarrow> fs ch \<noteq> None"

definition enable_fs :: "bool \<Rightarrow> IOChannel \<Rightarrow> IOChannel res" where
  "enable_fs send_first ch =
     res_then (expecting (\<not> fs_enabled ch) FsEnabledTwice) (Inr (ch\<lparr>fs_send_first := send_first, fs := Some ([], [])\<rparr>))"

definition get_send_digest :: "(bytes \<Rightarrow> bytes) \<Rightarrow> IOChannel \<Rightarrow> block res" where
  "get_send_digest H ch = (case fs ch of None \<Rightarrow> Inl FsNotEnabled | Some (s, r) \<Rightarrow> Inr (bw (bufbits (take 16 (H s)))))"

definition get_recv_digest :: "(bytes \<Rightarrow> bytes) \<Rightarrow> IOChannel \<Rightarrow> block res" where
  "get_recv_digest H ch = (case fs ch of None \<Rightarrow> Inl FsNotEnabled | Some (s, r) \<Rightarrow> Inr (bw (bufbits (take 16 (H r)))))"

definition get_digest :: "(bytes \<Rightarrow> bytes) \<Rightarrow> IOChannel \<Rightarrow> block res" where
  "get_digest H ch = (case fs ch of None \<Rightarrow> Inl FsNotEnabled
     | Some (s, r) \<Rightarrow> Inr (bw (bufbits (take 16 (H (if fs_send_first ch then H s @ H r else H r @ H s))))))"

definition send_data :: "'n transport \<Rightarrow> bytes \<Rightarrow> int \<Rightarrow> IOChannel \<Rightarrow> ('n, IOChannel) gm" where
  "send_data tr data nbyte ch =
     check (0 \<le> nbyte) NegativeCount
     (if nbyte = 0 then ret ch
      else check (nat nbyte \<le> unat (- 1 - send_counter ch)) CounterOverflow
        (check (nat nbyte \<le> length data) UndefinedBehaviour
        (let ch = ch\<lparr>send_counter := send_counter ch + of_int nbyte\<rparr>;
             ch = (if last_dir ch \<noteq> DirSend then ch\<lparr>rounds := rounds ch + 1, last_dir := DirSend\<rparr> else ch);
             ch = ch\<lparr>fs := map_option (\<lambda>(s, r). (s @ take (nat nbyte) data, r)) (fs ch)\<rparr> in
         bind (send_data_internal tr data nbyte) (\<lambda>_. ret ch))))"

definition recv_data :: "'n transport \<Rightarrow> int \<Rightarrow> IOChannel \<Rightarrow> ('n, IOChannel \<times> bytes) gm" where
  "recv_data tr nbyte ch =
     check (0 \<le> nbyte) NegativeCount
     (if nbyte = 0 then ret (ch, [])
      else check (nat nbyte \<le> unat (- 1 - recv_counter ch)) CounterOverflow
        (let ch = ch\<lparr>recv_counter := recv_counter ch + of_int nbyte\<rparr>;
             ch = (if last_dir ch \<noteq> DirRecv then ch\<lparr>rounds := rounds ch + 1, last_dir := DirRecv\<rparr> else ch) in
         bind (recv_data_internal tr nbyte) (\<lambda>data.
         ret (ch\<lparr>fs := map_option (\<lambda>(s, r). (s, r @ data)) (fs ch)\<rparr>, data))))"

definition INT64_MAX :: int where
  "INT64_MAX = 2 ^ 63 - 1"

definition send_block :: "'n transport \<Rightarrow> block list \<Rightarrow> int \<Rightarrow> IOChannel \<Rightarrow> ('n, IOChannel) gm" where
  "send_block tr data nblock ch =
     check (0 \<le> nblock) NegativeCount
     (check (nblock \<le> INT64_MAX div 16) ByteCountOverflow (send_data tr (concat (map le_bytes data)) (nblock * 16) ch))"

definition recv_block :: "'n transport \<Rightarrow> int \<Rightarrow> IOChannel \<Rightarrow> ('n, IOChannel \<times> block list) gm" where
  "recv_block tr nblock ch =
     check (0 \<le> nblock) NegativeCount
     (check (nblock \<le> INT64_MAX div 16) ByteCountOverflow
       (bind (recv_data tr (nblock * 16) ch) (\<lambda>(ch, bs).
        ret (ch, map (\<lambda>i. bw (bufbits (take 16 (drop (16 * i) bs)))) [0..<nat nblock]))))"

definition IO_BOOL_CHUNK_SIZE :: nat where
  "IO_BOOL_CHUNK_SIZE = 8 * 1024"

function send_bool_loop :: "bool \<Rightarrow> 'n transport \<Rightarrow> bytes \<Rightarrow> bytes \<Rightarrow> nat \<Rightarrow> IOChannel \<Rightarrow> ('n, IOChannel) gm" where
  "send_bool_loop avx2 tr buf data length' ch =
     (if length' = 0 then ret ch
      else let batch = (if length' < IO_BOOL_CHUNK_SIZE then length' else IO_BOOL_CHUNK_SIZE);
               bytes = (batch + 7) div 8;
               buf = (if batch mod 8 \<noteq> 0 then buf[bytes - 1 := 0] else buf) in
        bind (bools_to_bits avx2 buf data (int batch)) (\<lambda>buf.
        bind (send_data tr buf (int bytes) ch) (\<lambda>ch.
        send_bool_loop avx2 tr buf (drop batch data) (length' - batch) ch)))"
  by pat_completeness auto
termination
  by (relation "measure (\<lambda>(avx2, tr, buf, data, length', ch). length')") (auto simp: IO_BOOL_CHUNK_SIZE_def)

declare send_bool_loop.simps [simp del]

definition send_bool :: "bool \<Rightarrow> 'n transport \<Rightarrow> bytes \<Rightarrow> bytes \<Rightarrow> int \<Rightarrow> IOChannel \<Rightarrow> ('n, IOChannel) gm" where
  "send_bool avx2 tr junk data length' ch =
     check (0 \<le> length') NegativeCount
       (if length' = 0 then ret ch else send_bool_loop avx2 tr junk data (nat length') ch)"

function recv_bool_loop :: "bool \<Rightarrow> 'n transport \<Rightarrow> bytes \<Rightarrow> bytes \<Rightarrow> nat \<Rightarrow> IOChannel \<Rightarrow> ('n, IOChannel \<times> bytes) gm" where
  "recv_bool_loop avx2 tr buf data length' ch =
     (if length' = 0 then ret (ch, data)
      else let batch = (if length' < IO_BOOL_CHUNK_SIZE then length' else IO_BOOL_CHUNK_SIZE);
               bytes = (batch + 7) div 8 in
        bind (recv_data tr (int bytes) ch) (\<lambda>(ch, got).
        let buf = got @ drop bytes buf in
        bind (bits_to_bools avx2 data buf (int batch)) (\<lambda>data.
        bind (recv_bool_loop avx2 tr buf (drop batch data) (length' - batch) ch) (\<lambda>(ch, rest).
        ret (ch, take batch data @ rest)))))"
  by pat_completeness auto
termination
  by (relation "measure (\<lambda>(avx2, tr, buf, data, length', ch). length')") (auto simp: IO_BOOL_CHUNK_SIZE_def)

declare recv_bool_loop.simps [simp del]

definition recv_bool :: "bool \<Rightarrow> 'n transport \<Rightarrow> bytes \<Rightarrow> bytes \<Rightarrow> int \<Rightarrow> IOChannel \<Rightarrow> ('n, IOChannel \<times> bytes) gm" where
  "recv_bool avx2 tr junk data length' ch =
     check (0 \<le> length') NegativeCount
       (if length' = 0 then ret (ch, data) else recv_bool_loop avx2 tr junk data (nat length') ch)"

section \<open>Two endpoints and two wires\<close>

datatype io_act = Send bytes int | Recv int | Flush

definition io_do :: "'n transport \<Rightarrow> io_act \<Rightarrow> IOChannel \<Rightarrow> ('n, IOChannel) gm" where
  "io_do tr a ch = (case a of
     Send data nbyte \<Rightarrow> send_data tr data nbyte ch
   | Recv nbyte \<Rightarrow> bind (recv_data tr nbyte ch) (\<lambda>(ch, data). ret ch)
   | Flush \<Rightarrow> bind (flush tr) (\<lambda>_. ret ch))"

record 'n link =
  chA :: IOChannel
  epA :: 'n
  chB :: IOChannel
  epB :: 'n
  wireAB :: bytes
  wireBA :: bytes

inductive link_step :: "('n \<times> bytes \<times> bytes) transport \<Rightarrow> 'n link \<Rightarrow> 'n link \<Rightarrow> bool" for tr where
  actA: "io_do tr a (chA L) (epA L, wireAB L, wireBA L) = Inr (ch, (n, ab, ba)) \<Longrightarrow>
    link_step tr L (L\<lparr>chA := ch, epA := n, wireAB := ab, wireBA := ba\<rparr>)"
| actB: "io_do tr a (chB L) (epB L, wireBA L, wireAB L) = Inr (ch, (n, ba, ab)) \<Longrightarrow>
    link_step tr L (L\<lparr>chB := ch, epB := n, wireAB := ab, wireBA := ba\<rparr>)"

inductive_cases link_stepE: "link_step tr L L'"

text \<open>The start: fresh channels, Fiat-Shamir enabled with opposite roles, nothing on the wires.\<close>

definition link_start :: "bool \<Rightarrow> 'n \<Rightarrow> 'n \<Rightarrow> 'n link res" where
  "link_start send_first nA nB =
     res_bind (enable_fs send_first IOChannel_new) (\<lambda>a.
     res_bind (enable_fs (\<not> send_first) IOChannel_new) (\<lambda>b.
     Inr \<lparr>chA = a, epA = nA, chB = b, epB = nB, wireAB = [], wireBA = []\<rparr>))"

section \<open>The effect of a transfer\<close>

text \<open>\<open>moved ch ch' s r\<close>: between the two states the channel absorbed the bytes \<open>s\<close> as sent and \<open>r\<close> as received.\<close>

definition moved :: "IOChannel \<Rightarrow> IOChannel \<Rightarrow> bytes \<Rightarrow> bytes \<Rightarrow> bool" where
  "moved ch ch' s r \<longleftrightarrow>
     fs ch' = map_option (\<lambda>(a, b). (a @ s, b @ r)) (fs ch) \<and> fs_send_first ch' = fs_send_first ch \<and>
     unat (send_counter ch') = unat (send_counter ch) + length s \<and>
     unat (recv_counter ch') = unat (recv_counter ch) + length r"

lemma moved_refl [simp]: "moved ch ch [] []"
  by (cases "fs ch") (auto simp: moved_def)

lemma moved_trans: "moved ch ch' s r \<Longrightarrow> moved ch' ch'' s' r' \<Longrightarrow> moved ch ch'' (s @ s') (r @ r')"
  by (cases "fs ch") (auto simp: moved_def)

lemma counter_room:
  fixes c :: "64 word"
  assumes "0 \<le> n" and "nat n \<le> unat (- 1 - c)"
  shows "unat (c + of_int n) = unat c + nat n"
proof -
  have "unat (- 1 - c) = 2 ^ 64 - 1 - unat c"
    using unat_sub [of c "- 1"] by (simp add: unsigned_minus_1_eq_mask mask_eq_exp_minus_1 word_order.extremum)
  moreover have "unat c < 2 ^ 64" using unsigned_less [of c] by simp
  moreover have "unat (of_int n :: 64 word) = nat n mod 2 ^ 64"
    using assms(1) unat_of_nat [of "nat n", where 'a = 64] by simp
  ultimately show ?thesis using assms by (simp add: unat_word_ariths)
qed

lemma send_dataD:
  assumes "send_data tr data n ch s = Inr (ch', s')"
  shows "0 \<le> n \<and> moved ch ch' (take (nat n) data) [] \<and>
    (if n = 0 then s' = s \<and> ch' = ch else nat n \<le> length data \<and> send_data_internal tr data n s = Inr ((), s'))"
proof (cases "0 < n")
  case True
  then show ?thesis
    using assms counter_room [of n "send_counter ch"]
    by (auto simp: send_data_def check_def fail_def Let_def bind_eq_Inr ret_def moved_def option.map_comp comp_def
      split_def cong: option.map_cong split: if_splits)
next
  case False
  then show ?thesis using assms by (auto simp: send_data_def check_def fail_def ret_def split: if_splits)
qed

lemma recv_dataD:
  assumes "recv_data tr n ch s = Inr ((ch', data), s')" and len: "\<And>x y. recv_data_internal tr n s = Inr (x, y) \<Longrightarrow> length x = nat n"
  shows "0 \<le> n \<and> length data = nat n \<and> moved ch ch' [] data \<and>
    (if n = 0 then s' = s \<and> ch' = ch else recv_data_internal tr n s = Inr (data, s'))"
proof (cases "0 < n")
  case True
  then show ?thesis
    using assms counter_room [of n "recv_counter ch"]
    by (auto simp: recv_data_def check_def fail_def Let_def bind_eq_Inr ret_def moved_def
      split_def cong: option.map_cong split: if_splits)
next
  case False
  then show ?thesis using assms by (auto simp: recv_data_def check_def fail_def ret_def split: if_splits)
qed

lemma send_data_ok:
  assumes "0 \<le> n" and "nat n \<le> length data" and "unat (send_counter ch) + nat n < 2 ^ 64"
    and "\<exists>x. send_data_internal tr data n s = Inr x"
  shows "\<exists>ch' s'. send_data tr data n ch s = Inr (ch', s')"
proof -
  have "unat (- 1 - send_counter ch) = 2 ^ 64 - 1 - unat (send_counter ch)"
    using unat_sub [of "send_counter ch" "- 1"] by (simp add: unsigned_minus_1_eq_mask mask_eq_exp_minus_1 word_order.extremum)
  then have "nat n \<le> unat (- 1 - send_counter ch)" using assms(3) by simp
  then show ?thesis using assms(1,2,4) by (auto simp: send_data_def check_def Let_def bind_def ret_def)
qed

lemma recv_data_ok:
  assumes "0 \<le> n" and "unat (recv_counter ch) + nat n < 2 ^ 64" and "\<exists>x. recv_data_internal tr n s = Inr x"
  shows "\<exists>ch' d s'. recv_data tr n ch s = Inr ((ch', d), s')"
proof -
  have "unat (- 1 - recv_counter ch) = 2 ^ 64 - 1 - unat (recv_counter ch)"
    using unat_sub [of "recv_counter ch" "- 1"] by (simp add: unsigned_minus_1_eq_mask mask_eq_exp_minus_1 word_order.extremum)
  then have "nat n \<le> unat (- 1 - recv_counter ch)" using assms(2) by simp
  then show ?thesis using assms(1,3) by (auto simp: recv_data_def check_def Let_def bind_def ret_def)
qed

text \<open>The sender's transcript grows at the end of its queue, the receiver's takes the front of it.\<close>

lemma queue_moved:
  assumes "w' @ q' = w @ q @ s" and "p @ i = r @ p' @ i'"
  shows "rb @ x @ w @ q @ s = rb @ x @ w' @ q' \<and> ra @ p @ i @ y = ra @ r @ p' @ i' @ y \<and>
    length p + length i = length r + (length p' + length i') \<and>
    length w + (length q + length s) = length w' + length q'"
proof -
  have "p @ i @ y = r @ p' @ i' @ y" using assms(2) by (metis append_assoc)
  moreover have "w @ q @ s = w' @ q'" using assms(1) by simp
  moreover have "length p + length i = length r + (length p' + length i')"
    using arg_cong [OF assms(2), of length] by (simp only: length_append)
  moreover have "length w + (length q + length s) = length w' + length q'"
    using arg_cong [OF assms(1), of length] by (simp only: length_append)
  ultimately show ?thesis by simp
qed

section \<open>The invariant of a link\<close>

definition link_inv :: "('n \<Rightarrow> bool) \<Rightarrow> ('n \<Rightarrow> bytes) \<Rightarrow> ('n \<Rightarrow> bytes) \<Rightarrow> 'n link \<Rightarrow> bool" where
  "link_inv good staged ready L \<longleftrightarrow> good (epA L) \<and> good (epB L) \<and> fs_send_first (chA L) \<noteq> fs_send_first (chB L) \<and>
     (\<exists>sa ra sb rb. fs (chA L) = Some (sa, ra) \<and> fs (chB L) = Some (sb, rb) \<and>
       sa = rb @ ready (epB L) @ wireAB L @ staged (epA L) \<and> sb = ra @ ready (epA L) @ wireBA L @ staged (epB L) \<and>
       unat (send_counter (chA L)) = length sa \<and> unat (recv_counter (chA L)) = length ra \<and>
       unat (send_counter (chB L)) = length sb \<and> unat (recv_counter (chB L)) = length rb)"

lemma link_inv_start:
  assumes "link_start b nA nB = Inr L" and "good nA" "good nB" and "staged nA = []" "staged nB = []" "ready nA = []" "ready nB = []"
  shows "link_inv good staged ready L"
  using assms by (auto simp: link_start_def enable_fs_def fs_enabled_def IOChannel_new_def link_inv_def)

lemma link_inv_digests:
  assumes "link_inv good staged ready L"
    and "ready (epB L) @ wireAB L @ staged (epA L) = []" and "ready (epA L) @ wireBA L @ staged (epB L) = []"
  shows "get_digest H (chA L) = get_digest H (chB L) \<and> get_send_digest H (chA L) = get_recv_digest H (chB L) \<and>
    get_recv_digest H (chA L) = get_send_digest H (chB L)"
  using assms by (auto simp: link_inv_def get_digest_def get_send_digest_def get_recv_digest_def)

definition flip :: "'n link \<Rightarrow> 'n link" where
  "flip L = \<lparr>chA = chB L, epA = epB L, chB = chA L, epB = epA L, wireAB = wireBA L, wireBA = wireAB L\<rparr>"

lemma flip_flip [simp]: "flip (flip L) = L"
  by (cases L) (simp add: flip_def)

lemma flip_fields [simp]:
  "chA (flip L) = chB L" "epA (flip L) = epB L" "chB (flip L) = chA L" "epB (flip L) = epA L"
  "wireAB (flip L) = wireBA L" "wireBA (flip L) = wireAB L"
  by (simp_all add: flip_def)

lemma flip_inv [simp]: "link_inv good staged ready (flip L) = link_inv good staged ready L"
  by (auto simp: link_inv_def)

lemma flip_step: "link_step tr L L' \<Longrightarrow> link_step tr (flip L) (flip L')"
proof (induction rule: link_step.induct)
  case (actA a L ch n ab ba)
  show ?case using link_step.actB [of tr a "flip L" ch n ab ba] actA by (simp add: flip_def)
next
  case (actB a L ch n ba ab)
  show ?case using link_step.actA [of tr a "flip L" ch n ba ab] actB by (simp add: flip_def)
qed

lemma flip_steps: "(link_step tr)\<^sup>*\<^sup>* L L' \<Longrightarrow> (link_step tr)\<^sup>*\<^sup>* (flip L) (flip L')"
  by (induction rule: rtranclp_induct) (auto intro: rtranclp.rtrancl_into_rtrancl flip_step)

abbreviation sent :: "IOChannel \<Rightarrow> bytes" where
  "sent ch \<equiv> fst (the (fs ch))"

section \<open>The contract of a transport\<close>

locale byte_stream =
  fixes tr :: "('n \<times> bytes \<times> bytes) transport"
    and good alive :: "'n \<Rightarrow> bool"
    and staged ready :: "'n \<Rightarrow> bytes"
  assumes send_law: "good n \<Longrightarrow> 0 \<le> k \<Longrightarrow> nat k \<le> length d \<Longrightarrow> send_data_internal tr d k (n, w, i) = Inr (u, n', w', i') \<Longrightarrow>
      good n' \<and> (alive n \<longrightarrow> alive n') \<and> w' @ staged n' = w @ staged n @ take (nat k) d \<and> ready n' @ i' = ready n @ i"
    and recv_law: "good n \<Longrightarrow> 0 \<le> k \<Longrightarrow> recv_data_internal tr k (n, w, i) = Inr (d, n', w', i') \<Longrightarrow>
      good n' \<and> (alive n \<longrightarrow> alive n') \<and> length d = nat k \<and> w' @ staged n' = w @ staged n \<and> ready n @ i = d @ ready n' @ i' \<and>
      (0 < k \<longrightarrow> staged n' = [])"
    and flush_law: "good n \<Longrightarrow> flush tr (n, w, i) = Inr (u, n', w', i') \<Longrightarrow>
      good n' \<and> (alive n \<longrightarrow> alive n') \<and> w' = w @ staged n \<and> staged n' = [] \<and> ready n' @ i' = ready n @ i"
    and send_live: "good n \<Longrightarrow> alive n \<Longrightarrow> 0 \<le> k \<Longrightarrow> nat k \<le> length d \<Longrightarrow> \<exists>x. send_data_internal tr d k (n, w, i) = Inr x"
    and recv_live: "good n \<Longrightarrow> alive n \<Longrightarrow> 0 \<le> k \<Longrightarrow> nat k \<le> length (ready n @ i) \<Longrightarrow> \<exists>x. recv_data_internal tr k (n, w, i) = Inr x"
    and flush_live: "good n \<Longrightarrow> alive n \<Longrightarrow> \<exists>x. flush tr (n, w, i) = Inr x"
begin

lemma do_effect:
  assumes "io_do tr a ch (n, w, i) = Inr (ch', n', w', i')" and "good n"
  shows "\<exists>s r. moved ch ch' s r \<and> w' @ staged n' = w @ staged n @ s \<and> ready n @ i = r @ ready n' @ i' \<and>
    good n' \<and> (alive n \<longrightarrow> alive n')"
proof (cases a)
  case (Send data k)
  have s: "send_data tr data k ch (n, w, i) = Inr (ch', n', w', i')" using assms(1) Send by (simp add: io_do_def)
  show ?thesis
  proof (cases "k = 0")
    case True
    then show ?thesis using send_dataD [OF s] assms(2) by (intro exI [of _ "[]"]) auto
  next
    case False
    then show ?thesis using send_dataD [OF s] send_law [OF assms(2), of k data w i "()" n' w' i']
      by (intro exI [of _ "take (nat k) data"] exI [of _ "[]"]) auto
  qed
next
  case (Recv k)
  obtain d where r: "recv_data tr k ch (n, w, i) = Inr ((ch', d), n', w', i')"
    using assms(1) Recv by (auto simp: io_do_def bind_eq_Inr ret_def)
  have k: "0 \<le> k" using r by (auto simp: recv_data_def check_def fail_def split: if_splits)
  note rd = recv_dataD [OF r]
  have l: "length x = nat k" if "recv_data_internal tr k (n, w, i) = Inr (x, y)" for x y
    using recv_law [OF assms(2) k, of w i x "fst y" "fst (snd y)" "snd (snd y)"] that by simp
  show ?thesis
  proof (cases "k = 0")
    case True
    then show ?thesis using rd [OF l] assms(2) by (intro exI [of _ "[]"]) auto
  next
    case False
    then show ?thesis using rd [OF l] recv_law [OF assms(2) k, of w i d n' w' i']
      by (intro exI [of _ "[]"] exI [of _ d]) auto
  qed
next
  case Flush
  then show ?thesis using assms(1) flush_law [OF assms(2), of w i "()" n' w' i']
    by (intro exI [of _ "[]"]) (auto simp: io_do_def bind_eq_Inr ret_def)
qed

lemma link_inv_step:
  assumes "link_step tr L L'" and "link_inv good staged ready L"
  shows "link_inv good staged ready L' \<and> (alive (epA L) \<and> alive (epB L) \<longrightarrow> alive (epA L') \<and> alive (epB L'))"
  using assms(1)
proof (cases rule: link_step.cases)
  case (actA a ch n ab ba)
  obtain s r where "moved (chA L) ch s r" "ab @ staged n = wireAB L @ staged (epA L) @ s"
    "ready (epA L) @ wireBA L = r @ ready n @ ba" "good n" "alive (epA L) \<longrightarrow> alive n"
    using do_effect [OF actA(2)] assms(2) by (auto simp: link_inv_def)
  note e = this
  show ?thesis using e(1,4,5) assms(2) queue_moved [OF e(2,3)] unfolding actA(1) link_inv_def moved_def by auto
next
  case (actB a ch n ba ab)
  obtain s r where "moved (chB L) ch s r" "ba @ staged n = wireBA L @ staged (epB L) @ s"
    "ready (epB L) @ wireAB L = r @ ready n @ ab" "good n" "alive (epB L) \<longrightarrow> alive n"
    using do_effect [OF actB(2)] assms(2) by (auto simp: link_inv_def)
  note e = this
  show ?thesis using e(1,4,5) assms(2) queue_moved [OF e(2,3)] unfolding actB(1) link_inv_def moved_def by auto
qed

lemma link_inv_steps:
  assumes "(link_step tr)\<^sup>*\<^sup>* L L'" and "link_inv good staged ready L"
  shows "link_inv good staged ready L' \<and> (alive (epA L) \<and> alive (epB L) \<longrightarrow> alive (epA L') \<and> alive (epB L'))"
  using assms by (induction rule: rtranclp_induct) (auto dest: link_inv_step)

lemma flush_B:
  assumes "link_inv good staged ready L" and "alive (epB L)"
  shows "\<exists>L'. link_step tr L L' \<and> chA L' = chA L \<and> chB L' = chB L \<and> epA L' = epA L \<and> staged (epB L') = [] \<and>
    wireBA L' = wireBA L @ staged (epB L) \<and> ready (epB L') @ wireAB L' = ready (epB L) @ wireAB L"
proof -
  have w: "good (epB L)" using assms(1) by (simp add: link_inv_def)
  obtain n' w' i' where f: "flush tr (epB L, wireBA L, wireAB L) = Inr ((), n', w', i')"
    using flush_live [OF w assms(2)] by (metis prod_cases4 unit.exhaust)
  have "io_do tr Flush (chB L) (epB L, wireBA L, wireAB L) = Inr (chB L, n', w', i')"
    using f by (simp add: io_do_def bind_def ret_def)
  from link_step.actB [OF this] show ?thesis using flush_law [OF w f]
    by (intro exI [of _ "L\<lparr>chB := chB L, epB := n', wireAB := i', wireBA := w'\<rparr>"]) simp
qed

lemma recv_B:
  assumes inv: "link_inv good staged ready L" and al: "alive (epB L)" and q: "ready (epB L) @ wireAB L = x # q"
  shows "\<exists>L'. link_step tr L L' \<and> chA L' = chA L \<and> sent (chB L') = sent (chB L) \<and> epA L' = epA L \<and>
    wireBA L' @ staged (epB L') = wireBA L @ staged (epB L) \<and> ready (epB L') @ wireAB L' = q"
proof -
  have w: "good (epB L)" using inv by (simp add: link_inv_def)
  have room: "unat (recv_counter (chB L)) + nat 1 < 2 ^ 64"
  proof -
    have "unat (recv_counter (chB L)) + length (ready (epB L) @ wireAB L) \<le> unat (send_counter (chA L))"
      using inv by (auto simp: link_inv_def)
    moreover have "unat (send_counter (chA L)) < 2 ^ 64" using unsigned_less [of "send_counter (chA L)"] by simp
    ultimately show ?thesis by (simp add: q)
  qed
  have "\<exists>x. recv_data_internal tr 1 (epB L, wireBA L, wireAB L) = Inr x" by (rule recv_live [OF w al]) (simp_all add: q)
  then obtain ch d n' w' i' where r: "recv_data tr 1 (chB L) (epB L, wireBA L, wireAB L) = Inr ((ch, d), n', w', i')"
    using recv_data_ok [OF _ room] by (metis prod_cases3 zero_le_one)
  have l: "length a = nat 1" if "recv_data_internal tr 1 (epB L, wireBA L, wireAB L) = Inr (a, y)" for a y
    using recv_law [OF w, of 1 "wireBA L" "wireAB L" a "fst y" "fst (snd y)" "snd (snd y)"] that by simp
  have rd: "moved (chB L) ch [] d \<and> recv_data_internal tr 1 (epB L, wireBA L, wireAB L) = Inr (d, n', w', i')"
    using recv_dataD [OF r] l by simp
  have law: "length d = 1 \<and> w' @ staged n' = wireBA L @ staged (epB L) \<and> ready (epB L) @ wireAB L = d @ ready n' @ i'"
    using recv_law [OF w, of 1 "wireBA L" "wireAB L" d n' w' i'] rd by auto
  have "sent ch = sent (chB L)" using rd inv by (auto simp: moved_def link_inv_def)
  moreover have "ready n' @ i' = q" using law q by (auto simp: length_Suc_conv)
  moreover have "io_do tr (Recv 1) (chB L) (epB L, wireBA L, wireAB L) = Inr (ch, n', w', i')"
    using r by (simp add: io_do_def bind_def ret_def)
  ultimately show ?thesis using link_step.actB [of tr "Recv 1" L ch n' w' i'] law
    by (intro exI [of _ "L\<lparr>chB := ch, epB := n', wireAB := i', wireBA := w'\<rparr>"]) simp
qed

lemma drain_B:
  assumes "link_inv good staged ready L" and "alive (epA L)" "alive (epB L)"
  shows "\<exists>L'. (link_step tr)\<^sup>*\<^sup>* L L' \<and> chA L' = chA L \<and> sent (chB L') = sent (chB L) \<and> epA L' = epA L \<and>
    staged (epB L') = [] \<and> wireBA L' = wireBA L @ staged (epB L) \<and> ready (epB L') @ wireAB L' = []"
  using assms
proof (induction "ready (epB L) @ wireAB L" arbitrary: L)
  case Nil
  then show ?case using flush_B [OF Nil(2,4)] by (auto intro: r_into_rtranclp)
next
  case (Cons x q)
  obtain L1 where L1: "link_step tr L L1" "chA L1 = chA L" "sent (chB L1) = sent (chB L)" "epA L1 = epA L"
    "wireBA L1 @ staged (epB L1) = wireBA L @ staged (epB L)" "ready (epB L1) @ wireAB L1 = q"
    using recv_B [OF Cons(3,5) Cons(2) [symmetric]] by auto
  have "link_inv good staged ready L1 \<and> alive (epA L1) \<and> alive (epB L1)" using link_inv_step [OF L1(1) Cons(3)] Cons(4,5) by blast
  then obtain L2 where L2: "(link_step tr)\<^sup>*\<^sup>* L1 L2" "chA L2 = chA L1" "sent (chB L2) = sent (chB L1)" "epA L2 = epA L1"
    "staged (epB L2) = []" "wireBA L2 = wireBA L1 @ staged (epB L1)" "ready (epB L2) @ wireAB L2 = []"
    using Cons(1) [OF L1(6) [symmetric]] by blast
  have "(link_step tr)\<^sup>*\<^sup>* L L2" using L1(1) L2(1) by (rule converse_rtranclp_into_rtranclp)
  then show ?case using L1 L2 by (intro exI [of _ L2]) simp
qed

lemma drain_A:
  assumes "link_inv good staged ready L" and "alive (epA L)" "alive (epB L)"
  shows "\<exists>L'. (link_step tr)\<^sup>*\<^sup>* L L' \<and> chB L' = chB L \<and> sent (chA L') = sent (chA L) \<and> epB L' = epB L \<and>
    staged (epA L') = [] \<and> wireAB L' = wireAB L @ staged (epA L) \<and> ready (epA L') @ wireBA L' = []"
proof -
  have "\<exists>L'. (link_step tr)\<^sup>*\<^sup>* (flip L) L' \<and> chA L' = chB L \<and> sent (chB L') = sent (chA L) \<and> epA L' = epB L \<and>
    staged (epB L') = [] \<and> wireBA L' = wireAB L @ staged (epA L) \<and> ready (epB L') @ wireAB L' = []"
    using drain_B [of "flip L"] assms by simp
  then obtain L' where "(link_step tr)\<^sup>*\<^sup>* (flip L) L'" "chA L' = chB L" "sent (chB L') = sent (chA L)" "epA L' = epB L"
    "staged (epB L') = []" "wireBA L' = wireAB L @ staged (epA L)" "ready (epB L') @ wireAB L' = []" by blast
  then show ?thesis using flip_steps [of tr "flip L" L'] by (intro exI [of _ "flip L'"]) simp
qed

lemma drain:
  assumes inv: "link_inv good staged ready L" and al: "alive (epA L)" "alive (epB L)"
  shows "\<exists>L'. (link_step tr)\<^sup>*\<^sup>* L L' \<and> fs (chA L') = Some (sent (chA L), sent (chB L)) \<and>
    fs (chB L') = Some (sent (chB L), sent (chA L)) \<and> get_digest H (chA L') = get_digest H (chB L')"
proof -
  obtain L1 where L1: "(link_step tr)\<^sup>*\<^sup>* L L1" "chB L1 = chB L" "sent (chA L1) = sent (chA L)" "staged (epA L1) = []"
    using drain_A [OF inv al] by blast
  note i1 = link_inv_steps [OF L1(1) inv]
  then obtain L2 where L2: "(link_step tr)\<^sup>*\<^sup>* L1 L2" "chA L2 = chA L1" "sent (chB L2) = sent (chB L1)" "epA L2 = epA L1"
    "staged (epB L2) = []" "ready (epB L2) @ wireAB L2 = []" using drain_B [of L1] al by blast
  note i2 = link_inv_steps [OF L2(1) conjunct1 [OF i1]]
  then obtain L3 where L3: "(link_step tr)\<^sup>*\<^sup>* L2 L3" "chB L3 = chB L2" "sent (chA L3) = sent (chA L2)" "epB L3 = epB L2"
    "staged (epA L3) = []" "wireAB L3 = wireAB L2 @ staged (epA L2)" "ready (epA L3) @ wireBA L3 = []"
    using drain_A [of L2] i1 al by blast
  have e: "ready (epB L3) @ wireAB L3 @ staged (epA L3) = []" "ready (epA L3) @ wireBA L3 @ staged (epB L3) = []"
    using L1 L2 L3 by auto
  have inv3: "link_inv good staged ready L3" using link_inv_steps [OF L3(1) conjunct1 [OF i2]] by blast
  have "(link_step tr)\<^sup>*\<^sup>* L L3" using L1(1) L2(1) L3(1) by (meson rtranclp_trans)
  moreover have "sent (chA L3) = sent (chA L)" "sent (chB L3) = sent (chB L)" using L1 L2 L3 by simp_all
  then have "fs (chA L3) = Some (sent (chA L), sent (chB L)) \<and> fs (chB L3) = Some (sent (chB L), sent (chA L))"
    using inv3 e by (auto simp: link_inv_def)
  ultimately show ?thesis using link_inv_digests [OF inv3 e] by blast
qed

end

end
