(* ===== verification/Io_Bools.thy ===== *)
theory Io_Bools
  imports Io_Channel
begin

text \<open>
  Two facts about \<open>runtime/io/io_channel.h\<close> over any transport: \<open>rounds\<close> counts the maximal runs of transfers in one
  direction, and \<open>send_bool\<close> puts exactly the packed bits on the stream, padded with zeros whatever its stack
  buffer held, which \<open>recv_bool\<close> unpacks.
\<close>

section \<open>Rounds\<close>

lemma remdups_adj_fresh: "x \<notin> set xs \<Longrightarrow> remdups_adj (x # xs) = x # remdups_adj xs"
  by (cases xs) auto

fun act_dir :: "io_act \<Rightarrow> Dir list" where
  "act_dir (Send data n) = (if n = 0 then [] else [DirSend])"
| "act_dir (Recv n) = (if n = 0 then [] else [DirRecv])"
| "act_dir Flush = []"

lemma io_do_rounds:
  assumes "io_do tr a ch s = Inr (ch', s')"
  shows "(rounds ch', last_dir ch') = (case act_dir a of [] \<Rightarrow> (rounds ch, last_dir ch)
    | d # _ \<Rightarrow> (if last_dir ch = d then rounds ch else rounds ch + 1, d))"
  using assms
  by (cases a) (auto simp: io_do_def send_data_def recv_data_def check_def fail_def Let_def bind_eq_Inr ret_def split: if_splits)

lemma rounds_run:
  assumes "fold_gm (io_do tr) acts ch s = Inr (ch', s')"
  shows "rounds ch' + 1 = rounds ch + of_nat (length (remdups_adj (last_dir ch # concat (map act_dir acts))))"
  using assms
proof (induction acts arbitrary: ch s)
  case Nil
  then show ?case by (simp add: ret_def)
next
  case (Cons a acts)
  obtain c t where c: "io_do tr a ch s = Inr (c, t)" and r: "fold_gm (io_do tr) acts c t = Inr (ch', s')"
    using Cons.prems by (auto simp: bind_eq_Inr)
  have "act_dir a = [] \<or> (\<exists>d. act_dir a = [d])" by (cases a) auto
  then show ?case using io_do_rounds [OF c] Cons.IH [OF r] by (auto split: if_splits)
qed

text \<open>
  The counter \<open>rounds\<close>: after any sequence of transfers and flushes on a fresh channel, over any transport, it is
  the number of maximal runs of transfers in the same direction (modulo the width of the counter), where transfers
  of no bytes and flushes count as nothing.
\<close>

lemma rounds_are_direction_runs:
  assumes "fold_gm (io_do tr) acts IOChannel_new s = Inr (ch, s')"
  shows "rounds ch = of_nat (length (remdups_adj (concat (map act_dir acts))))"
proof -
  let ?ds = "concat (map act_dir acts)"
  have "DirNone \<notin> set (act_dir a)" for a by (cases a) auto
  then have "DirNone \<notin> set ?ds" by auto
  then have "remdups_adj (DirNone # ?ds) = DirNone # remdups_adj ?ds" by (rule remdups_adj_fresh)
  then show ?thesis using rounds_run [OF assms] by (simp add: IOChannel_new_def add.commute)
qed

section \<open>Packed bools\<close>

lemma chunk_bytes:
  fixes b k :: nat
  assumes "b \<le> k" and "b < k \<longrightarrow> b mod 8 = 0"
  shows "(b + 7) div 8 + (k - b + 7) div 8 = (k + 7) div 8 \<and> b \<le> 8 * ((b + 7) div 8) \<and> (b < k \<longrightarrow> b = 8 * ((b + 7) div 8))"
proof (cases "b = k")
  case True
  then show ?thesis by simp
next
  case False
  then obtain q where q: "b = 8 * q" using assms by auto
  obtain r where r: "k = 8 * q + r" using assms(1) q by (metis le_Suc_ex)
  show ?thesis by (simp add: q r add.assoc)
qed

lemma zeroed_tail:
  assumes "n \<le> 8 * length buf"
  shows "take (8 * ((n + 7) div 8) - n) (drop n (bufbits (if n mod 8 \<noteq> 0 then buf[(n + 7) div 8 - 1 := 0] else buf))) =
    replicate (8 * ((n + 7) div 8) - n) False"
proof (cases "n mod 8 = 0")
  case True
  then have "8 * ((n + 7) div 8) = n" by presburger
  then show ?thesis by simp
next
  case False
  define q where "q = n div 8"
  have r: "n = 8 * q + n mod 8" "n mod 8 < 8" "0 < n mod 8" using False by (simp_all add: q_def)
  have q: "(n + 7) div 8 = Suc q" "n < 8 * Suc q" "8 * q \<le> n" using r by (auto intro: div_nat_eqI)
  have l: "Suc q \<le> length buf" using assms q by linarith
  have "bufbits (buf[q := 0]) ! j = False" if "n \<le> j" "j < 8 * Suc q" for j
  proof -
    have "j div 8 = q" using that q by (intro div_nat_eqI) auto
    then show ?thesis using l that by (simp add: bufbits_nth)
  qed
  then show ?thesis using False q l by (intro nth_equalityI) auto
qed

text \<open>\<open>wire_form bs\<close>: the bits \<open>bs\<close>, eight to a byte, least significant first, padded with zeros.\<close>

definition wire_form :: "bool list \<Rightarrow> bytes \<Rightarrow> bool" where
  "wire_form bs W \<longleftrightarrow> length W = (length bs + 7) div 8 \<and> bufbits W = bs @ replicate (8 * length W - length bs) False"

lemma wire_form_unique: "wire_form bs W \<Longrightarrow> wire_form bs W' \<Longrightarrow> W = W'"
  by (auto simp: wire_form_def intro: bufbits_inject)

lemma wire_form_append: "length a mod 8 = 0 \<Longrightarrow> wire_form a V \<Longrightarrow> wire_form b W \<Longrightarrow> wire_form (a @ b) (V @ W)"
proof -
  assume a: "length a mod 8 = 0" and V: "wire_form a V" and W: "wire_form b W"
  obtain q where q: "length a = 8 * q" using a by auto
  have "length V = q" using V by (simp add: wire_form_def q)
  then show "wire_form (a @ b) (V @ W)" using V W q by (simp add: wire_form_def)
qed

lemma packed_chunk:
  fixes buf data :: bytes
  assumes "n \<le> length data" and "n \<le> 8 * length buf"
  shows "\<exists>o'. bools_to_bits avx2 (if n mod 8 \<noteq> 0 then buf[(n + 7) div 8 - 1 := 0] else buf) data (int n) = (ret o' :: ('s, _) gm) \<and>
    length o' = length buf \<and> wire_form (map (\<lambda>b. b \<noteq> 0) (take n data)) (take ((n + 7) div 8) o')"
proof -
  define b where "b = (if n mod 8 \<noteq> 0 then buf[(n + 7) div 8 - 1 := 0] else buf)"
  have lb: "length b = length buf" by (simp add: b_def)
  obtain o' where o: "bools_to_bits avx2 b data (int n) = (ret o' :: ('s, _) gm)" "length o' = length buf"
    "bufbits o' = map (\<lambda>b. b \<noteq> 0) (take n data) @ drop n (bufbits b)"
    using bools_to_bits_ok [of n data b avx2] assms lb by auto
  have "(n + 7) div 8 \<le> length buf" using assms(2) by linarith
  moreover have "take (8 * ((n + 7) div 8) - n) (drop n (bufbits b)) = replicate (8 * ((n + 7) div 8) - n) False"
    unfolding b_def by (rule zeroed_tail [OF assms(2)])
  ultimately show ?thesis using o assms(1) unfolding b_def [symmetric]
    by (intro exI [of _ o']) (simp add: wire_form_def bufbits_take min_def)
qed

context byte_stream
begin

lemma send_data_stream:
  assumes "good n" "alive n" and "0 \<le> k" "nat k \<le> length d" and "unat (send_counter ch) + nat k < 2 ^ 64"
  shows "\<exists>ch' n' w' i'. send_data tr d k ch (n, w, i) = Inr (ch', n', w', i') \<and> moved ch ch' (take (nat k) d) [] \<and>
    good n' \<and> alive n' \<and> w' @ staged n' = w @ staged n @ take (nat k) d \<and> ready n' @ i' = ready n @ i"
proof -
  obtain ch' n' w' i' where s: "send_data tr d k ch (n, w, i) = Inr (ch', n', w', i')"
    using send_data_ok [OF assms(3-5) send_live [OF assms(1-4), of w i]] by (metis prod_cases3)
  show ?thesis
  proof (cases "k = 0")
    case True
    then show ?thesis using s send_dataD [OF s] assms by auto
  next
    case False
    then show ?thesis using s send_dataD [OF s] send_law [OF assms(1,3,4), of w i "()" n' w' i'] assms by auto
  qed
qed

lemma recv_data_stream:
  assumes "good n" "alive n" and "0 \<le> k" and "ready n @ i = W @ rest" "length W = nat k"
    and "unat (recv_counter ch) + nat k < 2 ^ 64"
  shows "\<exists>ch' n' w' i'. recv_data tr k ch (n, w, i) = Inr ((ch', W), n', w', i') \<and> moved ch ch' [] W \<and>
    good n' \<and> alive n' \<and> w' @ staged n' = w @ staged n \<and> ready n' @ i' = rest"
proof -
  have "\<exists>x. recv_data_internal tr k (n, w, i) = Inr x" by (rule recv_live [OF assms(1-3)]) (simp add: assms(4,5))
  then obtain ch' d n' w' i' where r: "recv_data tr k ch (n, w, i) = Inr ((ch', d), n', w', i')"
    using recv_data_ok [OF assms(3,6)] by (metis prod_cases3)
  have l: "length x = nat k" if "recv_data_internal tr k (n, w, i) = Inr (x, y)" for x y
    using recv_law [OF assms(1,3), of w i x "fst y" "fst (snd y)" "snd (snd y)"] that by simp
  have rd: "length d = nat k \<and> moved ch ch' [] d \<and>
      (if k = 0 then (n', w', i') = (n, w, i) else recv_data_internal tr k (n, w, i) = Inr (d, n', w', i'))"
    using recv_dataD [OF r] l by (auto split: if_splits)
  then have law: "good n' \<and> alive n' \<and> w' @ staged n' = w @ staged n \<and> ready n @ i = d @ ready n' @ i'"
    using recv_law [OF assms(1,3), of w i d n' w' i'] assms(1,2) by (cases "k = 0") auto
  then have "d @ ready n' @ i' = W @ rest" using assms(4) by simp
  then have "d = W" "ready n' @ i' = rest" using rd assms(5) by (simp_all add: append_eq_append_conv)
  then show ?thesis using r rd law by auto
qed

lemma send_bool_loop_stream:
  assumes "good n" "alive n" and "length buf = IO_BOOL_CHUNK_SIZE div 8" and "k \<le> length data"
    and "unat (send_counter ch) + (k + 7) div 8 < 2 ^ 64"
  shows "\<exists>ch' n' w' i' W. send_bool_loop avx2 tr buf data k ch (n, w, i) = Inr (ch', n', w', i') \<and>
    wire_form (map (\<lambda>b. b \<noteq> 0) (take k data)) W \<and> moved ch ch' W [] \<and> good n' \<and> alive n' \<and>
    w' @ staged n' = w @ staged n @ W \<and> ready n' @ i' = ready n @ i"
  using assms
proof (induction k arbitrary: n w i buf data ch rule: less_induct)
  case (less k)
  let ?nz = "map (\<lambda>b. b \<noteq> (0 :: 8 word))"
  show ?case
  proof (cases "k = 0")
    case True
    then show ?thesis using less.prems by (auto simp: send_bool_loop.simps ret_def wire_form_def intro!: exI [of _ "[]"])
  next
    case False
    define b where "b = (if k < IO_BOOL_CHUNK_SIZE then k else IO_BOOL_CHUNK_SIZE)"
    have b: "0 < b" "b \<le> k" "b \<le> 8 * length buf" "b \<le> length data" "b < k \<longrightarrow> b mod 8 = 0"
      using False less.prems(3,4) by (auto simp: b_def IO_BOOL_CHUNK_SIZE_def)
    have smaller: "k - b < k" using b(1,2) by simp
    have bytes: "(b + 7) div 8 + (k - b + 7) div 8 = (k + 7) div 8" using chunk_bytes [OF b(2,5)] by blast
    obtain o' where o: "bools_to_bits avx2 (if b mod 8 \<noteq> 0 then buf[(b + 7) div 8 - 1 := 0] else buf) data (int b) =
        (ret o' :: ('n \<times> bytes \<times> bytes, _) gm)" "length o' = length buf" "wire_form (?nz (take b data)) (take ((b + 7) div 8) o')"
      using packed_chunk [OF b(4,3)] by blast
    have lo: "(b + 7) div 8 \<le> length o'" using b(3) o(2) by linarith
    obtain c m v j where c: "send_data tr o' (int ((b + 7) div 8)) ch (n, w, i) = Inr (c, m, v, j)"
      "moved ch c (take ((b + 7) div 8) o') []" "good m" "alive m"
      "v @ staged m = w @ staged n @ take ((b + 7) div 8) o'" "ready m @ j = ready n @ i"
      using send_data_stream [OF less.prems(1,2), of "int ((b + 7) div 8)" o' ch w i] lo less.prems(5) bytes by auto
    have cnt: "unat (send_counter c) + (k - b + 7) div 8 < 2 ^ 64"
      using c(2) lo less.prems(5) bytes by (simp add: moved_def)
    obtain ch' n' w' i' W where W: "send_bool_loop avx2 tr o' (drop b data) (k - b) c (m, v, j) = Inr (ch', n', w', i')"
      "wire_form (?nz (take (k - b) (drop b data))) W" "moved c ch' W []" "good n'" "alive n'"
      "w' @ staged n' = v @ staged m @ W" "ready n' @ i' = ready m @ j"
      using less.IH [OF smaller c(3,4) _ _ cnt] less.prems(3,4) o(2) by (metis diff_le_mono length_drop)
    have "send_bool_loop avx2 tr buf data k ch (n, w, i) = Inr (ch', n', w', i')"
      using False o(1) c(1) W(1) by (subst send_bool_loop.simps) (simp add: b_def [symmetric] Let_def bind_def [of "send_data _ _ _ _"])
    moreover have "wire_form (?nz (take k data)) (take ((b + 7) div 8) o' @ W)"
    proof -
      have tk: "?nz (take k data) = ?nz (take b data) @ ?nz (take (k - b) (drop b data))"
        using b(2) by (simp add: take_add [symmetric] flip: map_append)
      show ?thesis
      proof (cases "b = k")
        case True
        then have "W = []" using W(2) by (simp add: wire_form_def)
        then show ?thesis using o(3) True by simp
      next
        case False
        then have "length (?nz (take b data)) mod 8 = 0" using b(2,4,5) by simp
        then show ?thesis unfolding tk using o(3) W(2) by (rule wire_form_append)
      qed
    qed
    moreover have "w' @ staged n' = w @ staged n @ take ((b + 7) div 8) o' @ W" using W(6) c(5) by (metis append_assoc)
    ultimately show ?thesis using moved_trans [OF c(2) W(3)] W(4,5,7) c(6) by auto
  qed
qed

lemma recv_bool_loop_stream:
  assumes "good n" "alive n" and "length buf = IO_BOOL_CHUNK_SIZE div 8" and "k \<le> length data"
    and "unat (recv_counter ch) + (k + 7) div 8 < 2 ^ 64"
    and "ready n @ i = W @ rest" and "length W = (k + 7) div 8"
  shows "\<exists>ch' n' w' i'. recv_bool_loop avx2 tr buf data k ch (n, w, i) =
      Inr ((ch', map of_bool (take k (bufbits W)) @ drop k data), n', w', i') \<and>
    moved ch ch' [] W \<and> good n' \<and> alive n' \<and> w' @ staged n' = w @ staged n \<and> ready n' @ i' = rest"
  using assms
proof (induction k arbitrary: n w i buf data ch W rule: less_induct)
  case (less k)
  show ?case
  proof (cases "k = 0")
    case True
    then show ?thesis using less.prems by (simp add: recv_bool_loop.simps ret_def)
  next
    case False
    define b where "b = (if k < IO_BOOL_CHUNK_SIZE then k else IO_BOOL_CHUNK_SIZE)"
    have b: "0 < b" "b \<le> k" "b \<le> 8 * length buf" "b \<le> length data" "b < k \<longrightarrow> b mod 8 = 0"
      using False less.prems(3,4) by (auto simp: b_def IO_BOOL_CHUNK_SIZE_def)
    define q where "q = (b + 7) div 8"
    have bytes: "q + (k - b + 7) div 8 = (k + 7) div 8" "b \<le> 8 * q" "b < k \<longrightarrow> b = 8 * q" using chunk_bytes [OF b(2,5)] by (simp_all add: q_def)
    have q: "q \<le> length W" "q \<le> length buf" using bytes less.prems(7) b(3) unfolding q_def by linarith+
    obtain c m v j where c: "recv_data tr (int q) ch (n, w, i) = Inr ((c, take q W), m, v, j)"
      "moved ch c [] (take q W)" "good m" "alive m" "v @ staged m = w @ staged n" "ready m @ j = drop q W @ rest"
      using recv_data_stream [OF less.prems(1,2), of "int q" i "take q W" "drop q W @ rest" ch w] less.prems(5,6) bytes q
      by auto
    define buf' where "buf' = take q W @ drop q buf"
    have buf': "length buf' = length buf" using q by (simp add: buf'_def)
    have "take b (bufbits buf') = take b (bufbits W)" using bytes(2) q by (simp add: buf'_def bufbits_take min_def)
    then have bb: "bits_to_bools avx2 data buf' (int b) = (ret (map of_bool (take b (bufbits W)) @ drop b data) :: ('n \<times> bytes \<times> bytes, _) gm)"
      using bits_to_bools_ok [of b data buf' avx2] b(3,4) buf' by simp
    have cnt: "unat (recv_counter c) + (k - b + 7) div 8 < 2 ^ 64" using c(2) q less.prems(5) bytes by (simp add: moved_def)
    have smaller: "k - b < k" and ld: "k - b \<le> length (drop b data)" and lq: "length (drop q W) = (k - b + 7) div 8"
      using b(1,2) less.prems(4,7) bytes(1) by simp_all
    have lw: "b \<le> 8 * length W" using bytes(2) q by linarith
    obtain ch' n' w' i' where R: "recv_bool_loop avx2 tr buf' (drop b data) (k - b) c (m, v, j) =
        Inr ((ch', map of_bool (take (k - b) (bufbits (drop q W))) @ drop (k - b) (drop b data)), n', w', i')"
      "moved c ch' [] (drop q W)" "good n'" "alive n'" "w' @ staged n' = v @ staged m" "ready n' @ i' = rest"
      using less.IH [OF smaller c(3,4) _ ld cnt c(6) lq] buf' less.prems(3) by metis
    have bits: "take b (bufbits W) @ take (k - b) (bufbits (drop q W)) = take k (bufbits W)"
    proof (cases "b = k")
      case False
      then have "b = 8 * q" using b(2) bytes(3) by simp
      then show ?thesis using b(2) by (simp add: bufbits_drop take_add [symmetric])
    qed simp
    have "recv_bool_loop avx2 tr buf data k ch (n, w, i) =
        Inr ((ch', map of_bool (take k (bufbits W)) @ drop k data), n', w', i')"
      using False R(1) b(2) lw bits [symmetric]
      by (subst recv_bool_loop.simps)
        (simp add: b_def [symmetric] q_def [symmetric] Let_def c(1) bind_def [of "recv_data _ _ _"] bind_def [of "recv_bool_loop _ _ _ _ _ _"] buf'_def [symmetric] bb R(1) ret_apply)
    then show ?thesis using moved_trans [OF c(2) R(2)] R(3-6) c(5) by auto
  qed
qed

lemma send_bool_stream:
  assumes "good n" "alive n" and "length junk = IO_BOOL_CHUNK_SIZE div 8" and "0 \<le> k" "nat k \<le> length data"
    and "unat (send_counter ch) + (nat k + 7) div 8 < 2 ^ 64"
  shows "\<exists>ch' n' w' i' W. send_bool avx2 tr junk data k ch (n, w, i) = Inr (ch', n', w', i') \<and>
    wire_form (map (\<lambda>b. b \<noteq> 0) (take (nat k) data)) W \<and> moved ch ch' W [] \<and> good n' \<and> alive n' \<and>
    w' @ staged n' = w @ staged n @ W \<and> ready n' @ i' = ready n @ i"
  using send_bool_loop_stream [OF assms(1-3,5,6), of avx2 w i] assms(4)
  by (auto simp: send_bool_def send_bool_loop.simps [of _ _ _ _ 0])

lemma recv_bool_stream:
  assumes "good n" "alive n" and "length junk = IO_BOOL_CHUNK_SIZE div 8" and "0 \<le> k" "nat k \<le> length data"
    and "unat (recv_counter ch) + (nat k + 7) div 8 < 2 ^ 64"
    and "wire_form bs W" "length bs = nat k" and "ready n @ i = W @ rest"
  shows "\<exists>ch' n' w' i'. recv_bool avx2 tr junk data k ch (n, w, i) = Inr ((ch', map of_bool bs @ drop (nat k) data), n', w', i') \<and>
    moved ch ch' [] W \<and> good n' \<and> alive n' \<and> w' @ staged n' = w @ staged n \<and> ready n' @ i' = rest"
proof -
  have "length W = (nat k + 7) div 8" "take (nat k) (bufbits W) = bs" using assms(7,8) by (simp_all add: wire_form_def)
  then show ?thesis using recv_bool_loop_stream [OF assms(1-3,5,6,9), of avx2 w] assms(4)
    by (auto simp: recv_bool_def recv_bool_loop.simps [of _ _ _ _ 0])
qed

end

end
