(* ===== verification/Net_Io.thy ===== *)
theory Net_Io
  imports Io_Bools
begin

text \<open>
  \<open>runtime/io/net_io_channel.h\<close>. A \<open>NetIO\<close> is the record of its send side (the coalescing
  buffer \<open>send_buf\<close> in front of a stdio stream) and its receive side (the staging buffer \<open>recv_buf\<close> that raw reads
  refill); its transport state is that record with the bytes on the wire to the peer and from the peer. The socket
  decides how much a call moves: \<open>fwrite_events\<close>, \<open>fflush_events\<close> and \<open>read_events\<close> are those decisions, in order. A
  short or failed \<open>fwrite\<close> and an interrupted or failed \<open>read\<close> are seen by the code; \<open>fflush\<close> can fail after any part of
  the stream (an interrupted \<open>write\<close> is such a failure), with the rest kept or lost, and the code does not look at its
  result. A read with nothing on the wire blocks; a call that would wait for the peer has no result here, and takes
  its step once the bytes are there.

  As long as no \<open>fflush\<close> fails, a NetIO is a byte stream in the sense of the locale \<open>byte_stream\<close> (the interpretation
  \<open>net\<close>), so the invariant of a link, its progress and the bool round trip hold of it. \<open>failed_flush_is_silent\<close> shows what
  a failed \<open>fflush\<close> does.
\<close>

section \<open>The stdio stream and the socket\<close>

datatype read_event = ReadData nat | ReadInterrupted | ReadError

datatype flush_event =
    FlushDone
  | FlushFailed (flush_written: nat) (flush_kept: bool) \<comment> \<open>bytes written before the failure, is the rest still in the stream\<close>

record NetIO =
  is_server :: bool
  stream :: bytes \<comment> \<open>accepted by \<open>fwrite\<close>, not yet on the wire\<close>
  fwrite_events :: "(nat \<times> nat) list" \<comment> \<open>bytes accepted, bytes of the stream written through\<close>
  fflush_events :: "flush_event list"
  send_buf :: bytes
  send_ptr :: nat
  send_dirty :: bool
  recv_buf :: bytes
  recv_ptr :: nat
  recv_fill :: nat
  read_events :: "read_event list"
  flushes_count :: "64 word"

type_synonym net = "NetIO \<times> bytes \<times> bytes"

definition NETWORK_STAGING_BUFFER_SIZE :: nat where
  "NETWORK_STAGING_BUFFER_SIZE = 1024 * 32"

definition fwrite :: "bytes \<Rightarrow> net \<Rightarrow> nat \<times> net" where
  "fwrite data = (\<lambda>(n, w, i).
     let (c, t) = (case fwrite_events n of [] \<Rightarrow> (length data, 0) | e # _ \<Rightarrow> e);
         res = min c (length data);
         q = stream n @ take res data in
     (res, n\<lparr>stream := drop t q, fwrite_events := tl (fwrite_events n)\<rparr>, w @ take t q, i))"

text \<open>The result of \<open>fflush\<close> is whether it succeeded.\<close>

definition fflush :: "net \<Rightarrow> bool \<times> net" where
  "fflush = (\<lambda>(n, w, i).
     case fflush_events n of
       FlushFailed k kept # es \<Rightarrow>
         (False, n\<lparr>stream := if kept then drop k (stream n) else [], fflush_events := es\<rparr>, w @ take k (stream n), i)
     | es \<Rightarrow> (True, n\<lparr>stream := [], fflush_events := tl es\<rparr>, w @ stream n, i))"

text \<open>\<open>read\<close> with its retry on \<open>EINTR\<close>; \<open>sz\<close> bytes at most.\<close>

fun read_retry :: "nat \<Rightarrow> read_event list \<Rightarrow> bytes \<Rightarrow> (bytes \<times> read_event list \<times> bytes) res" where
  "read_retry sz [] i = (if i = [] then Inl NetBlocked else Inr (take sz i, [], drop sz i))"
| "read_retry sz (ReadInterrupted # es) i = read_retry sz es i"
| "read_retry sz (ReadError # es) i = Inl NetReadFailed"
| "read_retry sz (ReadData c # es) i =
     (if c = 0 then Inl NetReadFailed
      else if i = [] then Inl NetBlocked
      else Inr (take (min c sz) i, es, drop (min c sz) i))"

section \<open>NetIO\<close>

text \<open>The members on a connected socket: the buffers are allocated with arbitrary contents. The flush count of the base class is kept here.\<close>

definition NetIO_new ::
  "bool \<Rightarrow> bytes \<Rightarrow> bytes \<Rightarrow> (nat \<times> nat) list \<Rightarrow> flush_event list \<Rightarrow> read_event list \<Rightarrow> NetIO" where
  "NetIO_new server junk_send junk_recv fev flev rev' =
     \<lparr>is_server = server, stream = [], fwrite_events = fev, fflush_events = flev, send_buf = junk_send, send_ptr = 0, send_dirty = False,
      recv_buf = junk_recv, recv_ptr = 0, recv_fill = 0, read_events = rev', flushes_count = 0\<rparr>"

function send_raw :: "bytes \<Rightarrow> net \<Rightarrow> error + unit \<times> net" where
  "send_raw data s =
     (if data = [] then Inr ((), s)
      else let (res, s) = fwrite data s in
        if res = 0 then Inl NetWriteFailed else send_raw (drop res data) s)"
  by pat_completeness auto
termination
  by (relation "measure (\<lambda>(data, s). length data)") auto

declare send_raw.simps [simp del]

definition drain_send_buf :: "(net, unit) gm" where
  "drain_send_buf = (\<lambda>(n, w, i).
     if send_ptr n \<noteq> 0
     then bind (send_raw (take (send_ptr n) (send_buf n))) (\<lambda>_ (n, w, i). ret () (n\<lparr>send_ptr := 0\<rparr>, w, i)) (n, w, i)
     else ret () (n, w, i))"

text \<open>The result of \<open>fflush\<close> is not used.\<close>

definition flush_unlocked :: "(net, unit) gm" where
  "flush_unlocked = (\<lambda>(n, w, i).
     if \<not> send_dirty n then ret () (n, w, i)
     else bind drain_send_buf (\<lambda>_ s. let (_, n, w, i) = fflush s in ret () (n\<lparr>send_dirty := False\<rparr>, w, i))
       (n\<lparr>flushes_count := flushes_count n + 1\<rparr>, w, i))"

definition net_send_data_internal :: "bytes \<Rightarrow> int \<Rightarrow> (net, unit) gm" where
  "net_send_data_internal data len =
     check (0 \<le> len) NegativeCount
     (if len = 0 then ret ()
      else check (nat len \<le> length data) UndefinedBehaviour
      (bind (\<lambda>(n, w, i).
        if len \<le> int NETWORK_STAGING_BUFFER_SIZE - int (send_ptr n)
        then bind (store_bytes (send_buf n) (send_ptr n) (take (nat len) data)) (\<lambda>b (n, w, i).
               ret () (n\<lparr>send_buf := b, send_ptr := send_ptr n + nat len\<rparr>, w, i)) (n, w, i)
        else bind drain_send_buf (\<lambda>_. send_raw (take (nat len) data)) (n, w, i))
      (\<lambda>_ (n, w, i). ret () (n\<lparr>send_dirty := True\<rparr>, w, i))))"

text \<open>One refill of the staging buffer, and the loop that delivers \<open>len\<close> bytes.\<close>

definition refill :: "net \<Rightarrow> net res" where
  "refill = (\<lambda>(n, w, i).
     if recv_ptr n = recv_fill n
     then (case read_retry NETWORK_STAGING_BUFFER_SIZE (read_events n) i of
         Inl e \<Rightarrow> Inl e
       | Inr (d, es, i) \<Rightarrow> Inr (n\<lparr>recv_buf := d @ drop (length d) (recv_buf n), recv_ptr := 0, recv_fill := length d,
           read_events := es\<rparr>, w, i))
     else Inr (n, w, i))"

function recv_loop :: "nat \<Rightarrow> net \<Rightarrow> error + bytes \<times> net" where
  "recv_loop len s =
     (if len = 0 then Inr ([], s)
      else case refill s of
        Inl e \<Rightarrow> Inl e
      | Inr (n, w, i) \<Rightarrow>
          let k = min (recv_fill n - recv_ptr n) len in
          if k = 0 \<or> length (recv_buf n) < recv_fill n then Inl UndefinedBehaviour
          else case recv_loop (len - k) (n\<lparr>recv_ptr := recv_ptr n + k\<rparr>, w, i) of
            Inl e \<Rightarrow> Inl e
          | Inr (rest, s) \<Rightarrow> Inr (take k (drop (recv_ptr n) (recv_buf n)) @ rest, s))"
  by pat_completeness auto
termination
  by (relation "measure (\<lambda>(len, s). len)") auto

declare recv_loop.simps [simp del]

definition net_recv_data_internal :: "int \<Rightarrow> (net, bytes) gm" where
  "net_recv_data_internal len =
     check (0 \<le> len) NegativeCount
     (if len = 0 then ret [] else bind flush_unlocked (\<lambda>_. recv_loop (nat len)))"

definition net_sync :: "(net, unit) gm" where
  "net_sync = (\<lambda>(n, w, i).
     (if is_server n
      then bind (net_send_data_internal [0, 0, 0, 0] 1) (\<lambda>_. bind (net_recv_data_internal 1) (\<lambda>_. ret ()))
      else bind (net_recv_data_internal 1) (\<lambda>d.
        bind (net_send_data_internal (d @ [0, 0, 0]) 1) (\<lambda>_. flush_unlocked))) (n, w, i))"

definition NetIO_transport :: "net transport" where
  "NetIO_transport = \<lparr>send_data_internal = net_send_data_internal, recv_data_internal = net_recv_data_internal,
     flush = flush_unlocked, sync = net_sync\<rparr>"

section \<open>A NetIO is a byte stream\<close>

definition net_good :: "NetIO \<Rightarrow> bool" where
  "net_good n \<longleftrightarrow> length (send_buf n) = NETWORK_STAGING_BUFFER_SIZE \<and> send_ptr n \<le> NETWORK_STAGING_BUFFER_SIZE \<and>
     length (recv_buf n) = NETWORK_STAGING_BUFFER_SIZE \<and> recv_ptr n \<le> recv_fill n \<and>
     recv_fill n \<le> NETWORK_STAGING_BUFFER_SIZE \<and> (\<not> send_dirty n \<longrightarrow> stream n = [] \<and> send_ptr n = 0)"

definition net_flushes_ok :: "NetIO \<Rightarrow> bool" where
  "net_flushes_ok n \<longleftrightarrow> (\<forall>e \<in> set (fflush_events n). e = FlushDone)"

definition net_alive :: "NetIO \<Rightarrow> bool" where
  "net_alive n \<longleftrightarrow> (\<forall>e \<in> set (fwrite_events n). fst e \<noteq> 0) \<and> (\<forall>e \<in> set (read_events n). e \<noteq> ReadError \<and> e \<noteq> ReadData 0) \<and>
     net_flushes_ok n"

definition net_staged :: "NetIO \<Rightarrow> bytes" where
  "net_staged n = stream n @ take (send_ptr n) (send_buf n)"

definition net_ready :: "NetIO \<Rightarrow> bytes" where
  "net_ready n = take (recv_fill n - recv_ptr n) (drop (recv_ptr n) (recv_buf n))"

lemmas net_defs = net_good_def net_alive_def net_staged_def net_ready_def

lemma net_good_init [simp]:
  "length a = NETWORK_STAGING_BUFFER_SIZE \<Longrightarrow> length b = NETWORK_STAGING_BUFFER_SIZE \<Longrightarrow> net_good (NetIO_new srv a b fev flev rev')"
  by (simp add: net_good_def NetIO_new_def)

lemma net_alive_flushes: "net_alive n \<Longrightarrow> net_flushes_ok n"
  by (simp add: net_alive_def)

lemma net_empty_init [simp]:
  "net_staged (NetIO_new srv a b fev flev rev') = []" "net_ready (NetIO_new srv a b fev flev rev') = []"
  by (simp_all add: net_staged_def net_ready_def NetIO_new_def)

lemma fwrite_spec:
  assumes "fwrite d (n, w, i) = (res, n', w', i')"
  shows "w' @ stream n' = w @ stream n @ take res d \<and> i' = i \<and> res \<le> length d \<and>
    n' = n\<lparr>stream := stream n', fwrite_events := tl (fwrite_events n)\<rparr> \<and> (net_alive n \<longrightarrow> net_alive n')"
  using assms by (cases "fwrite_events n") (auto simp: fwrite_def Let_def net_alive_def net_flushes_ok_def simp del: take_append drop_append split: prod.splits)

lemma fwrite_live: "net_alive n \<Longrightarrow> d \<noteq> [] \<Longrightarrow> fst (fwrite d (n, w, i)) \<noteq> 0"
  by (cases "fwrite_events n") (auto simp: fwrite_def Let_def net_alive_def)

lemma send_raw_spec:
  assumes "send_raw d (n, w, i) = Inr (u, n', w', i')"
  shows "w' @ stream n' = w @ stream n @ d \<and> i' = i \<and>
    (\<exists>q k. n' = n\<lparr>stream := q, fwrite_events := drop k (fwrite_events n)\<rparr>)"
  using assms
proof (induction "length d" arbitrary: d n w rule: less_induct)
  case less
  show ?case
  proof (cases "d = []")
    case True
    then show ?thesis using less.prems by (auto simp: send_raw.simps intro!: exI [of _ "stream n"] exI [of _ 0])
  next
    case False
    obtain res m v j where f: "fwrite d (n, w, i) = (res, m, v, j)" by (metis prod_cases4)
    note fs = fwrite_spec [OF f]
    have r: "res \<noteq> 0" "send_raw (drop res d) (m, v, i) = Inr (u, n', w', i')"
      using less.prems False f fs by (auto simp: send_raw.simps [of d] Let_def split: if_splits)
    have lt: "length (drop res d) < length d" using r(1) False by simp
    note ih = less.hyps [OF lt r(2)]
    obtain q k where q: "n' = m\<lparr>stream := q, fwrite_events := drop k (fwrite_events m)\<rparr>" using ih by blast
    have m: "m = n\<lparr>stream := stream m, fwrite_events := tl (fwrite_events n)\<rparr>" using fs by blast
    have "n' = n\<lparr>stream := q, fwrite_events := drop (Suc k) (fwrite_events n)\<rparr>"
      by (subst q, subst (1 2) m) (simp add: drop_Suc)
    moreover have "w' @ stream n' = w @ stream n @ d" using ih fs by (metis append_assoc append_take_drop_id)
    ultimately show ?thesis using ih by blast
  qed
qed

lemma send_raw_live: "net_alive n \<Longrightarrow> \<exists>x. send_raw d (n, w, i) = Inr x"
proof (induction "length d" arbitrary: d n w i rule: less_induct)
  case less
  show ?case
  proof (cases "d = []")
    case False
    obtain res m v j where f: "fwrite d (n, w, i) = (res, m, v, j)" by (metis prod_cases4)
    have r: "res \<noteq> 0" using fwrite_live [OF less.prems False, of w i] f by simp
    have "net_alive m" using fwrite_spec [OF f] less.prems by blast
    moreover have "length (drop res d) < length d" using r False by simp
    ultimately show ?thesis using less.hyps f r False by (simp add: send_raw.simps [of d])
  qed (simp add: send_raw.simps)
qed

lemma net_alive_drop:
  "net_alive n \<Longrightarrow> fwrite_events n' = drop k (fwrite_events n) \<Longrightarrow> set (fflush_events n') \<subseteq> set (fflush_events n) \<Longrightarrow>
     read_events n' = read_events n \<Longrightarrow> net_alive n'"
  by (auto simp: net_alive_def net_flushes_ok_def dest: in_set_dropD)

lemma fflush_ok:
  "net_flushes_ok n \<Longrightarrow> fflush (n, w, i) = (True, n\<lparr>stream := [], fflush_events := tl (fflush_events n)\<rparr>, w @ stream n, i)"
  by (cases "fflush_events n") (auto simp: fflush_def net_flushes_ok_def)

lemma drain_spec:
  assumes "drain_send_buf (n, w, i) = Inr (u, n', w', i')"
  shows "w' @ stream n' = w @ net_staged n \<and> i' = i \<and>
    (\<exists>q k. n' = n\<lparr>stream := q, fwrite_events := drop k (fwrite_events n), send_ptr := 0\<rparr>)"
proof (cases "send_ptr n = 0")
  case True
  then have "\<exists>q k. n = n\<lparr>stream := q, fwrite_events := drop k (fwrite_events n), send_ptr := 0\<rparr>"
    by (intro exI [of _ "stream n"] exI [of _ 0]) simp
  then show ?thesis using assms True by (simp add: drain_send_buf_def ret_def net_staged_def)
next
  case False
  then obtain m v j where m: "send_raw (take (send_ptr n) (send_buf n)) (n, w, i) = Inr ((), m, v, j)"
    and n': "n' = m\<lparr>send_ptr := 0\<rparr>" "w' = v" "i' = j" using assms by (auto simp: drain_send_buf_def bind_eq_Inr ret_def)
  obtain q k where "m = n\<lparr>stream := q, fwrite_events := drop k (fwrite_events n)\<rparr>" using send_raw_spec [OF m] by blast
  then show ?thesis using send_raw_spec [OF m] n' by (auto simp: net_staged_def)
qed

lemma drain_live: "net_alive n \<Longrightarrow> \<exists>x. drain_send_buf (n, w, i) = Inr x"
  using send_raw_live [of n "take (send_ptr n) (send_buf n)" w i]
  by (auto simp: drain_send_buf_def bind_def ret_def split: prod.splits)

lemma flush_spec:
  assumes "flush_unlocked (n, w, i) = Inr (u, n', w', i')" and "net_good n" "net_flushes_ok n"
  shows "w' = w @ net_staged n \<and> i' = i \<and> net_staged n' = [] \<and> net_good n' \<and> net_flushes_ok n' \<and>
    (net_alive n \<longrightarrow> net_alive n') \<and> net_ready n' = net_ready n"
proof (cases "send_dirty n")
  case False
  then show ?thesis using assms by (auto simp: flush_unlocked_def ret_def net_good_def net_staged_def)
next
  case True
  let ?n = "n\<lparr>flushes_count := flushes_count n + 1\<rparr>"
  obtain m v j where m: "drain_send_buf (?n, w, i) = Inr ((), m, v, j)"
    and ff: "(let (_, n, w, i) = fflush (m, v, j) in ret () (n\<lparr>send_dirty := False\<rparr>, w, i)) = Inr (u, n', w', i')"
    using assms(1) True by (auto simp: flush_unlocked_def bind_eq_Inr)
  obtain q k where q: "m = ?n\<lparr>stream := q, fwrite_events := drop k (fwrite_events ?n), send_ptr := 0\<rparr>"
    using drain_spec [OF m] by blast
  have "net_flushes_ok m" using assms(3) by (simp add: q net_flushes_ok_def)
  then have n': "n' = m\<lparr>stream := [], fflush_events := tl (fflush_events m), send_dirty := False\<rparr>" "w' = v @ stream m" "i' = j"
    using ff by (simp_all add: fflush_ok ret_def)
  have sub: "set (fflush_events n') \<subseteq> set (fflush_events n)" by (cases "fflush_events n") (auto simp: n' q)
  then have "net_alive n \<longrightarrow> net_alive n'" using net_alive_drop [of n n' k] by (simp add: n' q)
  moreover have "net_flushes_ok n'" using sub assms(3) by (auto simp: net_flushes_ok_def)
  moreover have "w' = w @ net_staged n" "i' = i" using drain_spec [OF m] n' by (simp_all add: net_staged_def)
  ultimately show ?thesis using assms(2) by (simp add: n' q net_good_def net_staged_def net_ready_def)
qed

text \<open>
  A failed \<open>fflush\<close> goes unnoticed: the call returns, what was not written is lost or stays in the stream, and the channel
  counts as clean, so that the next flush (and the flush before a receive) does not try again.
\<close>

lemma failed_flush_is_silent:
  assumes "send_dirty n" and "send_ptr n = 0" and "fflush_events n = FlushFailed k kept # es"
  defines "n' \<equiv> n\<lparr>stream := if kept then drop k (stream n) else [], fflush_events := es, flushes_count := flushes_count n + 1,
    send_dirty := False\<rparr>"
  shows "flush_unlocked (n, w, i) = Inr ((), n', w @ take k (stream n), i) \<and>
    flush_unlocked (n', w @ take k (stream n), i) = Inr ((), n', w @ take k (stream n), i)"
  using assms by (simp add: flush_unlocked_def drain_send_buf_def fflush_def bind_def ret_def)

lemma flush_live:
  assumes "net_alive n"
  shows "\<exists>x. flush_unlocked (n, w, i) = Inr x"
proof -
  have "net_alive (n\<lparr>flushes_count := flushes_count n + 1\<rparr>)" using assms by (simp add: net_alive_def net_flushes_ok_def)
  from drain_live [OF this, of w i] show ?thesis by (auto simp: flush_unlocked_def bind_def ret_def split: prod.splits)
qed

lemma net_send_spec:
  assumes "net_send_data_internal d k (n, w, i) = Inr (u, n', w', i')" and "net_good n"
  shows "net_good n' \<and> fflush_events n' = fflush_events n \<and> (net_alive n \<longrightarrow> net_alive n') \<and>
    w' @ net_staged n' = w @ net_staged n @ take (nat k) d \<and> net_ready n' @ i' = net_ready n @ i"
proof (cases "k = 0")
  case True
  then show ?thesis using assms by (simp add: net_send_data_internal_def ret_def)
next
  case False
  then have k: "0 < k" "nat k \<le> length d"
    using assms(1) by (auto simp: net_send_data_internal_def check_def fail_def split: if_splits)
  show ?thesis
  proof (cases "k \<le> int NETWORK_STAGING_BUFFER_SIZE - int (send_ptr n)")
    case True
    then have "send_ptr n + nat k \<le> length (send_buf n)" using assms(2) k(1) by (simp add: net_good_def)
    then show ?thesis using assms True k
      by (auto simp: net_send_data_internal_def store_bytes_def check_def bind_def ret_def net_good_def net_alive_def net_flushes_ok_def net_staged_def net_ready_def)
  next
    case False
    obtain m v j m2 where m: "drain_send_buf (n, w, i) = Inr ((), m, v, j)"
      and r: "send_raw (take (nat k) d) (m, v, j) = Inr ((), m2, w', i')" and n': "n' = m2\<lparr>send_dirty := True\<rparr>"
      using assms(1) k False by (auto simp: net_send_data_internal_def check_def bind_eq_Inr ret_def)
    obtain q a where q: "m = n\<lparr>stream := q, fwrite_events := drop a (fwrite_events n), send_ptr := 0\<rparr>" using drain_spec [OF m] by blast
    obtain p b where p: "m2 = m\<lparr>stream := p, fwrite_events := drop b (fwrite_events m)\<rparr>" using send_raw_spec [OF r] by blast
    have "net_alive n \<longrightarrow> net_alive n'" using net_alive_drop [of n n' "a + b"] by (simp add: n' q p add.commute)
    moreover have "w' @ stream m2 = w @ net_staged n @ take (nat k) d" "i' = i"
      using drain_spec [OF m] send_raw_spec [OF r] by (metis append_assoc, simp)
    ultimately show ?thesis using assms(2) by (simp add: n' p q net_good_def net_staged_def net_ready_def)
  qed
qed

lemma net_send_live:
  assumes "net_good n" "net_alive n" and "0 \<le> k" "nat k \<le> length d"
  shows "\<exists>x. net_send_data_internal d k (n, w, i) = Inr x"
proof (cases "k \<le> int NETWORK_STAGING_BUFFER_SIZE - int (send_ptr n)")
  case True
  then have "send_ptr n + nat k \<le> length (send_buf n)" using assms(1,3) by (simp add: net_good_def)
  then show ?thesis using True assms by (auto simp: net_send_data_internal_def store_bytes_def check_def bind_def ret_def)
next
  case False
  obtain m v j where m: "drain_send_buf (n, w, i) = Inr ((), m, v, j)"
    using drain_live [OF assms(2), of w i] by (metis prod_cases4 unit.exhaust)
  obtain q a where q: "m = n\<lparr>stream := q, fwrite_events := drop a (fwrite_events n), send_ptr := 0\<rparr>" using drain_spec [OF m] by blast
  have "net_alive m" using net_alive_drop [of n m a] assms(2) by (simp add: q)
  from send_raw_live [OF this, of "take (nat k) d" v j] show ?thesis using assms False m
    by (auto simp: net_send_data_internal_def check_def bind_def ret_def split: prod.splits)
qed

lemma read_retry_spec:
  assumes "read_retry sz es i = Inr (d, es', i')"
  shows "i = d @ i' \<and> length d \<le> sz \<and> (0 < sz \<longrightarrow> d \<noteq> []) \<and> set es' \<subseteq> set es"
  using assms by (induction sz es i rule: read_retry.induct) (auto split: if_splits)

lemma read_retry_live:
  "\<forall>e \<in> set es. e \<noteq> ReadError \<and> e \<noteq> ReadData 0 \<Longrightarrow> i \<noteq> [] \<Longrightarrow> \<exists>x. read_retry sz es i = Inr x"
  by (induction sz es i rule: read_retry.induct) auto

lemma refill_spec:
  assumes "refill (n, w, i) = Inr (n', w', i')" and "net_good n"
  shows "net_good n' \<and> fflush_events n' = fflush_events n \<and> (net_alive n \<longrightarrow> net_alive n') \<and> w' = w \<and>
    net_staged n' = net_staged n \<and> net_ready n' @ i' = net_ready n @ i \<and> recv_ptr n' < recv_fill n'"
proof (cases "recv_ptr n = recv_fill n")
  case True
  obtain d es where r: "read_retry NETWORK_STAGING_BUFFER_SIZE (read_events n) i = Inr (d, es, i')"
    and n': "n' = n\<lparr>recv_buf := d @ drop (length d) (recv_buf n), recv_ptr := 0, recv_fill := length d, read_events := es\<rparr>" "w' = w"
    using assms(1) True by (auto simp: refill_def split: sum.splits)
  show ?thesis using read_retry_spec [OF r] assms(2) True
    by (auto simp: n' net_good_def net_alive_def net_flushes_ok_def net_staged_def net_ready_def NETWORK_STAGING_BUFFER_SIZE_def)
next
  case False
  then show ?thesis using assms by (auto simp: refill_def net_good_def)
qed

lemma refill_live:
  assumes "net_good n" "net_alive n" and "net_ready n @ i \<noteq> []"
  shows "\<exists>x. refill (n, w, i) = Inr x"
proof (cases "recv_ptr n = recv_fill n")
  case True
  then have "i \<noteq> []" using assms(3) by (simp add: net_ready_def)
  then show ?thesis using read_retry_live [of "read_events n" i NETWORK_STAGING_BUFFER_SIZE] assms(2) True
    by (auto simp: refill_def net_alive_def)
qed (simp add: refill_def)

lemma net_advance:
  assumes "net_good n" and "k \<le> recv_fill n - recv_ptr n" and "n' = n\<lparr>recv_ptr := recv_ptr n + k\<rparr>"
  shows "net_good n' \<and> fflush_events n' = fflush_events n \<and> net_alive n' = net_alive n \<and> net_staged n' = net_staged n \<and>
    length (take k (drop (recv_ptr n) (recv_buf n))) = k \<and> net_ready n = take k (drop (recv_ptr n) (recv_buf n)) @ net_ready n'"
proof -
  define f where "f = recv_fill n - recv_ptr n"
  have "net_good n'" using assms unfolding net_good_def by simp linarith
  moreover have "length (take k (drop (recv_ptr n) (recv_buf n))) = k"
  proof -
    have "k \<le> length (recv_buf n) - recv_ptr n" using assms(1,2) unfolding net_good_def by linarith
    then show ?thesis by simp
  qed
  moreover have "take f (drop (recv_ptr n) (recv_buf n)) =
      take k (drop (recv_ptr n) (recv_buf n)) @ take (f - k) (drop (recv_ptr n + k) (recv_buf n))"
    using take_add [of k "f - k" "drop (recv_ptr n) (recv_buf n)"] assms(2) by (simp add: f_def [symmetric] add.commute)
  then have "net_ready n = take k (drop (recv_ptr n) (recv_buf n)) @ net_ready n'"
    unfolding net_ready_def assms(3) by (simp add: f_def)
  ultimately show ?thesis using assms(3) by (simp add: net_alive_def net_flushes_ok_def net_staged_def)
qed

lemma recv_loop_step:
  assumes "k \<noteq> 0" and "refill s = Inr (m, w, j)" and "recv_ptr m < recv_fill m" "net_good m"
    and "q = min (recv_fill m - recv_ptr m) k"
  shows "recv_loop k s = (case recv_loop (k - q) (m\<lparr>recv_ptr := recv_ptr m + q\<rparr>, w, j) of Inl e \<Rightarrow> Inl e
    | Inr (rest, s') \<Rightarrow> Inr (take q (drop (recv_ptr m) (recv_buf m)) @ rest, s'))"
proof -
  have "\<not> (q = 0 \<or> length (recv_buf m) < recv_fill m)" using assms by (auto simp: net_good_def)
  then show ?thesis using assms(1,2) unfolding assms(5)
    by (subst recv_loop.simps) (simp only: Let_def sum.case prod.case if_False)
qed

lemma recv_loop_spec:
  assumes "recv_loop k (n, w, i) = Inr (d, n', w', i')" and "net_good n"
  shows "length d = k \<and> net_good n' \<and> fflush_events n' = fflush_events n \<and> (net_alive n \<longrightarrow> net_alive n') \<and> w' = w \<and> net_staged n' = net_staged n \<and>
    net_ready n @ i = d @ net_ready n' @ i'"
  using assms
proof (induction k arbitrary: n i d rule: less_induct)
  case (less k)
  show ?case
  proof (cases "k = 0")
    case True
    then show ?thesis using less.prems by (simp add: recv_loop.simps)
  next
    case False
    obtain m v j where m: "refill (n, w, i) = Inr (m, v, j)"
      using less.prems(1) False by (auto simp: recv_loop.simps [of k] split: sum.splits)
    note rs = refill_spec [OF m less.prems(2)]
    define q where "q = min (recv_fill m - recv_ptr m) k"
    define m2 where "m2 = m\<lparr>recv_ptr := recv_ptr m + q\<rparr>"
    obtain e where e: "recv_loop (k - q) (m2, w, j) = Inr (e, n', w', i')" "d = take q (drop (recv_ptr m) (recv_buf m)) @ e"
      using less.prems(1) recv_loop_step [OF False m, of q] rs by (auto simp: q_def [symmetric] m2_def [symmetric] split: sum.splits)
    have q: "q \<le> recv_fill m - recv_ptr m" "0 < q" "q \<le> k" using rs False by (auto simp: q_def)
    note g2 = net_advance [OF conjunct1 [OF rs] q(1) m2_def]
    have "k - q < k" using q by simp
    note ih = less.IH [OF this e(1) conjunct1 [OF g2]]
    have "net_ready n @ i = d @ net_ready n' @ i'" using ih rs g2 e(2) by (metis append_assoc)
    then show ?thesis using ih rs g2 e(2) q(3) by simp
  qed
qed

lemma recv_loop_live:
  assumes "net_good n" "net_alive n" and "k \<le> length (net_ready n @ i)"
  shows "\<exists>x. recv_loop k (n, w, i) = Inr x"
  using assms
proof (induction k arbitrary: n i rule: less_induct)
  case (less k)
  show ?case
  proof (cases "k = 0")
    case True
    then show ?thesis by (simp add: recv_loop.simps)
  next
    case False
    then have "net_ready n @ i \<noteq> []" using less.prems(3) by auto
    then obtain m v j where m: "refill (n, w, i) = Inr (m, v, j)" using refill_live [OF less.prems(1,2)] by (metis prod_cases3)
    note rs = refill_spec [OF m less.prems(1)]
    define q where "q = min (recv_fill m - recv_ptr m) k"
    define m2 where "m2 = m\<lparr>recv_ptr := recv_ptr m + q\<rparr>"
    have q: "q \<le> recv_fill m - recv_ptr m" "0 < q" "q \<le> k" using rs False by (auto simp: q_def)
    note g2 = net_advance [OF conjunct1 [OF rs] q(1) m2_def]
    have "length (net_ready m) = q + length (net_ready m2)" using g2 by (metis length_append)
    moreover have "length (net_ready m @ j) = length (net_ready n @ i)" using rs by simp
    ultimately have "k - q \<le> length (net_ready m2 @ j)" using less.prems(3) by simp
    moreover have "net_alive m2" "k - q < k" using g2 rs less.prems(2) q by simp_all
    ultimately obtain x where "recv_loop (k - q) (m2, w, j) = Inr x" using less.IH g2 by blast
    then show ?thesis using recv_loop_step [OF False m, of q] rs by (simp add: q_def [symmetric] m2_def [symmetric] split: prod.splits)
  qed
qed

lemma net_recv_spec:
  assumes "net_recv_data_internal k (n, w, i) = Inr (d, n', w', i')" and "net_good n" "net_flushes_ok n"
  shows "net_good n' \<and> net_flushes_ok n' \<and> (net_alive n \<longrightarrow> net_alive n') \<and> length d = nat k \<and> w' @ net_staged n' = w @ net_staged n \<and>
    net_ready n @ i = d @ net_ready n' @ i' \<and> (0 < k \<longrightarrow> net_staged n' = [])"
proof (cases "k = 0")
  case True
  then show ?thesis using assms by (simp add: net_recv_data_internal_def ret_def)
next
  case False
  then have k: "0 < k" using assms(1) by (auto simp: net_recv_data_internal_def check_def fail_def split: if_splits)
  obtain m v j where m: "flush_unlocked (n, w, i) = Inr ((), m, v, j)" and r: "recv_loop (nat k) (m, v, j) = Inr (d, n', w', i')"
    using assms(1) k by (auto simp: net_recv_data_internal_def bind_eq_Inr)
  show ?thesis using flush_spec [OF m assms(2,3)] recv_loop_spec [OF r] by (auto simp: net_flushes_ok_def)
qed

lemma net_recv_live:
  assumes "net_good n" "net_alive n" and "0 \<le> k" "nat k \<le> length (net_ready n @ i)"
  shows "\<exists>x. net_recv_data_internal k (n, w, i) = Inr x"
proof -
  obtain m v j where m: "flush_unlocked (n, w, i) = Inr ((), m, v, j)"
    using flush_live [OF assms(2), of w i] by (metis prod_cases4 unit.exhaust)
  note f = flush_spec [OF m assms(1) net_alive_flushes [OF assms(2)]]
  have "\<exists>x. recv_loop (nat k) (m, v, j) = Inr x" using f assms by (intro recv_loop_live) auto
  then show ?thesis using assms(3) m by (auto simp: net_recv_data_internal_def bind_def ret_def)
qed

definition net_sound :: "NetIO \<Rightarrow> bool" where
  "net_sound n \<longleftrightarrow> net_good n \<and> net_flushes_ok n"

lemma net_sound_alive: "net_good n \<Longrightarrow> net_alive n \<Longrightarrow> net_sound n"
  by (simp add: net_sound_def net_alive_flushes)

lemma net_laws:
  "net_send_data_internal d k (n, w, i) = Inr (u, n', w', i') \<Longrightarrow> net_sound n \<Longrightarrow>
     net_sound n' \<and> (net_alive n \<longrightarrow> net_alive n') \<and> w' @ net_staged n' = w @ net_staged n @ take (nat k) d \<and>
     net_ready n' @ i' = net_ready n @ i"
  "net_recv_data_internal k (n, w, i) = Inr (x, n', w', i') \<Longrightarrow> net_sound n \<Longrightarrow>
     net_sound n' \<and> (net_alive n \<longrightarrow> net_alive n') \<and> length x = nat k \<and> w' @ net_staged n' = w @ net_staged n \<and>
     net_ready n @ i = x @ net_ready n' @ i' \<and> (0 < k \<longrightarrow> net_staged n' = [])"
  "flush_unlocked (n, w, i) = Inr (u, n', w', i') \<Longrightarrow> net_sound n \<Longrightarrow>
     net_sound n' \<and> (net_alive n \<longrightarrow> net_alive n') \<and> w' = w @ net_staged n \<and> net_staged n' = [] \<and> net_ready n' @ i' = net_ready n @ i"
  by (auto simp: net_sound_def net_flushes_ok_def dest!: net_send_spec net_recv_spec flush_spec)

interpretation net: byte_stream NetIO_transport net_sound net_alive net_staged net_ready
proof (unfold_locales, simp_all only: NetIO_transport_def transport.select_convs)
qed (blast dest: net_laws | rule net_send_live net_recv_live flush_live; simp add: net_sound_def)+

lemma net_send_total:
  assumes "net_good n" "net_alive n" "0 \<le> k" and "nat k \<le> length d"
  shows "\<exists>n' w' i'. net_send_data_internal d k (n, w, i) = Inr ((), n', w', i') \<and> net_good n' \<and>
    net_alive n' \<and> w' @ net_staged n' = w @ net_staged n @ take (nat k) d \<and> net_ready n' @ i' = net_ready n @ i"
proof -
  obtain n' w' i' where s: "net_send_data_internal d k (n, w, i) = Inr ((), n', w', i')"
    using net_send_live [OF assms, of w i] by (metis prod_cases4 unit.exhaust)
  then show ?thesis using net_send_spec [OF s assms(1)] assms(2) by blast
qed

lemma net_recv_total:
  assumes "net_good n" "net_alive n" "0 \<le> k" and "nat k \<le> length (net_ready n @ i)"
  shows "\<exists>x n' w' i'. net_recv_data_internal k (n, w, i) = Inr (x, n', w', i') \<and>
    net_good n' \<and> net_alive n' \<and> length x = nat k \<and> net_ready n @ i = x @ net_ready n' @ i' \<and>
    w' @ net_staged n' = w @ net_staged n \<and> (0 < k \<longrightarrow> net_staged n' = [])"
proof -
  obtain x n' w' i' where s: "net_recv_data_internal k (n, w, i) = Inr (x, n', w', i')"
    using net_recv_live [OF assms, of w] by (metis prod_cases4)
  then show ?thesis using net_recv_spec [OF s assms(1) net_alive_flushes [OF assms(2)]] assms(2) by blast
qed

lemma net_flush_total:
  assumes "net_good n" "net_alive n"
  shows "\<exists>n' w' i'. flush_unlocked (n, w, i) = Inr ((), n', w', i') \<and> net_good n' \<and> net_alive n' \<and>
    w' = w @ net_staged n \<and> net_staged n' = [] \<and> net_ready n' @ i' = net_ready n @ i"
proof -
  obtain n' w' i' where s: "flush_unlocked (n, w, i) = Inr ((), n', w', i')"
    using flush_live [OF assms(2), of w i] by (metis prod_cases4 unit.exhaust)
  then show ?thesis using flush_spec [OF s assms(1) net_alive_flushes [OF assms(2)]] assms(2) by auto
qed

text \<open>
  The buffering of NetIO (C15). From a sound state of the buffers, while no call fails for good (no \<open>fwrite\<close> accepts nothing,
  no \<open>fflush\<close> fails, no \<open>read\<close> ends or fails), in whatever pieces \<open>fwrite\<close> accepts and writes through and \<open>read\<close> delivers
  bytes, and however often a read is interrupted: a send succeeds and appends its bytes to everything sent before, whether it is
  coalesced, drains the buffer first, or bypasses it; a flush puts all of it on the wire; and a receive of bytes that
  have arrived succeeds, delivers the oldest undelivered bytes in order, and leaves nothing of its own staged, so
  the peer is never left waiting for bytes that only a flush would send.
\<close>

theorem netio_is_byte_stream:
  assumes "net_good n" "net_alive n" "0 \<le> k"
  shows "(nat k \<le> length d \<longrightarrow> (\<exists>n' w' i'. net_send_data_internal d k (n, w, i) = Inr ((), n', w', i') \<and> net_good n' \<and>
      net_alive n' \<and> w' @ net_staged n' = w @ net_staged n @ take (nat k) d \<and> net_ready n' @ i' = net_ready n @ i)) \<and>
    (nat k \<le> length (net_ready n @ i) \<longrightarrow> (\<exists>x n' w' i'. net_recv_data_internal k (n, w, i) = Inr (x, n', w', i') \<and>
      net_good n' \<and> net_alive n' \<and> length x = nat k \<and> net_ready n @ i = x @ net_ready n' @ i' \<and>
      w' @ net_staged n' = w @ net_staged n \<and> (0 < k \<longrightarrow> net_staged n' = []))) \<and>
    (\<exists>n' w' i'. flush_unlocked (n, w, i) = Inr ((), n', w', i') \<and> net_good n' \<and> net_alive n' \<and>
      w' = w @ net_staged n \<and> net_staged n' = [] \<and> net_ready n' @ i' = net_ready n @ i)"
  using net_send_total [OF assms] net_recv_total [OF assms] net_flush_total [OF assms(1,2)] by blast

text \<open>A socket that takes two bytes and then one, delivers one byte, and interrupts a read, with everything after at once.\<close>

definition slow_net :: NetIO where
  "slow_net = NetIO_new True (replicate NETWORK_STAGING_BUFFER_SIZE 0) (replicate NETWORK_STAGING_BUFFER_SIZE 0)
     [(2, 0), (1, 1)] [FlushDone] [ReadData 1, ReadInterrupted]"

lemma slow_net_ok [simp]: "net_good slow_net" "net_alive slow_net" "net_staged slow_net = []" "net_ready slow_net = []"
  by (simp_all add: slow_net_def) (simp add: net_alive_def net_flushes_ok_def NetIO_new_def)

lemma slow_net_flushes [simp]: "net_flushes_ok slow_net"
  by (simp add: net_alive_flushes)

lemma netio_is_byte_stream_witness:
  "(\<exists>n' w' i'. net_send_data_internal [1, 2, 3] 3 (slow_net, [], [7, 8, 9, 10]) = Inr ((), n', w', i') \<and> net_good n' \<and>
      net_alive n' \<and> w' @ net_staged n' = [1, 2, 3] \<and> net_ready n' @ i' = [7, 8, 9, 10]) \<and>
    (\<exists>x n' w' i'. net_recv_data_internal 3 (slow_net, [], [7, 8, 9, 10]) = Inr (x, n', w', i') \<and>
      net_good n' \<and> net_alive n' \<and> length x = 3 \<and> [7, 8, 9, 10] = x @ net_ready n' @ i' \<and> w' @ net_staged n' = [] \<and> net_staged n' = [])"
  using netio_is_byte_stream [of slow_net 3 "[1, 2, 3]" "[]" "[7, 8, 9, 10]"] by simp

text \<open>
  Fiat-Shamir transcripts (C14): two channels over NetIO, with opposite roles, after any interleaving of sends, receives
  and flushes of any sizes, as long as no \<open>fflush\<close> fails (the code ignores its result; a failed \<open>fwrite\<close> or \<open>read\<close> ends the
  process instead): what A has absorbed as sent is what B has absorbed as received, followed by what is
  still in B's staging buffer, on the wire and in A's buffers, and the other way round; the byte counters are
  the lengths of the transcripts; and when nothing is in flight both sides derive the same challenge, for every
  hash function.
\<close>

theorem channel_transcripts_agree:
  assumes "link_start send_first nA nB = Inr L0" and "(link_step NetIO_transport)\<^sup>*\<^sup>* L0 L"
    and "net_good nA" "net_good nB" and "net_staged nA = []" "net_staged nB = []" "net_ready nA = []" "net_ready nB = []"
    and "net_flushes_ok nA" "net_flushes_ok nB"
  shows "\<exists>sa ra sb rb. fs (chA L) = Some (sa, ra) \<and> fs (chB L) = Some (sb, rb) \<and>
      sa = rb @ net_ready (epB L) @ wireAB L @ net_staged (epA L) \<and> sb = ra @ net_ready (epA L) @ wireBA L @ net_staged (epB L) \<and>
      unat (send_counter (chA L)) = length sa \<and> unat (recv_counter (chA L)) = length ra \<and>
      unat (send_counter (chB L)) = length sb \<and> unat (recv_counter (chB L)) = length rb \<and>
      (sa = rb \<and> sb = ra \<longrightarrow> get_digest H (chA L) = get_digest H (chB L))"
proof -
  have "net_sound nA" "net_sound nB" using assms(3,4,9,10) by (simp_all add: net_sound_def)
  then have inv: "link_inv net_sound net_staged net_ready L"
    using net.link_inv_steps [OF assms(2) link_inv_start [OF assms(1) _ _ assms(5-8)]] by blast
  then obtain sa ra sb rb where *: "fs (chA L) = Some (sa, ra)" "fs (chB L) = Some (sb, rb)"
    "sa = rb @ net_ready (epB L) @ wireAB L @ net_staged (epA L)" "sb = ra @ net_ready (epA L) @ wireBA L @ net_staged (epB L)"
    "unat (send_counter (chA L)) = length sa" "unat (recv_counter (chA L)) = length ra"
    "unat (send_counter (chB L)) = length sb" "unat (recv_counter (chB L)) = length rb"
    unfolding link_inv_def by blast
  have "get_digest H (chA L) = get_digest H (chB L)" if "sa = rb \<and> sb = ra"
    using link_inv_digests [OF inv, of H] that *(3,4) by simp
  then show ?thesis using * by blast
qed

text \<open>A run of one step: A sends three bytes, which stay in its coalescing buffer.\<close>

definition demo_start :: "NetIO link" where
  "demo_start = \<lparr>chA = IOChannel_new\<lparr>fs := Some ([], []), fs_send_first := True\<rparr>, epA = slow_net,
     chB = IOChannel_new\<lparr>fs := Some ([], [])\<rparr>, epB = slow_net, wireAB = [], wireBA = []\<rparr>"

definition demo_sent :: "NetIO link" where
  "demo_sent = demo_start\<lparr>
     chA := (chA demo_start)\<lparr>send_counter := 3, rounds := 1, last_dir := DirSend, fs := Some ([1, 2, 3], [])\<rparr>,
     epA := slow_net\<lparr>send_buf := [1, 2, 3] @ replicate 32765 0, send_ptr := 3, send_dirty := True\<rparr>\<rparr>"

lemma demo_run: "link_start True slow_net slow_net = Inr demo_start" "(link_step NetIO_transport)\<^sup>*\<^sup>* demo_start demo_sent"
proof -
  show "link_start True slow_net slow_net = Inr demo_start"
    by (simp add: link_start_def enable_fs_def fs_enabled_def IOChannel_new_def demo_start_def)
  have "net_send_data_internal [1, 2, 3] 3 (slow_net, [], []) = Inr ((), epA demo_sent, [], [])"
    by (simp add: net_send_data_internal_def store_bytes_def bind_def ret_def demo_sent_def slow_net_def NetIO_new_def
      NETWORK_STAGING_BUFFER_SIZE_def)
  then have "io_do NetIO_transport (Send [1, 2, 3] 3) (chA demo_start) (epA demo_start, wireAB demo_start, wireBA demo_start) =
      Inr (chA demo_sent, epA demo_sent, [], [])"
    by (simp add: io_do_def send_data_def NetIO_transport_def demo_start_def IOChannel_new_def bind_def ret_def demo_sent_def
      Let_def unsigned_minus_1_eq_mask mask_eq_exp_minus_1)
  then have "link_step NetIO_transport demo_start
      (demo_start\<lparr>chA := chA demo_sent, epA := epA demo_sent, wireAB := [], wireBA := []\<rparr>)" by (rule actA)
  moreover have "demo_start\<lparr>chA := chA demo_sent, epA := epA demo_sent, wireAB := [], wireBA := []\<rparr> = demo_sent"
    by (simp add: demo_sent_def demo_start_def)
  ultimately show "(link_step NetIO_transport)\<^sup>*\<^sup>* demo_start demo_sent" by (metis r_into_rtranclp)
qed

lemma channel_transcripts_agree_witness:
  "\<exists>sa ra sb rb. fs (chA demo_sent) = Some (sa, ra) \<and> fs (chB demo_sent) = Some (sb, rb) \<and>
    sa = rb @ net_ready (epB demo_sent) @ wireAB demo_sent @ net_staged (epA demo_sent) \<and>
    unat (send_counter (chA demo_sent)) = length sa"
  using channel_transcripts_agree [OF demo_run slow_net_ok(1,1,3,3,4,4) slow_net_flushes slow_net_flushes, of "\<lambda>b. b"] by blast

text \<open>
  Delivery (C16): from every state that two NetIO channels can reach, while the sockets are alive, flushes and receives
  lead to a state in which each side has received all that the other has sent; no receive counter overflows on
  the way, and both sides then derive the same challenge.
\<close>

theorem channel_drains:
  assumes "link_start send_first nA nB = Inr L0" and "(link_step NetIO_transport)\<^sup>*\<^sup>* L0 L"
    and "net_good nA" "net_good nB" and "net_staged nA = []" "net_staged nB = []" "net_ready nA = []" "net_ready nB = []"
    and "net_alive nA" "net_alive nB"
  shows "\<exists>L'. (link_step NetIO_transport)\<^sup>*\<^sup>* L L' \<and> fs (chA L') = Some (sent (chA L), sent (chB L)) \<and>
    fs (chB L') = Some (sent (chB L), sent (chA L)) \<and> get_digest H (chA L') = get_digest H (chB L')"
proof -
  have "epA L0 = nA" "epB L0 = nB" using assms(1) by (auto simp: link_start_def)
  moreover have "net_sound nA" "net_sound nB" using assms(3,4,9,10) by (simp_all add: net_sound_alive)
  ultimately show ?thesis
    using net.link_inv_steps [OF assms(2) link_inv_start [OF assms(1) _ _ assms(5-8)]] net.drain assms(9,10) by blast
qed

lemma channel_drains_witness:
  "\<exists>L'. (link_step NetIO_transport)\<^sup>*\<^sup>* demo_sent L' \<and> fs (chB L') = Some ([], [1, 2, 3]) \<and>
    get_digest (\<lambda>b. b) (chA L') = get_digest (\<lambda>b. b) (chB L')"
proof -
  have "sent (chA demo_sent) = [1, 2, 3]" "sent (chB demo_sent) = []" by (simp_all add: demo_sent_def demo_start_def)
  then show ?thesis using channel_drains [OF demo_run slow_net_ok(1,1,3,3,4,4,2,2), of "\<lambda>b. b"] by auto
qed

text \<open>
  Packed bools (C17): sending bools over one NetIO, flushing, and receiving them over another gives the bools back as
  zeros and ones, with the SIMD or the portable packing on either side. The bytes on the wire, which the transcripts
  absorb, are the bits eight to a byte with zeros up to the last byte: they do not depend on what the stack buffers
  of the two sides held.
\<close>

theorem send_recv_bool_roundtrip:
  assumes "net_good nA" "net_alive nA" "net_staged nA = []" and "net_good nB" "net_alive nB" "net_ready nB = []"
    and "length junkA = IO_BOOL_CHUNK_SIZE div 8" "length junkB = IO_BOOL_CHUNK_SIZE div 8"
    and "0 \<le> k" "nat k \<le> length data" "nat k \<le> length dst"
    and "unat (send_counter cA) + (nat k + 7) div 8 < 2 ^ 64" "unat (recv_counter cB) + (nat k + 7) div 8 < 2 ^ 64"
  shows "\<exists>W cA' s cB' nB' t. bind (send_bool avx2 NetIO_transport junkA data k cA)
        (\<lambda>c. bind (flush NetIO_transport) (\<lambda>_. ret c)) (nA, [], i) = Inr (cA', s, W, t) \<and>
      wire_form (map (\<lambda>b. b \<noteq> 0) (take (nat k) data)) W \<and> moved cA cA' W [] \<and>
      recv_bool avx2' NetIO_transport junkB dst k cB (nB, [], W) =
        Inr ((cB', map (\<lambda>b. if b \<noteq> 0 then 1 else 0) (take (nat k) data) @ drop (nat k) dst), nB') \<and>
      moved cB cB' [] W"
proof -
  let ?bs = "map (\<lambda>b. b \<noteq> 0) (take (nat k) data)"
  obtain cA' n' w' i' W where s: "send_bool avx2 NetIO_transport junkA data k cA (nA, [], i) = Inr (cA', n', w', i')"
    "wire_form ?bs W" "moved cA cA' W []" "net_sound n'" "net_alive n'" "w' @ net_staged n' = [] @ net_staged nA @ W"
    using net.send_bool_stream [OF net_sound_alive [OF assms(1,2)] assms(2,7,9,10,12)] by blast
  obtain n'' w'' i'' where f: "flush_unlocked (n', w', i') = Inr ((), n'', w'', i'')" "w'' = w' @ net_staged n'"
    using net_flush_total [of n' w' i'] s(4,5) by (auto simp: net_sound_def)
  have W: "w'' = W" using f s(6) assms(3) by simp
  have "net_ready nB @ W = W @ []" "length ?bs = nat k" using assms(6,10) by simp_all
  then obtain cB' nB' where r: "recv_bool avx2' NetIO_transport junkB dst k cB (nB, [], W) =
      Inr ((cB', map of_bool ?bs @ drop (nat k) dst), nB')" "moved cB cB' [] W"
    using net.recv_bool_stream [OF net_sound_alive [OF assms(4,5)] assms(5,8,9,11,13) s(2)] by blast
  have "map of_bool ?bs = map (\<lambda>b. if b \<noteq> 0 then 1 else 0 :: 8 word) (take (nat k) data)" by (simp add: of_bool_def)
  moreover have "bind (send_bool avx2 NetIO_transport junkA data k cA) (\<lambda>c. bind (flush NetIO_transport) (\<lambda>_. ret c)) (nA, [], i) =
      Inr (cA', n'', W, i'')" using s(1) f(1) W by (simp add: bind_def ret_def NetIO_transport_def)
  ultimately show ?thesis using s(2,3) r by metis
qed

lemma send_recv_bool_roundtrip_witness:
  "\<exists>W cA' s cB' nB' t. bind (send_bool True NetIO_transport (replicate 1024 255) [1, 0, 7] 3 IOChannel_new)
        (\<lambda>c. bind (flush NetIO_transport) (\<lambda>_. ret c)) (slow_net, [], []) = Inr (cA', s, W, t) \<and>
      wire_form [True, False, True] W \<and> moved IOChannel_new cA' W [] \<and>
      recv_bool False NetIO_transport (replicate 1024 9) [5, 5, 5, 5] 3 IOChannel_new (slow_net, [], W) =
        Inr ((cB', [1, 0, 1, 5]), nB') \<and> moved IOChannel_new cB' [] W"
  using send_recv_bool_roundtrip [of slow_net slow_net "replicate 1024 255" "replicate 1024 9" 3 "[1, 0, 7]" "[5, 5, 5, 5]"
    IOChannel_new IOChannel_new True "[]" False]
  by (simp add: IO_BOOL_CHUNK_SIZE_def IOChannel_new_def)

end
