(* ===== verification/Trace_Io.thy ===== *)
theory Trace_Io
  imports Net_Io
begin

text \<open>
  \<open>runtime/io/trace_io.h\<close>: the adapter that writes a copy of every transfer to two files and forwards it to an
  underlying transport. The files are byte lists; \<open>trace_events\<close> is how much each write to a file accepts.

  The adapter over a byte stream is a byte stream, so everything proved of a link holds of traced links; and the
  files hold exactly the bytes that the Fiat-Shamir transcripts of the channel absorb.
\<close>

section \<open>The adapter\<close>

record 'n TraceIO =
  under :: 'n
  send_fp :: bytes
  recv_fp :: bytes
  trace_events :: "nat list"

definition TraceIO_new :: "'n \<Rightarrow> nat list \<Rightarrow> 'n TraceIO" where
  "TraceIO_new n ev = \<lparr>under = n, send_fp = [], recv_fp = [], trace_events = ev\<rparr>"

definition trace_fwrite :: "bytes \<Rightarrow> 'n TraceIO \<Rightarrow> nat \<times> 'n TraceIO" where
  "trace_fwrite data t =
     (min (length data) (case trace_events t of [] \<Rightarrow> length data | c # _ \<Rightarrow> c), t\<lparr>trace_events := tl (trace_events t)\<rparr>)"

text \<open>A call of the underlying transport.\<close>

definition on_under :: "('n \<times> bytes \<times> bytes, 'a) gm \<Rightarrow> ('n TraceIO \<times> bytes \<times> bytes, 'a) gm" where
  "on_under m = (\<lambda>(t, w, i). case m (under t, w, i) of
     Inl e \<Rightarrow> Inl e | Inr (x, n, w, i) \<Rightarrow> Inr (x, t\<lparr>under := n\<rparr>, w, i))"

definition trace_send_data_internal ::
    "('n \<times> bytes \<times> bytes) transport \<Rightarrow> bytes \<Rightarrow> int \<Rightarrow> ('n TraceIO \<times> bytes \<times> bytes, unit) gm" where
  "trace_send_data_internal tr data nbyte =
     check (0 \<le> nbyte) NegativeCount
     (if nbyte = 0 then ret ()
      else check (nat nbyte \<le> length data) UndefinedBehaviour
      (\<lambda>(t, w, i). let (res, t) = trace_fwrite (take (nat nbyte) data) t;
             t = t\<lparr>send_fp := send_fp t @ take res data\<rparr> in
         check (res = nat nbyte) TraceWriteFailed (on_under (send_data_internal tr data nbyte)) (t, w, i)))"

definition trace_recv_data_internal ::
    "('n \<times> bytes \<times> bytes) transport \<Rightarrow> int \<Rightarrow> ('n TraceIO \<times> bytes \<times> bytes, bytes) gm" where
  "trace_recv_data_internal tr nbyte =
     check (0 \<le> nbyte) NegativeCount
     (if nbyte = 0 then ret []
      else bind (on_under (recv_data_internal tr nbyte)) (\<lambda>data (t, w, i).
         let (res, t) = trace_fwrite data t; t = t\<lparr>recv_fp := recv_fp t @ take res data\<rparr> in
         check (res = nat nbyte) TraceWriteFailed (ret data) (t, w, i)))"

definition TraceIO_transport :: "('n \<times> bytes \<times> bytes) transport \<Rightarrow> ('n TraceIO \<times> bytes \<times> bytes) transport" where
  "TraceIO_transport tr = \<lparr>send_data_internal = trace_send_data_internal tr, recv_data_internal = trace_recv_data_internal tr,
     flush = on_under (flush tr), sync = on_under (sync tr)\<rparr>"

section \<open>It is a byte stream when the underlying transport is\<close>

definition trace_alive :: "('n \<Rightarrow> bool) \<Rightarrow> 'n TraceIO \<Rightarrow> bool" where
  "trace_alive alive t \<longleftrightarrow> alive (under t) \<and> trace_events t = []"

definition traced :: "'n TraceIO link \<Rightarrow> bool" where
  "traced L \<longleftrightarrow> fs (chA L) = Some (send_fp (epA L), recv_fp (epA L)) \<and> fs (chB L) = Some (send_fp (epB L), recv_fp (epB L))"

lemma trace_fwrite_spec:
  "trace_fwrite d t = (res, t') \<Longrightarrow> t' = t\<lparr>trace_events := tl (trace_events t)\<rparr> \<and> (trace_events t = [] \<longrightarrow> res = length d) \<and> res \<le> length d"
  by (auto simp: trace_fwrite_def)

lemma on_under_Inr:
  "on_under m (t, w, i) = Inr (x, t', w', i') \<longleftrightarrow> (\<exists>n'. m (under t, w, i) = Inr (x, n', w', i') \<and> t' = t\<lparr>under := n'\<rparr>)"
  by (auto simp: on_under_def split: sum.splits)

lemma on_under_live: "\<exists>x. m (under t, w, i) = Inr x \<Longrightarrow> \<exists>x. on_under m (t, w, i) = Inr x"
  by (auto simp: on_under_def)

lemma trace_send_Inr:
  assumes "trace_send_data_internal tr d k (t, w, i) = Inr (u, t', w', i')" and "0 < k"
  shows "nat k \<le> length d \<and> (\<exists>n'. send_data_internal tr d k (under t, w, i) = Inr ((), n', w', i') \<and>
    t' = t\<lparr>under := n', send_fp := send_fp t @ take (nat k) d, trace_events := tl (trace_events t)\<rparr>)"
proof -
  obtain res t1 where f: "trace_fwrite (take (nat k) d) t = (res, t1)" by fastforce
  show ?thesis using assms f trace_fwrite_spec [OF f]
    by (auto simp: trace_send_data_internal_def check_def fail_def on_under_Inr split: if_splits)
qed

lemma trace_recv_Inr:
  assumes "trace_recv_data_internal tr k (t, w, i) = Inr (d, t', w', i')" and "0 < k"
  shows "\<exists>n'. recv_data_internal tr k (under t, w, i) = Inr (d, n', w', i') \<and> nat k \<le> length d \<and>
    t' = t\<lparr>under := n', recv_fp := recv_fp t @ take (nat k) d, trace_events := tl (trace_events t)\<rparr>"
proof -
  obtain x t2 v j where m: "on_under (recv_data_internal tr k) (t, w, i) = Inr (x, t2, v, j)"
    and e: "(let (res, t3) = trace_fwrite x t2; t3 = t3\<lparr>recv_fp := recv_fp t3 @ take res x\<rparr> in
         check (res = nat k) TraceWriteFailed (ret x) (t3, v, j)) = Inr (d, t', w', i')"
    using assms by (auto simp: trace_recv_data_internal_def bind_eq_Inr)
  obtain res t3 where f: "trace_fwrite x t2 = (res, t3)" by fastforce
  show ?thesis using m e f trace_fwrite_spec [OF f] by (auto simp: on_under_Inr check_def fail_def ret_def split: if_splits)
qed

context byte_stream
begin

lemma trace_stream:
  "byte_stream (TraceIO_transport tr) (\<lambda>t. good (under t)) (trace_alive alive) (\<lambda>t. staged (under t)) (\<lambda>t. ready (under t))"
proof (unfold_locales, simp_all only: TraceIO_transport_def transport.select_convs, goal_cases)
  case (1 n k d w i u n' w' i')
  then show ?case
  proof (cases "k = 0")
    case False
    then show ?thesis using 1 trace_send_Inr [OF 1(4)] send_law [OF 1(1,2,3)] by (auto simp: trace_alive_def)
  qed (simp add: trace_send_data_internal_def ret_def)
next
  case (2 n k w i d n' w' i')
  then show ?case
  proof (cases "k = 0")
    case False
    then obtain m where m: "recv_data_internal tr k (under n, w, i) = Inr (d, m, w', i')"
      "n' = n\<lparr>under := m, recv_fp := recv_fp n @ take (nat k) d, trace_events := tl (trace_events n)\<rparr>"
      using trace_recv_Inr [OF 2(3)] 2(2) by auto
    then show ?thesis using recv_law [OF 2(1,2) m(1)] by (simp add: trace_alive_def)
  qed (simp add: trace_recv_data_internal_def ret_def)
next
  case (3 n w i u n' w' i')
  then show ?case using flush_law [OF 3(1)] by (auto simp: on_under_Inr trace_alive_def)
next
  case (4 n k d w i)
  then have "\<exists>x. send_data_internal tr d k (under n, w, i) = Inr x" using send_live unfolding trace_alive_def by blast
  then have "\<exists>x. on_under (send_data_internal tr d k) (t, w, i) = Inr x" if "under t = under n" for t
    using that by (intro on_under_live) simp
  then show ?case using 4 by (auto simp: trace_send_data_internal_def trace_fwrite_def trace_alive_def check_def ret_def)
next
  case (5 n k i w)
  then obtain x m v j where "recv_data_internal tr k (under n, w, i) = Inr (x, m, v, j)"
    using recv_live [of "under n" k i w] by (auto simp: trace_alive_def)
  then show ?case using 5 recv_law [of "under n" k w i x m v j]
    by (auto simp: trace_recv_data_internal_def bind_def on_under_def trace_fwrite_def trace_alive_def check_def ret_def)
next
  case (6 n w i)
  then show ?case by (intro on_under_live flush_live) (auto simp: trace_alive_def)
qed

lemma trace_do:
  assumes d: "io_do (TraceIO_transport tr) a ch (t, w, i) = Inr (ch', t', w', i')" and g: "good (under t)"
    and f: "fs ch = Some (send_fp t, recv_fp t)"
  shows "fs ch' = Some (send_fp t', recv_fp t')"
proof (cases a)
  case (Send data k)
  have s: "send_data (TraceIO_transport tr) data k ch (t, w, i) = Inr (ch', t', w', i')" using d Send by (simp add: io_do_def)
  show ?thesis using send_dataD [OF s] trace_send_Inr [of tr data k t w i "()" t' w' i'] f
    by (cases "k = 0") (auto simp: moved_def TraceIO_transport_def)
next
  case (Recv k)
  obtain x where r: "recv_data (TraceIO_transport tr) k ch (t, w, i) = Inr ((ch', x), t', w', i')"
    using d Recv by (auto simp: io_do_def bind_eq_Inr ret_def)
  have k: "0 \<le> k" using r by (auto simp: recv_data_def check_def fail_def split: if_splits)
  have l: "length y = nat k" if y: "recv_data_internal (TraceIO_transport tr) k (t, w, i) = Inr (y, s)" for y s
    using byte_stream.recv_law [OF trace_stream g k, of w i y "fst s" "fst (snd s)" "snd (snd s)"] y by simp
  have rd: "length x = nat k \<and> moved ch ch' [] x \<and>
      (if k = 0 then (t', w', i') = (t, w, i) else recv_data_internal (TraceIO_transport tr) k (t, w, i) = Inr (x, t', w', i'))"
    using recv_dataD [OF r] l by (auto split: if_splits)
  show ?thesis using rd k trace_recv_Inr [of tr k t w i x t' w' i'] f
    by (cases "k = 0") (auto simp: moved_def TraceIO_transport_def)
next
  case Flush
  then show ?thesis using d f by (auto simp: io_do_def bind_eq_Inr ret_def TraceIO_transport_def on_under_Inr)
qed

lemma traced_steps:
  assumes "(link_step (TraceIO_transport tr))\<^sup>*\<^sup>* L0 L" and "traced L0"
    and "link_inv (\<lambda>t. good (under t)) (\<lambda>t. staged (under t)) (\<lambda>t. ready (under t)) L0"
  shows "traced L \<and> link_inv (\<lambda>t. good (under t)) (\<lambda>t. staged (under t)) (\<lambda>t. ready (under t)) L"
  using assms
proof (induction rule: rtranclp_induct)
  case (step L1 L2)
  then have inv: "link_inv (\<lambda>t. good (under t)) (\<lambda>t. staged (under t)) (\<lambda>t. ready (under t)) L1" and t: "traced L1" by blast+
  have g: "good (under (epA L1))" "good (under (epB L1))" using inv by (simp_all add: link_inv_def)
  have "traced L2" using step(2)
  proof (cases rule: link_step.cases)
    case (actA a ch n ab ba)
    then show ?thesis using trace_do [OF actA(2) g(1)] t by (simp add: traced_def)
  next
    case (actB a ch n ba ab)
    then show ?thesis using trace_do [OF actB(2) g(2)] t by (simp add: traced_def)
  qed
  then show ?case using byte_stream.link_inv_step [OF trace_stream step(2) inv] by blast
qed simp

end

interpretation net_trace: byte_stream "TraceIO_transport NetIO_transport" "\<lambda>t. net_sound (under t)" "trace_alive net_alive"
    "\<lambda>t. net_staged (under t)" "\<lambda>t. net_ready (under t)"
  by (rule net.trace_stream)

text \<open>
  Trace files (C18): over a traced NetIO whose \<open>fflush\<close> calls do not fail, after any interleaving of transfers, the \<open>.send\<close> and \<open>.recv\<close> files of each side
  are exactly the bytes its transcripts have absorbed, and the \<open>.send\<close> file of one side is the \<open>.recv\<close> file of the
  other followed by what is still in flight: a \<open>.recv\<close> file can only miss bytes that were never read.
\<close>

theorem trace_files_are_transcripts:
  assumes "link_start send_first (TraceIO_new nA evA) (TraceIO_new nB evB) = Inr L0"
    and "(link_step (TraceIO_transport NetIO_transport))\<^sup>*\<^sup>* L0 L"
    and "net_good nA" "net_good nB" and "net_staged nA = []" "net_staged nB = []" "net_ready nA = []" "net_ready nB = []"
    and "net_flushes_ok nA" "net_flushes_ok nB"
  shows "fs (chA L) = Some (send_fp (epA L), recv_fp (epA L)) \<and> fs (chB L) = Some (send_fp (epB L), recv_fp (epB L)) \<and>
    send_fp (epA L) = recv_fp (epB L) @ net_ready (under (epB L)) @ wireAB L @ net_staged (under (epA L)) \<and>
    send_fp (epB L) = recv_fp (epA L) @ net_ready (under (epA L)) @ wireBA L @ net_staged (under (epB L))"
proof -
  have "link_inv (\<lambda>t. net_sound (under t)) (\<lambda>t. net_staged (under t)) (\<lambda>t. net_ready (under t)) L0"
    by (rule link_inv_start [OF assms(1)]) (simp_all add: assms TraceIO_new_def net_sound_def)
  moreover have "traced L0"
    using assms(1) by (auto simp: link_start_def enable_fs_def fs_enabled_def IOChannel_new_def TraceIO_new_def traced_def)
  ultimately show ?thesis using net.traced_steps [OF assms(2)] by (auto simp: traced_def link_inv_def)
qed

lemma trace_files_are_transcripts_witness:
  "\<exists>L0 L. link_start True (TraceIO_new slow_net []) (TraceIO_new slow_net []) = Inr L0 \<and>
    link_step (TraceIO_transport NetIO_transport) L0 L \<and> send_fp (epA L) = [1, 2, 3] \<and> fs (chA L) = Some ([1, 2, 3], []) \<and>
    [1, 2, 3] = recv_fp (epB L) @ net_ready (under (epB L)) @ wireAB L @ net_staged (under (epA L))"
proof -
  let ?t = "TraceIO_new slow_net []" and ?tr = "TraceIO_transport NetIO_transport"
  obtain L0 where L0: "link_start True ?t ?t = Inr L0" "chA L0 = IOChannel_new\<lparr>fs := Some ([], []), fs_send_first := True\<rparr>" "epA L0 = ?t"
    by (auto simp: link_start_def enable_fs_def fs_enabled_def IOChannel_new_def)
  have t: "net_sound (under ?t)" "trace_alive net_alive ?t" by (simp_all add: TraceIO_new_def trace_alive_def net_sound_def)
  obtain c n w i where s: "send_data ?tr [1, 2, 3] 3 (chA L0) (epA L0, wireAB L0, wireBA L0) = Inr (c, n, w, i)"
    using net_trace.send_data_stream [OF t, of 3 "[1, 2, 3]" "chA L0" "wireAB L0" "wireBA L0"] L0(2,3) by (auto simp: IOChannel_new_def)
  define L where "L = L0\<lparr>chA := c, epA := n, wireAB := w, wireBA := i\<rparr>"
  have step: "link_step ?tr L0 L" unfolding L_def using s by (intro actA [where a = "Send [1, 2, 3] 3"]) (simp add: io_do_def)
  have "fs (chA L) = Some ([1, 2, 3], [])" using send_dataD [OF s] L0(2) by (simp add: L_def moved_def)
  then show ?thesis
    using trace_files_are_transcripts [OF L0(1) r_into_rtranclp [of "link_step ?tr", OF step] slow_net_ok(1,1,3,3,4,4) slow_net_flushes slow_net_flushes]
      L0(1) step
    by auto
qed

end
