(* ===== verification/Test_Mode.thy ===== *)
theory Test_Mode
  imports Block
begin

text \<open>
  \<open>runtime/core/test_mode.h\<close>: deterministic seeds. A seed is a lane and an ordinal; every thread has its own seed
  state, and the epoch and the owner of lane 0 are shared atomics. The threads are numbered, \<open>h\<close> is the hash of a
  thread id (the library's), and a \<open>test_lane_scope\<close> on a thread's stack is the state it saved.

  A step is one access to a shared atomic with the thread-local work up to the next one. A draw is two steps (load
  the epoch and rewind, then claim the owner and take the ordinal), and so is a reset (advance the epoch, then
  release the owner); \<open>next_test_seed\<close> and \<open>reset_test_seed_counter\<close> are the two parts in sequence. The other functions
  access the atomics at most once. The steps of all threads, with the log of the seeds drawn since the epoch was
  last advanced, form the transition system \<open>tm_step\<close>.

  Its invariant is that the main-lane seeds of an epoch are all drawn by one thread, in order and without repetition.
  It needs a discipline of the program: resets overlap neither draws nor other resets, and scopes install lanes other
  than 0. \<open>reset_race_repeats_seed\<close> and \<open>lane0_scope_repeats_seed\<close> are runs without it.
\<close>

section \<open>State and operations\<close>

record TestSeedTls =
  lane :: "64 word"
  ctr :: "64 word"
  child_ctr :: "64 word"
  epoch :: "64 word"

record TestSeed =
  seed_lane :: "64 word"
  ordinal :: "64 word"

record test_world =
  test_seed_epoch :: "64 word"
  lane0_owner :: "64 word"
  test_seed_tls :: "nat \<Rightarrow> TestSeedTls"
  scopes :: "nat \<Rightarrow> TestSeedTls list"

definition tls_init :: TestSeedTls where
  "tls_init = \<lparr>lane = 0, ctr = 0, child_ctr = 0, epoch = 0\<rparr>"

definition test_world_init :: test_world where
  "test_world_init = \<lparr>test_seed_epoch = 0, lane0_owner = 0, test_seed_tls = (\<lambda>_. tls_init), scopes = (\<lambda>_. [])\<rparr>"

definition sync_test_epoch :: "64 word \<Rightarrow> TestSeedTls \<Rightarrow> TestSeedTls" where
  "sync_test_epoch ep s = (if epoch s \<noteq> ep then s\<lparr>ctr := 0, child_ctr := 0, epoch := ep\<rparr> else s)"

definition this_thread_token :: "(nat \<Rightarrow> 64 word) \<Rightarrow> nat \<Rightarrow> 64 word" where
  "this_thread_token h t = h t OR 1"

definition mix64 :: "64 word \<Rightarrow> 64 word" where
  "mix64 x =
     (let x = x + 0x9E3779B97F4A7C15;
          x = (x XOR drop_bit 30 x) * 0xBF58476D1CE4E5B9;
          x = (x XOR drop_bit 27 x) * 0x94D049BB133111EB in
      x XOR drop_bit 31 x)"

text \<open>The two parts of a draw; an exchange succeeds when the owner is 0.\<close>

definition draw_sync :: "nat \<Rightarrow> test_world \<Rightarrow> test_world" where
  "draw_sync t W = W\<lparr>test_seed_tls := (test_seed_tls W)(t := sync_test_epoch (test_seed_epoch W) (test_seed_tls W t))\<rparr>"

definition draw_take :: "(nat \<Rightarrow> 64 word) \<Rightarrow> nat \<Rightarrow> test_world \<Rightarrow> (TestSeed \<times> test_world) res" where
  "draw_take h t W =
     (let s = test_seed_tls W t;
          token = this_thread_token h t;
          expected = lane0_owner W;
          W' = (if lane s = 0 \<and> expected = 0 then W\<lparr>lane0_owner := token\<rparr> else W) in
      res_then (expecting (lane s \<noteq> 0 \<or> expected = 0 \<or> expected = token) SecondLane0Thread)
        (Inr (\<lparr>seed_lane = lane s, ordinal = ctr s\<rparr>, W'\<lparr>test_seed_tls := (test_seed_tls W)(t := s\<lparr>ctr := ctr s + 1\<rparr>)\<rparr>)))"

definition next_test_seed :: "(nat \<Rightarrow> 64 word) \<Rightarrow> nat \<Rightarrow> test_world \<Rightarrow> (TestSeed \<times> test_world) res" where
  "next_test_seed h t W = draw_take h t (draw_sync t W)"

definition next_test_child_lane :: "nat \<Rightarrow> test_world \<Rightarrow> 64 word \<times> test_world" where
  "next_test_child_lane t W =
     (let s = sync_test_epoch (test_seed_epoch W) (test_seed_tls W t);
          l = mix64 (mix64 (lane s) XOR child_ctr s) in
      (if l = 0 then 1 else l, W\<lparr>test_seed_tls := (test_seed_tls W)(t := s\<lparr>child_ctr := child_ctr s + 1\<rparr>)\<rparr>))"

definition enter_lane_scope :: "64 word \<Rightarrow> nat \<Rightarrow> test_world \<Rightarrow> test_world" where
  "enter_lane_scope l t W =
     W\<lparr>scopes := (scopes W)(t := test_seed_tls W t # scopes W t),
       test_seed_tls := (test_seed_tls W)(t := \<lparr>lane = l, ctr = 0, child_ctr = 0, epoch = test_seed_epoch W\<rparr>)\<rparr>"

definition exit_lane_scope :: "nat \<Rightarrow> test_world \<Rightarrow> test_world" where
  "exit_lane_scope t W = (case scopes W t of [] \<Rightarrow> W
     | saved # rest \<Rightarrow> W\<lparr>scopes := (scopes W)(t := rest), test_seed_tls := (test_seed_tls W)(t := saved)\<rparr>)"

definition current_test_seed_epoch :: "test_world \<Rightarrow> 64 word" where
  "current_test_seed_epoch W = test_seed_epoch W"

text \<open>The two parts of a reset.\<close>

definition reset_bump :: "test_world \<Rightarrow> test_world" where
  "reset_bump W = W\<lparr>test_seed_epoch := test_seed_epoch W + 1\<rparr>"

definition reset_release :: "test_world \<Rightarrow> test_world" where
  "reset_release W = W\<lparr>lane0_owner := 0\<rparr>"

definition reset_test_seed_counter :: "test_world \<Rightarrow> test_world" where
  "reset_test_seed_counter W = reset_release (reset_bump W)"

section \<open>The transition system\<close>

text \<open>
  \<open>T\<close> is the set of threads, and a thread is between calls or in the middle of a draw or of a reset. The log holds the
  draws since the epoch was last advanced, oldest first. A reset that would wrap the epoch is not a step, and a draw
  that aborts ends the process.
\<close>

datatype phase = Idle | Drawing | Resetting

type_synonym draws = "(nat \<times> TestSeed) list"

type_synonym tm_state = "test_world \<times> (nat \<Rightarrow> phase) \<times> draws"

inductive tm_step :: "(nat \<Rightarrow> 64 word) \<Rightarrow> nat set \<Rightarrow> tm_state \<Rightarrow> tm_state \<Rightarrow> bool" for h T where
  draw_begin: "t \<in> T \<Longrightarrow> P t = Idle \<Longrightarrow> tm_step h T (W, P, D) (draw_sync t W, P(t := Drawing), D)"
| draw_end: "t \<in> T \<Longrightarrow> P t = Drawing \<Longrightarrow> draw_take h t W = Inr (s, W') \<Longrightarrow>
    tm_step h T (W, P, D) (W', P(t := Idle), D @ [(t, s)])"
| child: "t \<in> T \<Longrightarrow> P t = Idle \<Longrightarrow> next_test_child_lane t W = (l, W') \<Longrightarrow> tm_step h T (W, P, D) (W', P, D)"
| enter: "t \<in> T \<Longrightarrow> P t = Idle \<Longrightarrow> tm_step h T (W, P, D) (enter_lane_scope l t W, P, D)"
| leave: "t \<in> T \<Longrightarrow> P t = Idle \<Longrightarrow> scopes W t \<noteq> [] \<Longrightarrow> tm_step h T (W, P, D) (exit_lane_scope t W, P, D)"
| reset_begin: "t \<in> T \<Longrightarrow> P t = Idle \<Longrightarrow> test_seed_epoch W \<noteq> - 1 \<Longrightarrow>
    tm_step h T (W, P, D) (reset_bump W, P(t := Resetting), [])"
| reset_end: "t \<in> T \<Longrightarrow> P t = Resetting \<Longrightarrow> tm_step h T (W, P, D) (reset_release W, P(t := Idle), D)"

definition tm_init :: tm_state where
  "tm_init = (test_world_init, \<lambda>_. Idle, [])"

text \<open>A thread's current state and the states its scopes saved, the innermost first.\<close>

abbreviation frames :: "test_world \<Rightarrow> nat \<Rightarrow> TestSeedTls list" where
  "frames W t \<equiv> test_seed_tls W t # scopes W t"

text \<open>The discipline: while one thread resets no other draws or resets, and no scope is on lane 0.\<close>

definition resets_exclusive :: "tm_state \<Rightarrow> bool" where
  "resets_exclusive = (\<lambda>(W, P, D). \<forall>r t. P r = Resetting \<and> t \<noteq> r \<longrightarrow> P t = Idle)"

definition scopes_off_main :: "tm_state \<Rightarrow> bool" where
  "scopes_off_main = (\<lambda>(W, P, D). \<forall>t. \<forall>s \<in> set (butlast (frames W t)). lane s \<noteq> 0)"

text \<open>The states of the runs that keep to the discipline.\<close>

inductive tm_reach :: "(nat \<Rightarrow> 64 word) \<Rightarrow> nat set \<Rightarrow> tm_state \<Rightarrow> bool" for h T where
  start: "tm_reach h T tm_init"
| step: "tm_reach h T S \<Longrightarrow> tm_step h T S S' \<Longrightarrow> resets_exclusive S' \<Longrightarrow> scopes_off_main S' \<Longrightarrow> tm_reach h T S'"

definition lane0 :: "draws \<Rightarrow> draws" where
  "lane0 D = filter (\<lambda>(t, s). seed_lane s = 0) D"

definition seed_block :: "TestSeed \<Rightarrow> block" where
  "seed_block s = makeBlock (seed_lane s) (ordinal s)"

section \<open>The invariant\<close>

text \<open>The state a thread has outside every scope.\<close>

definition base :: "test_world \<Rightarrow> nat \<Rightarrow> TestSeedTls" where
  "base W t = last (frames W t)"

definition frames_ok :: "64 word \<Rightarrow> TestSeedTls list \<Rightarrow> bool" where
  "frames_ok E fs \<longleftrightarrow> lane (last fs) = 0 \<and> (\<forall>s \<in> set (butlast fs). lane s \<noteq> 0) \<and> epoch (last fs) \<le> E"

definition owner_ok :: "(nat \<Rightarrow> 64 word) \<Rightarrow> nat set \<Rightarrow> 64 word \<Rightarrow> 64 word \<Rightarrow> (nat \<Rightarrow> TestSeedTls) \<Rightarrow> draws \<Rightarrow> bool" where
  "owner_ok h T E owner B Z \<longleftrightarrow>
     (\<forall>t \<in> T. epoch (B t) = E \<and> owner \<noteq> this_thread_token h t \<longrightarrow> ctr (B t) = 0) \<and>
     (if owner = 0 then Z = []
      else \<exists>t k. t \<in> T \<and> owner = this_thread_token h t \<and> epoch (B t) = E \<and> ctr (B t) = of_nat k \<and> 0 < k \<and>
        Z = map (\<lambda>i. (t, \<lparr>seed_lane = 0, ordinal = of_nat i\<rparr>)) [0..<k])"

text \<open>In the middle of a reset the old owner is still there, and nothing of the new epoch has been drawn.\<close>

definition lane0_ok ::
  "bool \<Rightarrow> (nat \<Rightarrow> 64 word) \<Rightarrow> nat set \<Rightarrow> 64 word \<Rightarrow> 64 word \<Rightarrow> (nat \<Rightarrow> TestSeedTls) \<Rightarrow> draws \<Rightarrow> bool" where
  "lane0_ok resetting h T E owner B Z \<longleftrightarrow>
     (if resetting then Z = [] \<and> (\<forall>t \<in> T. epoch (B t) = E \<longrightarrow> ctr (B t) = 0) else owner_ok h T E owner B Z)"

definition resetting :: "(nat \<Rightarrow> phase) \<Rightarrow> bool" where
  "resetting P \<longleftrightarrow> (\<exists>r. P r = Resetting)"

definition tm_inv :: "(nat \<Rightarrow> 64 word) \<Rightarrow> nat set \<Rightarrow> tm_state \<Rightarrow> bool" where
  "tm_inv h T = (\<lambda>(W, P, D). (\<forall>t. frames_ok (test_seed_epoch W) (frames W t)) \<and>
     lane0_ok (resetting P) h T (test_seed_epoch W) (lane0_owner W) (base W) (lane0 D) \<and>
     (\<forall>t. P t = Drawing \<longrightarrow> epoch (test_seed_tls W t) = test_seed_epoch W))"

lemma token_nonzero [simp]: "this_thread_token h t \<noteq> 0"
proof -
  have "bit (this_thread_token h t) 0" by (simp add: this_thread_token_def bit_or_iff)
  then show ?thesis by auto
qed

lemma tm_inv_init: "tm_inv h T tm_init"
  by (simp add: tm_inv_def tm_init_def test_world_init_def tls_init_def base_def lane0_def frames_ok_def owner_ok_def lane0_ok_def
      resetting_def)

lemma frames_ok_Cons: "frames_ok E (s # fs) \<longleftrightarrow> (if fs = [] then lane s = 0 \<and> epoch s \<le> E else lane s \<noteq> 0 \<and> frames_ok E fs)"
  by (auto simp: frames_ok_def)

lemma frames_ok_mono: "frames_ok E fs \<Longrightarrow> E \<le> E' \<Longrightarrow> frames_ok E' fs"
  by (auto simp: frames_ok_def)

lemma lane0_snoc: "lane0 (D @ [(t, s)]) = (if seed_lane s = 0 then lane0 D @ [(t, s)] else lane0 D)"
  by (simp add: lane0_def)

lemma sync_fields [simp]: "lane (sync_test_epoch E s) = lane s" "epoch (sync_test_epoch E s) = E"
  by (simp_all add: sync_test_epoch_def)

text \<open>Synchronising the base of a thread keeps the ownership facts.\<close>

lemma lane0_ok_sync:
  assumes "lane0_ok r h T E ow B Z" and "lane s = lane (sync_test_epoch E (B t))" "ctr s = ctr (sync_test_epoch E (B t))" "epoch s = E"
  shows "lane0_ok r h T E ow (B(t := s)) Z"
  using assms by (auto simp: lane0_ok_def owner_ok_def sync_test_epoch_def split: if_splits)

lemma owner_ok_draw:
  assumes inv: "owner_ok h T E ow B Z" and inj: "inj_on (this_thread_token h) T" and own: "ow = 0 \<or> ow = this_thread_token h t"
    and s: "s = sync_test_epoch E (B t)" and t: "t \<in> T"
  shows "owner_ok h T E (this_thread_token h t) (B(t := s\<lparr>ctr := ctr s + 1\<rparr>)) (Z @ [(t, \<lparr>seed_lane = 0, ordinal = ctr s\<rparr>)])"
proof -
  have others: "ctr (B u) = 0" if "epoch (B u) = E" "u \<noteq> t" "u \<in> T" for u
    using inv own that inj t by (auto simp: owner_ok_def inj_on_eq_iff split: if_splits)
  have "\<exists>k. ctr s = of_nat k \<and> Z = map (\<lambda>i. (t, \<lparr>seed_lane = 0, ordinal = of_nat i\<rparr>)) [0..<k]"
  proof (cases "ow = 0")
    case True
    then have "ctr s = 0" "Z = []" using inv t by (auto simp: owner_ok_def s sync_test_epoch_def split: if_splits)
    then show ?thesis by (intro exI [of _ 0]) simp
  next
    case False
    then obtain u k where "u \<in> T" "ow = this_thread_token h u" "epoch (B u) = E" "ctr (B u) = of_nat k"
      "Z = map (\<lambda>i. (u, \<lparr>seed_lane = 0, ordinal = of_nat i\<rparr>)) [0..<k]" using inv by (auto simp: owner_ok_def)
    moreover have "u = t" using own False calculation(1,2) inj t by (simp add: inj_on_eq_iff)
    ultimately show ?thesis by (intro exI [of _ k]) (simp add: s sync_test_epoch_def)
  qed
  then obtain k where k: "ctr s = of_nat k" "Z = map (\<lambda>i. (t, \<lparr>seed_lane = 0, ordinal = of_nat i\<rparr>)) [0..<k]" by blast
  have "\<exists>j. ctr s + 1 = of_nat j \<and> 0 < j \<and> Z @ [(t, \<lparr>seed_lane = 0, ordinal = ctr s\<rparr>)] = map (\<lambda>i. (t, \<lparr>seed_lane = 0, ordinal = of_nat i\<rparr>)) [0..<j]"
    using k by (intro exI [of _ "Suc k"]) simp
  then obtain j where j: "ctr s + 1 = of_nat j" "0 < j"
    "Z @ [(t, \<lparr>seed_lane = 0, ordinal = ctr s\<rparr>)] = map (\<lambda>i. (t, \<lparr>seed_lane = 0, ordinal = of_nat i\<rparr>)) [0..<j]" by blast
  have "\<forall>u \<in> T. epoch ((B(t := s\<lparr>ctr := ctr s + 1\<rparr>)) u) = E \<and> this_thread_token h t \<noteq> this_thread_token h u \<longrightarrow>
      ctr ((B(t := s\<lparr>ctr := ctr s + 1\<rparr>)) u) = 0" using others by auto
  moreover have "epoch s = E" by (simp add: s)
  ultimately show ?thesis unfolding owner_ok_def if_not_P [OF token_nonzero]
    by (intro conjI exI [of _ t] exI [of _ j]) (simp_all add: t j)
qed

lemma base_update:
  "base (W\<lparr>test_seed_tls := (test_seed_tls W)(t := s)\<rparr>) = (if scopes W t = [] then (base W)(t := s) else base W)"
  by (auto simp: base_def fun_eq_iff)

lemma base_owner [simp]: "base (W\<lparr>lane0_owner := x\<rparr>) = base W"
  by (simp add: base_def fun_eq_iff)

lemma frames_lane0: "tm_inv h T (W, P, D) \<Longrightarrow> lane (test_seed_tls W t) = 0 \<longleftrightarrow> scopes W t = []"
  by (auto simp: tm_inv_def frames_ok_Cons split: if_splits dest!: spec [of _ t])

text \<open>Replacing the current state of a thread by one on the same lane, synchronised, keeps the shape of the frames.\<close>

lemma frames_ok_update:
  assumes "\<forall>u. frames_ok E (frames W u)" and "lane s = lane (test_seed_tls W t)" "epoch s = E"
  shows "frames_ok E (frames (W\<lparr>test_seed_tls := (test_seed_tls W)(t := s)\<rparr>) u)"
  using assms by (auto simp: frames_ok_Cons split: if_splits dest: spec [of _ u])

text \<open>Synchronising, and then perhaps counting a child lane, in either mode.\<close>

lemma sync_inv:
  assumes inv: "tm_inv h T (W, P, D)" and s: "s = sync_test_epoch (test_seed_epoch W) (test_seed_tls W t)"
    and s': "lane s' = lane s" "ctr s' = ctr s" "epoch s' = epoch s" and P: "resetting P' = resetting P"
    and drawing: "\<And>u. P' u = Drawing \<Longrightarrow> u = t \<or> P u = Drawing"
  shows "tm_inv h T (W\<lparr>test_seed_tls := (test_seed_tls W)(t := s')\<rparr>, P', D)"
proof -
  define E where "E = test_seed_epoch W"
  let ?W = "W\<lparr>test_seed_tls := (test_seed_tls W)(t := s')\<rparr>"
  have fr: "\<forall>u. frames_ok E (frames W u)" and ow: "lane0_ok (resetting P) h T E (lane0_owner W) (base W) (lane0 D)"
    using inv by (simp_all add: tm_inv_def E_def)
  have e: "lane s' = lane (test_seed_tls W t)" "epoch s' = E" using s s' by (simp_all add: E_def)
  have "frames_ok E (frames ?W u)" for u by (rule frames_ok_update [OF fr e])
  moreover have "lane0_ok (resetting P) h T E (lane0_owner W) (base ?W) (lane0 D)"
  proof (cases "scopes W t = []")
    case True
    then have "base W t = test_seed_tls W t" by (simp add: base_def)
    then have "lane0_ok (resetting P) h T E (lane0_owner W) ((base W)(t := s')) (lane0 D)"
      by (intro lane0_ok_sync [OF ow]) (use s s' in \<open>simp_all add: E_def\<close>)
    then show ?thesis using True by (simp add: base_update)
  qed (simp add: base_update ow)
  moreover have "epoch (test_seed_tls ?W u) = E" if "P' u = Drawing" for u
    using drawing [OF that] e inv by (auto simp: tm_inv_def E_def)
  ultimately show ?thesis using P unfolding tm_inv_def by (simp add: E_def)
qed

lemma draw_end_inv:
  assumes inv: "tm_inv h T (W, P, D)" and inj: "inj_on (this_thread_token h) T" and d: "draw_take h t W = Inr (sd, W')" and t: "t \<in> T"
    and P: "P t = Drawing" and quiet: "\<not> resetting P"
  shows "tm_inv h T (W', P(t := Idle), D @ [(t, sd)])"
proof -
  define E where "E = test_seed_epoch W"
  define s where "s = test_seed_tls W t"
  have s: "epoch s = E" and ss: "sync_test_epoch E s = s" using inv P by (simp_all add: tm_inv_def s_def E_def sync_test_epoch_def)
  have fr: "\<forall>u. frames_ok E (frames W u)" and ow: "owner_ok h T E (lane0_owner W) (base W) (lane0 D)"
    using inv quiet by (simp_all add: tm_inv_def E_def lane0_ok_def)
  have quiet': "\<not> resetting (P(t := Idle))" using quiet by (auto simp: resetting_def)
  have guard: "lane s \<noteq> 0 \<or> lane0_owner W = 0 \<or> lane0_owner W = this_thread_token h t"
    and sd: "sd = \<lparr>seed_lane = lane s, ordinal = ctr s\<rparr>"
    and W': "W' = (if lane s = 0 \<and> lane0_owner W = 0 then W\<lparr>lane0_owner := this_thread_token h t\<rparr> else W)
        \<lparr>test_seed_tls := (test_seed_tls W)(t := s\<lparr>ctr := ctr s + 1\<rparr>)\<rparr>"
    using d by (simp_all add: draw_take_def Let_def s_def [symmetric])
  have fr': "frames_ok E (frames (W\<lparr>test_seed_tls := (test_seed_tls W)(t := s\<lparr>ctr := ctr s + 1\<rparr>)\<rparr>) u)" for u
    by (rule frames_ok_update [OF fr]) (simp_all add: s_def [symmetric] s)
  have dr: "\<forall>u. (P(t := Idle)) u = Drawing \<longrightarrow> epoch (test_seed_tls W' u) = E" and E': "test_seed_epoch W' = E"
    using inv by (auto simp: tm_inv_def W' E_def)
  show ?thesis
  proof (cases "lane s = 0")
    case True
    then have sc: "scopes W t = []" using frames_lane0 [OF inv] by (simp add: s_def)
    then have b: "base W t = s" by (simp add: base_def s_def)
    have own: "lane0_owner W = 0 \<or> lane0_owner W = this_thread_token h t" using guard True by simp
    have "lane0_owner W' = this_thread_token h t" "base W' = (base W)(t := s\<lparr>ctr := ctr s + 1\<rparr>)"
      using own True sc by (auto simp: W' base_def fun_eq_iff)
    moreover have "owner_ok h T E (this_thread_token h t) ((base W)(t := s\<lparr>ctr := ctr s + 1\<rparr>)) (lane0 D @ [(t, \<lparr>seed_lane = 0, ordinal = ctr s\<rparr>)])"
      by (rule owner_ok_draw [OF ow inj own _ t]) (simp add: b ss)
    ultimately show ?thesis using fr' True dr E' quiet' unfolding tm_inv_def by (simp add: sd lane0_snoc W' lane0_ok_def)
  next
    case False
    then have "scopes W t \<noteq> []" using frames_lane0 [OF inv] by (simp add: s_def)
    then have "base W' = base W" using False by (simp add: W' base_update)
    then show ?thesis using fr' ow False dr E' quiet' unfolding tm_inv_def by (simp add: sd lane0_snoc W' lane0_ok_def E_def)
  qed
qed

lemma enter_inv:
  assumes "tm_inv h T (W, P, D)" and "l \<noteq> 0" and "P t = Idle"
  shows "tm_inv h T (enter_lane_scope l t W, P, D)"
proof -
  have "base (enter_lane_scope l t W) = base W" by (simp add: enter_lane_scope_def base_def fun_eq_iff)
  then show ?thesis using assms by (auto simp: tm_inv_def enter_lane_scope_def frames_ok_Cons)
qed

lemma leave_inv:
  assumes "tm_inv h T (W, P, D)" and "scopes W t \<noteq> []" and "P t = Idle"
  shows "tm_inv h T (exit_lane_scope t W, P, D)"
proof -
  obtain s fs where sf: "scopes W t = s # fs" using assms(2) by (cases "scopes W t") auto
  have "base (exit_lane_scope t W) = base W" using sf by (auto simp: exit_lane_scope_def base_def fun_eq_iff)
  moreover have "frames_ok (test_seed_epoch W) (frames W t)" using assms(1) by (simp add: tm_inv_def)
  then have "frames_ok (test_seed_epoch W) (s # fs)" using sf by (simp add: frames_ok_Cons [of _ "test_seed_tls W t"])
  ultimately show ?thesis using assms(1,3) sf by (auto simp: tm_inv_def exit_lane_scope_def)
qed

lemma reset_begin_inv:
  assumes "tm_inv h T (W, P, D)" and "test_seed_epoch W \<noteq> - 1" and "\<And>u. u \<noteq> t \<Longrightarrow> P u = Idle"
  shows "tm_inv h T (reset_bump W, P(t := Resetting), [])"
proof -
  let ?E = "test_seed_epoch W"
  have "1 + ?E \<noteq> 0" using assms(2) by (metis add_eq_0_iff minus_minus)
  then have lt: "?E < ?E + 1" using unatSuc [of ?E] by (simp add: word_less_nat_alt add.commute)
  have b: "base (reset_bump W) = base W" by (simp add: reset_bump_def base_def fun_eq_iff)
  have le: "epoch (base W t) \<le> ?E" for t using assms(1) by (auto simp: tm_inv_def frames_ok_def base_def)
  then have "epoch (base W t) \<noteq> ?E + 1" for t using lt by (metis leD)
  moreover have "frames_ok (?E + 1) (frames W t)" for t
    using assms(1) lt frames_ok_mono [of ?E _ "?E + 1"] by (simp add: tm_inv_def)
  moreover have "resetting (P(t := Resetting))" "(P(t := Resetting)) u \<noteq> Drawing" for u
    using assms(3) [of u] by (auto simp: resetting_def)
  ultimately show ?thesis unfolding tm_inv_def by (simp add: b) (simp add: reset_bump_def lane0_ok_def lane0_def)
qed

lemma reset_end_inv:
  assumes "tm_inv h T (W, P, D)" and "P t = Resetting" and "\<And>u. u \<noteq> t \<Longrightarrow> P u = Idle"
  shows "tm_inv h T (reset_release W, P(t := Idle), D)"
proof -
  have "resetting P" using assms(2) by (auto simp: resetting_def)
  moreover have "\<not> resetting (P(t := Idle))" "(P(t := Idle)) u \<noteq> Drawing" for u
    using assms(3) by (auto simp: resetting_def)
  moreover have "base (reset_release W) = base W" by (simp add: reset_release_def base_def fun_eq_iff)
  ultimately show ?thesis
    using assms(1) unfolding tm_inv_def by (simp add: lane0_ok_def) (simp add: reset_release_def owner_ok_def)
qed

lemma resets_exclusiveD: "resets_exclusive (W, P, D) \<Longrightarrow> P r = Resetting \<Longrightarrow> t \<noteq> r \<Longrightarrow> P t = Idle"
  by (simp add: resets_exclusive_def)

lemma tm_step_inv:
  assumes "tm_step h T S S'" and "tm_inv h T S" "resets_exclusive S" and "resets_exclusive S'" "scopes_off_main S'"
    and inj: "inj_on (this_thread_token h) T"
  shows "tm_inv h T S'"
  using assms(1)
proof (cases rule: tm_step.cases)
  case (draw_begin t P W D)
  have "P r \<noteq> Resetting" for r
  proof
    assume r: "P r = Resetting"
    then have "r \<noteq> t" using draw_begin(4) by auto
    with r show False using resets_exclusiveD [OF assms(4) [unfolded draw_begin(2)], of r t] by simp
  qed
  then have "\<not> resetting P" by (simp add: resetting_def)
  then have "resetting (P(t := Drawing)) = resetting P" by (auto simp: resetting_def)
  then show ?thesis unfolding draw_begin(2) draw_sync_def
    by (intro sync_inv [OF assms(2) [unfolded draw_begin(1)] refl]) (auto split: if_splits)
next
  case (draw_end t P W s W' D)
  have "P r \<noteq> Resetting" for r
  proof
    assume r: "P r = Resetting"
    then have "r \<noteq> t" using draw_end(4) by auto
    with r draw_end(4) show False using resets_exclusiveD [OF assms(3) [unfolded draw_end(1)], of r t] by simp
  qed
  then have "\<not> resetting P" by (simp add: resetting_def)
  then show ?thesis using assms(2) draw_end(3-5) unfolding draw_end(1,2) by (intro draw_end_inv [OF _ inj])
next
  case (child t P W l W' D)
  have "W' = W\<lparr>test_seed_tls := (test_seed_tls W)(t := (sync_test_epoch (test_seed_epoch W) (test_seed_tls W t))
      \<lparr>child_ctr := child_ctr (sync_test_epoch (test_seed_epoch W) (test_seed_tls W t)) + 1\<rparr>)\<rparr>"
    using child(5) by (auto simp: next_test_child_lane_def Let_def)
  then show ?thesis using assms(2) unfolding child(1,2) by (auto intro: sync_inv [OF _ refl])
next
  case (enter t P W D l)
  have "l \<noteq> 0" using assms(5) by (auto simp: enter(2) scopes_off_main_def enter_lane_scope_def dest!: spec [of _ t])
  then show ?thesis using assms(2) enter(4) unfolding enter(1,2) by (intro enter_inv)
next
  case (leave t P W D)
  then show ?thesis using assms(2) by (auto intro: leave_inv)
next
  case (reset_begin t P W D)
  then show ?thesis using assms(2,4) by (auto simp: resets_exclusive_def intro!: reset_begin_inv split: if_splits)
next
  case (reset_end t P W D)
  then show ?thesis using assms(2,3) by (auto simp: resets_exclusive_def intro!: reset_end_inv)
qed

lemma tm_reach_inv:
  assumes "tm_reach h T S" and "inj_on (this_thread_token h) T"
  shows "tm_inv h T S \<and> resets_exclusive S"
  using assms(1)
proof induction
  case start
  show ?case by (simp add: tm_inv_init) (simp add: tm_init_def resets_exclusive_def)
next
  case (step S S')
  then show ?case using tm_step_inv [OF step(2)] assms(2) by blast
qed

lemma distinct_of_nat:
  assumes "k \<le> 2 ^ 64"
  shows "distinct (map (\<lambda>i. of_nat i :: 64 word) [0..<k])"
proof -
  have "inj_on (\<lambda>i. of_nat i :: 64 word) {0..<k}"
  proof (rule inj_onI)
    fix i j assume "i \<in> {0..<k}" "j \<in> {0..<k}" and eq: "(of_nat i :: 64 word) = of_nat j"
    then have "i < 2 ^ 64" "j < 2 ^ 64" using assms by auto
    then show "i = j" using arg_cong [OF eq, of unat] by (simp add: unat_of_nat)
  qed
  then show ?thesis by (simp add: distinct_map)
qed

lemma makeBlock_low: "ucast (makeBlock a b) = b"
  by (rule bit_word_eqI) (simp add: makeBlock_def bit_or_iff bit_push_bit_iff bit_unsigned_iff)

text \<open>
  Main-lane seeds (C19). Thread tokens are assumed distinct, the epoch and the ordinals not to wrap, and the run to keep
  to the discipline: no draw and no other reset is in progress while a reset is, and no scope installs lane 0. Then,
  whatever the threads do (draws on any lane, child lanes, scopes, resets) and however the single accesses to the
  epoch and the owner interleave, the main-lane seeds drawn since the last reset were all drawn by one thread, with
  ordinals 0, 1, 2 and so on; the PRG seeds made of them are pairwise distinct; and every other thread that draws
  outside a scope aborts, also when it has already begun to draw.
\<close>

theorem lane_seeds_distinct:
  assumes "tm_reach h T (W, P, D)" and "inj_on (this_thread_token h) T" and "length D \<le> 2 ^ 64"
  shows "\<exists>t. lane0 D = map (\<lambda>i. (t, \<lparr>seed_lane = 0, ordinal = of_nat i\<rparr>)) [0..<length (lane0 D)] \<and>
    distinct (map (\<lambda>(t, s). seed_block s) (lane0 D)) \<and>
    (\<forall>u. u \<in> T \<and> lane0 D \<noteq> [] \<and> u \<noteq> t \<and> scopes W u = [] \<longrightarrow>
      next_test_seed h u W = Inl SecondLane0Thread \<and> draw_take h u W = Inl SecondLane0Thread)"
proof -
  have inv: "tm_inv h T (W, P, D)" using tm_reach_inv [OF assms(1,2)] by blast
  have "\<exists>t k. lane0 D = map (\<lambda>i. (t, \<lparr>seed_lane = 0, ordinal = of_nat i\<rparr>)) [0..<k] \<and> (0 < k \<longrightarrow> t \<in> T \<and> lane0_owner W = this_thread_token h t)"
  proof (cases "resetting P \<or> lane0_owner W = 0")
    case True
    then have "lane0 D = []" using inv by (auto simp: tm_inv_def lane0_ok_def owner_ok_def split: if_splits)
    then show ?thesis by (intro exI [of _ 0]) simp
  next
    case False
    then show ?thesis using inv by (auto simp: tm_inv_def lane0_ok_def owner_ok_def)
  qed
  then obtain t k where k: "lane0 D = map (\<lambda>i. (t, \<lparr>seed_lane = 0, ordinal = of_nat i\<rparr>)) [0..<k]"
    "0 < k \<longrightarrow> t \<in> T \<and> lane0_owner W = this_thread_token h t" by blast
  have "k \<le> length D" using arg_cong [OF k(1), of length] length_filter_le [of _ D] by (simp add: lane0_def) (metis length_filter_le)
  then have d: "distinct (map (\<lambda>i. of_nat i :: 64 word) [0..<k])" using assms(3) by (intro distinct_of_nat) simp
  have "map ucast (map (\<lambda>(t, s). seed_block s) (lane0 D)) = map (\<lambda>i. of_nat i :: 64 word) [0..<k]"
    by (simp add: k(1) seed_block_def makeBlock_low)
  then have "distinct (map (\<lambda>(t, s). seed_block s) (lane0 D))" using d by (metis distinct_map)
  moreover have "next_test_seed h u W = Inl SecondLane0Thread \<and> draw_take h u W = Inl SecondLane0Thread"
    if "0 < k" "u \<noteq> t" "scopes W u = []" "u \<in> T" for u
  proof -
    have "lane (test_seed_tls W u) = 0" using frames_lane0 [OF inv] that(3) by simp
    moreover have "this_thread_token h t \<noteq> this_thread_token h u" using assms(2) that k(2) by (simp add: inj_on_eq_iff)
    ultimately show ?thesis using k(2) that(1) by (simp add: next_test_seed_def draw_sync_def draw_take_def Let_def)
  qed
  ultimately show ?thesis using k(1) by (intro exI [of _ t]) auto
qed

text \<open>Thread 1 draws from the main lane and then from lane 5 in a scope; thread 2 may not draw.\<close>

lemma lane_seeds_distinct_witness:
  "\<exists>W P D. tm_reach (\<lambda>t. 2 * of_nat t) {1, 2} (W, P, D) \<and>
    D = [(1, \<lparr>seed_lane = 0, ordinal = 0\<rparr>), (1, \<lparr>seed_lane = 5, ordinal = 0\<rparr>)] \<and> distinct (map (\<lambda>(t, s). seed_block s) (lane0 D)) \<and>
    next_test_seed (\<lambda>t. 2 * of_nat t) 2 W = Inl SecondLane0Thread"
proof -
  let ?h = "\<lambda>t. 2 * of_nat t :: 64 word" and ?I = "\<lambda>_. Idle"
  let ?s = "\<lparr>seed_lane = 0, ordinal = 0\<rparr> :: TestSeed" and ?s' = "\<lparr>seed_lane = 5, ordinal = 0\<rparr> :: TestSeed"
  let ?R = "tm_reach ?h {1, 2}"
  define A where "A = draw_sync 1 test_world_init"
  define B where "B = A\<lparr>lane0_owner := 3, test_seed_tls := (test_seed_tls A)(1 := tls_init\<lparr>ctr := 1\<rparr>)\<rparr>"
  define C where "C = enter_lane_scope 5 1 B"
  define F where "F = draw_sync 1 C"
  define G where "G = F\<lparr>test_seed_tls := (test_seed_tls F)(1 := \<lparr>lane = 5, ctr = 1, child_ctr = 0, epoch = 0\<rparr>)\<rparr>"
  note defs = A_def B_def C_def F_def G_def draw_sync_def draw_take_def enter_lane_scope_def test_world_init_def tls_init_def
    sync_test_epoch_def this_thread_token_def Let_def
  have take: "draw_take ?h 1 A = Inr (?s, B)" "draw_take ?h 1 F = Inr (?s', G)"
    by (simp_all add: defs)
  have ok: "resets_exclusive (W, Q, E)" if "\<And>u. Q u \<noteq> Resetting" for W Q E using that by (simp add: resets_exclusive_def)
  have off: "scopes_off_main (W, Q, E)" if "W \<in> {A, B, C, F, G}" for W Q E
    using that by (auto simp: scopes_off_main_def defs split: if_splits)
  have ends: "tm_step ?h {1, 2} (A, ?I(1 := Drawing), []) (B, ?I, [(1, ?s)])"
    "tm_step ?h {1, 2} (F, ?I(1 := Drawing), [(1, ?s)]) (G, ?I, [(1, ?s), (1, ?s')])"
    using tm_step.draw_end [OF _ _ take(1), of "{1, 2}" "?I(1 := Drawing)" "[]"]
      tm_step.draw_end [OF _ _ take(2), of "{1, 2}" "?I(1 := Drawing)" "[(1, ?s)]"] by (simp_all add: fun_upd_idem)
  have "?R tm_init" by (rule tm_reach.start)
  then have "?R (A, ?I(1 := Drawing), [])"
    by (rule tm_reach.step) (auto simp: tm_init_def A_def intro!: tm_step.draw_begin ok off [unfolded A_def] split: if_splits)
  then have "?R (B, ?I, [(1, ?s)])"
    by (rule tm_reach.step [OF _ ends(1)]) (auto intro!: ok off)
  then have "?R (C, ?I, [(1, ?s)])"
    by (rule tm_reach.step) (auto simp: C_def intro!: tm_step.enter ok off [unfolded C_def])
  then have "?R (F, ?I(1 := Drawing), [(1, ?s)])"
    by (rule tm_reach.step) (auto simp: F_def intro!: tm_step.draw_begin ok off [unfolded F_def] split: if_splits)
  then have run: "?R (G, ?I, [(1, ?s), (1, ?s')])"
    by (rule tm_reach.step [OF _ ends(2)]) (auto intro!: ok off)
  have inj: "inj_on (this_thread_token ?h) {1, 2}" by (simp add: this_thread_token_def)
  obtain t where t: "lane0 [(1, ?s), (1, ?s')] = map (\<lambda>i. (t, \<lparr>seed_lane = 0, ordinal = of_nat i\<rparr>)) [0..<length (lane0 [(1, ?s), (1, ?s')])]"
    "distinct (map (\<lambda>(t, s). seed_block s) (lane0 [(1, ?s), (1, ?s')]))"
    "\<forall>u. u \<in> {1, 2} \<and> lane0 [(1, ?s), (1, ?s')] \<noteq> [] \<and> u \<noteq> t \<and> scopes G u = [] \<longrightarrow> next_test_seed ?h u G = Inl SecondLane0Thread"
    using lane_seeds_distinct [OF run inj] by auto
  have "t = 1" using t(1) by (simp add: lane0_def)
  moreover have "scopes G 2 = []" by (simp add: defs)
  ultimately have "next_test_seed ?h 2 G = Inl SecondLane0Thread" using t(3) by (simp add: lane0_def)
  then show ?thesis using run t(2) by blast
qed

section \<open>Runs outside the discipline\<close>

text \<open>
  A reset advances the epoch before it releases the owner. Thread 1 owns lane 0; thread 3 advances the epoch; thread 1
  draws, still the owner; thread 3 releases; thread 2 draws, with the owner free again. Both get the seed \<open>(0, 0)\<close>.
\<close>

lemma reset_race_repeats_seed:
  "\<exists>W. (tm_step (\<lambda>t. 2 * of_nat t) {1, 2, 3})\<^sup>*\<^sup>* tm_init
    (W, \<lambda>_. Idle, [(1, \<lparr>seed_lane = 0, ordinal = 0\<rparr>), (2, \<lparr>seed_lane = 0, ordinal = 0\<rparr>)])"
proof -
  let ?h = "\<lambda>t. 2 * of_nat t :: 64 word" and ?I = "\<lambda>_. Idle" and ?s = "\<lparr>seed_lane = 0, ordinal = 0\<rparr> :: TestSeed"
  let ?st = "tm_step ?h {1, 2, 3}"
  define A where "A = draw_sync 1 test_world_init"
  define B where "B = A\<lparr>lane0_owner := 3, test_seed_tls := (test_seed_tls A)(1 := tls_init\<lparr>ctr := 1\<rparr>)\<rparr>"
  define C where "C = reset_bump B"
  define F where "F = draw_sync 1 C"
  define G where "G = F\<lparr>test_seed_tls := (test_seed_tls F)(1 := tls_init\<lparr>ctr := 1, epoch := 1\<rparr>)\<rparr>"
  define H where "H = reset_release G"
  define J where "J = draw_sync 2 H"
  define K where "K = J\<lparr>lane0_owner := 5, test_seed_tls := (test_seed_tls J)(2 := tls_init\<lparr>ctr := 1, epoch := 1\<rparr>)\<rparr>"
  note defs = A_def B_def C_def F_def G_def H_def J_def K_def draw_sync_def draw_take_def reset_bump_def reset_release_def
    test_world_init_def tls_init_def sync_test_epoch_def this_thread_token_def Let_def
  have take: "draw_take ?h 1 A = Inr (?s, B)" "draw_take ?h 1 F = Inr (?s, G)" "draw_take ?h 2 J = Inr (?s, K)"
    by (simp_all add: defs)
  have "?st tm_init (A, ?I(1 := Drawing), [])" unfolding tm_init_def A_def by (rule tm_step.draw_begin) simp_all
  moreover have "?st (A, ?I(1 := Drawing), []) (B, ?I, [(1, ?s)])"
    using tm_step.draw_end [OF _ _ take(1), of "{1, 2, 3}" "?I(1 := Drawing)" "[]"] by (simp add: fun_upd_idem)
  moreover have "?st (B, ?I, [(1, ?s)]) (C, ?I(3 := Resetting), [])"
    unfolding C_def by (rule tm_step.reset_begin) (simp_all add: defs)
  moreover have "?st (C, ?I(3 := Resetting), []) (F, ?I(3 := Resetting, 1 := Drawing), [])"
    unfolding F_def by (rule tm_step.draw_begin) simp_all
  moreover have "?st (F, ?I(3 := Resetting, 1 := Drawing), []) (G, ?I(3 := Resetting), [(1, ?s)])"
    using tm_step.draw_end [OF _ _ take(2), of "{1, 2, 3}" "?I(3 := Resetting, 1 := Drawing)" "[]"] by (simp add: fun_upd_idem)
  moreover have "?st (G, ?I(3 := Resetting), [(1, ?s)]) (H, ?I, [(1, ?s)])"
    unfolding H_def using tm_step.reset_end [of 3 "{1, 2, 3}" "?I(3 := Resetting)" ?h G "[(1, ?s)]"] by (simp add: fun_upd_idem)
  moreover have "?st (H, ?I, [(1, ?s)]) (J, ?I(2 := Drawing), [(1, ?s)])" unfolding J_def by (rule tm_step.draw_begin) simp_all
  moreover have "?st (J, ?I(2 := Drawing), [(1, ?s)]) (K, ?I, [(1, ?s), (2, ?s)])"
    using tm_step.draw_end [OF _ _ take(3), of "{1, 2, 3}" "?I(2 := Drawing)" "[(1, ?s)]"] by (simp add: fun_upd_idem)
  ultimately have "?st\<^sup>*\<^sup>* tm_init (K, ?I, [(1, ?s), (2, ?s)])"
    by (meson converse_rtranclp_into_rtranclp r_into_rtranclp)
  then show ?thesis by blast
qed

text \<open>A scope may be given lane 0 (a peer index may be 0); it starts the main lane over, without an abort.\<close>

lemma lane0_scope_repeats_seed:
  assumes "next_test_seed h t test_world_init = Inr (s, W)"
  shows "\<exists>W'. next_test_seed h t (enter_lane_scope 0 t W) = Inr (s, W')"
  using assms
  by (auto simp: next_test_seed_def draw_sync_def draw_take_def enter_lane_scope_def sync_test_epoch_def test_world_init_def
      tls_init_def Let_def)

end
