(* ===== verification/Signed.thy ===== *)
theory Signed
  imports Unsigned "HOL-Library.Signed_Division"
begin

text \<open>
  \<open>circuits/signed_int.h\<close>: \<open>Int_T\<close>, the two's-complement integers of width \<open>N\<close>, as lists of wires.

  Lemmas: every operation preserves simulations of contexts; on truth values the operations are the
  integer operations modulo \<open>2 ^ N\<close> (addition, subtraction, negation, multiplication), the signed order,
  division truncating toward zero with the remainder of the dividend's sign, and arithmetic shifts.
  \<open>sval\<close> is the integer a bit list stands for, \<open>of_sint n k\<close> the \<open>n\<close> low bits of the integer \<open>k\<close>.
\<close>

section \<open>Operations\<close>

text \<open>Bits past 63 of a constant replicate bit 63.\<close>

definition int_constant :: "('s, 'w, 'z) ctx_scheme \<Rightarrow> nat \<Rightarrow> 64 word \<Rightarrow> ('s, 'w list) gm" where
  "int_constant C N u = map_gm (\<lambda>i. public_bit C (bit u (if i < 64 then i else 63))) [0..<N]"

definition int_constant_rt :: "('s, 'w, 'z) ctx_scheme \<Rightarrow> int \<Rightarrow> 64 word \<Rightarrow> ('s, 'w list) gm" where
  "int_constant_rt C width u = validate_width width (int_constant C (nat width) u)"

definition int_add :: "('s, 'w, 'z) ctx_scheme \<Rightarrow> 'w list \<Rightarrow> 'w list \<Rightarrow> ('s, 'w list) gm" where
  "int_add C a b = same_width a b (ripple_add C a b)"

definition int_sub :: "('s, 'w, 'z) ctx_scheme \<Rightarrow> 'w list \<Rightarrow> 'w list \<Rightarrow> ('s, 'w list) gm" where
  "int_sub C a b = same_width a b (ripple_sub C a b)"

definition int_zeros :: "('s, 'w, 'z) ctx_scheme \<Rightarrow> nat \<Rightarrow> ('s, 'w list) gm" where
  "int_zeros C n = bind (public_bit C False) (\<lambda>z. ret (replicate n z))"

definition int_neg :: "('s, 'w, 'z) ctx_scheme \<Rightarrow> 'w list \<Rightarrow> ('s, 'w list) gm" where
  "int_neg C a = bind (int_zeros C (length a)) (\<lambda>z. int_sub C z a)"

definition int_lt :: "('s, 'w, 'z) ctx_scheme \<Rightarrow> 'w list \<Rightarrow> 'w list \<Rightarrow> ('s, 'w) gm" where
  "int_lt C a b = same_width a b
     (bind (less_than C a b) (\<lambda>ub.
      bind (rd a (length a - 1)) (\<lambda>sa. bind (rd b (length a - 1)) (\<lambda>sb.
      bind (xor_gate C sa sb) (\<lambda>diff. mux C diff sa ub)))))"

definition int_gt :: "('s, 'w, 'z) ctx_scheme \<Rightarrow> 'w list \<Rightarrow> 'w list \<Rightarrow> ('s, 'w) gm" where
  "int_gt C a b = int_lt C b a"

definition int_eq :: "('s, 'w, 'z) ctx_scheme \<Rightarrow> 'w list \<Rightarrow> 'w list \<Rightarrow> ('s, 'w) gm" where
  "int_eq C a b = same_width a b (equal C a b)"

definition int_neq :: "('s, 'w, 'z) ctx_scheme \<Rightarrow> 'w list \<Rightarrow> 'w list \<Rightarrow> ('s, 'w) gm" where
  "int_neq C a b = bind (int_eq C a b) (bit_not C)"

definition int_le :: "('s, 'w, 'z) ctx_scheme \<Rightarrow> 'w list \<Rightarrow> 'w list \<Rightarrow> ('s, 'w) gm" where
  "int_le C a b = bind (int_gt C a b) (bit_not C)"

definition int_ge :: "('s, 'w, 'z) ctx_scheme \<Rightarrow> 'w list \<Rightarrow> 'w list \<Rightarrow> ('s, 'w) gm" where
  "int_ge C a b = bind (int_lt C a b) (bit_not C)"

definition int_mul :: "('s, 'w, 'z) ctx_scheme \<Rightarrow> 'w list \<Rightarrow> 'w list \<Rightarrow> ('s, 'w list) gm" where
  "int_mul C a b = same_width a b (mul_full C a b)"

definition int_and :: "('s, 'w, 'z) ctx_scheme \<Rightarrow> 'w list \<Rightarrow> 'w list \<Rightarrow> ('s, 'w list) gm" where
  "int_and C a b = same_width a b (map2_gm (and_gate C) a b)"

definition int_xor :: "('s, 'w, 'z) ctx_scheme \<Rightarrow> 'w list \<Rightarrow> 'w list \<Rightarrow> ('s, 'w list) gm" where
  "int_xor C a b = same_width a b (map2_gm (xor_gate C) a b)"

definition int_or :: "('s, 'w, 'z) ctx_scheme \<Rightarrow> 'w list \<Rightarrow> 'w list \<Rightarrow> ('s, 'w list) gm" where
  "int_or C a b = same_width a b (map2_gm (or_gate C) a b)"

definition int_not :: "('s, 'w, 'z) ctx_scheme \<Rightarrow> 'w list \<Rightarrow> ('s, 'w list) gm" where
  "int_not C a = map_gm (not_gate C) a"

definition int_select :: "('s, 'w, 'z) ctx_scheme \<Rightarrow> 'w list \<Rightarrow> 'w \<Rightarrow> 'w list \<Rightarrow> ('s, 'w list) gm" where
  "int_select C a sel t = same_width a t (map2_gm (\<lambda>x y. mux C sel y x) a t)"

text \<open>\<open>x.select(x[n - 1], -x)\<close>: the magnitude of an operand of a division.\<close>

definition int_magnitude :: "('s, 'w, 'z) ctx_scheme \<Rightarrow> 'w list \<Rightarrow> 'w \<Rightarrow> ('s, 'w list) gm" where
  "int_magnitude C a sa = bind (int_neg C a) (int_select C a sa)"

definition int_div :: "('s, 'w, 'z) ctx_scheme \<Rightarrow> 'w list \<Rightarrow> 'w list \<Rightarrow> ('s, 'w list) gm" where
  "int_div C a b = same_width a b
     (bind (rd a (length a - 1)) (\<lambda>sa. bind (rd b (length a - 1)) (\<lambda>sb.
      bind (int_magnitude C a sa) (\<lambda>ua. bind (int_magnitude C b sb) (\<lambda>ub.
      bind (div_full C ua ub) (\<lambda>(r, uq).
      bind (bit_neq C sa sb) (\<lambda>d. bind (int_neg C uq) (int_select C uq d))))))))"

definition int_mod :: "('s, 'w, 'z) ctx_scheme \<Rightarrow> 'w list \<Rightarrow> 'w list \<Rightarrow> ('s, 'w list) gm" where
  "int_mod C a b = same_width a b
     (bind (rd a (length a - 1)) (\<lambda>sa. bind (rd b (length a - 1)) (\<lambda>sb.
      bind (int_magnitude C a sa) (\<lambda>ua. bind (int_magnitude C b sb) (\<lambda>ub.
      bind (div_full C ua ub) (\<lambda>(ur, q). bind (int_neg C ur) (int_select C ur sa)))))))"

definition int_shl :: "('s, 'w, 'z) ctx_scheme \<Rightarrow> 'w list \<Rightarrow> int \<Rightarrow> ('s, 'w list) gm" where
  "int_shl C w s = check (0 \<le> s) NegativeShift (bind (public_bit C False) (shl_wires w s))"

definition int_shr :: "'w list \<Rightarrow> int \<Rightarrow> ('s, 'w list) gm" where
  "int_shr w s = check (0 \<le> s) NegativeShift (bind (rd w (length w - 1)) (shr_wires w s))"

definition int_barrel_shl :: "('s, 'w, 'z) ctx_scheme \<Rightarrow> 'w list \<Rightarrow> 'w list \<Rightarrow> ('s, 'w list) gm" where
  "int_barrel_shl C w shamt =
     (let N = length w in
      bind (fold_gm (\<lambda>i res. bind (rd shamt i) (\<lambda>sel. bind (int_shl C res (2 ^ i)) (int_select C res sel)))
              [0..<barrel_use N] w) (\<lambda>res.
      bind (barrel_overflow C shamt (barrel_use N) N) (\<lambda>overflow.
      bind (int_constant C N 0) (int_select C res overflow))))"

definition int_barrel_shr :: "('s, 'w, 'z) ctx_scheme \<Rightarrow> 'w list \<Rightarrow> 'w list \<Rightarrow> ('s, 'w list) gm" where
  "int_barrel_shr C w shamt =
     (let N = length w in
      bind (fold_gm (\<lambda>i res. bind (rd shamt i) (\<lambda>sel. bind (int_shr res (2 ^ i)) (int_select C res sel)))
              [0..<barrel_use N] w) (\<lambda>res.
      bind (barrel_overflow C shamt (barrel_use N) N) (\<lambda>overflow.
      bind (rd w (N - 1)) (\<lambda>sgn. int_select C res overflow (replicate N sgn)))))"

definition int_sext :: "nat \<Rightarrow> 'w list \<Rightarrow> ('s, 'w list) gm" where
  "int_sext M w = bind (rd w (length w - 1)) (fit_wires M w)"

definition int_trunc :: "nat \<Rightarrow> 'w list \<Rightarrow> 'w list" where
  "int_trunc M w = take M w"

definition int_resize :: "int \<Rightarrow> 'w list \<Rightarrow> ('s, 'w list) gm" where
  "int_resize m w = validate_width m (bind (rd w (length w - 1)) (fit_wires (nat m) w))"

section \<open>Codecs\<close>

unbundle bit_operations_syntax

text \<open>The clear value is an \<open>int64_t\<close>, carried as its 64-bit pattern.\<close>

definition int_encode :: "nat \<Rightarrow> 64 word \<Rightarrow> bool list" where
  "int_encode N u = map (bit u) [0..<N]"

definition sign_fill :: "nat \<Rightarrow> 64 word \<Rightarrow> 64 word" where
  "sign_fill sb v =
     (if sb < 64 \<and> drop_bit (sb - 1) v AND 1 \<noteq> 0 then v OR NOT (push_bit sb 1 - 1) else v)"

definition int_decode :: "bool list \<Rightarrow> 64 word" where
  "int_decode bs = sign_fill (length bs) (or_bits bs)"

definition int_encode_rt :: "64 word \<Rightarrow> int \<Rightarrow> 8 word list" where
  "int_encode_rt u width = map (\<lambda>i. of_bool (bit u (if i < 64 then i else 63))) [0..<nat width]"

definition int_decode_rt :: "8 word list \<Rightarrow> 64 word" where
  "int_decode_rt bs =
     sign_fill (if length bs < 64 then length bs else 64) (or_bits (map (\<lambda>b. b \<noteq> 0) (take 64 bs)))"

section \<open>Simulations\<close>

context ctx_sim
begin

lemma int_ops_transfer [transfer_rule]:
  "(rel_fun (=) (rel_fun (=) (S Ws))) (int_constant C) (int_constant D)"
  "(rel_fun Ws (rel_fun Ws (S Ws))) (int_add C) (int_add D)"
  "(rel_fun Ws (rel_fun Ws (S Ws))) (int_sub C) (int_sub D)"
  "(rel_fun (=) (S Ws)) (int_zeros C) (int_zeros D)"
  "(rel_fun Ws (rel_fun Ws (S W))) (int_lt C) (int_lt D)"
  "(rel_fun Ws (rel_fun Ws (S W))) (int_eq C) (int_eq D)"
  "(rel_fun Ws (rel_fun Ws (S Ws))) (int_mul C) (int_mul D)"
  "(rel_fun Ws (rel_fun Ws (S Ws))) (int_and C) (int_and D)"
  "(rel_fun Ws (rel_fun Ws (S Ws))) (int_xor C) (int_xor D)"
  "(rel_fun Ws (rel_fun Ws (S Ws))) (int_or C) (int_or D)"
  "(rel_fun Ws (S Ws)) (int_not C) (int_not D)"
  "(rel_fun Ws (rel_fun W (rel_fun Ws (S Ws)))) (int_select C) (int_select D)"
  "(rel_fun Ws (rel_fun (=) (S Ws))) (int_shl C) (int_shl D)"
  "(rel_fun Ws (rel_fun (=) (S Ws))) int_shr int_shr"
  "(rel_fun (=) (rel_fun Ws (S Ws))) int_sext int_sext"
  "(rel_fun (=) (rel_fun Ws (S Ws))) int_resize int_resize"
  unfolding int_constant_def [abs_def] int_add_def [abs_def] int_sub_def [abs_def] int_zeros_def [abs_def]
    int_lt_def [abs_def] int_eq_def [abs_def] int_mul_def [abs_def] int_and_def [abs_def] int_xor_def [abs_def]
    int_or_def [abs_def] int_not_def [abs_def] int_select_def [abs_def] int_shl_def [abs_def]
    int_shr_def [abs_def] int_sext_def [abs_def] int_resize_def [abs_def]
  by transfer_prover+

lemma int_derived_transfer [transfer_rule]:
  "(rel_fun (=) (rel_fun (=) (S Ws))) (int_constant_rt C) (int_constant_rt D)"
  "(rel_fun Ws (S Ws)) (int_neg C) (int_neg D)"
  "(rel_fun Ws (rel_fun Ws (S W))) (int_gt C) (int_gt D)"
  "(rel_fun Ws (rel_fun Ws (S W))) (int_neq C) (int_neq D)"
  "(rel_fun Ws (rel_fun Ws (S W))) (int_ge C) (int_ge D)"
  "(rel_fun Ws (rel_fun Ws (S Ws))) (int_barrel_shl C) (int_barrel_shl D)"
  "(rel_fun Ws (rel_fun Ws (S Ws))) (int_barrel_shr C) (int_barrel_shr D)"
  unfolding int_constant_rt_def [abs_def] int_neg_def [abs_def] int_gt_def [abs_def] int_neq_def [abs_def]
    int_ge_def [abs_def] int_barrel_shl_def [abs_def] int_barrel_shr_def [abs_def]
  by transfer_prover+

lemma int_magnitude_transfer [transfer_rule]:
  "(rel_fun Ws (rel_fun W (S Ws))) (int_magnitude C) (int_magnitude D)"
  "(rel_fun Ws (rel_fun Ws (S W))) (int_le C) (int_le D)"
  unfolding int_magnitude_def [abs_def] int_le_def [abs_def] by transfer_prover+

lemma int_div_transfer [transfer_rule]:
  "(rel_fun Ws (rel_fun Ws (S Ws))) (int_div C) (int_div D)"
  "(rel_fun Ws (rel_fun Ws (S Ws))) (int_mod C) (int_mod D)"
  unfolding int_div_def [abs_def] int_mod_def [abs_def] by transfer_prover+

end

section \<open>Two's complement\<close>

definition sval :: "bool list \<Rightarrow> int" where
  "sval bs = int (bits_val bs) - (if bs \<noteq> [] \<and> last bs then 2 ^ length bs else 0)"

definition of_sint :: "nat \<Rightarrow> int \<Rightarrow> bool list" where
  "of_sint n k = to_bits n (nat (k mod 2 ^ n))"

lemma length_of_sint [simp]: "length (of_sint n k) = n"
  by (simp add: of_sint_def)

lemma of_sint_cong: "j mod 2 ^ n = k mod 2 ^ n \<Longrightarrow> of_sint n j = of_sint n k"
  by (simp add: of_sint_def)

lemma to_bits_of_sint: "to_bits n m = of_sint n (int m)"
  unfolding of_sint_def by (rule to_bits_cong) (simp add: nat_mod_distrib nat_power_eq)

lemma of_sint_nth: "i < n \<Longrightarrow> of_sint n k ! i = bit k i"
proof -
  assume i: "i < n"
  have "int (nat (k mod 2 ^ n)) = take_bit n k" by (simp add: take_bit_eq_mod)
  then have "odd (nat (k mod 2 ^ n) div 2 ^ i) \<longleftrightarrow> bit (take_bit n k) i"
    by (metis bit_iff_odd even_of_nat_iff of_nat_div of_nat_numeral of_nat_power)
  then show ?thesis using i by (simp add: of_sint_def to_bits_nth bit_take_bit_iff)
qed

lemma last_iff:
  assumes "bs \<noteq> []"
  shows "last bs \<longleftrightarrow> 2 ^ (length bs - 1) \<le> bits_val bs"
proof -
  have eq: "bits_val bs = bits_val (butlast bs) + of_bool (last bs) * 2 ^ (length bs - 1)"
    using bits_val_snoc [of "butlast bs" "last bs"] assms by simp
  have "bits_val (butlast bs) < 2 ^ (length bs - 1)" using bits_val_less [of "butlast bs"] by simp
  then show ?thesis unfolding eq by (cases "last bs") auto
qed

lemma sval_signed: "bs \<noteq> [] \<Longrightarrow> sval bs = signed_take_bit (length bs - 1) (int (bits_val bs))"
proof -
  assume ne: "bs \<noteq> []"
  then have "bit (int (bits_val bs)) (length bs - 1) \<longleftrightarrow> last bs"
    using bits_val_nth [of "length bs - 1" bs]
    unfolding bit_of_nat_iff_bit bit_iff_odd [of "bits_val bs"] by (simp add: last_conv_nth)
  moreover have "take_bit (length bs) (int (bits_val bs)) = int (bits_val bs)"
    using bits_val_less [of bs] by (simp add: take_bit_int_eq_self_iff)
  ultimately show ?thesis
    using ne by (simp add: signed_take_bit_eq_take_bit_minus sval_def)
qed

lemma bit_sval:
  assumes "bs \<noteq> []"
  shows "bit (sval bs) i \<longleftrightarrow> bs ! min i (length bs - 1)"
proof -
  have "min i (length bs - 1) < length bs" using assms by (cases bs) auto
  then have "bs ! min i (length bs - 1) \<longleftrightarrow> bit (bits_val bs) (min i (length bs - 1))"
    by (simp add: bits_val_nth bit_iff_odd)
  then show ?thesis
    using assms by (simp add: sval_signed bit_signed_take_bit_iff bit_of_nat_iff min.commute)
qed

lemma sval_range:
  assumes "bs \<noteq> []"
  shows "- (2 ^ (length bs - 1)) \<le> sval bs" and "sval bs < 2 ^ (length bs - 1)"
  using signed_take_bit_int_greater_eq_minus_exp [of "length bs - 1"] signed_take_bit_int_less_exp [of "length bs - 1"]
  by (simp_all add: sval_signed assms)

lemma sval_neg_iff: "bs \<noteq> [] \<Longrightarrow> last bs \<longleftrightarrow> sval bs < 0"
  using bits_val_less [of bs] by (auto simp: sval_def)

lemma sval_mod: "int (bits_val bs) mod 2 ^ length bs = sval bs mod 2 ^ length bs"
  by (simp add: sval_def)

lemma of_sint_sval [simp]: "length bs = n \<Longrightarrow> of_sint n (sval bs) = bs"
  using to_bits_of_sint [of n "bits_val bs"] of_sint_cong [of "int (bits_val bs)" n "sval bs"] sval_mod [of bs] by simp

lemma sval_of_sint:
  assumes "0 < n" and "- (2 ^ (n - 1)) \<le> k" and "k < 2 ^ (n - 1)"
  shows "sval (of_sint n k) = k"
proof -
  have "of_sint n k \<noteq> []" using assms by (metis length_0_conv length_of_sint less_irrefl)
  moreover have "int (bits_val (of_sint n k)) = take_bit n k"
    by (simp add: of_sint_def take_bit_eq_mod of_nat_mod)
  ultimately show ?thesis
    using assms by (cases n) (simp_all add: sval_signed signed_take_bit_int_eq_self_iff signed_take_bit_take_bit)
qed

lemma sval_to_bits_small: "0 < n \<Longrightarrow> k < 2 ^ (n - 1) \<Longrightarrow> sval (to_bits n k) = int k"
  unfolding to_bits_of_sint by (rule sval_of_sint) (auto simp: order_trans [of _ 0])

section \<open>Meaning on truth values\<close>

lemma int_constant_bool: "int_constant bool_ctx N u = ret (of_sint N (sint u))"
proof -
  have "int_constant bool_ctx N u = ret (map (\<lambda>i. bit u (if i < 64 then i else 63)) [0..<N])"
    unfolding int_constant_def by (intro map_gm_ret) simp
  moreover have "bit (sint u) i = bit u (if i < 64 then i else 63)" for i
    by (cases "i = 63") (auto simp: bit_sint_iff dest: bit_imp_le_length)
  ultimately show ?thesis by (simp add: of_sint_nth list_eq_iff_nth_eq)
qed

lemma int_arith_bool [simp]:
  assumes "length a = length b"
  shows "int_add bool_ctx a b = ret (of_sint (length a) (sval a + sval b))"
    and "int_sub bool_ctx a b = ret (of_sint (length a) (sval a - sval b))"
    and "int_mul bool_ctx a b = ret (of_sint (length a) (sval a * sval b))"
proof -
  let ?n = "length a"
  note m = sval_mod [of a] sval_mod [of b, folded assms]
  have "to_bits ?n (bits_val a + bits_val b) = of_sint ?n (sval a + sval b)"
    unfolding to_bits_of_sint using m by (intro of_sint_cong) (metis mod_add_cong of_nat_add)
  then show "int_add bool_ctx a b = ret (of_sint ?n (sval a + sval b))"
    using assms by (simp add: int_add_def same_width_def)
  have "bits_val b < 2 ^ ?n" using bits_val_less [of b] assms by simp
  then have "int (2 ^ ?n + bits_val a - bits_val b) = 2 ^ ?n + (int (bits_val a) - int (bits_val b))"
    by (simp add: of_nat_diff)
  then have "int (2 ^ ?n + bits_val a - bits_val b) mod 2 ^ ?n = (sval a - sval b) mod 2 ^ ?n"
    using m by (metis mod_add_self1 mod_diff_cong)
  then have "to_bits ?n (2 ^ ?n + bits_val a - bits_val b) = of_sint ?n (sval a - sval b)"
    unfolding to_bits_of_sint by (rule of_sint_cong)
  then show "int_sub bool_ctx a b = ret (of_sint ?n (sval a - sval b))"
    using assms by (simp add: int_sub_def same_width_def)
  have "to_bits ?n (bits_val a * bits_val b) = of_sint ?n (sval a * sval b)"
    unfolding to_bits_of_sint using m by (intro of_sint_cong) (metis mod_mult_cong of_nat_mult)
  then show "int_mul bool_ctx a b = ret (of_sint ?n (sval a * sval b))"
    using assms by (simp add: int_mul_def same_width_def)
qed

lemma sval_zeros [simp]: "sval (replicate n False) = 0"
  by (cases "n = 0") (simp_all add: sval_def)

lemma int_neg_bool [simp]: "int_neg bool_ctx a = ret (of_sint (length a) (- sval a))"
  by (simp add: int_neg_def int_zeros_def)

lemma int_select_bool [simp]:
  "length a = length t \<Longrightarrow> int_select bool_ctx a sel t = ret (if sel then t else a)"
  unfolding int_select_def same_width_def by (simp add: map2_select del: mux_bool)

lemma rd_sign [simp]: "length a = n \<Longrightarrow> a \<noteq> [] \<Longrightarrow> rd a (n - Suc 0) = ret (last a)"
  by (auto simp: last_conv_nth)

lemma int_cmp_bool [simp]:
  assumes "length a = length b" and "a \<noteq> []"
  shows "int_lt bool_ctx a b = ret (sval a < sval b)"
    and "int_gt bool_ctx a b = ret (sval b < sval a)"
    and "int_le bool_ctx a b = ret (sval a \<le> sval b)"
    and "int_ge bool_ctx a b = ret (sval b \<le> sval a)"
    and "int_eq bool_ctx a b = ret (sval a = sval b)"
    and "int_neq bool_ctx a b = ret (sval a \<noteq> sval b)"
proof -
  have lt: "int_lt bool_ctx a b = ret (sval a < sval b)" if "length a = length b" "a \<noteq> []" for a b
  proof -
    have "b \<noteq> []" using that by auto
    have "(if last a \<noteq> last b then last a else bits_val a < bits_val b) \<longleftrightarrow> sval a < sval b"
    proof (cases "last a = last b")
      case True
      then show ?thesis using that \<open>b \<noteq> []\<close> by (simp add: sval_def)
    next
      case False
      then show ?thesis using sval_neg_iff [OF that(2)] sval_neg_iff [OF \<open>b \<noteq> []\<close>] by auto
    qed
    then show ?thesis
      using that \<open>b \<noteq> []\<close> by (simp add: int_lt_def same_width_def del: rd_ok)
  qed
  have "b \<noteq> []" using assms by auto
  show "int_lt bool_ctx a b = ret (sval a < sval b)" "int_gt bool_ctx a b = ret (sval b < sval a)"
    "int_le bool_ctx a b = ret (sval a \<le> sval b)" "int_ge bool_ctx a b = ret (sval b \<le> sval a)"
    using assms \<open>b \<noteq> []\<close> by (simp_all add: lt int_gt_def int_le_def int_ge_def not_less)
  have "a = b \<longleftrightarrow> sval a = sval b" using assms(1) by (metis of_sint_sval)
  then show "int_eq bool_ctx a b = ret (sval a = sval b)" "int_neq bool_ctx a b = ret (sval a \<noteq> sval b)"
    using assms by (simp_all add: int_eq_def int_neq_def same_width_def)
qed

subsection \<open>Division\<close>

lemma int_magnitude_bool:
  assumes "a \<noteq> []"
  shows "int_magnitude bool_ctx a (last a) = ret (to_bits (length a) (nat \<bar>sval a\<bar>))"
proof -
  have "int_magnitude bool_ctx a (last a) = ret (if last a then of_sint (length a) (- sval a) else a)"
    by (simp add: int_magnitude_def)
  also have "(if last a then of_sint (length a) (- sval a) else a) = of_sint (length a) \<bar>sval a\<bar>"
    using sval_neg_iff [OF assms] by simp
  also have "\<dots> = to_bits (length a) (nat \<bar>sval a\<bar>)" by (simp only: to_bits_of_sint nat_0_le abs_ge_zero)
  finally show ?thesis .
qed

lemma magnitude_fits:
  assumes "a \<noteq> []"
  shows "nat \<bar>sval a\<bar> < 2 ^ length a" and "to_bits (length a) k \<noteq> []"
proof -
  have "\<bar>sval a\<bar> \<le> 2 ^ (length a - 1)" using sval_range [OF assms] by (simp add: abs_le_iff)
  moreover have "(2 :: int) ^ (length a - 1) < 2 ^ length a" using assms by (cases a) auto
  ultimately have "\<bar>sval a\<bar> < 2 ^ length a" by linarith
  then show "nat \<bar>sval a\<bar> < 2 ^ length a" by (simp add: nat_less_iff)
  show "to_bits (length a) k \<noteq> []" using assms by (metis length_0_conv length_to_bits)
qed

lemma neg_select:
  "bind (int_neg bool_ctx (to_bits n k)) (int_select bool_ctx (to_bits n k) c) =
     ret (of_sint n (if c then - int k else int k))"
proof -
  have "sval (to_bits n k) mod 2 ^ n = int k mod 2 ^ n"
    using sval_mod [of "to_bits n k"] by (simp add: zmod_int)
  then have "of_sint n (- sval (to_bits n k)) = of_sint n (- int k)"
    by (intro of_sint_cong) (metis mod_minus_eq)
  then show ?thesis by (simp add: to_bits_of_sint [symmetric])
qed

lemma int_div_bool:
  assumes len: "length a = length b" and ne: "a \<noteq> []" and b: "sval b \<noteq> 0"
  shows "int_div bool_ctx a b = ret (of_sint (length a) (sval a sdiv sval b))"
    and "int_mod bool_ctx a b = ret (of_sint (length a) (sval a smod sval b))"
proof -
  have bne: "b \<noteq> []" using len ne by auto
  let ?n = "length a" and ?A = "nat \<bar>sval a\<bar>" and ?B = "nat \<bar>sval b\<bar>"
  note fits = magnitude_fits [OF ne] magnitude_fits(1) [OF bne, folded len]
  have mags: "int_magnitude bool_ctx a (last a) = ret (to_bits ?n ?A)"
    "int_magnitude bool_ctx b (last b) = ret (to_bits ?n ?B)"
    using int_magnitude_bool [OF ne] int_magnitude_bool [OF bne] len by simp_all
  have div: "div_full bool_ctx (to_bits ?n ?A) (to_bits ?n ?B) = ret (to_bits ?n (?A mod ?B), to_bits ?n (?A div ?B))"
    using fits b by simp
  have sgn: "last a \<longleftrightarrow> sval a < 0" "last b \<longleftrightarrow> sval b < 0" using sval_neg_iff ne bne by auto
  have "(if last a \<noteq> last b then - int (?A div ?B) else int (?A div ?B)) = sval a sdiv sval b"
    using b by (auto simp: sgn signed_divide_int_def sgn_if zdiv_int)
  then show "int_div bool_ctx a b = ret (of_sint ?n (sval a sdiv sval b))"
    using len ne bne mags div
    by (simp add: int_div_def same_width_def neg_select del: rd_ok int_neg_bool int_select_bool)
  have "(if last a then - int (?A mod ?B) else int (?A mod ?B)) = sval a smod sval b"
    by (auto simp: sgn signed_modulo_int_def sgn_if zmod_int)
  then show "int_mod bool_ctx a b = ret (of_sint ?n (sval a smod sval b))"
    using len ne bne mags div
    by (simp add: int_mod_def same_width_def neg_select del: rd_ok int_neg_bool int_select_bool)
qed

lemma bits_val_ones: "bits_val (replicate n True) = 2 ^ n - 1"
proof -
  have "Suc (bits_val (replicate n True)) = 2 ^ n" by (induction n) auto
  then show ?thesis by linarith
qed

text \<open>Division by zero: the quotient is \<open>-1\<close>, or \<open>1\<close> for a negative dividend; the remainder is the dividend.\<close>

lemma int_div_zero_bool:
  assumes len: "length a = length b" and ne: "a \<noteq> []" and b: "sval b = 0"
  shows "int_div bool_ctx a b = ret (of_sint (length a) (if sval a < 0 then 1 else - 1))"
    and "int_mod bool_ctx a b = ret a"
proof -
  have bne: "b \<noteq> []" using len ne by auto
  let ?n = "length a" and ?A = "nat \<bar>sval a\<bar>"
  have mags: "int_magnitude bool_ctx a (last a) = ret (to_bits ?n ?A)"
    "int_magnitude bool_ctx b (last b) = ret (to_bits ?n 0)"
    using int_magnitude_bool [OF ne] int_magnitude_bool [OF bne] len b by simp_all
  have ones: "replicate ?n True = to_bits ?n (2 ^ ?n - 1)"
    using to_bits_bits_val [of "replicate ?n True" ?n] by (simp add: bits_val_ones)
  have div: "div_full bool_ctx (to_bits ?n ?A) (to_bits ?n 0) = ret (to_bits ?n ?A, to_bits ?n (2 ^ ?n - 1))"
    using magnitude_fits(2) [OF ne] unfolding ones [symmetric] by (subst div_full_bool_zero) auto
  have sgn: "last a \<longleftrightarrow> sval a < 0" "\<not> last b" using sval_neg_iff ne bne b by auto
  have "of_sint k (1 - 2 ^ k) = of_sint k 1" "of_sint k (2 ^ k - 1) = of_sint k (- 1)" for k
    by (rule of_sint_cong, simp add: mod_eq_dvd_iff)+
  then show "int_div bool_ctx a b = ret (of_sint ?n (if sval a < 0 then 1 else - 1))"
    using len ne bne mags div sgn
    by (simp add: int_div_def same_width_def neg_select del: to_bits_0 rd_ok int_neg_bool int_select_bool)
  have "of_sint ?n (if last a then - int ?A else int ?A) = a" using sgn(1) by simp
  then show "int_mod bool_ctx a b = ret a"
    using len ne bne mags div
    by (simp add: int_mod_def same_width_def neg_select del: to_bits_0 rd_ok int_neg_bool int_select_bool)
qed

subsection \<open>Shifts and width changes\<close>

lemma int_shl_bool: "0 \<le> s \<Longrightarrow> int_shl bool_ctx w s = ret (of_sint (length w) (sval w * 2 ^ nat s))"
proof -
  assume s: "0 \<le> s"
  have "int (bits_val w * 2 ^ nat s) mod 2 ^ length w = sval w * 2 ^ nat s mod 2 ^ length w"
    unfolding of_nat_mult of_nat_power of_nat_numeral by (rule mod_mult_cong [OF sval_mod refl])
  then have "to_bits (length w) (bits_val w * 2 ^ nat s) = of_sint (length w) (sval w * 2 ^ nat s)"
    unfolding to_bits_of_sint by (rule of_sint_cong)
  then show ?thesis using s by (simp add: int_shl_def shl_wires_bool)
qed

lemma bit_sval_div: "w \<noteq> [] \<Longrightarrow> bit (sval w div 2 ^ k) i \<longleftrightarrow> w ! min (i + k) (length w - 1)"
  using bit_sval [of w "k + i"] by (simp add: bit_drop_bit_eq add.commute flip: drop_bit_eq_div)

lemma int_shr_bool:
  assumes "w \<noteq> []" and "0 \<le> s"
  shows "int_shr w s = ret (of_sint (length w) (sval w div 2 ^ nat s))"
proof -
  have "int_shr w s = ret (map (\<lambda>i. if i + nat s < length w then w ! (i + nat s) else last w) [0..<length w])"
    using assms by (simp add: int_shr_def shr_wires_ret del: rd_ok)
  moreover have "map (\<lambda>i. if i + nat s < length w then w ! (i + nat s) else last w) [0..<length w] =
      of_sint (length w) (sval w div 2 ^ nat s)"
    by (rule nth_equalityI) (auto simp: of_sint_nth bit_sval_div assms last_conv_nth min_def)
  ultimately show ?thesis by simp
qed

lemma int_shift_negative: "s < 0 \<Longrightarrow> int_shl C w s = fail NegativeShift" "s < 0 \<Longrightarrow> int_shr w s = fail NegativeShift"
  by (simp_all add: int_shl_def int_shr_def)

lemma fit_wires_sext:
  assumes "w \<noteq> []"
  shows "fit_wires M w (last w) = ret (of_sint M (sval w))"
proof -
  have m: "min i (length w - 1) = (if i < length w then i else length w - 1)" for i
    using assms by (cases w) auto
  have "fit_wires M w (last w) = ret (map (\<lambda>i. if i < length w then w ! i else last w) [0..<M])"
    unfolding fit_wires_def by (rule map_gm_ret) simp
  moreover have "map (\<lambda>i. if i < length w then w ! i else last w) [0..<M] = of_sint M (sval w)"
    by (rule nth_equalityI) (simp_all add: of_sint_nth bit_sval [OF assms] m last_conv_nth assms del: One_nat_def)
  ultimately show ?thesis by simp
qed

lemma int_sext_bool: "w \<noteq> [] \<Longrightarrow> int_sext M w = ret (of_sint M (sval w))"
  by (simp add: int_sext_def fit_wires_sext del: rd_ok)

lemma int_resize_bool:
  "w \<noteq> [] \<Longrightarrow> int_resize m w = (if 1 \<le> m then ret (of_sint (nat m) (sval w)) else fail WidthNotPositive)"
  by (simp add: int_resize_def validate_width_def check_def fit_wires_sext del: rd_ok)

lemma sval_div_range:
  assumes "w \<noteq> []"
  shows "sval (of_sint (length w) (sval w div 2 ^ k)) = sval w div 2 ^ k"
proof (rule bit_eqI)
  fix i
  let ?n = "length w"
  have ne: "of_sint ?n (sval w div 2 ^ k) \<noteq> []" "0 < ?n"
    using assms by (metis length_0_conv length_of_sint, simp)
  have eq: "min (min i (?n - 1) + k) (?n - 1) = min (i + k) (?n - 1)" and i: "min i (?n - 1) < ?n"
    using ne(2) by linarith+
  show "bit (sval (of_sint ?n (sval w div 2 ^ k))) i \<longleftrightarrow> bit (sval w div 2 ^ k) i"
    unfolding bit_sval [OF ne(1)] length_of_sint of_sint_nth [OF i] bit_sval_div [OF assms] eq ..
qed

lemma int_barrel_shr_rounds:
  assumes "u \<le> length sh" and "w \<noteq> []"
  shows "fold_gm (\<lambda>i res. bind (rd sh i) (\<lambda>sel. bind (int_shr res (2 ^ i)) (int_select bool_ctx res sel))) [0..<u] w
     = ret (of_sint (length w) (sval w div 2 ^ bits_val (take u sh)))"
  using assms(1)
proof (induction u)
  case (Suc u)
  have ne: "of_sint (length w) k \<noteq> []" for k using assms(2) by (metis length_0_conv length_of_sint)
  have "sval w div 2 ^ bits_val (take u sh) div 2 ^ 2 ^ u = sval w div 2 ^ (bits_val (take u sh) + 2 ^ u)"
    by (simp add: power_add zdiv_zmult2_eq)
  then show ?case
    using Suc by (simp add: fold_gm_append int_shr_bool ne sval_div_range assms(2) bits_val_take_Suc nat_power_eq)
qed simp

lemma int_uint_same:
  "int_shl C = uint_shl C" "int_select C = uint_select C"
  by (auto simp: fun_eq_iff int_shl_def uint_shl_def int_select_def uint_select_def)

lemma int_barrel_shl_bool:
  assumes "length sh = length w" and "w \<noteq> []"
  shows "int_barrel_shl bool_ctx w sh = ret (of_sint (length w) (sval w * 2 ^ bits_val sh))"
proof -
  have "int_barrel_shl bool_ctx w sh = uint_barrel_shl bool_ctx w sh"
    unfolding int_barrel_shl_def uint_barrel_shl_def int_uint_same by (simp add: int_constant_bool of_sint_def)
  also have "\<dots> = ret (of_sint (length w) (sval w * 2 ^ bits_val sh))"
    unfolding uint_barrel_bool(1) [OF assms] to_bits_of_sint of_nat_mult of_nat_power of_nat_numeral
    using of_sint_cong [OF mod_mult_cong [OF sval_mod refl]] by simp
  finally show ?thesis .
qed

lemma int_barrel_shr_bool:
  assumes len: "length sh = length w" and ne: "w \<noteq> []"
  shows "int_barrel_shr bool_ctx w sh = ret (of_sint (length w) (sval w div 2 ^ bits_val sh))"
proof -
  let ?u = "barrel_use (length w)" and ?N = "length w"
  have u: "?u \<le> length sh" "?N \<le> 2 ^ ?u" using barrel_use_bound [of ?N] assms by auto
  note split = bits_val_split_high [OF u(1)]
  have big: "of_sint ?N (sval w div 2 ^ k) = replicate ?N (last w)" if "2 ^ ?u \<le> k" for k
    using that u(2) by (intro nth_equalityI) (auto simp: of_sint_nth bit_sval_div ne last_conv_nth min_def)
  show ?thesis
    using split big u(1) ne len int_barrel_shr_rounds [OF u(1) ne]
    by (auto simp: int_barrel_shr_def Let_def barrel_overflow_bool simp del: rd_ok split: if_splits)
qed

section \<open>Codec\<close>

lemma bit_sign_fill:
  assumes "0 < length bs" and "length bs \<le> 64" and "i < 64"
  shows "bit (int_decode bs) i \<longleftrightarrow> bs ! min i (length bs - 1)"
proof -
  let ?n = "length bs" and ?v = "or_bits bs"
  have "push_bit ?n 1 - 1 = (mask ?n :: 64 word)" by (simp add: mask_eq_exp_minus_1 push_bit_eq_mult)
  moreover have "drop_bit (?n - 1) ?v AND 1 \<noteq> 0 \<longleftrightarrow> bit ?v (?n - 1)"
    by (simp add: bit_iff_odd_drop_bit and_one_eq odd_iff_mod_2_eq_one)
  ultimately have dec: "int_decode bs =
      (if ?n < 64 \<and> bit ?v (?n - 1) then ?v OR NOT (mask ?n) else ?v)"
    by (simp add: int_decode_def sign_fill_def)
  have m: "min i (?n - 1) = (if i < ?n then i else ?n - 1)" using assms(1) by (cases bs) auto
  have "?n - 1 < ?n" "?n - 1 < 64" using assms by linarith+
  then have "bit ?v (?n - 1) \<longleftrightarrow> bs ! (?n - 1)" by (simp add: bit_or_bits)
  then show ?thesis
    using assms unfolding dec m by (auto simp: bit_or_bits bit_simps not_less)
qed

lemma in_range_bits:
  assumes "0 < N" and "- (2 ^ (N - 1)) \<le> sint (u :: 64 word)" and "sint u < 2 ^ (N - 1)" and "i < 64" and "N \<le> 64"
  shows "bit u i \<longleftrightarrow> bit u (min i (N - 1))"
proof -
  have "signed_take_bit (N - 1) (sint u) = sint u" using assms by (simp add: signed_take_bit_int_eq_self_iff)
  moreover have "bit (signed_take_bit (N - 1) (sint u)) i \<longleftrightarrow> bit (sint u) (min (N - 1) i)"
    by (simp add: bit_signed_take_bit_iff)
  ultimately have "bit (sint u) i \<longleftrightarrow> bit (sint u) (min (N - 1) i)" by simp
  then show ?thesis using assms by (simp add: bit_sint_iff min.commute)
qed

context codec_width
begin

lemma sint_decode:
  assumes "length bs = N"
  shows "sint (int_decode bs) = sval bs"
proof (rule bit_eqI)
  fix i
  have ne: "bs \<noteq> []" using assms width_pos by auto
  have m: "min (min i 63) (N - 1) = min i (N - 1)" using width_le by linarith
  have "bit (sint (int_decode bs)) i \<longleftrightarrow> bit (int_decode bs) (min i 63)"
    by (cases "i < 63") (auto simp: bit_sint_iff min_def dest: bit_imp_le_length)
  also have "\<dots> \<longleftrightarrow> bs ! min i (N - 1)"
    using bit_sign_fill [of bs "min i 63"] assms width_pos width_le m by simp
  finally show "bit (sint (int_decode bs)) i \<longleftrightarrow> bit (sval bs) i" by (simp add: bit_sval ne assms)
qed

end

sublocale codec_width \<subseteq> signed_value: wire_value N "int_encode N" int_decode
  "\<lambda>u. - (2 ^ (N - 1)) \<le> sint u \<and> sint u < 2 ^ (N - 1)"
proof (unfold_locales, goal_cases)
  case (2 u)
  have "bit (int_decode (int_encode N u)) i = bit u i" if "i < 64" for i
    using bit_sign_fill [of "int_encode N u" i] in_range_bits [of N u i] 2 width_pos width_le that
    by (simp add: int_encode_def)
  then show ?case by (intro bit_eqI) (auto dest: bit_imp_le_length)
next
  case (3 bs)
  then have "bs \<noteq> []" using width_pos by auto
  then show ?case using sval_range [of bs] 3 by (simp add: sint_decode)
next
  case (4 bs)
  then show ?case using width_le width_pos
    by (intro nth_equalityI) (auto simp: int_encode_def bit_sign_fill min_def)
qed (simp add: int_encode_def)

context codec_width
begin

lemmas signed_codec = signed_value.decode_encode signed_value.encode_decode

end

section \<open>Properties\<close>

text \<open>
  (C32) Signed arithmetic on plaintext wires: \<open>+\<close>, \<open>-\<close>, unary \<open>-\<close> and \<open>*\<close> are the integer operations on
  the two's-complement values, wrapped to the width, and \<open><\<close> is the order of those values.
\<close>

theorem int_arith_correct:
  assumes "length a = length b" and "a \<noteq> []"
  shows "int_add ClearCtx (clear_bits a) (clear_bits b) = ret (clear_bits (of_sint (length a) (sval a + sval b))) \<and>
    int_sub ClearCtx (clear_bits a) (clear_bits b) = ret (clear_bits (of_sint (length a) (sval a - sval b))) \<and>
    int_neg ClearCtx (clear_bits a) = ret (clear_bits (of_sint (length a) (- sval a))) \<and>
    int_mul ClearCtx (clear_bits a) (clear_bits b) = ret (clear_bits (of_sint (length a) (sval a * sval b))) \<and>
    int_lt ClearCtx (clear_bits a) (clear_bits b) = ret (of_bool (sval a < sval b))"
  by (intro conjI clear_binop [OF bool_clear.int_ops_transfer(2)] clear_binop [OF bool_clear.int_ops_transfer(3)]
      clear_unop [OF bool_clear.int_derived_transfer(2)] clear_binop [OF bool_clear.int_ops_transfer(7)]
      clear_binpred [OF bool_clear.int_ops_transfer(5)])
    (simp_all add: assms)

theorem int_arith_correct_witness:
  "int_add ClearCtx (clear_bits [True, True, False]) (clear_bits [True, False, False]) = ret (clear_bits [False, False, True]) \<and>
   int_lt ClearCtx (clear_bits [True, True, True]) (clear_bits [True, False, False]) = ret 1"
  using int_arith_correct [of "[True, True, False]" "[True, False, False]"]
    int_arith_correct [of "[True, True, True]" "[True, False, False]"]
  by (simp add: sval_def of_sint_def numeral_3_eq_3)

text \<open>
  (C33) Signed division on plaintext wires truncates toward zero and the remainder takes the sign of the
  dividend, for every dividend including the most negative one (the quotient then wraps to the width);
  dividing by zero gives \<open>-1\<close>, or \<open>1\<close> for a negative dividend, with the dividend as remainder.
\<close>

theorem int_div_correct:
  assumes "length a = length b" and "a \<noteq> []"
  shows "int_div ClearCtx (clear_bits a) (clear_bits b) =
      ret (clear_bits (of_sint (length a) (if sval b = 0 then if sval a < 0 then 1 else - 1 else sval a sdiv sval b))) \<and>
    int_mod ClearCtx (clear_bits a) (clear_bits b) =
      ret (clear_bits (of_sint (length a) (if sval b = 0 then sval a else sval a smod sval b)))"
  by (intro conjI clear_binop [OF bool_clear.int_div_transfer(1)] clear_binop [OF bool_clear.int_div_transfer(2)])
    (use assms in \<open>auto simp: int_div_bool int_div_zero_bool\<close>)

theorem int_div_correct_witness:
  "int_div ClearCtx (clear_bits [True, False, False, True]) (clear_bits [False, True, False, False]) =
     ret (clear_bits [True, False, True, True]) \<and>
   int_mod ClearCtx (clear_bits [True, False, False, True]) (clear_bits [False, True, False, False]) =
     ret (clear_bits [True, True, True, True])"
proof -
  let ?a = "[True, False, False, True]" and ?b = "[False, True, False, False]"
  have "of_sint (length ?a) (if sval ?b = 0 then if sval ?a < 0 then 1 else - 1 else sval ?a sdiv sval ?b) = [True, False, True, True]"
    and "of_sint (length ?a) (if sval ?b = 0 then sval ?a else sval ?a smod sval ?b) = [True, True, True, True]"
    by code_simp+
  then show ?thesis using int_div_correct [of ?a ?b] by simp
qed

text \<open>
  (C35) Signed shifts on plaintext wires: a left shift multiplies and a right shift is the floor division by
  the power of two, for public amounts, and for secret amounts of any value; a negative public amount exits.
\<close>

theorem int_shift_correct:
  assumes "w \<noteq> []" and "length sh = length w"
  shows "(0 \<le> s \<longrightarrow> int_shl ClearCtx (clear_bits w) s = ret (clear_bits (of_sint (length w) (sval w * 2 ^ nat s)))) \<and>
    (0 \<le> s \<longrightarrow> int_shr (clear_bits w) s = (ret (clear_bits (of_sint (length w) (sval w div 2 ^ nat s))) :: (unit, _) gm)) \<and>
    (s < 0 \<longrightarrow> int_shl ClearCtx (clear_bits w) s = fail NegativeShift \<and>
       int_shr (clear_bits w) s = (fail NegativeShift :: (unit, _) gm)) \<and>
    int_barrel_shl ClearCtx (clear_bits w) (clear_bits sh) = ret (clear_bits (of_sint (length w) (sval w * 2 ^ bits_val sh))) \<and>
    int_barrel_shr ClearCtx (clear_bits w) (clear_bits sh) = ret (clear_bits (of_sint (length w) (sval w div 2 ^ bits_val sh)))"
proof (intro conjI impI)
  assume s: "0 \<le> s"
  show "int_shl ClearCtx (clear_bits w) s = ret (clear_bits (of_sint (length w) (sval w * 2 ^ nat s)))"
    by (rule clear_run [OF rel_funD [OF rel_funD [OF bool_clear.int_ops_transfer(13)] refl] int_shl_bool [OF s]])
      (simp_all add: clear_bits_rel)
  show "int_shr (clear_bits w) s = (ret (clear_bits (of_sint (length w) (sval w div 2 ^ nat s))) :: (unit, _) gm)"
    by (rule clear_run [OF rel_funD [OF rel_funD [OF bool_clear.int_ops_transfer(14)] refl] int_shr_bool [OF assms(1) s]])
      (simp_all add: clear_bits_rel)
next
  show "int_barrel_shl ClearCtx (clear_bits w) (clear_bits sh) = ret (clear_bits (of_sint (length w) (sval w * 2 ^ bits_val sh)))"
    "int_barrel_shr ClearCtx (clear_bits w) (clear_bits sh) = ret (clear_bits (of_sint (length w) (sval w div 2 ^ bits_val sh)))"
    by (rule clear_binop [OF bool_clear.int_derived_transfer(6) int_barrel_shl_bool [OF assms(2,1)]]
        clear_binop [OF bool_clear.int_derived_transfer(7) int_barrel_shr_bool [OF assms(2,1)]])+
qed (simp_all add: int_shift_negative)

theorem int_shift_correct_witness:
  "int_barrel_shr ClearCtx (clear_bits [False, False, True]) (clear_bits [False, True, True]) = ret (clear_bits [True, True, True])"
proof -
  let ?w = "[False, False, True]" and ?sh = "[False, True, True]"
  have "of_sint (length ?w) (sval ?w div 2 ^ bits_val ?sh) = [True, True, True]" by code_simp
  then show ?thesis using int_shift_correct [of ?w ?sh 0] by simp
qed

text \<open>
  (C39) The clear codec of signed values of width 1 to 64: encoding and decoding are inverse between the
  64-bit values whose signed reading fits \<open>N\<close> bits and the bit lists of length \<open>N\<close>, and decoding reads the
  two's-complement value.
\<close>

theorem int_codec_roundtrip:
  assumes "0 < N" and "N \<le> 64"
  shows "(\<forall>u. - (2 ^ (N - 1)) \<le> sint u \<and> sint u < 2 ^ (N - 1) \<longrightarrow> int_decode (int_encode N u) = u) \<and>
    (\<forall>bs. length bs = N \<longrightarrow> int_encode N (int_decode bs) = bs \<and> sint (int_decode bs) = sval bs)"
proof -
  have N: "codec_width N" using assms by unfold_locales
  show ?thesis
    using codec_width.signed_codec [OF N] codec_width.sint_decode [OF N] by auto
qed

theorem int_codec_roundtrip_witness:
  "int_decode (int_encode 8 (- 100)) = - 100 \<and> sint (int_decode [True, True, True]) = - 1"
  using int_codec_roundtrip [of 8] int_codec_roundtrip [of 3] by (simp add: sval_def)

end
