(* ===== verification/Gate_Cost.thy ===== *)
theory Gate_Cost
  imports Signed
begin

text \<open>
  Gate calls. Recording a body (\<open>context/record.h\<close>) hands out one 32-bit wire id per gate call, so a body
  can be recorded when its calls fit the id space. On the context \<open>cost_ctx\<close> every gate call just counts
  one; the relation \<open>costs\<close> bounds the calls of a computation and describes its result, with one rule per
  construct of the gate monad. The lemmas give the bounds of the arithmetic kernels and operators that the
  circuit frontend compiles.
\<close>

section \<open>A calculus of gate calls\<close>

definition costs :: "nat \<Rightarrow> (nat, 'a) gm \<Rightarrow> ('a \<Rightarrow> bool) \<Rightarrow> bool" where
  "costs k m P \<longleftrightarrow> (\<forall>c. \<exists>x c'. m c = Inr (x, c') \<and> c' \<le> c + k \<and> P x)"

named_theorems cost_rules \<open>rules that bound the gate calls of a construct\<close>

lemma costs_mono: "costs k m P \<Longrightarrow> k \<le> l \<Longrightarrow> (\<And>x. P x \<Longrightarrow> Q x) \<Longrightarrow> costs l m Q"
  unfolding costs_def by (meson add_le_cancel_left order_trans)

lemma costs_bind:
  assumes m: "costs k m P" and f: "\<And>x. P x \<Longrightarrow> costs l (f x) Q" and n: "k + l \<le> n"
  shows "costs n (bind m f) Q"
  unfolding costs_def
proof
  fix c
  obtain x c' where x: "m c = Inr (x, c')" "c' \<le> c + k" "P x" using m unfolding costs_def by blast
  obtain y c'' where "f x c' = Inr (y, c'')" "c'' \<le> c' + l" "Q y" using f [OF x(3)] unfolding costs_def by blast
  with x(1,2) n show "\<exists>y c''. bind m f c = Inr (y, c'') \<and> c'' \<le> c + n \<and> Q y" by (simp add: bind_def)
qed

lemma costs_before: "costs k m P \<Longrightarrow> k \<le> n \<Longrightarrow> (\<And>x. P x \<Longrightarrow> costs (n - k) (f x) Q) \<Longrightarrow> costs n (bind m f) Q"
  by (rule costs_bind [of k m P "n - k"]) auto

lemma costs_ret [cost_rules]: "P x \<Longrightarrow> costs k (ret x) P"
  by (simp add: costs_def ret_def)

lemma costs_tick [cost_rules]: "1 \<le> k \<Longrightarrow> P () \<Longrightarrow> costs k tick P"
  by (simp add: costs_def tick_def)

lemma costs_bind_tick [cost_rules]: "1 \<le> n \<Longrightarrow> costs (n - 1) (f ()) Q \<Longrightarrow> costs n (bind tick f) Q"
  by (rule costs_before [OF costs_tick [where P = "\<lambda>_. True"]]) auto

lemma costs_check [cost_rules]: "c \<Longrightarrow> costs k m P \<Longrightarrow> costs k (check c e m) P"
  by (simp add: check_def)

lemma costs_rd [cost_rules]: "i < length xs \<Longrightarrow> P (xs ! i) \<Longrightarrow> costs k (rd xs i) P"
  by (simp add: costs_ret)

text \<open>Loops: every round costs at most \<open>k\<close>.\<close>

lemma costs_Cons:
  assumes "costs k m (\<lambda>_. True)" and "\<And>x. costs (k * n) (f x) Q"
  shows "costs (k * Suc n) (bind m f) Q"
  by (rule costs_bind [OF assms(1)]) (use assms(2) in auto)

lemma costs_map:
  "(\<And>x. x \<in> set xs \<Longrightarrow> costs k (f x) (\<lambda>_. True)) \<Longrightarrow> costs (k * length xs) (map_gm f xs) (\<lambda>ys. length ys = length xs)"
proof (induction xs)
  case (Cons x xs)
  have "costs (k * length xs) (bind (map_gm f xs) (\<lambda>ys. ret (y # ys))) (\<lambda>ys. length ys = length (x # xs))" for y
    by (rule costs_bind [where l = 0, OF Cons.IH]) (use Cons.prems in \<open>auto intro: costs_ret\<close>)
  with Cons.prems show ?case unfolding map_gm.simps length_Cons by (intro costs_Cons) auto
qed (simp add: costs_ret)

lemma costs_map2:
  "length xs = length ys \<Longrightarrow> (\<And>x y. costs k (f x y) (\<lambda>_. True)) \<Longrightarrow>
     costs (k * length xs) (map2_gm f xs ys) (\<lambda>zs. length zs = length xs)"
proof (induction xs ys rule: list_induct2)
  case (Cons x xs y ys)
  have "costs (k * length xs) (bind (map2_gm f xs ys) (\<lambda>zs. ret (z # zs))) (\<lambda>zs. length zs = length (x # xs))" for z
    by (rule costs_bind [where l = 0, OF Cons.IH]) (use Cons.prems in \<open>auto intro: costs_ret\<close>)
  with Cons.prems show ?case unfolding map2_gm.simps length_Cons by (intro costs_Cons) auto
qed (simp add: costs_ret)

lemma costs_ripple:
  "length xs = length ys \<Longrightarrow> (\<And>x y c. costs k (f x y c) (\<lambda>_. True)) \<Longrightarrow>
     costs (k * length xs) (ripple_gm f xs ys c) (\<lambda>(ds, c'). length ds = length xs)"
proof (induction xs ys arbitrary: c rule: list_induct2)
  case (Cons x xs y ys)
  have "costs (k * length xs) (bind (ripple_gm f xs ys c') (\<lambda>(ds, c''). ret (d # ds, c'')))
      (\<lambda>(ds, c'). length ds = length (x # xs))" for d c'
    by (rule costs_bind [where l = 0, OF Cons.IH]) (use Cons.prems in \<open>auto intro: costs_ret\<close>)
  with Cons.prems show ?case unfolding ripple_gm.simps length_Cons by (intro costs_Cons) auto
qed (simp add: costs_ret)

lemma costs_fold:
  "(\<And>x a j. x \<in> set xs \<Longrightarrow> I j a \<Longrightarrow> costs k (f x a) (I (Suc j))) \<Longrightarrow> I j a \<Longrightarrow>
     costs (k * length xs) (fold_gm f xs a) (I (j + length xs))"
proof (induction xs arbitrary: j a)
  case (Cons x xs)
  have "costs (k * length xs) (fold_gm f xs b) (I (j + length (x # xs)))" if "I (Suc j) b" for b
    using Cons.IH [OF Cons.prems(1) that] by simp
  with Cons.prems show ?case by (auto intro!: costs_bind [where k = k and l = "k * length xs" and P = "I (Suc j)"])
qed (simp add: costs_ret)

lemma costs_fold_upt:
  assumes "\<And>i a. m \<le> i \<Longrightarrow> i < n \<Longrightarrow> I i a \<Longrightarrow> costs k (f i a) (I (Suc i))" and "I m a" and "m \<le> n"
  shows "costs (k * (n - m)) (fold_gm f [m..<n] a) (I n)"
  using assms
proof (induction "n - m" arbitrary: m a)
  case 0
  then show ?case by (simp add: costs_ret)
next
  case (Suc d)
  then have d: "m < n" "n - Suc m = d" by simp_all
  have "costs (k * d) (fold_gm f [Suc m..<n] b) (I n)" if "I (Suc m) b" for b
    using Suc.hyps(1) [of "Suc m" b] Suc.prems(1) that d by simp
  moreover have "costs k (f m a) (I (Suc m))" using Suc.prems d by simp
  ultimately show ?case
    using d Suc.hyps(2) by (auto simp: upt_conv_Cons simp flip: Suc.hyps(2) intro!: costs_bind [where k = k and l = "k * d"])
qed

section \<open>Kernels\<close>

lemma gate_costs [cost_rules]:
  "costs 3 (or_gate cost_ctx a b) (\<lambda>_. True)" "costs 3 (mux cost_ctx s a b) (\<lambda>_. True)"
  "costs 5 (add_bit cost_ctx a b x) (\<lambda>_. True)" "costs 5 (sub_bit cost_ctx a b y) (\<lambda>_. True)"
  by (simp_all add: costs_def or_gate_def mux_def add_bit_def sub_bit_def bind_def tick_def ret_def)

lemma add_full_costs:
  assumes "length a = n" and "length b = n"
  shows "costs (5 * n + 1) (add_full cost_ctx a b None w) (\<lambda>(ds, c). length ds = n)"
    and "costs (5 * n + 1) (sub_full cost_ctx a b None w) (\<lambda>(ds, c). length ds = n \<and> (w \<and> 0 < n \<longrightarrow> c \<noteq> None))"
proof -
  have ripples: "costs (5 * k) (ripple_gm (add_bit cost_ctx) x y c) (\<lambda>(ds, c). length ds = k)"
    "costs (5 * k) (ripple_gm (sub_bit cost_ctx) x y c) (\<lambda>(ds, c). length ds = k)"
    if "length x = k" "length y = k" for x y k c
    using costs_ripple [of x y 5 "add_bit cost_ctx"] costs_ripple [of x y 5 "sub_bit cost_ctx"] gate_costs that by auto
  show "costs (5 * n + 1) (add_full cost_ctx a b None w) (\<lambda>(ds, c). length ds = n)"
  proof (cases n)
    case (Suc m)
    note full = costs_before [OF ripples(1) [OF assms]]
      and top = costs_before [OF ripples(1) [of "take m a" m "take m b"]]
    show ?thesis
      using assms Suc by (auto simp: add_full_def Let_def intro!: costs_ret full top costs_bind_tick costs_tick)
  qed (use assms in \<open>simp add: add_full_def costs_ret\<close>)
  show "costs (5 * n + 1) (sub_full cost_ctx a b None w) (\<lambda>(ds, c). length ds = n \<and> (w \<and> 0 < n \<longrightarrow> c \<noteq> None))"
  proof (cases n)
    case (Suc m)
    note full = costs_before [OF ripples(2) [OF assms]]
      and top = costs_before [OF ripples(2) [of "take m a" m "take m b"]]
    show ?thesis
      using assms Suc by (auto simp: sub_full_def Let_def intro!: costs_ret full top costs_bind_tick costs_tick)
  qed (use assms in \<open>simp add: sub_full_def costs_ret\<close>)
qed

lemma mul_full_costs:
  assumes "length a = n" and "length b = n"
  shows "costs (n * (6 * n + 1) + 1) (mul_full cost_ctx a b) (\<lambda>x. length x = n)"
proof -
  have step: "costs (6 * n + 1) (mul_step cost_ctx a b i acc) (\<lambda>x. length x = n)" if "i < n" "length acc = n" for i acc
  proof -
    have tmp: "costs (n - i) (map_gm (\<lambda>k. bind (rd a k) (\<lambda>x. bind (rd b i) (\<lambda>y. and_gate cost_ctx x y))) [0..<length a - i])
        (\<lambda>tmp. length tmp = n - i)"
      using costs_map [of "[0..<length a - i]" 1 "\<lambda>k. bind (rd a k) (\<lambda>x. bind (rd b i) (\<lambda>y. and_gate cost_ctx x y))"] assms that
      by (simp add: costs_tick)
    have rest: "costs (6 * n + 1 - (n - i)) (bind (add_full cost_ctx (drop i acc) tmp None False) (\<lambda>(hi, _). ret (take i acc @ hi)))
        (\<lambda>x. length x = n)" if "length tmp = n - i" for tmp
      by (rule costs_before [OF add_full_costs(1) [of _ "n - i"]]) (use that \<open>i < n\<close> \<open>length acc = n\<close> in \<open>auto intro!: costs_ret\<close>)
    show ?thesis unfolding mul_step_def by (rule costs_before [OF tmp _ rest]) auto
  qed
  have "costs ((6 * n + 1) * length [0..<n]) (fold_gm (mul_step cost_ctx a b) [0..<n] (replicate n ())) (\<lambda>x. length x = n)"
    by (rule costs_fold [where I = "\<lambda>_ x. length x = n"]) (use step in auto)
  then show ?thesis using assms by (simp add: mul_full_def costs_bind_tick mult.commute)
qed

lemma div_overflow_costs:
  assumes "length b = n" and "0 < n"
  shows "costs (3 * n + 1) (div_overflow cost_ctx b) (\<lambda>x. length x = n)"
proof -
  have "costs (3 * (n - 1)) (fold_gm (\<lambda>i ov. bind (rd ov (i - 1)) (\<lambda>o1. bind (rd b (length b - i)) (\<lambda>x.
           bind (or_gate cost_ctx o1 x) (\<lambda>y. ret (ov @ [y]))))) [1..<n] [()]) (\<lambda>x. length x = n)"
    by (rule costs_fold_upt [where I = "\<lambda>i x. length x = i"])
      (use assms in \<open>auto intro!: costs_before [OF gate_costs(1)] costs_ret\<close>)
  then show ?thesis
    unfolding div_overflow_def assms(1) cost_ctx_simps
    by (intro costs_bind_tick) (auto elim: costs_mono)
qed

lemma div_full_costs:
  assumes "length a = n" and "length b = n" and "0 < n"
  shows "costs (8 * n * n + 8 * n + 1) (div_full cost_ctx a b) (\<lambda>(r, q). length r = n \<and> length q = n)"
proof -
  have step: "costs (8 * n + 5) (div_step cost_ctx b ov i (r, q)) (\<lambda>(r, q'). length r = n \<and> length q' = Suc (length q))"
    if ov: "length ov = n" and i: "i < n" and r: "length r = n" for ov i r q
  proof -
    note sub = costs_before [OF add_full_costs(2) [of "drop i r" "n - i" "take (length b - i) b"], where n = "8 * n + 5"]
    have sel: "costs 3 (bind (xor_gate cost_ctx t f) (\<lambda>x. bind (and_gate cost_ctx s x) (\<lambda>a. xor_gate cost_ctx a f))) (\<lambda>_. True)" for t f s
      by (simp add: costs_bind_tick costs_tick)
    have ite: "costs (3 * (n - i)) (if_then_else cost_ctx (drop i r) tmp s) (\<lambda>hi. length hi = n - i)" if "length tmp = n - i" for tmp s
      unfolding if_then_else_def using costs_map2 [OF _ sel, of "drop i r" tmp] that r by simp
    show ?thesis
      unfolding div_step_def prod.case
      by (rule sub) (use assms ov i r in \<open>auto intro!: costs_before [OF gate_costs(1)] costs_before [OF ite] costs_bind_tick costs_ret\<close>)
  qed
  have "costs ((8 * n + 5) * n) (fold_gm (div_step cost_ctx b ov) (rev [0..<n]) (a, [])) (\<lambda>(r, q). length r = n \<and> length q = n)"
    if "length ov = n" for ov
    using costs_fold [where I = "\<lambda>j (r, q). length r = n \<and> length q = j" and j = 0 and xs = "rev [0..<n]" and a = "(a, [])"
        and f = "div_step cost_ctx b ov" and k = "8 * n + 5"] step [OF that] assms(1) by auto
  with div_overflow_costs [OF assms(2,3)] show ?thesis
    using assms by (auto simp: div_full_def algebra_simps intro!: costs_before)
qed

section \<open>Operators\<close>

lemma uint_mul_costs:
  "length a = n \<Longrightarrow> length b = n \<Longrightarrow> costs (n * (6 * n + 1) + 1) (uint_mul cost_ctx a b) (\<lambda>x. length x = n)"
  unfolding uint_mul_def same_width_def by (intro costs_check mul_full_costs) simp_all

lemma uint_div_costs:
  "length a = n \<Longrightarrow> length b = n \<Longrightarrow> 0 < n \<Longrightarrow>
     costs (8 * n * n + 8 * n + 1) (uint_div cost_ctx a b) (\<lambda>x. length x = n)"
  unfolding uint_div_def same_width_def
  by (intro costs_check costs_before [OF div_full_costs]) (auto intro: costs_ret)

lemma uint_lt_costs:
  "length a = n \<Longrightarrow> length b = n \<Longrightarrow> 0 < n \<Longrightarrow> costs (5 * n + 1) (uint_lt cost_ctx a b) (\<lambda>_. True)"
  unfolding uint_lt_def same_width_def less_than_def
  by (intro costs_check costs_before [OF add_full_costs(2)]) (auto intro: costs_ret)

lemma int_neg_costs: "length a = n \<Longrightarrow> costs (5 * n + 2) (int_neg cost_ctx a) (\<lambda>x. length x = n)"
  unfolding int_neg_def int_zeros_def int_sub_def ripple_sub_def same_width_def bind_assoc cost_ctx_simps bind_ret
  by (intro costs_bind_tick costs_check costs_before [OF add_full_costs(2)]) (auto intro: costs_ret)

lemma int_select_costs:
  "length a = n \<Longrightarrow> length b = n \<Longrightarrow> costs (3 * n) (int_select cost_ctx a s b) (\<lambda>x. length x = n)"
  unfolding int_select_def same_width_def using costs_map2 [of a b 3 "\<lambda>x y. mux cost_ctx s y x"]
  by (intro costs_check) (auto intro: gate_costs)

lemma neg_select_costs:
  "length a = n \<Longrightarrow> costs (8 * n + 2) (bind (int_neg cost_ctx a) (int_select cost_ctx a s)) (\<lambda>x. length x = n)"
  by (rule costs_bind [OF int_neg_costs int_select_costs]) auto

lemma int_div_costs:
  assumes "length a = n" and "length b = n" and "0 < n"
  shows "costs (8 * n * n + 32 * n + 8) (int_div cost_ctx a b) (\<lambda>x. length x = n)"
  unfolding int_div_def same_width_def int_magnitude_def bit_neq_def bit_xor_def cost_ctx_simps
  by (use assms in \<open>auto intro!: costs_check costs_before [OF neg_select_costs] costs_before [OF div_full_costs] costs_bind_tick
      costs_mono [OF neg_select_costs]\<close>)

end
