(* ===== verification/Frontend.thy ===== *)
theory Frontend
  imports Transform Gate_Cost
begin

text \<open>
  \<open>ir/artifact.h\<close> and \<open>circuits/frontend/circuit_fn.h\<close>: circuit artifacts (a program with its argument
  signature), and the circuit-function frontend that records a body (\<open>compile\<close>), compacts the recording
  (\<open>compile_linear\<close>) and replays it on a context (\<open>run\<close>).

  A typed argument is its list of wires and an argument pack is a list of such lists; the value types of a
  \<open>Circuit\<close> are the widths they stand for. The overload of \<open>run\<close> on a \<open>ComposeCtx\<close> is not modelled.

  The lemmas of the locales \<open>circuit_source\<close> and \<open>budgeted_source\<close> show that compiling a body either passes on
  the recorder's own exit or yields a validated circuit that computes the body, and that it does not exit
  when the gate calls of the body fit the id space; the properties instantiate them for the arithmetic
  operators, with the gate calls bounded in \<open>Gate_Cost\<close>.
\<close>

section \<open>Artifacts\<close>

record CircuitSignature =
  arg_widths :: "nat list"
  return_width :: nat

definition sig_input_bits :: "CircuitSignature \<Rightarrow> nat" where
  "sig_input_bits s = foldl (\<lambda>acc w. (acc + w) mod 2 ^ 64) 0 (arg_widths s)"

record CircuitArtifact =
  program :: BooleanProgram
  signature :: CircuitSignature

definition validate_artifact :: "CircuitArtifact \<Rightarrow> unit res" where
  "validate_artifact a =
     res_then (validate_program (program a))
     (let ins = sig_input_bits (signature a) in
      res_then (expecting (ins \<le> UINT32_MAX) ArtifactInputOverflow)
      (res_then (expecting (ins = num_inputs (program a)) ArtifactInputMismatch)
       (expecting (return_width (signature a) = length (outputs (program a))) ArtifactReturnMismatch)))"

section \<open>Circuits\<close>

text \<open>The constructor of \<open>Circuit<RetV, ArgVs...>\<close>; \<open>want\<close> and \<open>rw\<close> are the widths of the value types.\<close>

definition Circuit :: "nat list \<Rightarrow> nat \<Rightarrow> CircuitArtifact \<Rightarrow> CircuitArtifact res" where
  "Circuit want rw a =
     res_then (validate_artifact a)
     (let s = signature a in
      res_then (expecting (length (arg_widths s) = length want) CircuitArity)
      (res_then (res_each (\<lambda>(x, y). expecting (x = u32 y) CircuitArgWidth) (zip (arg_widths s) want))
      (res_then (expecting (return_width s = u32 rw) CircuitReturnWidth)
       (Inr a))))"

definition make_rec_arg :: "nat \<Rightarrow> (record_state, nat list) gm" where
  "make_rec_arg w = bind (rc_external_input w) (\<lambda>base. ret (map (\<lambda>i. u32 (base + i)) [0..<w]))"

definition compile :: "nat list \<Rightarrow> (nat list list \<Rightarrow> (record_state, nat list) gm) \<Rightarrow> CircuitArtifact res" where
  "compile ws body =
     res_bind
       (bind (map_gm make_rec_arg ws) (\<lambda>args.
        bind (body args) (\<lambda>ow.
        bind (rc_finish ow) (\<lambda>p. ret (p, ow)))) record_init)
       (\<lambda>((p, ow), _).
          Circuit ws (length ow)
            \<lparr>program = p, signature = \<lparr>arg_widths = map u32 ws, return_width = u32 (length ow)\<rparr>\<rparr>)"

definition compile_at ::
  "WireReuse \<Rightarrow> nat list \<Rightarrow> (nat list list \<Rightarrow> (record_state, nat list) gm) \<Rightarrow> CircuitArtifact res" where
  "compile_at level ws body =
     res_bind (compile ws body) (\<lambda>dense.
     res_bind (make_compact (program dense) level) (\<lambda>(prog, _).
       Circuit ws (return_width (signature dense)) \<lparr>program = prog, signature = signature dense\<rparr>))"

definition compile_linear ::
  "nat list \<Rightarrow> (nat list list \<Rightarrow> (record_state, nat list) gm) \<Rightarrow> CircuitArtifact res" where
  "compile_linear ws body = compile_at ReuseLinear ws body"

text \<open>\<open>run\<close> on an inlining context: pack the arguments, check the counts, replay.\<close>

definition run :: "('s, 'w, 'z) ctx_scheme \<Rightarrow> CircuitArtifact \<Rightarrow> 'w list list \<Rightarrow> ('s, 'w list) gm" where
  "run C c args =
     check (length (arg_widths (signature c)) = length args) RunArity
     (let inputs = concat args in
      check (u32 (length inputs) = num_inputs (program c)) RunInputMismatch
      (bind (execute_program_ws C (program c) inputs []) (\<lambda>(os, scratch). ret os)))"

section \<open>Signatures\<close>

lemma foldl_mod_sum: "foldl (\<lambda>acc w. (acc + w) mod m) a ws mod m = (a + sum_list ws) mod m" for m :: nat
  by (induction ws arbitrary: a) (auto simp: mod_simps add.assoc)

lemma sig_input_bits_sum:
  assumes "sum_list (arg_widths s) < 2 ^ 64"
  shows "sig_input_bits s = sum_list (arg_widths s)"
proof -
  have "foldl (\<lambda>acc w. (acc + w) mod 2 ^ 64) 0 ws < (2 ^ 64 :: nat)" for ws
    by (cases ws rule: rev_cases) auto
  then show ?thesis
    using foldl_mod_sum [of "2 ^ 64" 0 "arg_widths s"] assms by (simp add: sig_input_bits_def)
qed

lemma validate_artifact_iff:
  assumes "sum_list (arg_widths (signature a)) < 2 ^ 64"
  shows "validate_artifact a = Inr () \<longleftrightarrow>
    wf_program (program a) \<and> sum_list (arg_widths (signature a)) = num_inputs (program a) \<and>
    num_inputs (program a) \<le> UINT32_MAX \<and> return_width (signature a) = length (outputs (program a))"
  using assms by (auto simp: validate_artifact_def Let_def validate_wf sig_input_bits_sum)

lemma u32_small: "n \<le> UINT32_MAX \<Longrightarrow> u32 n = n"
  by (simp add: u32_def UINT32_MAX_def)

lemma Circuit_ok:
  assumes "wf_program p" and "sum_list ws = num_inputs p" and "num_inputs p \<le> UINT32_MAX"
    and "length (outputs p) \<le> UINT32_MAX"
  shows "Circuit ws (length (outputs p)) \<lparr>program = p, signature = \<lparr>arg_widths = ws, return_width = length (outputs p)\<rparr>\<rparr>
    = Inr \<lparr>program = p, signature = \<lparr>arg_widths = ws, return_width = length (outputs p)\<rparr>\<rparr>"
proof -
  have "sum_list ws < 2 ^ 64" using assms by (simp add: UINT32_MAX_def)
  moreover have "w \<le> UINT32_MAX" if "w \<in> set ws" for w
    using member_le_sum_list [OF that] assms by linarith
  then have "x = u32 y" if "(x, y) \<in> set (zip ws ws)" for x y
    using that by (auto simp: zip_same u32_small)
  moreover have "validate_artifact \<lparr>program = p, signature = \<lparr>arg_widths = ws, return_width = length (outputs p)\<rparr>\<rparr> = Inr ()"
    using assms \<open>sum_list ws < 2 ^ 64\<close> by (simp add: validate_artifact_iff)
  ultimately show ?thesis using assms by (auto simp: Circuit_def Let_def u32_small)
qed

lemma run_eq:
  assumes "length args = length (arg_widths (signature c))" and "length (concat args) = num_inputs (program c)"
    and "num_inputs (program c) \<le> UINT32_MAX"
  shows "run C c args = execute_program C (program c) (concat args)"
  using assms by (simp add: run_def Let_def u32_small execute_program_def)

section \<open>Compiling a circuit source\<close>

lemma make_rec_args:
  assumes "fresh_inputs k s" and "\<forall>w \<in> set ws. 0 < w" and "k + sum_list ws \<le> UINT32_MAX"
  obtains s' where "map_gm make_rec_arg ws s = Inr (chunks ws [k..<k + sum_list ws], s')"
    and "fresh_inputs (k + sum_list ws) s'"
  using assms
proof (induction ws arbitrary: k s thesis)
  case (Cons w ws)
  obtain s1 where s1: "rc_external_input w s = Inr (k, s1)" "fresh_inputs (k + w) s1"
    using fresh_external_input [OF Cons.prems(2), of w] Cons.prems by auto
  obtain s2 where s2: "map_gm make_rec_arg ws s1 = Inr (chunks ws [k + w..<k + w + sum_list ws], s2)"
    "fresh_inputs (k + w + sum_list ws) s2"
    using Cons.IH [OF _ s1(2)] Cons.prems by auto
  have "map (\<lambda>i. u32 (k + i)) [0..<w] = [k..<k + w]"
    using Cons.prems by (intro nth_equalityI) (auto intro: u32_small)
  then have "map_gm make_rec_arg (w # ws) s = Inr (chunks (w # ws) [k..<k + sum_list (w # ws)], s2)"
    using s1 s2 by (simp add: make_rec_arg_def bind_def ret_def take_upt drop_upt add.assoc)
  then show ?case using Cons.prems(1) s2(2) by (simp add: add.assoc)
qed (auto simp: ret_def)

text \<open>The circuit of a program and what it means for it to compute a function of its arguments.\<close>

definition circuit_of :: "nat list \<Rightarrow> BooleanProgram \<Rightarrow> CircuitArtifact" where
  "circuit_of ws p = \<lparr>program = p, signature = \<lparr>arg_widths = ws, return_width = length (outputs p)\<rparr>\<rparr>"

definition computes :: "nat list \<Rightarrow> (bool list list \<Rightarrow> (unit, bool list) gm) \<Rightarrow> BooleanProgram \<Rightarrow> bool" where
  "computes ws f p \<longleftrightarrow> wf_program p \<and> num_inputs p = sum_list ws \<and> num_wires p \<le> UINT32_MAX \<and>
     length (outputs p) \<le> UINT32_MAX \<and>
     (\<forall>ins. length ins = sum_list ws \<longrightarrow> f (chunks ws ins) () = Inr (program_fun p ins, ()))"

lemma computesD:
  assumes "computes ws f p"
  shows "wf_program p" "num_inputs p = sum_list ws" "num_wires p \<le> UINT32_MAX" "length (outputs p) \<le> UINT32_MAX"
    "sum_list ws \<le> UINT32_MAX"
  using assms wf_program_inputs [of p] by (auto simp: computes_def)

lemma Circuit_computes:
  assumes "computes ws f p"
  shows "Circuit ws (length (outputs p)) (circuit_of ws p) = Inr (circuit_of ws p)"
  using Circuit_ok [of p ws] computesD [OF assms] by (simp add: circuit_of_def)

lemma run_computes:
  assumes p: "computes ws f p" and args: "map length args = ws"
  shows "run bool_ctx (circuit_of ws p) args () = f args ()"
    and "f args () = Inr (x, ()) \<Longrightarrow> run ClearCtx (circuit_of ws p) (map clear_bits args) = ret (clear_bits x)"
proof -
  note p' = computesD [OF p]
  have len: "length args = length ws" "length (concat args) = sum_list ws" "chunks ws (concat args) = args"
    using args chunks_concat [OF args] by (auto simp: length_concat)
  have ex: "execute_program bool_ctx p (concat args) () = f args ()"
  proof -
    have "f (chunks ws (concat args)) () = Inr (program_fun p (concat args), ())"
      using p len(2) unfolding computes_def by blast
    then show ?thesis using bool_execute_total [OF p'(1), of "concat args"] p'(2) len by simp
  qed
  then show "run bool_ctx (circuit_of ws p) args () = f args ()"
    using p' len run_eq [of args "circuit_of ws p" bool_ctx] by (simp add: circuit_of_def)
  have cl: "concat (map clear_bits args) = clear_bits (concat args)" "length (clear_bits bs) = length bs" for bs
    by (simp_all add: clear_bits_def [abs_def] map_concat comp_def)
  assume "f args () = Inr (x, ())"
  with ex have "execute_program bool_ctx p (concat args) = ret x" by (simp add: ret_def fun_eq_iff)
  from clear_run [OF bool_clear.sim_execute_program [OF p'(1)] this, of "clear_bits (concat args)" clear_bits]
  have "execute_program ClearCtx p (clear_bits (concat args)) = ret (clear_bits x)"
    by (simp add: clear_bits_rel)
  then show "run ClearCtx (circuit_of ws p) (map clear_bits args) = ret (clear_bits x)"
    using p' len run_eq [of "map clear_bits args" "circuit_of ws p" ClearCtx] by (simp add: circuit_of_def cl)
qed

lemma map_u32_widths: "sum_list ws \<le> UINT32_MAX \<Longrightarrow> map u32 ws = ws"
  by (intro map_idI u32_small) (auto intro: order_trans [OF member_le_sum_list])

context circuit_source
begin

lemma compile_cases:
  assumes pos: "\<forall>w \<in> set ws. 0 < w" and fits: "n \<le> UINT32_MAX"
    and total: "body_bool (chunks ws (replicate n False)) () = Inr (x, ())" and rw: "length x \<le> UINT32_MAX"
  obtains (exits) s0 where "fresh_inputs n s0" "body_rec (chunks ws [0..<n]) s0 = Inl WireIdOverflow"
      "compile ws body_rec = Inl WireIdOverflow"
    | (records) s0 os s1 p where "fresh_inputs n s0" "body_rec (chunks ws [0..<n]) s0 = Inr (os, s1)"
      "compile ws body_rec = Inr (circuit_of ws p)" "computes ws body_bool p"
      "wire_reuse p = ReuseNone" "in_order n (gates p)" "gates p = gates (rc_prog s1)"
proof -
  obtain s0 where s0: "map_gm make_rec_arg ws record_init = Inr (chunks ws [0..<n], s0)" "fresh_inputs n s0"
    using make_rec_args [OF fresh_record_init pos] fits by auto
  show thesis
  proof (cases "body_rec (chunks ws [0..<n]) s0")
    case (Inl e)
    then have "compile ws body_rec = Inl e" using s0(1) by (simp add: compile_def bind_def)
    with Inl s0(2) record_total [OF total Inl] show ?thesis by (intro exits) auto
  next
    case (Inr r)
    then obtain os s1 where run: "body_rec (chunks ws [0..<n]) s0 = Inr (os, s1)" by (cases r) auto
    show ?thesis
    proof (rule recorded [OF s0(2) run])
      fix p s2
      assume p: "rc_finish os s1 = Inr (p, s2)" "wf_program p" "wire_reuse p = ReuseNone"
        "num_inputs p = n" "gates p = gates (rc_prog s1)" "outputs p = os" "num_wires p \<le> UINT32_MAX" "in_order n (gates p)"
        and fn: "\<And>ins. length ins = n \<Longrightarrow> body_bool (chunks ws ins) () = Inr (program_fun p ins, ())"
      have rw': "length os \<le> UINT32_MAX"
        using rw fn [of "replicate n False"] total p(4,6) by simp
      then have comp: "computes ws body_bool p" using p fn by (simp add: computes_def)
      have "compile ws body_rec = Inr (circuit_of ws p)"
        using s0(1) run p(1,6) Circuit_computes [OF comp] rw' map_u32_widths [OF fits]
        by (simp add: compile_def bind_def ret_def circuit_of_def u32_small)
      with run s0(2) comp p show ?thesis by (intro records)
    qed
  qed
qed

lemma compile_linear_cases:
  assumes pos: "\<forall>w \<in> set ws. 0 < w" and fits: "n \<le> UINT32_MAX"
    and total: "body_bool (chunks ws (replicate n False)) () = Inr (x, ())" and rw: "length x \<le> UINT32_MAX"
  obtains (exits) s0 where "fresh_inputs n s0" "body_rec (chunks ws [0..<n]) s0 = Inl WireIdOverflow"
      "compile_linear ws body_rec = Inl WireIdOverflow"
    | (records) q where "compile_linear ws body_rec = Inr (circuit_of ws q)" "computes ws body_bool q"
      "wire_reuse q = ReuseLinear"
proof (rule compile_cases [OF assms])
  fix s0
  assume "fresh_inputs n s0" "body_rec (chunks ws [0..<n]) s0 = Inl WireIdOverflow" "compile ws body_rec = Inl WireIdOverflow"
  then show thesis by (intro exits) (auto simp: compile_linear_def compile_at_def)
next
  fix p
  assume c: "compile ws body_rec = Inr (circuit_of ws p)" and p: "computes ws body_bool p" "wire_reuse p = ReuseNone"
  note p' = computesD [OF p(1)]
  have "num_wires p < 2 ^ 32" using p'(3) by (simp add: UINT32_MAX_def)
  from make_compact_ok [OF p'(1) p(2), of ReuseLinear, OF _ this] obtain q nid
    where q: "make_compact p ReuseLinear = Inr (q, nid)" "wf_program q" "wire_reuse q = ReuseLinear"
      "num_inputs q = num_inputs p" "num_wires q \<le> num_wires p" "gates q = map (rename ((!) nid)) (gates p)"
      "outputs q = map ((!) nid) (outputs p)" "\<forall>i < num_inputs p. nid ! i = i"
      "alloc_ok ((!) nid) (set (outputs p)) (gates p)"
    by (metis WireReuse.distinct(1))
  have "program_fun q ins = program_fun p ins" if "length ins = num_inputs p" for ins
    using alloc_replay [OF p'(1) q(2,4,6-9), of bool_ctx ins "[]" "()" "[]"]
      bool_execute_total [OF p'(1) that] bool_execute_total [OF q(2), of ins] q(4) that
    by (auto simp: execute_program_def replay_result_def bind_def ret_def split: sum.splits prod.splits)
  then have comp: "computes ws body_bool q" using p(1) q by (simp add: computes_def)
  have "compile_linear ws body_rec = Inr (circuit_of ws q)"
    using c q(1,7) Circuit_computes [OF comp] by (simp add: compile_linear_def compile_at_def circuit_of_def)
  then show thesis using comp q(3) by (rule records)
qed

end

lemma validate_circuit_of: "computes ws f p \<Longrightarrow> validate_artifact (circuit_of ws p) = Inr ()"
  using computesD [of ws f p] by (subst validate_artifact_iff) (auto simp: circuit_of_def UINT32_MAX_def)

text \<open>
  A body whose gate calls fit the id space compiles, dense and compacted, to a validated circuit that
  computes what the body computes on truth values.
\<close>

context budgeted_source
begin

lemma compile_succeeds:
  assumes pos: "\<forall>w \<in> set ws. 0 < w" and cost: "costs k (body_cost (chunks ws (replicate n ()))) P"
    and fits: "n + k \<le> UINT32_MAX"
    and spec: "\<And>args. map length args = ws \<Longrightarrow> body_bool args () = Inr (f args, ())"
    and rw: "length (f (chunks ws (replicate n False))) \<le> UINT32_MAX"
    and compiler: "(compiler, reuse) = (compile, ReuseNone) \<or> (compiler, reuse) = (compile_linear, ReuseLinear)"
  shows "\<exists>c. compiler ws body_rec = Inr c \<and> validate_artifact c = Inr () \<and> wire_reuse (program c) = reuse \<and>
    (\<forall>args. map length args = ws \<longrightarrow> run ClearCtx c (map clear_bits args) = ret (clear_bits (f args)))"
proof -
  have ch: "map length (chunks ws (replicate n False)) = ws" by (rule map_length_chunks) simp
  have n: "n \<le> UINT32_MAX" using fits by simp
  obtain us c where c: "body_cost (chunks ws (replicate n ())) 0 = Inr (us, c)" "c \<le> k"
    using cost unfolding costs_def by (metis add_0)
  have no_exit: False if "fresh_inputs n s0" "body_rec (chunks ws [0..<n]) s0 = Inl e" for s0 e
    using recordable [OF that(1) c(1)] that(2) c(2) fits by fastforce
  have ok: ?thesis if "compiler ws body_rec = Inr (circuit_of ws p)" "computes ws body_bool p" "wire_reuse p = reuse" for p
    using that validate_circuit_of [OF that(2)] run_computes(2) [OF that(2) _ spec] by (auto simp: circuit_of_def)
  from compiler show ?thesis
  proof
    assume "(compiler, reuse) = (compile, ReuseNone)"
    with ok no_exit show ?thesis by (cases rule: compile_cases [OF pos n spec [OF ch] rw]) auto
  next
    assume "(compiler, reuse) = (compile_linear, ReuseLinear)"
    with ok no_exit show ?thesis by (cases rule: compile_linear_cases [OF pos n spec [OF ch] rw]) auto
  qed
qed

end

section \<open>The operators as circuit sources\<close>

text \<open>A body of two arguments.\<close>

definition binary :: "('w list \<Rightarrow> 'w list \<Rightarrow> ('s, 'w list) gm) \<Rightarrow> 'w list list \<Rightarrow> ('s, 'w list) gm" where
  "binary f args = bind (rd args 0) (\<lambda>a. bind (rd args 1) (\<lambda>b. f a b))"

text \<open>A body that returns a \<open>Bit_T\<close>.\<close>

definition bit_result :: "('w list \<Rightarrow> 'w list \<Rightarrow> ('s, 'w) gm) \<Rightarrow> 'w list \<Rightarrow> 'w list \<Rightarrow> ('s, 'w list) gm" where
  "bit_result f a b = bind (f a b) (\<lambda>x. ret [x])"

context ctx_sim
begin

lemma binary_transfer [transfer_rule]:
  "(rel_fun (rel_fun Ws (rel_fun Ws (S Ws))) (rel_fun (list_all2 Ws) (S Ws))) binary binary"
  unfolding binary_def [abs_def] by transfer_prover

lemma bit_result_transfer [transfer_rule]:
  "(rel_fun (rel_fun Ws (rel_fun Ws (S W))) (rel_fun Ws (rel_fun Ws (S Ws)))) bit_result bit_result"
  unfolding bit_result_def [abs_def] by transfer_prover

lemmas binary_source = rel_funD [OF binary_transfer]
lemmas binary_bit_source = rel_funD [OF binary_transfer, OF rel_funD [OF bit_result_transfer]]

end

interpretation add_circuit: budgeted_source "[N, N]" "binary (uint_add RecordCtx)"
  "\<lambda>i. binary (uint_add (ScopeCtx i))" "binary (uint_add CountCtx)" "binary (uint_add DigestCtx)"
  "binary (uint_add bool_ctx)" "binary (uint_add cost_ctx)" for N
  by unfold_locales
    (intro rec.binary_source rec.uint_ops_transfer pre.binary_source pre.uint_ops_transfer cnt.binary_source cnt.uint_ops_transfer scope.binary_source scope.uint_ops_transfer dig.binary_source dig.uint_ops_transfer total.binary_source total.uint_ops_transfer budget.binary_source budget.uint_ops_transfer)+

interpretation mul_circuit: budgeted_source "[N, N]" "binary (uint_mul RecordCtx)"
  "\<lambda>i. binary (uint_mul (ScopeCtx i))" "binary (uint_mul CountCtx)" "binary (uint_mul DigestCtx)"
  "binary (uint_mul bool_ctx)" "binary (uint_mul cost_ctx)" for N
  by unfold_locales
    (intro rec.binary_source rec.uint_ops_transfer pre.binary_source pre.uint_ops_transfer cnt.binary_source cnt.uint_ops_transfer scope.binary_source scope.uint_ops_transfer dig.binary_source dig.uint_ops_transfer total.binary_source total.uint_ops_transfer budget.binary_source budget.uint_ops_transfer)+

interpretation div_circuit: budgeted_source "[N, N]" "binary (uint_div RecordCtx)"
  "\<lambda>i. binary (uint_div (ScopeCtx i))" "binary (uint_div CountCtx)" "binary (uint_div DigestCtx)"
  "binary (uint_div bool_ctx)" "binary (uint_div cost_ctx)" for N
  by unfold_locales
    (intro rec.binary_source rec.uint_ops_transfer pre.binary_source pre.uint_ops_transfer cnt.binary_source cnt.uint_ops_transfer scope.binary_source scope.uint_ops_transfer dig.binary_source dig.uint_ops_transfer total.binary_source total.uint_ops_transfer budget.binary_source budget.uint_ops_transfer)+

interpretation sdiv_circuit: budgeted_source "[N, N]" "binary (int_div RecordCtx)"
  "\<lambda>i. binary (int_div (ScopeCtx i))" "binary (int_div CountCtx)" "binary (int_div DigestCtx)"
  "binary (int_div bool_ctx)" "binary (int_div cost_ctx)" for N
  by unfold_locales
    (intro rec.binary_source rec.int_div_transfer pre.binary_source pre.int_div_transfer cnt.binary_source cnt.int_div_transfer scope.binary_source scope.int_div_transfer dig.binary_source dig.int_div_transfer total.binary_source total.int_div_transfer budget.binary_source budget.int_div_transfer)+

interpretation lt_circuit: budgeted_source "[N, N]" "binary (bit_result (uint_lt RecordCtx))"
  "\<lambda>i. binary (bit_result (uint_lt (ScopeCtx i)))" "binary (bit_result (uint_lt CountCtx))" "binary (bit_result (uint_lt DigestCtx))"
  "binary (bit_result (uint_lt bool_ctx))" "binary (bit_result (uint_lt cost_ctx))" for N
  by unfold_locales
    (intro rec.binary_bit_source rec.uint_ops_transfer pre.binary_bit_source pre.uint_ops_transfer cnt.binary_bit_source cnt.uint_ops_transfer scope.binary_bit_source scope.uint_ops_transfer dig.binary_bit_source dig.uint_ops_transfer total.binary_bit_source total.uint_ops_transfer budget.binary_bit_source budget.uint_ops_transfer)+

lemma binary_bool:
  "binary f (chunks [N, N] (replicate (sum_list [N, N]) x)) = f (replicate N x) (replicate N x)"
  "binary f [a, b] = f a b"
  by (simp_all add: binary_def take_replicate drop_replicate)

text \<open>
  What a compiler of a binary operation promises: a validated circuit with the wire reuse of the compiler,
  whose run on plaintext wires is the operation.
\<close>

definition compiles_to ::
  "(nat list \<Rightarrow> (nat list list \<Rightarrow> (record_state, nat list) gm) \<Rightarrow> CircuitArtifact res) \<Rightarrow> WireReuse \<Rightarrow> nat \<Rightarrow>
   (nat list \<Rightarrow> nat list \<Rightarrow> (record_state, nat list) gm) \<Rightarrow> (bool list \<Rightarrow> bool list \<Rightarrow> bool list) \<Rightarrow> bool" where
  "compiles_to compiler reuse N body f \<longleftrightarrow>
     (\<exists>c. compiler [N, N] (binary body) = Inr c \<and> validate_artifact c = Inr () \<and> wire_reuse (program c) = reuse \<and>
       (\<forall>a b. length a = N \<and> length b = N \<longrightarrow>
          run ClearCtx c [clear_bits a, clear_bits b] = ret (clear_bits (f a b))))"

lemma binary_compiles:
  assumes compiled: "\<And>f. (\<And>args. map length args = [N, N] \<Longrightarrow> binary g args () = Inr (f args, ())) \<Longrightarrow>
      length (f (chunks [N, N] (replicate (sum_list [N, N]) False))) \<le> UINT32_MAX \<Longrightarrow>
      \<exists>c. compiler [N, N] (binary body) = Inr c \<and> validate_artifact c = Inr () \<and> wire_reuse (program c) = reuse \<and>
        (\<forall>args. map length args = [N, N] \<longrightarrow> run ClearCtx c (map clear_bits args) = ret (clear_bits (f args)))"
    and g: "\<And>a b. length a = N \<Longrightarrow> length b = N \<Longrightarrow> g a b = (ret (h a b) :: (unit, bool list) gm)"
    and rw: "\<And>a b. length a = N \<Longrightarrow> length b = N \<Longrightarrow> length (h a b) \<le> UINT32_MAX"
  shows "compiles_to compiler reuse N body h"
proof -
  have "binary g args () = Inr (h (args ! 0) (args ! 1), ())" if "map length args = [N, N]" for args
    using that g by (auto simp: length_Suc_conv binary_bool ret_apply)
  then have "\<exists>c. compiler [N, N] (binary body) = Inr c \<and> validate_artifact c = Inr () \<and> wire_reuse (program c) = reuse \<and>
      (\<forall>args. map length args = [N, N] \<longrightarrow> run ClearCtx c (map clear_bits args) = ret (clear_bits (h (args ! 0) (args ! 1))))"
    by (rule compiled) (simp_all add: rw take_replicate drop_replicate)
  then obtain c where c: "compiler [N, N] (binary body) = Inr c" "validate_artifact c = Inr ()" "wire_reuse (program c) = reuse"
    "\<forall>args. map length args = [N, N] \<longrightarrow> run ClearCtx c (map clear_bits args) = ret (clear_bits (h (args ! 0) (args ! 1)))" by blast
  have "run ClearCtx c [clear_bits a, clear_bits b] = ret (clear_bits (h a b))" if "length a = N" "length b = N" for a b
    using c(4) [rule_format, of "[a, b]"] that by simp
  then show ?thesis unfolding compiles_to_def using c(1-3) by blast
qed

lemma binary_costs:
  assumes "costs k (f (replicate N ()) (replicate N ())) P"
  shows "costs k (binary f (chunks [N, N] (replicate (sum_list [N, N]) ()))) P"
  using assms by (simp only: binary_bool)

section \<open>Gate calls of the adder\<close>

lemma bind_tick [simp]: "bind tick f c = f () (Suc c)"
  by (simp add: bind_def tick_def)

lemma add_ripple_cost:
  "length a = length b \<Longrightarrow>
     ripple_gm (add_bit cost_ctx) a b () c = Inr ((replicate (length a) (), ()), c + 5 * length a)"
proof (induction a b arbitrary: c rule: list_induct2)
  case (Cons x xs y ys)
  have step: "add_bit cost_ctx x y () c = Inr (((), ()), c + 5)" for c
    by (simp add: add_bit_def ret_def)
  show ?case
    by (simp only: ripple_gm.simps bind_Inr [OF step] prod.case bind_Inr [OF Cons.IH] ret_apply) simp
qed (simp add: ret_def)

lemma uint_add_cost:
  assumes "length a = N" and "length b = N" and "0 < N"
  shows "uint_add cost_ctx a b c = Inr (replicate N (), c + (5 * N - 2))"
proof -
  obtain m where N: "N = Suc m" using assms(3) by (cases N) auto
  have "ripple_gm (add_bit cost_ctx) (take m a) (take m b) () c = Inr ((replicate m (), ()), c + 5 * m)" for c
    using add_ripple_cost [of "take m a" "take m b" c] assms N by simp
  then show ?thesis
    using assms by (simp add: uint_add_def same_width_def ripple_add_def add_full_def bind_assoc Let_def N)
      (simp add: bind_def ret_def tick_def replicate_append_same)
qed

section \<open>Properties\<close>

text \<open>
  (C4) Compiling the unsigned adder of any width \<open>N\<close> with \<open>7 * N\<close> wires in the 32-bit id space succeeds, the
  artifact validates, and running the compiled circuit on plaintext wires adds modulo \<open>2 ^ N\<close>.
\<close>

theorem compile_add_correct:
  assumes "0 < N" and "7 * N \<le> UINT32_MAX"
  shows "\<exists>c. compile [N, N] (binary (uint_add RecordCtx)) = Inr c \<and> validate_artifact c = Inr () \<and>
    wire_reuse (program c) = ReuseNone \<and>
    (\<forall>a b. length a = N \<and> length b = N \<longrightarrow>
       run ClearCtx c [clear_bits a, clear_bits b] = ret (clear_bits (to_bits N (bits_val a + bits_val b))))"
proof (rule add_circuit.compile_cases [of N "replicate N False"])
  fix s0
  assume s0: "fresh_inputs (sum_list [N, N]) s0"
    "binary (uint_add RecordCtx) (chunks [N, N] [0..<sum_list [N, N]]) s0 = Inl WireIdOverflow"
  have "binary (uint_add cost_ctx) (chunks [N, N] (replicate (sum_list [N, N]) ())) 0 = Inr (replicate N (), 5 * N - 2)"
    using uint_add_cost [of "replicate N ()" N "replicate N ()" 0] assms(1) by (simp add: binary_def drop_replicate take_replicate)
  from add_circuit.recordable [OF s0(1) this] s0(2) assms(2) show ?thesis by fastforce
next
  fix p
  assume c: "compile [N, N] (binary (uint_add RecordCtx)) = Inr (circuit_of [N, N] p)"
    and p: "computes [N, N] (binary (uint_add bool_ctx)) p" "wire_reuse p = ReuseNone"
  have "run ClearCtx (circuit_of [N, N] p) [clear_bits a, clear_bits b] = ret (clear_bits (to_bits N (bits_val a + bits_val b)))"
    if "length a = N" "length b = N" for a b
    using run_computes(2) [OF p(1), of "[a, b]"] that by (simp add: binary_def ret_apply)
  then show ?thesis using c p validate_circuit_of [OF p(1)] by (auto simp: circuit_of_def)
qed (use assms in \<open>auto simp: binary_bool ret_apply\<close>)

theorem compile_add_correct_witness:
  "\<exists>c. compile [32, 32] (binary (uint_add RecordCtx)) = Inr c \<and> validate_artifact c = Inr () \<and>
    run ClearCtx c [clear_bits (to_bits 32 7), clear_bits (to_bits 32 5)] =
      ret (clear_bits (to_bits 32 (bits_val (to_bits 32 7) + bits_val (to_bits 32 5))))"
  using compile_add_correct [of 32] by (auto simp: UINT32_MAX_def simp del: bits_val_to_bits)

text \<open>
  (C13) Compiling the multiplier, the divider, the signed divider or the comparison of a width \<open>N\<close> whose gates
  fit the 32-bit id space, dense or compacted to \<open>Linear\<close>, succeeds; the circuit validates, and its run on
  plaintext wires is the operation (division by zero included).
\<close>

theorem compile_operators_correct:
  assumes "0 < N" and "8 * N * N + 34 * N + 8 \<le> UINT32_MAX"
    and "(compiler, reuse) = (compile, ReuseNone) \<or> (compiler, reuse) = (compile_linear, ReuseLinear)"
  shows "compiles_to compiler reuse N (uint_mul RecordCtx) (\<lambda>a b. to_bits N (bits_val a * bits_val b)) \<and>
    compiles_to compiler reuse N (uint_div RecordCtx)
      (\<lambda>a b. if bits_val b = 0 then replicate N True else to_bits N (bits_val a div bits_val b)) \<and>
    compiles_to compiler reuse N (int_div RecordCtx)
      (\<lambda>a b. of_sint N (if sval b = 0 then if sval a < 0 then 1 else - 1 else sval a sdiv sval b)) \<and>
    compiles_to compiler reuse N (bit_result (uint_lt RecordCtx)) (\<lambda>a b. [bits_val a < bits_val b])"
proof (intro conjI)
  have two: "\<forall>w \<in> set [N, N]. 0 < w" using assms by auto
  have N: "N \<le> UINT32_MAX" using assms(2) by linarith
  note len = length_replicate [of N "()"]
  note costs = binary_costs [where f = "uint_mul cost_ctx", OF uint_mul_costs [OF len len]]
    binary_costs [where f = "uint_div cost_ctx", OF uint_div_costs [OF len len assms(1)]]
    binary_costs [where f = "int_div cost_ctx", OF int_div_costs [OF len len assms(1)]] uint_lt_costs [OF len len assms(1)]
  have fits: "sum_list [N, N] + (N * (6 * N + 1) + 1) \<le> UINT32_MAX" "sum_list [N, N] + (8 * N * N + 8 * N + 1) \<le> UINT32_MAX"
    "sum_list [N, N] + (8 * N * N + 32 * N + 8) \<le> UINT32_MAX" "sum_list [N, N] + (5 * N + 1) \<le> UINT32_MAX"
    using assms(2) by (simp_all add: algebra_simps)
  show "compiles_to compiler reuse N (uint_mul RecordCtx) (\<lambda>a b. to_bits N (bits_val a * bits_val b))"
    by (rule binary_compiles [where g = "uint_mul bool_ctx"], rule mul_circuit.compile_succeeds [OF two costs(1) fits(1) _ _ assms(3)])
      (use N in auto)
  show "compiles_to compiler reuse N (uint_div RecordCtx)
      (\<lambda>a b. if bits_val b = 0 then replicate N True else to_bits N (bits_val a div bits_val b))"
    by (rule binary_compiles [where g = "uint_div bool_ctx"], rule div_circuit.compile_succeeds [OF two costs(2) fits(2) _ _ assms(3)])
      (use N assms(1) uint_div_zero_bool in auto)
  show "compiles_to compiler reuse N (int_div RecordCtx)
      (\<lambda>a b. of_sint N (if sval b = 0 then if sval a < 0 then 1 else - 1 else sval a sdiv sval b))"
    by (rule binary_compiles [where g = "int_div bool_ctx"], rule sdiv_circuit.compile_succeeds [OF two costs(3) fits(3) _ _ assms(3)])
      (use N assms(1) in \<open>auto simp: int_div_bool int_div_zero_bool\<close>)
  have lt: "costs (5 * N + 1) (bit_result (uint_lt cost_ctx) (replicate N ()) (replicate N ())) (\<lambda>_. True)"
    unfolding bit_result_def by (rule costs_before [OF costs(4)]) (simp_all add: costs_ret)
  show "compiles_to compiler reuse N (bit_result (uint_lt RecordCtx)) (\<lambda>a b. [bits_val a < bits_val b])"
    by (rule binary_compiles [where g = "bit_result (uint_lt bool_ctx)"],
        rule lt_circuit.compile_succeeds [OF two binary_costs [where f = "bit_result (uint_lt cost_ctx)", OF lt] fits(4) _ _ assms(3)])
      (use assms(1) in \<open>auto simp: bit_result_def UINT32_MAX_def\<close>)
qed

theorem compile_operators_correct_witness:
  "(\<exists>c. compile_linear [8, 8] (binary (uint_mul RecordCtx)) = Inr c \<and> validate_artifact c = Inr () \<and>
     wire_reuse (program c) = ReuseLinear \<and>
     run ClearCtx c [clear_bits (to_bits 8 7), clear_bits (to_bits 8 5)] = ret (clear_bits (to_bits 8 35))) \<and>
   (\<exists>c. compile [8, 8] (binary (uint_div RecordCtx)) = Inr c \<and> validate_artifact c = Inr () \<and>
     run ClearCtx c [clear_bits (to_bits 8 35), clear_bits (to_bits 8 5)] = ret (clear_bits (to_bits 8 7)))"
proof -
  have fits: "(0 :: nat) < 8" "8 * 8 * 8 + 34 * 8 + 8 \<le> UINT32_MAX" by (simp_all add: UINT32_MAX_def)
  have mul: "compiles_to compile_linear ReuseLinear 8 (uint_mul RecordCtx) (\<lambda>a b. to_bits 8 (bits_val a * bits_val b))"
    using compile_operators_correct [OF fits, of compile_linear ReuseLinear] by simp
  have div: "compiles_to compile ReuseNone 8 (uint_div RecordCtx)
      (\<lambda>a b. if bits_val b = 0 then replicate 8 True else to_bits 8 (bits_val a div bits_val b))"
    using compile_operators_correct [OF fits, of compile ReuseNone] by simp
  from mul obtain c where "compile_linear [8, 8] (binary (uint_mul RecordCtx)) = Inr c" "validate_artifact c = Inr ()"
    "wire_reuse (program c) = ReuseLinear"
    "\<forall>a b. length a = 8 \<and> length b = 8 \<longrightarrow>
       run ClearCtx c [clear_bits a, clear_bits b] = ret (clear_bits (to_bits 8 (bits_val a * bits_val b)))"
    unfolding compiles_to_def by blast
  moreover from div obtain d where "compile [8, 8] (binary (uint_div RecordCtx)) = Inr d" "validate_artifact d = Inr ()"
    "\<forall>a b. length a = 8 \<and> length b = 8 \<longrightarrow> run ClearCtx d [clear_bits a, clear_bits b] =
       ret (clear_bits (if bits_val b = 0 then replicate 8 True else to_bits 8 (bits_val a div bits_val b)))"
    unfolding compiles_to_def by blast
  ultimately show ?thesis by (intro conjI exI [of _ c] exI [of _ d]) simp_all
qed

end
