(* ===== verification/Sha256.thy ===== *)
theory Sha256
  imports Words
begin

text \<open>
  \<open>circuits/crypto/sha256.h\<close>: SHA-256 as a circuit over \<open>UInt_T<Ctx, 32>\<close> values. A \<open>UInt_T\<close> word is a list
  of 32 wires, the \<open>state\<close>, \<open>block\<close> and \<open>W\<close> arrays are lists of words, and the working variables
  \<open>a, ..., h\<close> are a tuple. The output array is written position by position, so it is a list of options
  until it is complete.

  \<open>SHA256\<close> is the hash function of FIPS 180-4 on bytes over machine words; it does not use the tables of the
  circuit, its constants are computed from the roots of primes. Lemmas: the tables are these constants; every function of the
  circuit preserves simulations of contexts; on truth values the compression function is the one of the
  standard, the public padding is the padding of the message, and the digest is \<open>SHA256\<close> of the message.
\<close>

unbundle bit_operations_syntax

section \<open>The circuit\<close>

definition SHA256_K :: "32 word list" where
  "SHA256_K = [
    0x428A2F98, 0x71374491, 0xB5C0FBCF, 0xE9B5DBA5, 0x3956C25B, 0x59F111F1,
    0x923F82A4, 0xAB1C5ED5, 0xD807AA98, 0x12835B01, 0x243185BE, 0x550C7DC3,
    0x72BE5D74, 0x80DEB1FE, 0x9BDC06A7, 0xC19BF174, 0xE49B69C1, 0xEFBE4786,
    0x0FC19DC6, 0x240CA1CC, 0x2DE92C6F, 0x4A7484AA, 0x5CB0A9DC, 0x76F988DA,
    0x983E5152, 0xA831C66D, 0xB00327C8, 0xBF597FC7, 0xC6E00BF3, 0xD5A79147,
    0x06CA6351, 0x14292967, 0x27B70A85, 0x2E1B2138, 0x4D2C6DFC, 0x53380D13,
    0x650A7354, 0x766A0ABB, 0x81C2C92E, 0x92722C85, 0xA2BFE8A1, 0xA81A664B,
    0xC24B8B70, 0xC76C51A3, 0xD192E819, 0xD6990624, 0xF40E3585, 0x106AA070,
    0x19A4C116, 0x1E376C08, 0x2748774C, 0x34B0BCB5, 0x391C0CB3, 0x4ED8AA4A,
    0x5B9CCA4F, 0x682E6FF3, 0x748F82EE, 0x78A5636F, 0x84C87814, 0x8CC70208,
    0x90BEFFFA, 0xA4506CEB, 0xBEF9A3F7, 0xC67178F2]"

definition SHA256_H0 :: "32 word list" where
  "SHA256_H0 = [
    0x6A09E667, 0xBB67AE85, 0x3C6EF372, 0xA54FF53A, 0x510E527F, 0x9B05688C,
    0x1F83D9AB, 0x5BE0CD19]"

definition sha256_ch :: "('s, 'w, 'z) ctx_scheme \<Rightarrow> 'w list \<Rightarrow> 'w list \<Rightarrow> 'w list \<Rightarrow> ('s, 'w list) gm" where
  "sha256_ch C x y z = bind (uint_xor C y z) (\<lambda>t. bind (uint_and C x t) (\<lambda>u. uint_xor C z u))"

definition sha256_maj :: "('s, 'w, 'z) ctx_scheme \<Rightarrow> 'w list \<Rightarrow> 'w list \<Rightarrow> 'w list \<Rightarrow> ('s, 'w list) gm" where
  "sha256_maj C x y z =
     bind (uint_and C x y) (\<lambda>p. bind (uint_xor C x y) (\<lambda>q. bind (uint_and C z q) (\<lambda>r. uint_xor C p r)))"

definition sha256_bsig0 :: "('s, 'w, 'z) ctx_scheme \<Rightarrow> 'w list \<Rightarrow> ('s, 'w list) gm" where
  "sha256_bsig0 C x =
     bind (uint_rotr x 2) (\<lambda>p. bind (uint_rotr x 13) (\<lambda>q. bind (uint_xor C p q) (\<lambda>pq.
     bind (uint_rotr x 22) (\<lambda>r. uint_xor C pq r))))"

definition sha256_bsig1 :: "('s, 'w, 'z) ctx_scheme \<Rightarrow> 'w list \<Rightarrow> ('s, 'w list) gm" where
  "sha256_bsig1 C x =
     bind (uint_rotr x 6) (\<lambda>p. bind (uint_rotr x 11) (\<lambda>q. bind (uint_xor C p q) (\<lambda>pq.
     bind (uint_rotr x 25) (\<lambda>r. uint_xor C pq r))))"

definition sha256_ssig0 :: "('s, 'w, 'z) ctx_scheme \<Rightarrow> 'w list \<Rightarrow> ('s, 'w list) gm" where
  "sha256_ssig0 C x =
     bind (uint_rotr x 7) (\<lambda>p. bind (uint_rotr x 18) (\<lambda>q. bind (uint_xor C p q) (\<lambda>pq.
     bind (uint_shr C x 3) (\<lambda>r. uint_xor C pq r))))"

definition sha256_ssig1 :: "('s, 'w, 'z) ctx_scheme \<Rightarrow> 'w list \<Rightarrow> ('s, 'w list) gm" where
  "sha256_ssig1 C x =
     bind (uint_rotr x 17) (\<lambda>p. bind (uint_rotr x 19) (\<lambda>q. bind (uint_xor C p q) (\<lambda>pq.
     bind (uint_shr C x 10) (\<lambda>r. uint_xor C pq r))))"

text \<open>The message schedule \<open>W[0..63]\<close>.\<close>

definition sha256_schedule :: "('s, 'w, 'z) ctx_scheme \<Rightarrow> 'w list list \<Rightarrow> ('s, 'w list list) gm" where
  "sha256_schedule C block =
     bind (map_gm (rd block) [0..<16])
       (fold_gm (\<lambda>t W.
          bind (rd W (t - 2)) (\<lambda>w2. bind (sha256_ssig1 C w2) (\<lambda>s1.
          bind (rd W (t - 7)) (\<lambda>w7. bind (uint_add C s1 w7) (\<lambda>u.
          bind (rd W (t - 15)) (\<lambda>w15. bind (sha256_ssig0 C w15) (\<lambda>s0. bind (uint_add C u s0) (\<lambda>v.
          bind (rd W (t - 16)) (\<lambda>w16. bind (uint_add C v w16) (\<lambda>w.
          ret (W @ [w]))))))))))) [16..<64])"

text \<open>One round on the working variables.\<close>

definition sha256_round ::
  "('s, 'w, 'z) ctx_scheme \<Rightarrow> 'w list list \<Rightarrow> nat \<Rightarrow>
   'w list \<times> 'w list \<times> 'w list \<times> 'w list \<times> 'w list \<times> 'w list \<times> 'w list \<times> 'w list \<Rightarrow>
   ('s, 'w list \<times> 'w list \<times> 'w list \<times> 'w list \<times> 'w list \<times> 'w list \<times> 'w list \<times> 'w list) gm" where
  "sha256_round C W t = (\<lambda>(a, b, c, d, e, f, g, h).
     bind (sha256_bsig1 C e) (\<lambda>s1. bind (uint_add C h s1) (\<lambda>u1.
     bind (sha256_ch C e f g) (\<lambda>ch. bind (uint_add C u1 ch) (\<lambda>u2.
     bind (uint_constant C 32 (ucast (SHA256_K ! t))) (\<lambda>k. bind (uint_add C u2 k) (\<lambda>u3.
     bind (rd W t) (\<lambda>w. bind (uint_add C u3 w) (\<lambda>T1.
     bind (sha256_bsig0 C a) (\<lambda>s0. bind (sha256_maj C a b c) (\<lambda>mj. bind (uint_add C s0 mj) (\<lambda>T2.
     bind (uint_add C d T1) (\<lambda>e'. bind (uint_add C T1 T2) (\<lambda>a'.
     ret (a', a, b, c, e', e, f, g)))))))))))))))"

definition sha256_compress ::
  "('s, 'w, 'z) ctx_scheme \<Rightarrow> 'w list list \<Rightarrow> 'w list list \<Rightarrow> ('s, 'w list list) gm" where
  "sha256_compress C state block =
     bind (sha256_schedule C block) (\<lambda>W.
     bind (rd state 0) (\<lambda>a. bind (rd state 1) (\<lambda>b. bind (rd state 2) (\<lambda>c. bind (rd state 3) (\<lambda>d.
     bind (rd state 4) (\<lambda>e. bind (rd state 5) (\<lambda>f. bind (rd state 6) (\<lambda>g. bind (rd state 7) (\<lambda>h.
     bind (fold_gm (sha256_round C W) [0..<64] (a, b, c, d, e, f, g, h)) (\<lambda>(a', b', c', d', e', f', g', h').
     map2_gm (uint_add C) [a, b, c, d, e, f, g, h] [a', b', c', d', e', f', g', h']))))))))))"

definition sha256_word_bit_index :: "nat \<Rightarrow> nat \<Rightarrow> nat" where
  "sha256_word_bit_index word b = 8 * (4 * word + 3 - b div 8) + (b mod 8)"

text \<open>The padded message: data wires, then public wires.\<close>

definition sha256_pad :: "('s, 'w, 'z) ctx_scheme \<Rightarrow> 'w list \<Rightarrow> ('s, 'w list) gm" where
  "sha256_pad C inp =
     (let L = length inp; total = ((L + 1 + 64 + 511) div 512) * 512; lenpos = total - 64 in
      bind (public_bit C False) (\<lambda>z.
      bind (fold_gm (\<lambda>i P. bind (rd inp i) (wr P i)) [0..<L] (replicate total z)) (\<lambda>P.
      bind (public_bit C True) (\<lambda>one.
      bind (wr P (L + 7) one) (\<lambda>P.
      fold_gm (\<lambda>t P.
        let byte = drop_bit (8 * (7 - t)) (of_nat L :: 64 word) AND 0xff in
        fold_gm (\<lambda>k P. if drop_bit k byte AND 1 = 1
                        then bind (public_bit C True) (wr P (lenpos + 8 * t + k)) else ret P) [0..<8] P)
        [0..<8] P)))))"

definition sha256_wires :: "('s, 'w, 'z) ctx_scheme \<Rightarrow> 'w list \<Rightarrow> ('s, 'w list) gm" where
  "sha256_wires C inp =
     (let total = ((length inp + 1 + 64 + 511) div 512) * 512 in
      bind (sha256_pad C inp) (\<lambda>P.
      bind (map_gm (\<lambda>v. uint_constant C 32 (ucast v)) SHA256_H0) (\<lambda>state.
      bind (fold_gm (\<lambda>blk state.
          bind (map_gm (\<lambda>j. map_gm (\<lambda>b. rd P (blk * 512 + sha256_word_bit_index j b)) [0..<32]) [0..<16])
            (sha256_compress C state)) [0..<total div 512] state) (\<lambda>state.
      bind (fold_gm (\<lambda>i out. bind (rd state i) (\<lambda>s.
          fold_gm (\<lambda>b out. bind (rd s b) (\<lambda>x. wr out (sha256_word_bit_index i b) (Some x))) [0..<32] out))
          [0..<8] (replicate 256 None))
        all_set))))"

definition sha256 :: "('s, 'w, 'z) ctx_scheme \<Rightarrow> 'w list \<Rightarrow> ('s, 'w list) gm" where
  "sha256 C inp = sha256_wires C inp"

section \<open>The reference\<close>

text \<open>
  The constants of FIPS 180-4 (sections 4.2.2 and 5.3.3): the first 32 bits of the fractional parts of the cube
  roots of the first 64 primes, and of the square roots of the first eight. \<open>root_floor k i n r\<close> is the largest
  \<open>k\<close>-th root below \<open>r + 2 ^ i\<close>, found bit by bit; the primes up to 311 are the numbers without a smaller prime
  divisor up to 17.
\<close>

primrec root_floor :: "nat \<Rightarrow> nat \<Rightarrow> int \<Rightarrow> int \<Rightarrow> int" where
  "root_floor k 0 n r = r"
| "root_floor k (Suc i) n r = root_floor k i n (if (r + 2 ^ i) ^ k \<le> n then r + 2 ^ i else r)"

definition first_primes :: "int list" where
  "first_primes = filter (\<lambda>p. \<forall>d \<in> set [2, 3, 5, 7, 11, 13, 17]. d < p \<longrightarrow> p mod d \<noteq> 0) [2..311]"

definition FIPS_K :: "32 word list" where
  "FIPS_K = map (\<lambda>p. word_of_int (root_floor 3 35 (p * 2 ^ 96) 0)) first_primes"

definition FIPS_H0 :: "32 word list" where
  "FIPS_H0 = map (\<lambda>p. word_of_int (root_floor 2 35 (p * 2 ^ 64) 0)) (take 8 first_primes)"

definition ref_ch :: "32 word \<Rightarrow> 32 word \<Rightarrow> 32 word \<Rightarrow> 32 word" where
  "ref_ch x y z = (x AND y) XOR (NOT x AND z)"

definition ref_maj :: "32 word \<Rightarrow> 32 word \<Rightarrow> 32 word \<Rightarrow> 32 word" where
  "ref_maj x y z = (x AND y) XOR (x AND z) XOR (y AND z)"

definition ref_bsig0 :: "32 word \<Rightarrow> 32 word" where
  "ref_bsig0 x = word_rotr 2 x XOR word_rotr 13 x XOR word_rotr 22 x"

definition ref_bsig1 :: "32 word \<Rightarrow> 32 word" where
  "ref_bsig1 x = word_rotr 6 x XOR word_rotr 11 x XOR word_rotr 25 x"

definition ref_ssig0 :: "32 word \<Rightarrow> 32 word" where
  "ref_ssig0 x = word_rotr 7 x XOR word_rotr 18 x XOR drop_bit 3 x"

definition ref_ssig1 :: "32 word \<Rightarrow> 32 word" where
  "ref_ssig1 x = word_rotr 17 x XOR word_rotr 19 x XOR drop_bit 10 x"

definition ref_schedule :: "32 word list \<Rightarrow> 32 word list" where
  "ref_schedule M = fold (\<lambda>t W. W @ [ref_ssig1 (W ! (t - 2)) + W ! (t - 7) + ref_ssig0 (W ! (t - 15)) + W ! (t - 16)])
     [16..<64] M"

definition ref_round ::
  "32 word list \<Rightarrow> nat \<Rightarrow> 32 word \<times> 32 word \<times> 32 word \<times> 32 word \<times> 32 word \<times> 32 word \<times> 32 word \<times> 32 word \<Rightarrow>
   32 word \<times> 32 word \<times> 32 word \<times> 32 word \<times> 32 word \<times> 32 word \<times> 32 word \<times> 32 word" where
  "ref_round W t = (\<lambda>(a, b, c, d, e, f, g, h).
     let T1 = h + ref_bsig1 e + ref_ch e f g + FIPS_K ! t + W ! t; T2 = ref_bsig0 a + ref_maj a b c in
     (T1 + T2, a, b, c, d + T1, e, f, g))"

fun ref_compress :: "32 word list \<Rightarrow> 32 word list \<Rightarrow> 32 word list" where
  "ref_compress [a, b, c, d, e, f, g, h] M =
     (case fold (ref_round (ref_schedule M)) [0..<64] (a, b, c, d, e, f, g, h) of
        (a', b', c', d', e', f', g', h') \<Rightarrow> [a + a', b + b', c + c', d + d', e + e', f + f', g + g', h + h'])"
| "ref_compress _ M = []"

definition ref_pad :: "8 word list \<Rightarrow> 8 word list" where
  "ref_pad m = m @ [0x80] @ replicate ((119 - length m mod 64) mod 64) 0 @ be_bytes (of_nat (8 * length m) :: 64 word)"

definition ref_block :: "8 word list \<Rightarrow> nat \<Rightarrow> 32 word list" where
  "ref_block p k = map (\<lambda>j. be_word (take 4 (drop (64 * k + 4 * j) p))) [0..<16]"

definition SHA256 :: "8 word list \<Rightarrow> 8 word list" where
  "SHA256 m = (let p = ref_pad m in
     concat (map be_bytes (fold (\<lambda>k st. ref_compress st (ref_block p k)) [0..<length p div 64] FIPS_H0)))"

section \<open>The tables of the source are the constants of the standard\<close>

lemma root_floor_spec:
  assumes "0 \<le> r" and "r ^ k \<le> n" and "n < (r + 2 ^ i) ^ k"
  shows "0 \<le> root_floor k i n r \<and> root_floor k i n r ^ k \<le> n \<and> n < (root_floor k i n r + 1) ^ k"
  using assms by (induction i arbitrary: r) (auto simp: add.assoc)

lemma root_floor_eq:
  assumes "0 < k" and "n < (2 ^ i) ^ k" and s: "0 \<le> s" "s ^ k \<le> n" "n < (s + 1) ^ k"
  shows "root_floor k i n 0 = s"
proof -
  let ?r = "root_floor k i n 0"
  have "0 \<le> n" using s(1,2) by (meson order_trans zero_le_power)
  then have r: "0 \<le> ?r" "?r ^ k \<le> n" "n < (?r + 1) ^ k" using root_floor_spec [of 0 k n i] assms(1,2) by (simp_all add: zero_power)
  have "?r < s + 1" by (rule power_less_imp_less_base [of _ k]) (use r(2) s in linarith)+
  moreover have "s < ?r + 1" by (rule power_less_imp_less_base [of _ k]) (use r s(2) in linarith)+
  ultimately show ?thesis by simp
qed

lemma root_floor_map:
  assumes "0 < k" and "list_all2 (\<lambda>p s. p * m < (2 ^ 35) ^ k \<and> 0 \<le> s \<and> s ^ k \<le> p * m \<and> p * m < (s + 1) ^ k) ps ss"
  shows "map (\<lambda>p. word_of_int (root_floor k 35 (p * m) 0)) ps = map word_of_int ss"
  using assms(2) by (induction rule: list_all2_induct) (auto intro!: arg_cong [of _ _ word_of_int] root_floor_eq [OF assms(1)])

lemma first_primes_eq:
  "first_primes = [
    2, 3, 5, 7, 11, 13, 17, 19, 23, 29, 31, 37, 41, 43, 47, 53, 59, 61, 67, 71, 73, 79, 83, 89, 97,
    101, 103, 107, 109, 113, 127, 131, 137, 139, 149, 151, 157, 163, 167, 173, 179, 181, 191, 193,
    197, 199, 211, 223, 227, 229, 233, 239, 241, 251, 257, 263, 269, 271, 277, 281, 283, 293, 307,
    311]"
  unfolding first_primes_def by simp

lemma FIPS_K_table: "FIPS_K = SHA256_K"
proof -
  have "FIPS_K = map word_of_int [
    0x1428A2F98, 0x171374491, 0x1B5C0FBCF, 0x1E9B5DBA5, 0x23956C25B, 0x259F111F1, 0x2923F82A4,
    0x2AB1C5ED5, 0x2D807AA98, 0x312835B01, 0x3243185BE, 0x3550C7DC3, 0x372BE5D74, 0x380DEB1FE,
    0x39BDC06A7, 0x3C19BF174, 0x3E49B69C1, 0x3EFBE4786, 0x40FC19DC6, 0x4240CA1CC, 0x42DE92C6F,
    0x44A7484AA, 0x45CB0A9DC, 0x476F988DA, 0x4983E5152, 0x4A831C66D, 0x4B00327C8, 0x4BF597FC7,
    0x4C6E00BF3, 0x4D5A79147, 0x506CA6351, 0x514292967, 0x527B70A85, 0x52E1B2138, 0x54D2C6DFC,
    0x553380D13, 0x5650A7354, 0x5766A0ABB, 0x581C2C92E, 0x592722C85, 0x5A2BFE8A1, 0x5A81A664B,
    0x5C24B8B70, 0x5C76C51A3, 0x5D192E819, 0x5D6990624, 0x5F40E3585, 0x6106AA070, 0x619A4C116,
    0x61E376C08, 0x62748774C, 0x634B0BCB5, 0x6391C0CB3, 0x64ED8AA4A, 0x65B9CCA4F, 0x6682E6FF3,
    0x6748F82EE, 0x678A5636F, 0x684C87814, 0x68CC70208, 0x690BEFFFA, 0x6A4506CEB, 0x6BEF9A3F7,
    0x6C67178F2]"
    unfolding FIPS_K_def first_primes_eq by (rule root_floor_map) simp_all
  also have "\<dots> = SHA256_K" by (simp add: SHA256_K_def)
  finally show ?thesis .
qed

lemma FIPS_H0_table: "FIPS_H0 = SHA256_H0"
proof -
  have "FIPS_H0 = map word_of_int [
    0x16A09E667, 0x1BB67AE85, 0x23C6EF372, 0x2A54FF53A, 0x3510E527F, 0x39B05688C, 0x41F83D9AB,
    0x45BE0CD19]"
    unfolding FIPS_H0_def first_primes_eq by (rule root_floor_map) simp_all
  also have "\<dots> = SHA256_H0" by (simp add: SHA256_H0_def)
  finally show ?thesis .
qed

section \<open>Simulations\<close>

context ctx_sim
begin

lemma sha256_functions_transfer [transfer_rule]:
  "(rel_fun Ws (rel_fun Ws (rel_fun Ws (S Ws)))) (sha256_ch C) (sha256_ch D)"
  "(rel_fun Ws (rel_fun Ws (rel_fun Ws (S Ws)))) (sha256_maj C) (sha256_maj D)"
  "(rel_fun Ws (S Ws)) (sha256_bsig0 C) (sha256_bsig0 D)"
  "(rel_fun Ws (S Ws)) (sha256_bsig1 C) (sha256_bsig1 D)"
  "(rel_fun Ws (S Ws)) (sha256_ssig0 C) (sha256_ssig0 D)"
  "(rel_fun Ws (S Ws)) (sha256_ssig1 C) (sha256_ssig1 D)"
  unfolding sha256_ch_def [abs_def] sha256_maj_def [abs_def] sha256_bsig0_def [abs_def] sha256_bsig1_def [abs_def]
    sha256_ssig0_def [abs_def] sha256_ssig1_def [abs_def]
  by transfer_prover+

lemma sha256_schedule_transfer [transfer_rule]:
  "(rel_fun (list_all2 Ws) (S (list_all2 Ws))) (sha256_schedule C) (sha256_schedule D)"
  unfolding sha256_schedule_def [abs_def] by transfer_prover

lemma sha256_round_transfer [transfer_rule]:
  "(rel_fun (list_all2 Ws) (rel_fun (=)
     (rel_fun (rel_prod Ws (rel_prod Ws (rel_prod Ws (rel_prod Ws (rel_prod Ws (rel_prod Ws (rel_prod Ws Ws)))))))
       (S (rel_prod Ws (rel_prod Ws (rel_prod Ws (rel_prod Ws (rel_prod Ws (rel_prod Ws (rel_prod Ws Ws)))))))))))
     (sha256_round C) (sha256_round D)"
  unfolding sha256_round_def [abs_def] by transfer_prover

lemma sha256_compress_transfer [transfer_rule]:
  "(rel_fun (list_all2 Ws) (rel_fun (list_all2 Ws) (S (list_all2 Ws)))) (sha256_compress C) (sha256_compress D)"
  unfolding sha256_compress_def [abs_def] by transfer_prover

lemma sha256_pad_transfer [transfer_rule]: "(rel_fun Ws (S Ws)) (sha256_pad C) (sha256_pad D)"
  unfolding sha256_pad_def [abs_def] by transfer_prover

lemma sha256_transfer [transfer_rule]: "(rel_fun Ws (S Ws)) (sha256 C) (sha256 D)"
  unfolding sha256_def [abs_def] sha256_wires_def [abs_def] by transfer_prover

end

section \<open>Meaning on truth values\<close>

lemma sha256_functions_wb [simp]:
  "sha256_ch bool_ctx (wb x) (wb y) (wb z) = ret (wb (ref_ch x y z))"
  "sha256_maj bool_ctx (wb x) (wb y) (wb z) = ret (wb (ref_maj x y z))"
  "sha256_bsig0 bool_ctx (wb x) = ret (wb (ref_bsig0 x))"
  "sha256_bsig1 bool_ctx (wb x) = ret (wb (ref_bsig1 x))"
  "sha256_ssig0 bool_ctx (wb x) = ret (wb (ref_ssig0 x))"
  "sha256_ssig1 bool_ctx (wb x) = ret (wb (ref_ssig1 x))"
proof -
  have "z XOR (x AND (y XOR z)) = ref_ch x y z" "(x AND y) XOR (z AND (x XOR y)) = ref_maj x y z"
    by (rule bit_word_eqI; auto simp: ref_ch_def ref_maj_def bit_simps)+
  then show "sha256_ch bool_ctx (wb x) (wb y) (wb z) = ret (wb (ref_ch x y z))"
    "sha256_maj bool_ctx (wb x) (wb y) (wb z) = ret (wb (ref_maj x y z))"
    by (simp_all add: sha256_ch_def sha256_maj_def)
qed (simp_all add: sha256_bsig0_def sha256_bsig1_def sha256_ssig0_def sha256_ssig1_def ref_bsig0_def ref_bsig1_def
    ref_ssig0_def ref_ssig1_def uint_rotr_wb uint_shr_wb xor.assoc)

lemma sha256_schedule_wb:
  assumes "length M = 16"
  shows "sha256_schedule bool_ctx (map wb M) = ret (map wb (ref_schedule M)) \<and> length (ref_schedule M) = 64"
  unfolding sha256_schedule_def ref_schedule_def
  by (simp only: map_gm_rd assms length_map bind_ret, intro fold_gm_upt [where rep = "map wb" and I = "\<lambda>t W. length W = t"])
    (simp_all add: assms nth_map)

definition wb8 :: "32 word \<times> 32 word \<times> 32 word \<times> 32 word \<times> 32 word \<times> 32 word \<times> 32 word \<times> 32 word \<Rightarrow> _" where
  "wb8 = (\<lambda>(a, b, c, d, e, f, g, h). (wb a, wb b, wb c, wb d, wb e, wb f, wb g, wb h))"

lemma sha256_round_wb:
  assumes "t < length W"
  shows "sha256_round bool_ctx (map wb W) t (wb8 v) = ret (wb8 (ref_round W t v))"
proof -
  have "uint_constant bool_ctx 32 (ucast k) = ret (wb k)" for k :: "32 word"
    using uint_constant_wb [where 'a = 32, of "ucast k"] by (simp add: ucast_up_ucast_id is_up)
  moreover obtain a b c d e f g h where "v = (a, b, c, d, e, f, g, h)" by (cases v) auto
  ultimately show ?thesis using assms by (simp add: sha256_round_def wb8_def ref_round_def Let_def FIPS_K_table)
qed

lemma sha256_compress_wb:
  assumes "length st = 8" and "length M = 16"
  shows "sha256_compress bool_ctx (map wb st) (map wb M) = ret (map wb (ref_compress st M)) \<and> length (ref_compress st M) = 8"
proof -
  from assms(1) obtain a b c d e f g h where st: "st = [a, b, c, d, e, f, g, h]"
    by (auto simp: numeral_eq_Suc length_Suc_conv)
  let ?v = "(a, b, c, d, e, f, g, h)"
  have "fold_gm (sha256_round bool_ctx (map wb (ref_schedule M))) [0..<64] (wb8 ?v) =
      ret (wb8 (fold (ref_round (ref_schedule M)) [0..<64] ?v))"
    by (rule fold_gm_abs [where rep = wb8]) (use sha256_schedule_wb [OF assms(2)] sha256_round_wb in simp)
  then show ?thesis using sha256_schedule_wb [OF assms(2)]
    by (simp add: st sha256_compress_def wb8_def numeral_2_eq_2 numeral_3_eq_3 split: prod.split)
qed

subsection \<open>Padding\<close>

lemma copy_wires:
  assumes "length inp \<le> length P"
  shows "fold_gm (\<lambda>i P. bind (rd inp i) (wr P i)) [0..<length inp] P = ret (inp @ drop (length inp) P)"
proof -
  have "fold_gm (\<lambda>i P. bind (rd inp i) (wr P i)) [0..<n] P = ret (take n inp @ drop n P)" if "n \<le> length inp" for n
    using that
  proof (induction n)
    case (Suc n)
    then have "(take n inp @ drop n P)[n := inp ! n] = take (Suc n) inp @ drop (Suc n) P"
      using assms by (simp add: list_update_append take_Suc_conv_app_nth Cons_nth_drop_Suc [symmetric, of n P])
    with Suc assms show ?case by (simp add: fold_gm_append)
  qed simp
  from this [of "length inp"] show ?thesis by simp
qed

text \<open>A loop that sets positions to true.\<close>

lemma set_true:
  assumes "\<forall>k \<in> set ks. q k < length P"
  shows "fold_gm (\<lambda>k P. if c k then bind (public_bit bool_ctx True) (wr P (q k)) else ret P) ks P =
    ret (map (\<lambda>i. P ! i \<or> (\<exists>k \<in> set ks. c k \<and> q k = i)) [0..<length P])"
  using assms
proof (induction ks arbitrary: P)
  case Nil
  then show ?case by (simp add: map_nth)
next
  case (Cons k ks)
  show ?case
  proof (cases "c k")
    case True
    with Cons show ?thesis by (auto simp: nth_list_update intro!: arg_cong [where f = ret])
  next
    case False
    with Cons show ?thesis by auto
  qed
qed

lemma ref_pad_length:
  "((8 * n + 1 + 64 + 511) div 512) * 512 = 8 * (n + 1 + (119 - n mod 64) mod 64 + 8)" for n :: nat
proof -
  define a r where "a = n div 64" and "r = n mod 64"
  have r: "r < 64" and n: "n = 64 * a + r" by (simp_all add: a_def r_def)
  show ?thesis
  proof (cases "r < 56")
    case True
    then have "(119 - r) mod 64 = 55 - r" by (simp add: mod_if)
    moreover have "(8 * n + 1 + 64 + 511) div 512 = a + 1" using True unfolding n by (intro div_nat_eqI) auto
    ultimately show ?thesis using True by (simp only: r_def [symmetric]) (simp add: n)
  next
    case False
    then have "(119 - r) mod 64 = 119 - r" using r by simp
    moreover have "(8 * n + 1 + 64 + 511) div 512 = a + 2" using False r unfolding n by (intro div_nat_eqI) auto
    ultimately show ?thesis using False r by (simp only: r_def [symmetric]) (simp add: n)
  qed
qed

lemma length_ref_pad: "length (ref_pad m) = length m + 1 + (119 - length m mod 64) mod 64 + 8"
  by (simp add: ref_pad_def)

lemma bit_ref_pad:
  assumes "j < length (ref_pad m)" and "k < 8"
  shows "bit (ref_pad m ! j) k \<longleftrightarrow>
    (if j < length m then bit (m ! j) k else j = length m \<and> k = 7 \<or>
      length (ref_pad m) - 8 \<le> j \<and> bit (of_nat (8 * length m) :: 64 word) (8 * (length (ref_pad m) - 1 - j) + k))"
proof -
  let ?z = "(119 - length m mod 64) mod 64"
  have len: "length (ref_pad m) = length m + 1 + ?z + 8" by (rule length_ref_pad)
  consider "j < length m" | "j = length m" | "length m < j" "j < length m + 1 + ?z" | "length m + 1 + ?z \<le> j"
    by linarith
  then show ?thesis
  proof cases
    case 2
    have "bit (0x80 :: 8 word) k \<longleftrightarrow> k = 7" using assms(2) by (auto simp: less_Suc_eq numeral_eq_Suc bit_Suc)
    with 2 show ?thesis unfolding len by (simp add: ref_pad_def)
  next
    case 3
    then have "j - Suc (length m) < ?z" by linarith
    with 3 show ?thesis unfolding len by (simp add: ref_pad_def nth_append)
  next
    case 4
    define t where "t = j - (length m + 1 + ?z)"
    have t: "j = length m + 1 + ?z + t" "t < 8" using 4 assms(1) unfolding t_def len by linarith+
    show ?thesis unfolding len t(1) using bit_be_bytes [OF t(2) assms(2), of "of_nat (8 * length m)"] t(2)
      by (simp add: ref_pad_def nth_append)
  qed (unfold len, simp_all add: ref_pad_def nth_append)
qed

lemma length_positions:
  assumes "8 \<le> n" and "i < 8 * n"
  shows "(\<exists>x \<in> set (List.product [0..<8] [0..<8]).
      (case x of (t, k) \<Rightarrow> bit w (8 * (7 - t) + k)) \<and> (case x of (t, k) \<Rightarrow> 8 * n - 64 + 8 * t + k) = i) \<longleftrightarrow>
    n - 8 \<le> i div 8 \<and> bit w (8 * (n - 1 - i div 8) + i mod 8)" (is "(\<exists>x \<in> ?ks. ?c x \<and> ?pos x = i) \<longleftrightarrow> ?r")
proof (intro iffI; (elim bexE conjE)?)
  have n8: "8 * n - 64 = 8 * (n - 8)" using assms(1) by simp
  {
    fix x assume "x \<in> ?ks" "?c x" "?pos x = i"
    then obtain t k where x: "t < 8" "k < 8" "bit w (8 * (7 - t) + k)" and "i = 8 * (n - 8) + 8 * t + k" using n8 by auto
    then have i: "i = 8 * (n - 8 + t) + k" by simp
    have "i div 8 = n - 8 + t" "i mod 8 = k" using x(2) unfolding i mod_mult_self4 by simp_all
    moreover from this have "n - 1 - i div 8 = 7 - t" using assms(1) by simp
    ultimately show ?r using x(3) by simp
  }
  assume a: "n - 8 \<le> i div 8" "bit w (8 * (n - 1 - i div 8) + i mod 8)"
  have j: "i div 8 < n" using assms(2) by simp
  have "7 - (i div 8 - (n - 8)) = n - 1 - i div 8" "i div 8 - (n - 8) < 8" using a(1) j assms(1) by linarith+
  moreover have "8 * n - 64 + 8 * (i div 8 - (n - 8)) + i mod 8 = i" using a(1) unfolding n8 by (simp flip: distrib_left)
  ultimately show "\<exists>x \<in> ?ks. ?c x \<and> ?pos x = i" using a(2) by (intro bexI [of _ "(i div 8 - (n - 8), i mod 8)"]) auto
qed

lemma sha256_pad_wb:
  assumes "8 * length m < 2 ^ 64"
  shows "sha256_pad bool_ctx (concat (map wb m)) = ret (concat (map wb (ref_pad m)))"
proof -
  let ?in = "concat (map wb m)" and ?L = "8 * length m" and ?T = "8 * length (ref_pad m)"
  let ?P1 = "?in @ replicate (?T - ?L) False" and ?w = "of_nat (8 * length m) :: 64 word"
  let ?ks = "List.product [0..<8] [0..<8::nat]"
  have L: "length ?in = ?L" by simp
  have T: "((?L + 1 + 64 + 511) div 512) * 512 = ?T" unfolding ref_pad_length length_ref_pad ..
  have big: "?L + 7 < ?T - 64" "?L + 64 \<le> ?T" by (auto simp: length_ref_pad)
  have test: "drop_bit k (drop_bit (8 * (7 - t)) ?w AND 255) AND 1 = 1 \<longleftrightarrow> bit ?w (8 * (7 - t) + k)" if "k < 8" for t k
  proof -
    have "(255 :: 64 word) = mask 8" by (simp add: mask_eq_exp_minus_1)
    then show ?thesis using that unfolding bit_test by (simp only: bit_and_iff bit_mask_iff bit_drop_bit_eq comp_def) simp
  qed
  let ?P2 = "?P1[?L + 7 := True]" and ?pos = "\<lambda>(t, k). ?T - 64 + 8 * t + k"
  let ?c = "\<lambda>(t, k). bit ?w (8 * (7 - t) + k)"
  have "sha256_pad bool_ctx ?in =
      fold_gm (\<lambda>x P. if ?c x then bind (public_bit bool_ctx True) (wr P (?pos x)) else ret P) ?ks ?P2"
  proof -
    have "fold_gm (\<lambda>i P. bind (rd ?in i) (wr P i)) [0..<?L] (replicate ?T False) = (ret ?P1 :: (unit, _) gm)"
      using copy_wires [of ?in "replicate ?T False"] big by (simp add: drop_replicate)
    moreover have "?L + 7 < length ?P1" using big by simp
    ultimately have "sha256_pad bool_ctx ?in = fold_gm (\<lambda>t P.
        fold_gm (\<lambda>k P. if drop_bit k (drop_bit (8 * (7 - t)) ?w AND 255) AND 1 = 1
          then bind (public_bit bool_ctx True) (wr P (?T - 64 + 8 * t + k)) else ret P) [0..<8] P) [0..<8] ?P2"
      unfolding sha256_pad_def Let_def L T by simp
    also have "\<dots> = fold_gm (\<lambda>x P. if ?c x then bind (public_bit bool_ctx True) (wr P (?pos x)) else ret P) ?ks ?P2"
      unfolding fold_gm_product by (rule fold_gm_cong) (use test in auto)
    finally show ?thesis .
  qed
  also have "\<dots> = ret (map (\<lambda>i. ?P2 ! i \<or> (\<exists>x \<in> set ?ks. ?c x \<and> ?pos x = i)) [0..<?T])"
    using big by (subst set_true) auto
  also have "map (\<lambda>i. ?P2 ! i \<or> (\<exists>x \<in> set ?ks. ?c x \<and> ?pos x = i)) [0..<?T] = concat (map wb (ref_pad m))"
  proof (rule nth_equalityI)
    fix i
    assume "i < length (map (\<lambda>i. ?P2 ! i \<or> (\<exists>x \<in> set ?ks. ?c x \<and> ?pos x = i)) [0..<?T])"
    then have i: "i < ?T" by simp
    let ?n = "length (ref_pad m)" and ?j = "i div 8" and ?k = "i mod 8"
    have j: "?j < ?n" "?k < 8" using i by auto
    have len: "(\<exists>x \<in> set ?ks. ?c x \<and> ?pos x = i) \<longleftrightarrow> ?n - 8 \<le> ?j \<and> bit ?w (8 * (?n - 1 - ?j) + ?k)"
      by (rule length_positions) (use i in \<open>auto simp: length_ref_pad\<close>)
    have "?P2 ! i \<longleftrightarrow> (if ?j < length m then bit (m ! ?j) ?k else ?j = length m \<and> ?k = 7)"
    proof (cases "i < ?L")
      case True
      then show ?thesis using nth_concat_wb [of i m] by (auto simp: nth_append)
    next
      case False
      then have "\<not> ?j < length m" "\<not> ?P1 ! i" using i by (simp_all add: nth_append)
      moreover have "?P2 ! i \<longleftrightarrow> i = ?L + 7 \<or> ?P1 ! i" using big i by (subst nth_list_update) auto
      moreover have "i = ?L + 7 \<longleftrightarrow> ?j = length m \<and> ?k = 7" by presburger
      ultimately show ?thesis by simp
    qed
    moreover have "?j < length m \<Longrightarrow> \<not> ?n - 8 \<le> ?j" by (simp add: length_ref_pad)
    ultimately show "map (\<lambda>i. ?P2 ! i \<or> (\<exists>x \<in> set ?ks. ?c x \<and> ?pos x = i)) [0..<?T] ! i = concat (map wb (ref_pad m)) ! i"
      using i len bit_ref_pad [OF j] by (simp add: nth_concat_wb)
  qed simp
  finally show ?thesis .
qed

subsection \<open>Message words and digest\<close>

lemma bit_be_word:
  assumes "length bs = 4" and "b < 32"
  shows "bit (be_word bs :: 32 word) b = bit (bs ! (3 - b div 8)) (b mod 8)"
  using assms by (simp add: be_word_def bit_bw nth_concat_wb rev_nth flip: numeral_3_eq_3)

lemma message_word_wb:
  assumes "64 * k + 64 \<le> length p" and "j < 16"
  shows "map_gm (\<lambda>b. rd (concat (map wb p)) (k * 512 + sha256_word_bit_index j b)) [0..<32] =
    ret (wb (be_word (take 4 (drop (64 * k + 4 * j) p)) :: 32 word))"
proof -
  let ?bs = "take 4 (drop (64 * k + 4 * j) p)"
  have bs: "length ?bs = 4" using assms by simp
  have pos: "k * 512 + sha256_word_bit_index j b = 8 * (64 * k + 4 * j + (3 - b div 8)) + b mod 8" if "b < 32" for b
    using that by (simp add: sha256_word_bit_index_def)
  have "rd (concat (map wb p)) (k * 512 + sha256_word_bit_index j b) = ret (bit (be_word ?bs :: 32 word) b)" if "b < 32" for b
  proof -
    have "64 * k + 4 * j + c < length p" if "c \<le> 3" for c using assms that by linarith
    then have q: "64 * k + 4 * j + (3 - b div 8) < length p" by simp
    have r: "b mod 8 < 8" by simp
    show ?thesis unfolding pos [OF that] bit_be_word [OF bs that]
      using byte_index_less [OF q r] nth_concat_bytes [OF q r] q assms by simp
  qed
  then have "map_gm (\<lambda>b. rd (concat (map wb p)) (k * 512 + sha256_word_bit_index j b)) [0..<32] =
      ret (map (bit (be_word ?bs :: 32 word)) [0..<32])"
    by (intro map_gm_ret) simp
  then show ?thesis by (simp add: wb_def)
qed

lemma digest_position:
  assumes "length st = 8" and "i < 8" and "b < 32"
  shows "sha256_word_bit_index i b < 256" and
    "concat (map wb (concat (map be_bytes st))) ! sha256_word_bit_index i b = bit (st ! i :: 32 word) b"
proof -
  have pos: "sha256_word_bit_index i b = 8 * (4 * i + (3 - b div 8)) + b mod 8" using assms by (simp add: sha256_word_bit_index_def)
  show lt: "sha256_word_bit_index i b < 256" unfolding pos using assms by presburger
  let ?d = "concat (map be_bytes st)"
  have len: "length ?d = 32" by (subst length_concat_uniform [of _ 4]) (auto simp: assms)
  have "?d ! (4 * i + c) = be_bytes (st ! i) ! c" if "c < 4" for c
    using assms that by (subst nth_concat_uniform [of _ 4]) auto
  then have "?d ! (4 * i + (3 - b div 8)) = be_bytes (st ! i) ! (3 - b div 8)" by simp
  moreover have "bit (be_bytes (st ! i) ! (3 - b div 8)) (b mod 8) = bit (st ! i) b"
    using assms(3) by (simp add: be_bytes_def bit_simps) (subst rev_nth; simp)
  ultimately show "concat (map wb ?d) ! sha256_word_bit_index i b = bit (st ! i) b"
    using nth_concat_bytes [of "4 * i + (3 - b div 8)" ?d "b mod 8"] assms unfolding pos len by simp
qed

lemma digest_wires:
  fixes st :: "32 word list"
  assumes "length st = 8"
  shows "fold_gm (\<lambda>i out. bind (rd (map wb st) i) (\<lambda>s.
      fold_gm (\<lambda>b out. bind (rd s b) (\<lambda>x. wr out (sha256_word_bit_index i b) (Some x))) [0..<32] out))
      [0..<8] (replicate 256 None) = ret (map Some (concat (map wb (concat (map be_bytes st)))))" (is "?l = _")
proof -
  let ?d = "concat (map wb (concat (map be_bytes st)))" and ?ks = "List.product [0..<8] [0..<32::nat]"
  have bytes: "length (concat (map be_bytes st)) = 32" using assms by (simp add: length_concat comp_def sum_list_triv)
  then have len: "length ?d = 256" by simp
  have "?l = fold_gm (\<lambda>i out. fold_gm (\<lambda>b out. wr out (sha256_word_bit_index i b) (Some (bit (st ! i) b))) [0..<32] out)
      [0..<8] (replicate 256 None)"
    by (intro fold_gm_cong) (simp add: assms, intro fold_gm_cong, simp)
  also have "\<dots> = fold_gm (\<lambda>x out. wr out ((\<lambda>(i, b). sha256_word_bit_index i b) x) (Some ((\<lambda>(i, b). bit (st ! i) b) x)))
      ?ks (replicate 256 None)"
    unfolding fold_gm_product by (rule fold_gm_cong) auto
  also have "\<dots> = ret (map Some ?d)"
  proof (rule fill)
    have "\<exists>i < 8. \<exists>b < 32. sha256_word_bit_index i b = p" if "p < 256" for p
    proof (intro exI conjI)
      let ?b = "8 * (3 - p div 8 mod 4) + p mod 8"
      have "?b div 8 = 3 - p div 8 mod 4" "?b mod 8 = p mod 8" by simp_all
      moreover have "4 * (p div 32) + 3 - (3 - p div 8 mod 4) = p div 8"
      proof -
        have "p div 32 = p div 8 div 4" by (simp add: div_mult2_eq [of p 8 4, simplified])
        then show ?thesis by simp
      qed
      ultimately show "sha256_word_bit_index (p div 32) ?b = p" by (simp add: sha256_word_bit_index_def)
      show "?b < 32" using byte_index_less [of "3 - p div 8 mod 4" 4 "p mod 8"] by simp
    qed (use that in simp)
    then show "\<forall>p < length (map Some ?d). (\<exists>x \<in> set ?ks. (\<lambda>(i, b). sha256_word_bit_index i b) x = p) \<or> replicate 256 None ! p = map Some ?d ! p" unfolding length_map len by force
  qed (use digest_position [OF assms] in \<open>auto simp: bytes nth_map\<close>)
  finally show ?thesis .
qed

lemma length_ref_block [simp]: "length (ref_block p k) = 16"
  by (simp add: ref_block_def)

lemma ref_pad_blocks: "length (ref_pad m) = 64 * ((8 * length m + 1 + 64 + 511) div 512)"
proof -
  have "8 * length (ref_pad m) = ((8 * length m + 1 + 64 + 511) div 512) * 512"
    unfolding ref_pad_length length_ref_pad ..
  then show ?thesis by linarith
qed

lemma sha256_bool:
  assumes "8 * length m < 2 ^ 64"
  shows "sha256 bool_ctx (concat (map wb m)) = ret (concat (map wb (SHA256 m)))"
proof -
  let ?p = "ref_pad m" and ?P = "concat (map wb (ref_pad m))"
  let ?msg = "\<lambda>blk. map_gm (\<lambda>j. map_gm (\<lambda>b. rd ?P (blk * 512 + sha256_word_bit_index j b)) [0..<32]) [0..<16]"
  define st where "st = fold (\<lambda>k st. ref_compress st (ref_block ?p k)) [0..<length ?p div 64] FIPS_H0"
  have total: "((length (concat (map wb m)) + 1 + 64 + 511) div 512) * 512 div 512 = length ?p div 64"
    by (simp add: ref_pad_blocks)
  have init: "map_gm (\<lambda>v. uint_constant bool_ctx 32 (ucast v)) SHA256_H0 = ret (map wb SHA256_H0)"
    using uint_constant_wb [where 'a = 32] by (intro map_gm_ret) (simp add: ucast_up_ucast_id is_up)
  have msg: "?msg k = ret (map wb (ref_block ?p k))" if "k < length ?p div 64" for k
    unfolding ref_block_def map_map
    by (intro map_gm_ret) (use that ref_pad_blocks [of m] in \<open>auto intro!: message_word_wb\<close>)
  have run: "fold_gm (\<lambda>blk state. bind (?msg blk) (sha256_compress bool_ctx state)) [0..<length ?p div 64] (map wb SHA256_H0) =
      ret (map wb st) \<and> length st = 8"
    unfolding st_def FIPS_H0_table
    by (rule fold_gm_upt [where rep = "map wb" and I = "\<lambda>_ st. length st = 8"]) (simp_all add: msg sha256_compress_wb SHA256_H0_def)
  have out: "fold_gm (\<lambda>i out. bind (rd (map wb st) i) (\<lambda>s.
      fold_gm (\<lambda>b out. bind (rd s b) (\<lambda>x. wr out (sha256_word_bit_index i b) (Some x))) [0..<32] out))
      [0..<8] (replicate 256 None) = (ret (map Some (concat (map wb (SHA256 m)))) :: (unit, _) gm)"
    unfolding SHA256_def Let_def st_def [symmetric] by (rule digest_wires) (use run in simp)
  show ?thesis
    unfolding sha256_def sha256_wires_def Let_def total sha256_pad_wb [OF assms] bind_ret init
    using run out by simp
qed

section \<open>A test vector\<close>

text \<open>
  The digest of \<open>abc\<close> (FIPS 180-4, example), computed with the reference: machine words as \<open>W32\<close> of integers, so that
  the simplifier evaluates their operations on numerals.
\<close>

definition W32 :: "int \<Rightarrow> 32 word" where
  "W32 a = word_of_int a"

lemma W32_num: "(numeral n :: 32 word) = W32 (numeral n)" "(0 :: 32 word) = W32 0" "(1 :: 32 word) = W32 1"
  by (simp_all add: W32_def)

lemma W32_add: "W32 a + W32 b = W32 ((a + b) mod 4294967296)"
proof -
  have "W32 (take_bit 32 x) = W32 x" for x unfolding W32_def by (rule bit_word_eqI) (simp add: bit_simps)
  then show ?thesis by (simp add: W32_def take_bit_eq_mod)
qed

lemma W32_bits: "W32 a XOR W32 b = W32 (a XOR b)" "W32 a AND W32 b = W32 (a AND b)" "NOT (W32 a) = W32 (NOT a)"
  by (rule bit_word_eqI; simp add: W32_def bit_simps)+

lemma W32_drop: "drop_bit n (W32 a) = W32 (a mod 4294967296 div 2 ^ n)"
proof -
  have "drop_bit n (W32 a) = W32 (drop_bit n (take_bit 32 a))" unfolding W32_def by (rule bit_word_eqI) (auto simp: bit_simps)
  then show ?thesis by (simp add: drop_bit_eq_div take_bit_eq_mod)
qed

lemma W32_rotr:
  assumes "n < 32"
  shows "word_rotr n (W32 a) = W32 ((a mod 4294967296 div 2 ^ n) OR (a mod 2 ^ n * 2 ^ (32 - n)))"
proof -
  have "word_rotr n (W32 a) = W32 (drop_bit n (take_bit 32 a) OR push_bit (32 - n) (take_bit n a))"
  proof (rule bit_word_eqI)
    fix k
    assume "k < LENGTH(32)"
    then have k: "k < 32" by simp
    then have "(k + n) mod 32 = (if k + n < 32 then k + n else k + n - 32)" using assms by (simp add: le_mod_geq)
    then show "bit (word_rotr n (W32 a)) k = bit (W32 (drop_bit n (take_bit 32 a) OR push_bit (32 - n) (take_bit n a))) k"
      using assms k by (auto simp: W32_def bit_word_rotr_iff bit_simps add.commute)
  qed
  then show ?thesis by (simp add: drop_bit_eq_div take_bit_eq_mod push_bit_eq_mult)
qed

lemmas W32_rules = W32_add W32_bits W32_drop W32_rotr

lemma abc_block:
  "ref_block (ref_pad [0x61, 0x62, 0x63]) 0 = map W32 [0x61626380, 0, 0, 0, 0, 0, 0, 0, 0, 0, 0, 0, 0, 0, 0, 24]"
proof -
  have "ref_block (ref_pad [0x61, 0x62, 0x63]) 0 = [0x61626380, 0, 0, 0, 0, 0, 0, 0, 0, 0, 0, 0, 0, 0, 0, 24]" by code_simp
  then show ?thesis by (simp add: W32_def)
qed

lemma abc_schedule:
  "ref_schedule (map W32 [0x61626380, 0, 0, 0, 0, 0, 0, 0, 0, 0, 0, 0, 0, 0, 0, 24]) = map W32 [
    0x61626380, 0x00000000, 0x00000000, 0x00000000, 0x00000000, 0x00000000, 0x00000000, 0x00000000,
    0x00000000, 0x00000000, 0x00000000, 0x00000000, 0x00000000, 0x00000000, 0x00000000, 0x00000018,
    0x61626380, 0x000F0000, 0x7DA86405, 0x600003C6, 0x3E9D7B78, 0x0183FC00, 0x12DCBFDB, 0xE2E2C38E,
    0xC8215C1A, 0xB73679A2, 0xE5BC3909, 0x32663C5B, 0x9D209D67, 0xEC8726CB, 0x702138A4, 0xD3B7973B,
    0x93F5997F, 0x3B68BA73, 0xAFF4FFC1, 0xF10A5C62, 0x0A8B3996, 0x72AF830A, 0x9409E33E, 0x24641522,
    0x9F47BF94, 0xF0A64F5A, 0x3E246A79, 0x27333BA3, 0x0C4763F2, 0x840ABF27, 0x7A290D5D, 0x065C43DA,
    0xFB3E89CB, 0xCC7617DB, 0xB9E66C34, 0xA9993667, 0x84BADEDD, 0xC21462BC, 0x1487472C, 0xB20F7A99,
    0xEF57B9CD, 0xEBE6B238, 0x9FE3095E, 0x78BC8D4B, 0xA43FCF15, 0x668B2FF8, 0xEEABA2CC, 0x12B1EDEB]"
  by (simp add: ref_schedule_def ref_ssig0_def ref_ssig1_def W32_rules upt_conv_Cons del: upt_rec_numeral)

lemma abc_rounds:
  "fold (ref_round (map W32 [
    0x61626380, 0x00000000, 0x00000000, 0x00000000, 0x00000000, 0x00000000, 0x00000000, 0x00000000,
    0x00000000, 0x00000000, 0x00000000, 0x00000000, 0x00000000, 0x00000000, 0x00000000, 0x00000018,
    0x61626380, 0x000F0000, 0x7DA86405, 0x600003C6, 0x3E9D7B78, 0x0183FC00, 0x12DCBFDB, 0xE2E2C38E,
    0xC8215C1A, 0xB73679A2, 0xE5BC3909, 0x32663C5B, 0x9D209D67, 0xEC8726CB, 0x702138A4, 0xD3B7973B,
    0x93F5997F, 0x3B68BA73, 0xAFF4FFC1, 0xF10A5C62, 0x0A8B3996, 0x72AF830A, 0x9409E33E, 0x24641522,
    0x9F47BF94, 0xF0A64F5A, 0x3E246A79, 0x27333BA3, 0x0C4763F2, 0x840ABF27, 0x7A290D5D, 0x065C43DA,
    0xFB3E89CB, 0xCC7617DB, 0xB9E66C34, 0xA9993667, 0x84BADEDD, 0xC21462BC, 0x1487472C, 0xB20F7A99,
    0xEF57B9CD, 0xEBE6B238, 0x9FE3095E, 0x78BC8D4B, 0xA43FCF15, 0x668B2FF8, 0xEEABA2CC, 0x12B1EDEB])) [0..<64]
    (W32 0x6A09E667, W32 0xBB67AE85, W32 0x3C6EF372, W32 0xA54FF53A,
     W32 0x510E527F, W32 0x9B05688C, W32 0x1F83D9AB, W32 0x5BE0CD19) =
    (W32 0x506E3058, W32 0xD39A2165, W32 0x04D24D6C, W32 0xB85E2CE9,
     W32 0x5EF50F24, W32 0xFB121210, W32 0x948D25B6, W32 0x961F4894)"
  by (simp add: ref_round_def Let_def ref_bsig0_def ref_bsig1_def ref_ch_def ref_maj_def FIPS_K_table SHA256_K_def
      W32_num W32_rules upt_conv_Cons del: upt_rec_numeral)

lemma abc_compress:
  "ref_compress FIPS_H0 (ref_block (ref_pad [0x61, 0x62, 0x63]) 0) = [
    0xBA7816BF, 0x8F01CFEA, 0x414140DE, 0x5DAE2223, 0xB00361A3, 0x96177A9C, 0xB410FF61, 0xF20015AD]"
proof -
  have H: "FIPS_H0 = [W32 0x6A09E667, W32 0xBB67AE85, W32 0x3C6EF372, W32 0xA54FF53A, W32 0x510E527F, W32 0x9B05688C, W32 0x1F83D9AB, W32 0x5BE0CD19]"
    by (simp add: FIPS_H0_table SHA256_H0_def W32_def)
  have "ref_compress FIPS_H0 (ref_block (ref_pad [0x61, 0x62, 0x63]) 0) = map W32 [
    0xBA7816BF, 0x8F01CFEA, 0x414140DE, 0x5DAE2223, 0xB00361A3, 0x96177A9C, 0xB410FF61, 0xF20015AD]"
    unfolding H ref_compress.simps abc_block abc_schedule abc_rounds prod.case by (simp add: W32_add)
  then show ?thesis by (simp add: W32_def)
qed

lemma SHA256_abc:
  "SHA256 [0x61, 0x62, 0x63] = [0xBA, 0x78, 0x16, 0xBF, 0x8F, 0x01, 0xCF, 0xEA, 0x41, 0x41, 0x40, 0xDE, 0x5D, 0xAE, 0x22, 0x23,
    0xB0, 0x03, 0x61, 0xA3, 0x96, 0x17, 0x7A, 0x9C, 0xB4, 0x10, 0xFF, 0x61, 0xF2, 0x00, 0x15, 0xAD]"
proof -
  have len: "length (ref_pad [0x61, 0x62, 0x63]) div 64 = 1" by code_simp
  have "SHA256 [0x61, 0x62, 0x63] = concat (map be_bytes (ref_compress FIPS_H0 (ref_block (ref_pad [0x61, 0x62, 0x63]) 0)))"
    unfolding SHA256_def Let_def len by simp
  also have "\<dots> = [0xBA, 0x78, 0x16, 0xBF, 0x8F, 0x01, 0xCF, 0xEA, 0x41, 0x41, 0x40, 0xDE, 0x5D, 0xAE, 0x22, 0x23,
    0xB0, 0x03, 0x61, 0xA3, 0x96, 0x17, 0x7A, 0x9C, 0xB4, 0x10, 0xFF, 0x61, 0xF2, 0x00, 0x15, 0xAD]"
    unfolding abc_compress by code_simp
  finally show ?thesis .
qed

section \<open>Properties\<close>

text \<open>
  (C20) The SHA-256 circuit, run on the plaintext wires of a byte string shorter than \<open>2 ^ 61\<close> bytes, returns
  the wires of its FIPS 180-4 digest, with the initial value and the round constants of the standard (roots of
  primes), from which the tables of the source are proved to follow.
\<close>

theorem sha256_correct:
  assumes "8 * length m < 2 ^ 64"
  shows "sha256 ClearCtx (clear_bits (concat (map wb m))) = ret (clear_bits (concat (map wb (SHA256 m))))"
  by (rule clear_unop [OF bool_clear.sha256_transfer sha256_bool [OF assms]])

theorem sha256_correct_witness:
  "sha256 ClearCtx (clear_bits (concat (map wb [0x61 :: 8 word, 0x62, 0x63]))) =
     ret (clear_bits (concat (map wb [
    0xBA, 0x78, 0x16, 0xBF, 0x8F, 0x01, 0xCF, 0xEA, 0x41, 0x41, 0x40, 0xDE, 0x5D, 0xAE, 0x22, 0x23,
    0xB0, 0x03, 0x61, 0xA3, 0x96, 0x17, 0x7A, 0x9C, 0xB4, 0x10, 0xFF, 0x61, 0xF2, 0x00, 0x15, 0xAD :: 8 word])))"
  using sha256_correct [of "[0x61, 0x62, 0x63]"] unfolding SHA256_abc by simp

end
