(* ===== verification/Keccak.thy ===== *)
theory Keccak
  imports Words
begin

text \<open>
  \<open>circuits/crypto/keccak.h\<close>: the Keccak-f[1600] permutation and SHA3-256 as circuits over
  \<open>UInt_T<Ctx, 64>\<close> lanes. The state \<open>A[25]\<close> is a list of 25 lanes, each a list of 64 wires; the steps of a
  round are separate definitions.

  The reference is FIPS 202 on a state that is a function of the coordinates \<open>(x, y)\<close>, with the rotation
  offsets and the round constants computed by the algorithms of the standard instead of tables. Lemmas:
  every step preserves simulations of contexts; on truth values every step is the step of the standard
  and the sponge is SHA3-256.
\<close>

unbundle bit_operations_syntax

section \<open>The circuit\<close>

definition KECCAK_RHO :: "nat list list" where
  "KECCAK_RHO =
    [[ 0,  1, 62, 28, 27],
     [36, 44,  6, 55, 20],
     [ 3, 10, 43, 25, 39],
     [41, 45, 15, 21,  8],
     [18,  2, 61, 56, 14]]"

definition KECCAK_RC :: "64 word list" where
  "KECCAK_RC = [
    0x0000000000000001, 0x0000000000008082, 0x800000000000808A,
    0x8000000080008000, 0x000000000000808B, 0x0000000080000001,
    0x8000000080008081, 0x8000000000008009, 0x000000000000008A,
    0x0000000000000088, 0x0000000080008009, 0x000000008000000A,
    0x000000008000808B, 0x800000000000008B, 0x8000000000008089,
    0x8000000000008003, 0x8000000000008002, 0x8000000000000080,
    0x000000000000800A, 0x800000008000000A, 0x8000000080008081,
    0x8000000000008080, 0x0000000080000001, 0x8000000080008008]"

definition keccak_lane :: "nat \<Rightarrow> nat \<Rightarrow> nat" where
  "keccak_lane x y = 5 * y + x"

definition sha3_state_bit_index :: "nat \<Rightarrow> nat" where
  "sha3_state_bit_index idx =
     (let byte_j = idx div 8; bit_k = idx mod 8; lane = byte_j div 8;
          x = lane mod 5; y = lane div 5; z = 8 * (byte_j mod 8) + bit_k in
      64 * (5 * y + x) + z)"

definition keccak_theta :: "('s, 'w, 'z) ctx_scheme \<Rightarrow> 'w list list \<Rightarrow> ('s, 'w list list) gm" where
  "keccak_theta C A =
     bind (map_gm (\<lambda>x.
        bind (rd A (keccak_lane x 0)) (\<lambda>a0. bind (rd A (keccak_lane x 1)) (\<lambda>a1. bind (uint_xor C a0 a1) (\<lambda>t1.
        bind (rd A (keccak_lane x 2)) (\<lambda>a2. bind (uint_xor C t1 a2) (\<lambda>t2.
        bind (rd A (keccak_lane x 3)) (\<lambda>a3. bind (uint_xor C t2 a3) (\<lambda>t3.
        bind (rd A (keccak_lane x 4)) (\<lambda>a4. uint_xor C t3 a4))))))))) [0..<5]) (\<lambda>Cs.
     bind (map_gm (\<lambda>x.
        bind (rd Cs ((x + 4) mod 5)) (\<lambda>c. bind (rd Cs ((x + 1) mod 5)) (\<lambda>c1. bind (uint_rotl c1 1) (\<lambda>r.
        uint_xor C c r)))) [0..<5]) (\<lambda>Ds.
     fold_gm (\<lambda>x. fold_gm (\<lambda>y A.
        bind (rd A (keccak_lane x y)) (\<lambda>a. bind (rd Ds x) (\<lambda>d. bind (uint_xor C a d) (wr A (keccak_lane x y)))))
        [0..<5]) [0..<5] A))"

definition keccak_rho_pi :: "'w list list \<Rightarrow> ('s, 'w list list) gm" where
  "keccak_rho_pi A =
     bind (fold_gm (\<lambda>x. fold_gm (\<lambda>y B.
        bind (rd A (keccak_lane x y)) (\<lambda>a. bind (uint_rotl a (int (KECCAK_RHO ! y ! x))) (\<lambda>r.
        wr B (keccak_lane y ((2 * x + 3 * y) mod 5)) (Some r))))
        [0..<5]) [0..<5] (replicate 25 None)) all_set"

definition keccak_chi :: "('s, 'w, 'z) ctx_scheme \<Rightarrow> 'w list list \<Rightarrow> ('s, 'w list list) gm" where
  "keccak_chi C A =
     fold_gm (\<lambda>y A.
       bind (map_gm (\<lambda>x. rd A (keccak_lane x y)) [0..<5]) (\<lambda>row.
       fold_gm (\<lambda>x A.
         bind (rd row x) (\<lambda>r. bind (rd row ((x + 1) mod 5)) (\<lambda>r1. bind (uint_not C r1) (\<lambda>n1.
         bind (rd row ((x + 2) mod 5)) (\<lambda>r2. bind (uint_and C n1 r2) (\<lambda>t. bind (uint_xor C r t)
         (wr A (keccak_lane x y)))))))) [0..<5] A)) [0..<5] A"

definition keccak_iota :: "('s, 'w, 'z) ctx_scheme \<Rightarrow> nat \<Rightarrow> 'w list list \<Rightarrow> ('s, 'w list list) gm" where
  "keccak_iota C r A =
     bind (rd A 0) (\<lambda>a. bind (uint_constant C 64 (KECCAK_RC ! r)) (\<lambda>k. bind (uint_xor C a k) (wr A 0)))"

definition keccak_f1600 :: "('s, 'w, 'z) ctx_scheme \<Rightarrow> 'w list list \<Rightarrow> ('s, 'w list list) gm" where
  "keccak_f1600 C A =
     fold_gm (\<lambda>r A. bind (keccak_theta C A) (\<lambda>A. bind (keccak_rho_pi A) (\<lambda>A. bind (keccak_chi C A) (keccak_iota C r))))
       [0..<24] A"

text \<open>The lambda \<open>permute\<close>: the wires of the sponge state as lanes and back.\<close>

definition sha3_permute :: "('s, 'w, 'z) ctx_scheme \<Rightarrow> 'w list \<Rightarrow> ('s, 'w list) gm" where
  "sha3_permute C S =
     bind (map_gm (\<lambda>l. map_gm (\<lambda>z. rd S (64 * l + z)) [0..<64]) [0..<25]) (\<lambda>A.
     bind (keccak_f1600 C A) (\<lambda>A.
     fold_gm (\<lambda>l. fold_gm (\<lambda>z S. bind (rd A l) (\<lambda>a. bind (rd a z) (wr S (64 * l + z)))) [0..<64]) [0..<25] S))"

definition sha3_flip :: "('s, 'w, 'z) ctx_scheme \<Rightarrow> nat \<Rightarrow> 'w list \<Rightarrow> ('s, 'w list) gm" where
  "sha3_flip C i S = bind (rd S i) (\<lambda>w. bind (not_gate C w) (wr S i))"

text \<open>One iteration of the absorbing loop.\<close>

definition sha3_absorb_bit :: "('s, 'w, 'z) ctx_scheme \<Rightarrow> 'w \<Rightarrow> 'w list \<times> nat \<Rightarrow> ('s, 'w list \<times> nat) gm" where
  "sha3_absorb_bit C w = (\<lambda>(S, index).
     let s = sha3_state_bit_index index in
     bind (rd S s) (\<lambda>v. bind (xor_gate C v w) (\<lambda>x. bind (wr S s x) (\<lambda>S.
     if index + 1 = 1088 then bind (sha3_permute C S) (\<lambda>S. ret (S, 0)) else ret (S, index + 1)))))"

text \<open>Domain separation, padding, the last permutation and the output.\<close>

definition sha3_finish :: "('s, 'w, 'z) ctx_scheme \<Rightarrow> 'w list \<times> nat \<Rightarrow> ('s, 'w list) gm" where
  "sha3_finish C = (\<lambda>(S, index).
     let index = 8 * ((index + 7) div 8) in
     bind (sha3_flip C (sha3_state_bit_index (index + 1)) S) (\<lambda>S.
     bind (sha3_flip C (sha3_state_bit_index (index + 2)) S) (\<lambda>S.
     bind (sha3_flip C 1087 S) (sha3_permute C))))"

definition sha3_256_wires :: "('s, 'w, 'z) ctx_scheme \<Rightarrow> 'w list \<Rightarrow> ('s, 'w list) gm" where
  "sha3_256_wires C inp =
     bind (public_bit C False) (\<lambda>z.
     bind (fold_gm (sha3_absorb_bit C) inp (replicate 1600 z, 0)) (\<lambda>r.
     bind (sha3_finish C r) (\<lambda>S.
     map_gm (\<lambda>i. rd S (sha3_state_bit_index i)) [0..<256])))"

definition sha3_256 :: "('s, 'w, 'z) ctx_scheme \<Rightarrow> 'w list \<Rightarrow> ('s, 'w list) gm" where
  "sha3_256 C inp = sha3_256_wires C inp"

section \<open>The reference\<close>

type_synonym keccak_state = "nat \<Rightarrow> nat \<Rightarrow> 64 word"

definition ref_theta :: "keccak_state \<Rightarrow> keccak_state" where
  "ref_theta a =
     (let c = (\<lambda>x. a x 0 XOR a x 1 XOR a x 2 XOR a x 3 XOR a x 4);
          d = (\<lambda>x. c ((x + 4) mod 5) XOR word_rotl 1 (c ((x + 1) mod 5))) in
      (\<lambda>x y. a x y XOR d x))"

text \<open>The walk of algorithm 2: offset \<open>(t + 1) (t + 2) / 2\<close> at the \<open>t\<close>-th lane of the walk from \<open>(1, 0)\<close>.\<close>

definition ref_walk_step :: "nat \<times> nat \<Rightarrow> nat \<times> nat" where
  "ref_walk_step = (\<lambda>(x, y). (y, (2 * x + 3 * y) mod 5))"

definition ref_walk :: "nat \<Rightarrow> nat \<times> nat" where
  "ref_walk t = (ref_walk_step ^^ t) (1, 0)"

definition ref_offset :: "nat \<Rightarrow> nat \<Rightarrow> nat" where
  "ref_offset x y =
     (case map_of (zip (map ref_walk [0..<24]) [0..<24]) (x, y) of
        None \<Rightarrow> 0 | Some t \<Rightarrow> ((t + 1) * (t + 2) div 2) mod 64)"

definition ref_rho :: "keccak_state \<Rightarrow> keccak_state" where
  "ref_rho a = (\<lambda>x y. word_rotl (ref_offset x y) (a x y))"

definition ref_pi :: "keccak_state \<Rightarrow> keccak_state" where
  "ref_pi a = (\<lambda>x y. a ((x + 3 * y) mod 5) x)"

definition ref_chi :: "keccak_state \<Rightarrow> keccak_state" where
  "ref_chi a = (\<lambda>x y. a x y XOR (NOT (a ((x + 1) mod 5) y) AND a ((x + 2) mod 5) y))"

text \<open>The shift register of algorithm 5 and the round constant of algorithm 6.\<close>

definition ref_lfsr :: "bool list \<Rightarrow> bool list" where
  "ref_lfsr R = (let R' = False # R; c = R' ! 8 in
     take 8 (R'[0 := R' ! 0 \<noteq> c, 4 := R' ! 4 \<noteq> c, 5 := R' ! 5 \<noteq> c, 6 := R' ! 6 \<noteq> c]))"

definition ref_rc :: "nat \<Rightarrow> bool" where
  "ref_rc t = ((ref_lfsr ^^ (t mod 255)) [True, False, False, False, False, False, False, False]) ! 0"

text \<open>Bit \<open>2 ^ j - 1\<close> of the round constant is \<open>rc (j + 7 r)\<close>, all others are 0.\<close>

definition ref_round_constant :: "nat \<Rightarrow> 64 word" where
  "ref_round_constant r = sum_list (map (\<lambda>j. if ref_rc (j + 7 * r) then 2 ^ (2 ^ j - 1) else 0) [0..<7])"

definition ref_iota :: "nat \<Rightarrow> keccak_state \<Rightarrow> keccak_state" where
  "ref_iota r a = (\<lambda>x y. if x = 0 \<and> y = 0 then a 0 0 XOR ref_round_constant r else a x y)"

definition ref_keccak_f :: "keccak_state \<Rightarrow> keccak_state" where
  "ref_keccak_f a = fold (\<lambda>r a. ref_iota r (ref_chi (ref_pi (ref_rho (ref_theta a))))) [0..<24] a"

text \<open>Lane \<open>(x, y)\<close> holds the bits \<open>64 (5 y + x), ...\<close> of the string of 1600 bits.\<close>

definition state_of :: "bool list \<Rightarrow> keccak_state" where
  "state_of S = (\<lambda>x y. bw (take 64 (drop (64 * (5 * y + x)) S)))"

definition string_of :: "keccak_state \<Rightarrow> bool list" where
  "string_of a = concat (map (\<lambda>l. wb (a (l mod 5) (l div 5))) [0..<25])"

definition KECCAK_P :: "bool list \<Rightarrow> bool list" where
  "KECCAK_P S = string_of (ref_keccak_f (state_of S))"

text \<open>The sponge with rate 1088 and \<open>pad10*1\<close>; SHA3-256 appends the bits \<open>01\<close>.\<close>

definition xor_block :: "bool list \<Rightarrow> bool list \<Rightarrow> bool list" where
  "xor_block S p = map (\<lambda>i. S ! i \<noteq> (i < length p \<and> p ! i)) [0..<length S]"

function absorb :: "bool list \<Rightarrow> bool list \<Rightarrow> bool list" where
  "absorb S p = (if length p < 1088 then S else absorb (KECCAK_P (xor_block S (take 1088 p))) (drop 1088 p))"
  by auto
termination by (relation "measure (\<lambda>(S, p). length p)") auto

declare absorb.simps [simp del]

definition pad101 :: "nat \<Rightarrow> bool list" where
  "pad101 m = [True] @ replicate ((2 * 1088 - 2 - m mod 1088) mod 1088) False @ [True]"

definition SHA3_256 :: "bool list \<Rightarrow> bool list" where
  "SHA3_256 M = (let N = M @ [False, True] in take 256 (absorb (replicate 1600 False) (N @ pad101 (length N))))"

section \<open>Simulations\<close>

context ctx_sim
begin

lemma keccak_steps_transfer [transfer_rule]:
  "(rel_fun (list_all2 Ws) (S (list_all2 Ws))) (keccak_theta C) (keccak_theta D)"
  "(rel_fun (list_all2 Ws) (S (list_all2 Ws))) keccak_rho_pi keccak_rho_pi"
  "(rel_fun (list_all2 Ws) (S (list_all2 Ws))) (keccak_chi C) (keccak_chi D)"
  "(rel_fun (=) (rel_fun (list_all2 Ws) (S (list_all2 Ws)))) (keccak_iota C) (keccak_iota D)"
  unfolding keccak_theta_def [abs_def] keccak_rho_pi_def [abs_def] keccak_chi_def [abs_def] keccak_iota_def [abs_def]
  by transfer_prover+

lemma keccak_f1600_transfer [transfer_rule]:
  "(rel_fun (list_all2 Ws) (S (list_all2 Ws))) (keccak_f1600 C) (keccak_f1600 D)"
  unfolding keccak_f1600_def [abs_def] by transfer_prover

lemma sha3_steps_transfer [transfer_rule]:
  "(rel_fun Ws (S Ws)) (sha3_permute C) (sha3_permute D)"
  "(rel_fun (=) (rel_fun Ws (S Ws))) (sha3_flip C) (sha3_flip D)"
  unfolding sha3_permute_def [abs_def] sha3_flip_def [abs_def] by transfer_prover+

lemma sha3_loop_transfer [transfer_rule]:
  "(rel_fun W (rel_fun (rel_prod Ws (=)) (S (rel_prod Ws (=))))) (sha3_absorb_bit C) (sha3_absorb_bit D)"
  "(rel_fun (rel_prod Ws (=)) (S Ws)) (sha3_finish C) (sha3_finish D)"
  unfolding sha3_absorb_bit_def [abs_def] sha3_finish_def [abs_def] by transfer_prover+

lemma sha3_256_transfer [transfer_rule]: "(rel_fun Ws (S Ws)) (sha3_256 C) (sha3_256 D)"
  unfolding sha3_256_def [abs_def] sha3_256_wires_def [abs_def] by transfer_prover

end

section \<open>The tables\<close>

lemma keccak_rho_table: "map (\<lambda>y. map (\<lambda>x. ref_offset x y) [0..<5]) [0..<5] = KECCAK_RHO"
proof -
  have "map ref_walk [0..<24] = iterates 24 ref_walk_step (1, 0)"
    by (simp add: iterates_eq ref_walk_def)
  then have walk: "zip (map ref_walk [0..<24]) [0..<24] =
    [((1, 0), 0), ((0, 2), 1), ((2, 1), 2), ((1, 2), 3), ((2, 3), 4), ((3, 3), 5), ((3, 0), 6), ((0, 1), 7),
     ((1, 3), 8), ((3, 1), 9), ((1, 4), 10), ((4, 4), 11), ((4, 0), 12), ((0, 3), 13), ((3, 4), 14), ((4, 3), 15),
     ((3, 2), 16), ((2, 2), 17), ((2, 0), 18), ((0, 4), 19), ((4, 2), 20), ((2, 4), 21), ((4, 1), 22), ((1, 1), 23)]"
    by (simp add: ref_walk_step_def upt_rec iterates_numeral)
  show ?thesis unfolding ref_offset_def walk KECCAK_RHO_def by (simp add: upt_rec)
qed

lemma rc_values:
  "map ref_rc [0..<168] = [
    True, False, False, False, False, False, False, False, True, False, True, True, False, False,
    False, True, True, True, True, False, True, False, False, False, False, True, True, True,
    True, True, True, True, True, False, False, True, False, False, False, False, True, False,
    True, False, False, True, True, True, True, True, False, True, False, True, False, True,
    False, True, True, True, False, False, False, False, False, True, True, False, False, False,
    True, False, True, False, True, True, False, False, True, True, False, False, True, False,
    True, True, True, True, True, True, False, True, True, True, True, False, False, True,
    True, False, True, True, True, False, True, True, True, False, False, True, False, True,
    False, True, False, False, True, False, True, False, False, False, True, False, False, True,
    False, True, True, False, True, False, False, False, True, True, False, False, True, True,
    True, False, False, True, True, True, True, False, False, False, True, True, False, True,
    True, False, False, False, False, True, False, False, False, True, False, True, True, True]"
proof -
  have "map ref_rc [0..<168] = map (\<lambda>R. R ! 0) (iterates 168 ref_lfsr [True, False, False, False, False, False, False, False])"
    by (simp add: iterates_eq ref_rc_def)
  also have "\<dots> = [
    True, False, False, False, False, False, False, False, True, False, True, True, False, False,
    False, True, True, True, True, False, True, False, False, False, False, True, True, True,
    True, True, True, True, True, False, False, True, False, False, False, False, True, False,
    True, False, False, True, True, True, True, True, False, True, False, True, False, True,
    False, True, True, True, False, False, False, False, False, True, True, False, False, False,
    True, False, True, False, True, True, False, False, True, True, False, False, True, False,
    True, True, True, True, True, True, False, True, True, True, True, False, False, True,
    True, False, True, True, True, False, True, True, True, False, False, True, False, True,
    False, True, False, False, True, False, True, False, False, False, True, False, False, True,
    False, True, True, False, True, False, False, False, True, True, False, False, True, True,
    True, False, False, True, True, True, True, False, False, False, True, True, False, True,
    True, False, False, False, False, True, False, False, False, True, False, True, True, True]"
    by code_simp
  finally show ?thesis .
qed

lemma keccak_rc_table: "map ref_round_constant [0..<24] = KECCAK_RC"
proof -
  have rc: "ref_round_constant r = sum_list (map2 (\<lambda>b j. if b then 2 ^ (2 ^ j - 1) else 0)
      (take 7 (drop (7 * r) (map ref_rc [0..<168]))) [0..<7])" if "r < 24" for r
    unfolding ref_round_constant_def
    by (rule arg_cong [where f = sum_list], rule nth_equalityI) (use that in \<open>simp_all add: add.commute [of "7 * r"]\<close>)
  then have "map ref_round_constant [0..<24] = map (\<lambda>r. sum_list (map2 (\<lambda>b j. if b then 2 ^ (2 ^ j - 1) else 0)
      (take 7 (drop (7 * r) (map ref_rc [0..<168]))) [0..<7])) [0..<24]" by simp
  also have "\<dots> = KECCAK_RC" unfolding rc_values KECCAK_RC_def by (simp add: upt_rec)
  finally show ?thesis .
qed

section \<open>Meaning on truth values\<close>

text \<open>The lanes of a reference state, in the order of the array \<open>A\<close>.\<close>

definition lanes :: "keccak_state \<Rightarrow> bool list list" where
  "lanes a = map (\<lambda>l. wb (a (l mod 5) (l div 5))) [0..<25]"

lemma length_lanes [simp]: "length (lanes a) = 25"
  by (simp add: lanes_def)

lemma lanes_unfold: "lanes a =
  [wb (a 0 0), wb (a 1 0), wb (a 2 0), wb (a 3 0), wb (a 4 0), wb (a 0 1), wb (a 1 1), wb (a 2 1), wb (a 3 1), wb (a 4 1),
   wb (a 0 2), wb (a 1 2), wb (a 2 2), wb (a 3 2), wb (a 4 2), wb (a 0 3), wb (a 1 3), wb (a 2 3), wb (a 3 3), wb (a 4 3),
   wb (a 0 4), wb (a 1 4), wb (a 2 4), wb (a 3 4), wb (a 4 4)]"
  by (simp add: lanes_def upt_rec flip: numeral_2_eq_2)

lemma five: "[0..<5] = [0, 1, 2, 3, 4]"
  by (simp add: upt_rec)

lemma replicate_25: "replicate 25 x = [x, x, x, x, x, x, x, x, x, x, x, x, x, x, x, x, x, x, x, x, x, x, x, x, x]"
  by (simp add: numeral_eq_Suc)

lemma keccak_theta_bool: "keccak_theta bool_ctx (lanes a) = ret (lanes (ref_theta a))"
  by (simp add: keccak_theta_def lanes_unfold five keccak_lane_def ref_theta_def Let_def xor.assoc uint_rotl_wb
      flip: numeral_2_eq_2)

lemma keccak_chi_bool: "keccak_chi bool_ctx (lanes a) = ret (lanes (ref_chi a))"
  by (simp add: keccak_chi_def lanes_unfold five keccak_lane_def ref_chi_def flip: numeral_2_eq_2)

lemma keccak_rho_pi_bool: "keccak_rho_pi (lanes a) = ret (lanes (ref_pi (ref_rho a)))"
proof -
  have "KECCAK_RHO ! y ! x = ref_offset x y" if "x < 5" "y < 5" for x y
    using that unfolding keccak_rho_table [symmetric] by simp
  then show ?thesis
    by (simp add: keccak_rho_pi_def lanes_unfold five replicate_25 keccak_lane_def ref_rho_def ref_pi_def uint_rotl_wb all_set_def
        flip: numeral_2_eq_2)
qed

lemma keccak_iota_bool:
  assumes "r < 24"
  shows "keccak_iota bool_ctx r (lanes a) = ret (lanes (ref_iota r a))"
proof -
  have "KECCAK_RC ! r = ref_round_constant r" using assms unfolding keccak_rc_table [symmetric] by simp
  moreover have "uint_constant bool_ctx 64 v = ret (wb v)" for v
    using uint_constant_wb [where 'a = 64, of v] by simp
  ultimately show ?thesis by (simp add: keccak_iota_def lanes_unfold ref_iota_def)
qed

lemma keccak_f1600_bool: "keccak_f1600 bool_ctx (lanes a) = ret (lanes (ref_keccak_f a))"
  unfolding keccak_f1600_def ref_keccak_f_def
  by (rule fold_gm_abs [where rep = lanes])
    (simp add: keccak_theta_bool keccak_rho_pi_bool keccak_chi_bool keccak_iota_bool)

lemma lane_index: "5 * (l div 5) + l mod 5 = l" for l :: nat
  by simp

lemma read_lanes:
  assumes "length S = 1600"
  shows "map_gm (\<lambda>l. map_gm (\<lambda>z. rd S (64 * l + z)) [0..<64]) [0..<25] = (ret (lanes (state_of S)) :: ('s, _) gm)"
  unfolding lanes_def
proof (rule map_gm_ret)
  fix l :: nat
  assume "l \<in> set [0..<25]"
  then have l: "64 * l + 64 \<le> length S" using assms by simp
  have "map_gm (\<lambda>z. rd S (64 * l + z)) [0..<64] = (ret (map (\<lambda>z. S ! (64 * l + z)) [0..<64]) :: ('s, _) gm)"
    using l by (intro map_gm_ret) simp
  moreover have "map (\<lambda>z. S ! (64 * l + z)) [0..<64] = take 64 (drop (64 * l) S)"
    using l by (intro nth_equalityI) simp_all
  ultimately show "map_gm (\<lambda>z. rd S (64 * l + z)) [0..<64] = (ret (wb (state_of S (l mod 5) (l div 5))) :: ('s, _) gm)"
    unfolding state_of_def lane_index using l by simp
qed

lemma write_lanes:
  assumes "length S = 1600"
  shows "fold_gm (\<lambda>l. fold_gm (\<lambda>z S. bind (rd (lanes a) l) (\<lambda>a. bind (rd a z) (wr S (64 * l + z)))) [0..<64]) [0..<25] S =
    ret (string_of a)"
proof -
  have string: "string_of a = concat (lanes a)" "length (string_of a) = 1600" unfolding string_of_def lanes_def
    by (simp_all add: length_concat comp_def sum_list_triv)
  have lane: "\<forall>ls \<in> set (lanes a). length ls = 64" by (auto simp: lanes_def)
  have at: "string_of a ! (64 * l + z) = lanes a ! l ! z" if "l < 25" "z < 64" for l z
    unfolding string(1) using nth_concat_uniform [OF lane, of "64 * l + z"] that by simp
  have "fold_gm (\<lambda>l. fold_gm (\<lambda>z S. bind (rd (lanes a) l) (\<lambda>a. bind (rd a z) (wr S (64 * l + z)))) [0..<64]) [0..<25] S =
      fold_gm (\<lambda>x S. wr S ((\<lambda>(l, z). 64 * l + z) x) ((\<lambda>(l, z). lanes a ! l ! z) x)) (List.product [0..<25] [0..<64]) S"
    unfolding fold_gm_product by (rule fold_gm_cong) (use lane in auto)
  also have "\<dots> = ret (string_of a)"
  proof (rule fill)
    show "\<forall>p < length (string_of a). (\<exists>x \<in> set (List.product [0..<25] [0..<64]). (\<lambda>(l, z). 64 * l + z) x = p) \<or>
        S ! p = string_of a ! p"
      unfolding string(2) by (intro allI impI disjI1 bexI [of _ "(p div 64, p mod 64)" for p]) auto
  qed (use assms string at in auto)
  finally show ?thesis .
qed

lemma sha3_permute_bool: "length S = 1600 \<Longrightarrow> sha3_permute bool_ctx S = ret (KECCAK_P S)"
  unfolding sha3_permute_def KECCAK_P_def by (simp add: read_lanes keccak_f1600_bool write_lanes)

lemma length_KECCAK_P [simp]: "length (KECCAK_P S) = 1600"
  by (simp add: KECCAK_P_def string_of_def length_concat comp_def sum_list_triv)

lemma sha3_state_bit_index_id: "sha3_state_bit_index i = i"
proof -
  have "8 * (i div 8 div 8) + i div 8 mod 8 = i div 8" "8 * (i div 8) + i mod 8 = i" by simp_all
  then have "64 * (i div 8 div 8) + (8 * (i div 8 mod 8) + i mod 8) = i" by linarith
  then show ?thesis unfolding sha3_state_bit_index_def Let_def lane_index .
qed

subsection \<open>The sponge\<close>

lemma length_xor_block [simp]: "length (xor_block S p) = length S"
  by (simp add: xor_block_def)

lemma absorb_chunk:
  assumes "p \<noteq> []" and "i + length p \<le> 1088" and "length S = 1600"
  shows "fold_gm (sha3_absorb_bit bool_ctx) p (S, i) =
    (let S' = map (\<lambda>k. S ! k \<noteq> (i \<le> k \<and> k < i + length p \<and> p ! (k - i))) [0..<1600] in
     if i + length p = 1088 then ret (KECCAK_P S', 0) else ret (S', i + length p))"
  using assms
proof (induction p arbitrary: i S)
  case (Cons b p)
  let ?S = "S[i := (S ! i \<noteq> b)]"
  have eq: "map (\<lambda>k. ?S ! k \<noteq> (Suc i \<le> k \<and> k < Suc i + length p \<and> p ! (k - Suc i))) [0..<1600] =
      map (\<lambda>k. S ! k \<noteq> (i \<le> k \<and> k < i + length (b # p) \<and> (b # p) ! (k - i))) [0..<1600]"
    using Cons.prems by (intro map_cong) (auto simp: nth_list_update nth_Cons')
  show ?case
  proof (cases p)
    case Nil
    have "?S = map (\<lambda>k. S ! k \<noteq> (i \<le> k \<and> k < i + length (b # p) \<and> (b # p) ! (k - i))) [0..<1600]"
      unfolding eq [symmetric] using Nil Cons.prems(3) by (intro nth_equalityI) simp_all
    with Nil Cons.prems show ?thesis
      by (cases "i = 1087") (simp_all add: sha3_absorb_bit_def sha3_state_bit_index_id Let_def sha3_permute_bool)
  next
    case Cons2: (Cons c p')
    have "sha3_absorb_bit bool_ctx b (S, i) = ret (?S, Suc i)"
      using Cons.prems Cons2 by (simp add: sha3_absorb_bit_def sha3_state_bit_index_id Let_def)
    then have "fold_gm (sha3_absorb_bit bool_ctx) (b # p) (S, i) = fold_gm (sha3_absorb_bit bool_ctx) p (?S, Suc i)"
      by simp
    also have "\<dots> = (let S' = map (\<lambda>k. ?S ! k \<noteq> (Suc i \<le> k \<and> k < Suc i + length p \<and> p ! (k - Suc i))) [0..<1600] in
       if Suc i + length p = 1088 then ret (KECCAK_P S', 0) else ret (S', Suc i + length p))"
      by (rule Cons.IH) (use Cons.prems Cons2 in simp_all)
    finally show ?thesis unfolding eq by (simp only: Let_def list.size add_Suc add_Suc_right add_0_right)
  qed
qed simp

lemma absorb_block:
  assumes "length p = 1088" and "length S = 1600"
  shows "fold_gm (sha3_absorb_bit bool_ctx) p (S, 0) = ret (KECCAK_P (xor_block S p), 0)"
  using absorb_chunk [of p 0 S] assms by (cases p) (auto simp: Let_def xor_block_def)

lemma absorb_rest:
  assumes "length p < 1088" and "length S = 1600"
  shows "fold_gm (sha3_absorb_bit bool_ctx) p (S, 0) = ret (xor_block S p, length p)"
proof (cases "p = []")
  case True
  then show ?thesis by (auto simp: xor_block_def intro: nth_equalityI)
qed (use absorb_chunk [of p 0 S] assms in \<open>simp add: Let_def xor_block_def\<close>)

lemma last_pad:
  assumes "i < 1088" and "8 dvd i"
  shows "i \<le> 1080" and "pad101 (i + 2) = True # replicate (1084 - i) False @ [True]"
proof -
  from assms obtain j where j: "i = 8 * j" "j < 136" by (auto elim!: dvdE)
  then show i: "i \<le> 1080" by simp
  then have "(i + 2) mod 1088 = i + 2" "2 * 1088 - 2 - (i + 2) = 1088 + (1084 - i)" by simp_all
  then show "pad101 (i + 2) = True # replicate (1084 - i) False @ [True]" by (simp only: pad101_def mod_add_self1) simp
qed

lemma finish_padded:
  assumes "length M < 1088" and "8 dvd length M" and "length S = 1600"
  shows "sha3_finish bool_ctx (xor_block S M, length M) = ret (KECCAK_P (xor_block S (M @ [False, True] @ pad101 (length M + 2))))"
proof -
  let ?i = "length M" and ?B = "xor_block S M"
  note i = last_pad(1) [OF assms(1,2)]
  have pad: "M @ [False, True] @ pad101 (?i + 2) = M @ [False, True, True] @ replicate (1084 - ?i) False @ [True]"
    using last_pad(2) [OF assms(1,2)] by simp
  have "xor_block S (M @ [False, True] @ pad101 (?i + 2)) =
      ?B[?i + 1 := \<not> ?B ! (?i + 1), ?i + 2 := \<not> ?B ! (?i + 2), 1087 := \<not> ?B ! 1087]"
    (is "xor_block S ?P = ?F")
  proof (rule nth_equalityI)
    fix k
    assume "k < length (xor_block S ?P)"
    then have k: "k < 1600" using assms(3) by simp
    have P: "length ?P = 1088" unfolding pad using i by simp
    have "?P ! k \<longleftrightarrow> (if k < ?i then M ! k else k = ?i + 1 \<or> k = ?i + 2 \<or> k = 1087)" if "k < 1088"
      unfolding pad using that i by (auto simp: nth_append nth_Cons')
    then have "xor_block S ?P ! k \<longleftrightarrow>
        S ! k \<noteq> (k < 1088 \<and> (if k < ?i then M ! k else k = ?i + 1 \<or> k = ?i + 2 \<or> k = 1087))"
      using k assms(3) P by (auto simp: xor_block_def)
    moreover have "?F ! k \<longleftrightarrow> (?B ! k \<noteq> (k = ?i + 1 \<or> k = ?i + 2 \<or> k = 1087))"
      using k i assms(3) by (auto simp: nth_list_update)
    moreover have "?B ! k \<longleftrightarrow> S ! k \<noteq> (k < ?i \<and> M ! k)" using k assms(3) by (simp add: xor_block_def)
    ultimately show "xor_block S ?P ! k = ?F ! k" using i by auto
  qed (simp add: assms)
  moreover have "8 * ((?i + 7) div 8) = ?i" using assms(2) by (auto elim!: dvdE)
  ultimately show ?thesis using i assms
    by (simp add: sha3_finish_def sha3_flip_def sha3_state_bit_index_id Let_def sha3_permute_bool)
qed

lemma absorb_spec:
  assumes "8 dvd length M" and "length S = 1600"
  shows "bind (fold_gm (sha3_absorb_bit bool_ctx) M (S, 0)) (sha3_finish bool_ctx) =
    ret (absorb S (M @ [False, True] @ pad101 (length M + 2)))"
  using assms
proof (induction "length M" arbitrary: M S rule: less_induct)
  case less
  show ?case
  proof (cases "length M < 1088")
    case True
    have len: "length (M @ [False, True] @ pad101 (length M + 2)) = 1088"
      using last_pad [OF True less.prems(1)] by simp
    have "absorb S (M @ [False, True] @ pad101 (length M + 2)) =
        KECCAK_P (xor_block S (M @ [False, True] @ pad101 (length M + 2)))"
      using len by (subst absorb.simps, subst absorb.simps) simp
    then show ?thesis using absorb_rest [OF True less.prems(2)] finish_padded [OF True less.prems] by simp
  next
    case False
    let ?h = "take 1088 M" and ?t = "drop 1088 M" and ?S = "KECCAK_P (xor_block S (take 1088 M))"
    have t: "length ?t < length M" "8 dvd length ?t" using False less.prems(1) by (auto intro: dvd_diff_nat)
    have "length M + 2 = 1088 + (length ?t + 2)" using False by simp
    then have "(length M + 2) mod 1088 = (length ?t + 2) mod 1088" by (simp only: mod_add_self1)
    then have pad: "pad101 (length M + 2) = pad101 (length ?t + 2)" by (simp add: pad101_def)
    have "bind (fold_gm (sha3_absorb_bit bool_ctx) (?h @ ?t) (S, 0)) (sha3_finish bool_ctx) =
        bind (fold_gm (sha3_absorb_bit bool_ctx) ?t (?S, 0)) (sha3_finish bool_ctx)"
      unfolding fold_gm_append using absorb_block [of ?h S] False less.prems(2) by simp
    also have "\<dots> = ret (absorb ?S (?t @ [False, True] @ pad101 (length ?t + 2)))"
      by (rule less.hyps) (use t in simp_all)
    also have "absorb ?S (?t @ [False, True] @ pad101 (length ?t + 2)) = absorb S (M @ [False, True] @ pad101 (length M + 2))"
      unfolding pad using False by (subst (2) absorb.simps) simp
    finally show ?thesis by simp
  qed
qed

lemma length_absorb: "length S = 1600 \<Longrightarrow> length (absorb S p) = 1600"
  by (induction S p rule: absorb.induct) (subst absorb.simps, simp)

lemma sha3_256_bool:
  assumes "8 dvd length M"
  shows "sha3_256 bool_ctx M = ret (SHA3_256 M)"
proof -
  let ?S = "absorb (replicate 1600 False) (M @ [False, True] @ pad101 (length M + 2))"
  have "sha3_256 bool_ctx M = bind (bind (fold_gm (sha3_absorb_bit bool_ctx) M (replicate 1600 False, 0)) (sha3_finish bool_ctx))
      (\<lambda>S. map_gm (\<lambda>i. rd S (sha3_state_bit_index i)) [0..<256])"
    by (simp add: sha3_256_def sha3_256_wires_def bind_assoc)
  also have "\<dots> = map_gm (\<lambda>i. rd ?S i) [0..<256]"
    using absorb_spec [OF assms, of "replicate 1600 False"] by (simp add: sha3_state_bit_index_id)
  also have "\<dots> = ret (map (\<lambda>i. ?S ! i) [0..<256])"
    by (rule map_gm_ret) (simp add: length_absorb)
  also have "map (\<lambda>i. ?S ! i) [0..<256] = SHA3_256 M"
    unfolding SHA3_256_def Let_def by (rule nth_equalityI) (simp_all add: length_absorb)
  finally show ?thesis .
qed

section \<open>Properties\<close>

text \<open>
  (C22) The SHA3-256 circuit, run on the plaintext wires of any string of whole bytes, returns the wires of its
  FIPS 202 digest, where the rotation offsets and round constants of the reference are computed as the
  standard defines them.
\<close>

theorem sha3_256_correct:
  assumes "8 dvd length M"
  shows "sha3_256 ClearCtx (clear_bits M) = ret (clear_bits (SHA3_256 M))"
  by (rule clear_unop [OF bool_clear.sha3_256_transfer sha3_256_bool [OF assms]])

theorem sha3_256_correct_witness:
  "sha3_256 ClearCtx (clear_bits (concat (map wb [0x61 :: 8 word, 0x62, 0x63]))) =
     ret (clear_bits (SHA3_256 (concat (map wb [0x61 :: 8 word, 0x62, 0x63]))))"
  by (rule sha3_256_correct) simp

end
