(* ===== verification/Aes.thy ===== *)
theory Aes
  imports Fips197
begin

text \<open>
  \<open>circuits/crypto/aes128.h\<close>: AES-128 as a circuit over bare wires: the Boyar-Peralta S-box, the key
  schedule, block encryption and counter mode. A byte is a list of 8 wires, the least significant first;
  blocks and round keys are lists of wires in natural byte order. The typed overloads of the public API
  only unwrap \<open>BitVec_T\<close> and call these functions.

  The reference is theory \<open>Fips197\<close>. Lemmas: every function preserves simulations of contexts; on truth
  values the S-box circuit is the table and encryption, key expansion and counter mode are those of the
  standards.
\<close>

unbundle bit_operations_syntax

section \<open>The circuit\<close>

definition aes_sbox :: "('s, 'w, 'z) ctx_scheme \<Rightarrow> 'w list \<Rightarrow> ('s, 'w list) gm" where
  "aes_sbox C U_lsb =
     bind (rd U_lsb 7) (\<lambda>u0. bind (rd U_lsb 6) (\<lambda>u1. bind (rd U_lsb 5) (\<lambda>u2. bind (rd U_lsb 4) (\<lambda>u3.
     bind (rd U_lsb 3) (\<lambda>u4. bind (rd U_lsb 2) (\<lambda>u5. bind (rd U_lsb 1) (\<lambda>u6. bind (rd U_lsb 0) (\<lambda>u7.
     bind (xor_gate C u3 u5) (\<lambda>t1. bind (xor_gate C u0 u6) (\<lambda>t2. bind (xor_gate C u0 u3) (\<lambda>t3.
     bind (xor_gate C u0 u5) (\<lambda>t4. bind (xor_gate C u1 u2) (\<lambda>t5. bind (xor_gate C t5 u7) (\<lambda>t6.
     bind (xor_gate C t6 u3) (\<lambda>t7. bind (xor_gate C t2 t1) (\<lambda>t8. bind (xor_gate C t6 u0) (\<lambda>t9.
     bind (xor_gate C t6 u6) (\<lambda>t10. bind (xor_gate C t10 t4) (\<lambda>t11.
     bind (xor_gate C u4 t8) (\<lambda>t12. bind (xor_gate C t12 u5) (\<lambda>t13.
     bind (xor_gate C t12 u1) (\<lambda>t14. bind (xor_gate C t13 u7) (\<lambda>t15.
     bind (xor_gate C t13 t5) (\<lambda>t16. bind (xor_gate C t14 t3) (\<lambda>t17.
     bind (xor_gate C u7 t17) (\<lambda>t18. bind (xor_gate C t16 t17) (\<lambda>t19.
     bind (xor_gate C t16 t4) (\<lambda>t20. bind (xor_gate C t5 t17) (\<lambda>t21.
     bind (xor_gate C t2 t21) (\<lambda>t22. bind (xor_gate C u0 t21) (\<lambda>t23.
     bind (and_gate C t8 t13) (\<lambda>t24. bind (and_gate C t11 t15) (\<lambda>t25.
     bind (and_gate C t7 u7) (\<lambda>t27. bind (and_gate C t2 t21) (\<lambda>t29.
     bind (and_gate C t10 t6) (\<lambda>t30. bind (and_gate C t9 t18) (\<lambda>t32.
     bind (and_gate C t3 t17) (\<lambda>t34. bind (and_gate C t1 t19) (\<lambda>t35.
     bind (and_gate C t4 t16) (\<lambda>t37. bind (xor_gate C t25 t24) (\<lambda>t26.
     bind (xor_gate C t27 t24) (\<lambda>t28. bind (xor_gate C t30 t29) (\<lambda>t31.
     bind (xor_gate C t32 t29) (\<lambda>t33. bind (xor_gate C t35 t34) (\<lambda>t36.
     bind (xor_gate C t37 t34) (\<lambda>t38. bind (xor_gate C t26 t14) (\<lambda>t39.
     bind (xor_gate C t28 t38) (\<lambda>t40. bind (xor_gate C t31 t36) (\<lambda>t41.
     bind (xor_gate C t33 t38) (\<lambda>t42. bind (xor_gate C t39 t36) (\<lambda>t43.
     bind (xor_gate C t40 t20) (\<lambda>t44. bind (xor_gate C t41 t22) (\<lambda>t45.
     bind (xor_gate C t42 t23) (\<lambda>t46. bind (xor_gate C t43 t44) (\<lambda>t47.
     bind (and_gate C t43 t45) (\<lambda>t48. bind (xor_gate C t46 t48) (\<lambda>t49.
     bind (and_gate C t47 t49) (\<lambda>t50. bind (xor_gate C t50 t44) (\<lambda>t51.
     bind (xor_gate C t45 t46) (\<lambda>t52. bind (xor_gate C t44 t48) (\<lambda>t53.
     bind (and_gate C t53 t52) (\<lambda>t54. bind (xor_gate C t54 t46) (\<lambda>t55.
     bind (xor_gate C t45 t55) (\<lambda>t56. bind (xor_gate C t49 t55) (\<lambda>t57.
     bind (and_gate C t46 t57) (\<lambda>t58. bind (xor_gate C t58 t56) (\<lambda>t59.
     bind (xor_gate C t49 t58) (\<lambda>t60. bind (and_gate C t51 t60) (\<lambda>t61.
     bind (xor_gate C t47 t61) (\<lambda>t62. bind (xor_gate C t62 t59) (\<lambda>t63.
     bind (xor_gate C t51 t55) (\<lambda>t64. bind (xor_gate C t51 t62) (\<lambda>t65.
     bind (xor_gate C t55 t59) (\<lambda>t66. bind (xor_gate C t64 t63) (\<lambda>t67.
     bind (and_gate C t66 t13) (\<lambda>t68. bind (and_gate C t59 t15) (\<lambda>t69.
     bind (and_gate C t55 u7) (\<lambda>t70. bind (and_gate C t65 t21) (\<lambda>t71.
     bind (and_gate C t62 t6) (\<lambda>t72. bind (and_gate C t51 t18) (\<lambda>t73.
     bind (and_gate C t64 t17) (\<lambda>t74. bind (and_gate C t67 t19) (\<lambda>t75.
     bind (and_gate C t63 t16) (\<lambda>t76. bind (and_gate C t66 t8) (\<lambda>t77.
     bind (and_gate C t59 t11) (\<lambda>t78. bind (and_gate C t55 t7) (\<lambda>t79.
     bind (and_gate C t65 t2) (\<lambda>t80. bind (and_gate C t62 t10) (\<lambda>t81.
     bind (and_gate C t51 t9) (\<lambda>t82. bind (and_gate C t64 t3) (\<lambda>t83.
     bind (and_gate C t67 t1) (\<lambda>t84. bind (and_gate C t63 t4) (\<lambda>t85.
     bind (xor_gate C t83 t84) (\<lambda>t86. bind (xor_gate C t78 t86) (\<lambda>t87.
     bind (xor_gate C t77 t87) (\<lambda>t88. bind (xor_gate C t68 t70) (\<lambda>t89.
     bind (xor_gate C t69 t68) (\<lambda>t90. bind (xor_gate C t71 t72) (\<lambda>t91.
     bind (xor_gate C t80 t89) (\<lambda>t92. bind (xor_gate C t75 t91) (\<lambda>t93.
     bind (xor_gate C t76 t92) (\<lambda>t94. bind (xor_gate C t93 t94) (\<lambda>t95.
     bind (xor_gate C t91 t90) (\<lambda>t96. bind (xor_gate C t71 t73) (\<lambda>t97.
     bind (xor_gate C t81 t86) (\<lambda>t98. bind (xor_gate C t89 t97) (\<lambda>t99.
     bind (xor_gate C t74 t93) (\<lambda>t100. bind (xor_gate C t82 t95) (\<lambda>t101.
     bind (xor_gate C t98 t99) (\<lambda>t102. bind (xor_gate C t83 t100) (\<lambda>t103.
     bind (xor_gate C t87 t79) (\<lambda>t104. bind (xor_gate C t101 t103) (\<lambda>t105.
     bind (xor_gate C t88 t100) (\<lambda>s0. bind (xor_gate C t88 t96) (\<lambda>s3.
     bind (xor_gate C s3 t100) (\<lambda>n1. bind (not_gate C n1) (\<lambda>s1.
     bind (xor_gate C t105 t85) (\<lambda>n2. bind (not_gate C n2) (\<lambda>s2.
     bind (xor_gate C t99 s3) (\<lambda>s4. bind (xor_gate C t104 t101) (\<lambda>s5.
     bind (xor_gate C t95 t102) (\<lambda>n6. bind (not_gate C n6) (\<lambda>s6.
     bind (xor_gate C t80 t102) (\<lambda>n7. bind (not_gate C n7) (\<lambda>s7.
     ret [s7, s6, s5, s4, s3, s2, s1, s0])))))))))))))))))))))))))))))))))))))))))))))))))))))))))))))))))))))))))))))))))))))))))))))))))))))))))))))))))))))))))))))"

definition aes_xtime :: "('s, 'w, 'z) ctx_scheme \<Rightarrow> 'w list \<Rightarrow> ('s, 'w list) gm" where
  "aes_xtime C inp =
     bind (rd inp 0) (\<lambda>i0. bind (rd inp 1) (\<lambda>i1. bind (rd inp 2) (\<lambda>i2. bind (rd inp 3) (\<lambda>i3.
     bind (rd inp 4) (\<lambda>i4. bind (rd inp 5) (\<lambda>i5. bind (rd inp 6) (\<lambda>i6. bind (rd inp 7) (\<lambda>m.
     bind (xor_gate C i0 m) (\<lambda>o1. bind (xor_gate C i2 m) (\<lambda>o3. bind (xor_gate C i3 m) (\<lambda>o4.
     ret [m, o1, i1, o3, o4, i4, i5, i6])))))))))))"

text \<open>The wires of byte \<open>b\<close>.\<close>

definition byte_at :: "'w list \<Rightarrow> nat \<Rightarrow> ('s, 'w list) gm" where
  "byte_at xs b = map_gm (\<lambda>k. rd xs (b * 8 + k)) [0..<8]"

definition aes_Rcon :: "8 word list" where
  "aes_Rcon = [0x00, 0x01, 0x02, 0x04, 0x08, 0x10, 0x20, 0x40, 0x80, 0x1B, 0x36]"

text \<open>Round key \<open>r\<close> from round key \<open>r - 1\<close>.\<close>

definition aes_next_key :: "('s, 'w, 'z) ctx_scheme \<Rightarrow> nat \<Rightarrow> 'w list \<Rightarrow> ('s, 'w list) gm" where
  "aes_next_key C r prev =
     bind (map_gm (\<lambda>b. byte_at prev (12 + (b + 1) mod 4)) [0..<4]) (\<lambda>tmp.
     bind (map_gm (aes_sbox C) tmp) (\<lambda>tmp.
     bind (fold_gm (\<lambda>k tmp. if drop_bit k (aes_Rcon ! r) AND 1 = 1
                              then bind (rd tmp k) (\<lambda>x. bind (not_gate C x) (wr tmp k)) else ret tmp)
             [0..<8] (concat tmp)) (\<lambda>tmp.
     bind (map_gm (\<lambda>k. bind (rd prev k) (\<lambda>p. bind (rd tmp k) (\<lambda>t. xor_gate C p t))) [0..<32]) (\<lambda>word0.
     fold_gm (\<lambda>w cur.
        bind (map_gm (\<lambda>k. bind (rd cur ((w - 1) * 32 + k)) (\<lambda>x. bind (rd prev (w * 32 + k)) (\<lambda>p. xor_gate C x p)))
          [0..<32]) (\<lambda>word. ret (cur @ word))) [1..<4] word0))))"

definition aes128_key_schedule :: "('s, 'w, 'z) ctx_scheme \<Rightarrow> 'w list \<Rightarrow> ('s, 'w list) gm" where
  "aes128_key_schedule C key =
     bind (map_gm (rd key) [0..<128])
       (fold_gm (\<lambda>r expanded.
          bind (map_gm (\<lambda>i. rd expanded ((r - 1) * 128 + i)) [0..<128]) (\<lambda>prev.
          bind (aes_next_key C r prev) (\<lambda>cur. ret (expanded @ cur)))) [1..<11])"

definition aes_sub_bytes :: "('s, 'w, 'z) ctx_scheme \<Rightarrow> 'w list \<Rightarrow> ('s, 'w list) gm" where
  "aes_sub_bytes C state = bind (map_gm (\<lambda>b. bind (byte_at state b) (aes_sbox C)) [0..<16]) (\<lambda>bs. ret (concat bs))"

definition aes_shift_rows :: "'w list \<Rightarrow> ('s, 'w list) gm" where
  "aes_shift_rows state =
     bind (map_gm (\<lambda>c. bind (map_gm (\<lambda>row. byte_at state (4 * ((c + row) mod 4) + row)) [0..<4]) (\<lambda>col. ret (concat col)))
       [0..<4]) (\<lambda>cols. ret (concat cols))"

text \<open>MixColumns on a column: the loop that fills \<open>t, ab, bc, cd, da\<close>, and the one that writes the new column.\<close>

definition aes_mix_sums ::
  "('s, 'w, 'z) ctx_scheme \<Rightarrow> 'w list \<Rightarrow> 'w list \<Rightarrow> 'w list \<Rightarrow> 'w list \<Rightarrow> ('s, ('w \<times> 'w \<times> 'w \<times> 'w \<times> 'w) list) gm" where
  "aes_mix_sums C a b cc d =
     map_gm (\<lambda>k. bind (rd a k) (\<lambda>ak. bind (rd b k) (\<lambda>bk. bind (rd cc k) (\<lambda>ck. bind (rd d k) (\<lambda>dk.
       bind (xor_gate C ak bk) (\<lambda>p. bind (xor_gate C ck dk) (\<lambda>q. bind (xor_gate C p q) (\<lambda>t.
       bind (xor_gate C ak bk) (\<lambda>ab. bind (xor_gate C bk ck) (\<lambda>bc. bind (xor_gate C ck dk) (\<lambda>cd.
       bind (xor_gate C dk ak) (\<lambda>da. ret (t, ab, bc, cd, da))))))))))))) [0..<8]"

definition aes_mix_out :: "('s, 'w, 'z) ctx_scheme \<Rightarrow> 'w list \<Rightarrow> 'w list \<Rightarrow> 'w list \<Rightarrow> nat \<Rightarrow> ('s, 'w) gm" where
  "aes_mix_out C x t y k =
     bind (rd x k) (\<lambda>xk. bind (rd t k) (\<lambda>tk. bind (rd y k) (\<lambda>yk. bind (xor_gate C tk yk) (xor_gate C xk))))"

definition aes_mix_column :: "('s, 'w, 'z) ctx_scheme \<Rightarrow> 'w list \<Rightarrow> nat \<Rightarrow> ('s, 'w list) gm" where
  "aes_mix_column C state c =
     bind (byte_at state (4 * c)) (\<lambda>a. bind (byte_at state (4 * c + 1)) (\<lambda>b.
     bind (byte_at state (4 * c + 2)) (\<lambda>cc. bind (byte_at state (4 * c + 3)) (\<lambda>d.
     bind (aes_mix_sums C a b cc d) (\<lambda>sums.
     let t = map fst sums; ab = map (fst \<circ> snd) sums; bc = map (fst \<circ> snd \<circ> snd) sums;
         cd = map (fst \<circ> snd \<circ> snd \<circ> snd) sums; da = map (snd \<circ> snd \<circ> snd \<circ> snd) sums in
     bind (aes_xtime C ab) (\<lambda>xab. bind (aes_xtime C bc) (\<lambda>xbc. bind (aes_xtime C cd) (\<lambda>xcd. bind (aes_xtime C da) (\<lambda>xda.
     bind (map_gm (\<lambda>k. bind (aes_mix_out C a t xab k) (\<lambda>na. bind (aes_mix_out C b t xbc k) (\<lambda>nb.
             bind (aes_mix_out C cc t xcd k) (\<lambda>nc. bind (aes_mix_out C d t xda k) (\<lambda>nd. ret (na, nb, nc, nd)))))) [0..<8]) (\<lambda>ns.
     ret (map fst ns @ map (fst \<circ> snd) ns @ map (fst \<circ> snd \<circ> snd) ns @ map (snd \<circ> snd \<circ> snd) ns)))))))))))"

definition aes_mix_columns :: "('s, 'w, 'z) ctx_scheme \<Rightarrow> 'w list \<Rightarrow> ('s, 'w list) gm" where
  "aes_mix_columns C state = bind (map_gm (aes_mix_column C state) [0..<4]) (\<lambda>cols. ret (concat cols))"

definition aes_add_round_key :: "('s, 'w, 'z) ctx_scheme \<Rightarrow> 'w list \<Rightarrow> nat \<Rightarrow> 'w list \<Rightarrow> ('s, 'w list) gm" where
  "aes_add_round_key C expanded r state =
     map_gm (\<lambda>i. bind (rd state i) (\<lambda>s. bind (rd expanded (r * 128 + i)) (\<lambda>k. xor_gate C s k))) [0..<128]"

definition aes128_encrypt_block :: "('s, 'w, 'z) ctx_scheme \<Rightarrow> 'w list \<Rightarrow> 'w list \<Rightarrow> ('s, 'w list) gm" where
  "aes128_encrypt_block C plaintext expanded_key =
     bind (aes_add_round_key C expanded_key 0 plaintext)
       (fold_gm (\<lambda>r state.
          bind (aes_sub_bytes C state) (\<lambda>state. bind (aes_shift_rows state) (\<lambda>state.
          bind (if r \<noteq> 10 then aes_mix_columns C state else ret state) (aes_add_round_key C expanded_key r)))) [1..<11])"

definition aes128_encrypt :: "('s, 'w, 'z) ctx_scheme \<Rightarrow> 'w list \<Rightarrow> 'w list \<Rightarrow> ('s, 'w list) gm" where
  "aes128_encrypt C plaintext key = bind (aes128_key_schedule C key) (aes128_encrypt_block C plaintext)"

text \<open>The counter in the bytes 15, ..., 8 of a block, least significant byte first.\<close>

definition ctr_inc_be64 :: "('s, 'w, 'z) ctx_scheme \<Rightarrow> 'w list \<Rightarrow> 64 word \<Rightarrow> ('s, 'w list) gm" where
  "ctr_inc_be64 C block delta =
     (if delta = 0 then ret block else
      bind (map_gm (\<lambda>byte. byte_at block (15 - byte)) [0..<8]) (\<lambda>ctr.
      bind (uint_constant C 64 delta) (\<lambda>k. bind (uint_add C (concat ctr) k) (\<lambda>ctr.
      fold_gm (\<lambda>byte. fold_gm (\<lambda>k block. bind (rd ctr (byte * 8 + k)) (wr block ((15 - byte) * 8 + k))) [0..<8])
        [0..<8] block))))"

text \<open>
  Counter mode. The loop of the source advances \<open>done\<close> by the size of a block, 128 except for a shorter last
  one, so its iteration \<open>i\<close> starts at \<open>done = 128 * i\<close>.
\<close>

definition ctr_blk :: "nat \<Rightarrow> nat \<Rightarrow> nat" where
  "ctr_blk length_bits done = (if length_bits - done < 128 then length_bits - done else 128)"

definition aes128_ctr ::
  "('s, 'w, 'z) ctx_scheme \<Rightarrow> 'w list \<Rightarrow> 'w list \<Rightarrow> 'w list \<Rightarrow> 64 word \<Rightarrow> ('s, 'w list) gm" where
  "aes128_ctr C key iv inp start_chunk =
     (let length_bits = length inp in
      bind (aes128_key_schedule C key) (\<lambda>round_keys.
      bind (map_gm (rd iv) [0..<128]) (\<lambda>counter.
      bind (ctr_inc_be64 C counter start_chunk) (\<lambda>counter.
      bind (fold_gm (\<lambda>i (outp, counter).
          bind (aes128_encrypt_block C counter round_keys) (\<lambda>ks.
          let done = 128 * i; blk = ctr_blk length_bits done in
          bind (map_gm (\<lambda>j. bind (rd inp (done + j)) (\<lambda>x. bind (rd ks j) (\<lambda>k. xor_gate C x k))) [0..<blk]) (\<lambda>ys.
          bind (if done + blk < length_bits then ctr_inc_be64 C counter 1 else ret counter) (\<lambda>counter.
          ret (outp @ ys, counter))))) [0..<(length_bits + 127) div 128] ([], counter)) (\<lambda>(outp, counter).
      ret outp)))))"

section \<open>Simulations\<close>

context ctx_sim
begin

lemma aes_sbox_transfer [transfer_rule]: "(rel_fun Ws (S Ws)) (aes_sbox C) (aes_sbox D)"
  unfolding aes_sbox_def [abs_def] by transfer_prover

lemma aes_parts_transfer [transfer_rule]:
  "(rel_fun Ws (S Ws)) (aes_xtime C) (aes_xtime D)"
  "(rel_fun Ws (rel_fun (=) (S Ws))) byte_at byte_at"
  unfolding aes_xtime_def [abs_def] byte_at_def [abs_def] by transfer_prover+

lemma aes_mix_transfer [transfer_rule]:
  "(rel_fun Ws (rel_fun Ws (rel_fun Ws (rel_fun Ws (S (list_all2 (rel_prod W (rel_prod W (rel_prod W (rel_prod W W))))))))))
     (aes_mix_sums C) (aes_mix_sums D)"
  "(rel_fun Ws (rel_fun Ws (rel_fun Ws (rel_fun (=) (S W))))) (aes_mix_out C) (aes_mix_out D)"
  unfolding aes_mix_sums_def [abs_def] aes_mix_out_def [abs_def] by transfer_prover+

lemma aes_rounds_transfer [transfer_rule]:
  "(rel_fun (=) (rel_fun Ws (S Ws))) (aes_next_key C) (aes_next_key D)"
  "(rel_fun Ws (S Ws)) (aes_sub_bytes C) (aes_sub_bytes D)"
  "(rel_fun Ws (S Ws)) aes_shift_rows aes_shift_rows"
  "(rel_fun Ws (rel_fun (=) (S Ws))) (aes_mix_column C) (aes_mix_column D)"
  "(rel_fun Ws (rel_fun (=) (rel_fun Ws (S Ws)))) (aes_add_round_key C) (aes_add_round_key D)"
  unfolding aes_next_key_def [abs_def] aes_sub_bytes_def [abs_def] aes_shift_rows_def [abs_def]
    aes_mix_column_def [abs_def] aes_add_round_key_def [abs_def]
  by transfer_prover+

lemma aes_mix_columns_transfer [transfer_rule]: "(rel_fun Ws (S Ws)) (aes_mix_columns C) (aes_mix_columns D)"
  unfolding aes_mix_columns_def [abs_def] by transfer_prover

lemma aes128_transfer [transfer_rule]:
  "(rel_fun Ws (S Ws)) (aes128_key_schedule C) (aes128_key_schedule D)"
  "(rel_fun Ws (rel_fun Ws (S Ws))) (aes128_encrypt_block C) (aes128_encrypt_block D)"
  "(rel_fun Ws (rel_fun (=) (S Ws))) (ctr_inc_be64 C) (ctr_inc_be64 D)"
  unfolding aes128_key_schedule_def [abs_def] aes128_encrypt_block_def [abs_def] ctr_inc_be64_def [abs_def]
  by transfer_prover+

lemma aes128_encrypt_transfer [transfer_rule]: "(rel_fun Ws (rel_fun Ws (S Ws))) (aes128_encrypt C) (aes128_encrypt D)"
  unfolding aes128_encrypt_def [abs_def] by transfer_prover

lemma aes128_ctr_transfer [transfer_rule]:
  "(rel_fun Ws (rel_fun Ws (rel_fun Ws (rel_fun (=) (S Ws))))) (aes128_ctr C) (aes128_ctr D)"
  unfolding aes128_ctr_def [abs_def] by transfer_prover

end

section \<open>The tables\<close>

lemma bind_weak_cong: "m = m' \<Longrightarrow> bind m f = bind m' f"
  by simp

text \<open>The circuit on every byte.\<close>

lemma aes_sbox_table:
  "aes_sbox bool_ctx [b0, b1, b2, b3, b4, b5, b6, b7] = ret (wb (AES_SBOX ! bits_val [b0, b1, b2, b3, b4, b5, b6, b7]))"
  by (cases b0; cases b1; cases b2; cases b3; cases b4; cases b5; cases b6; cases b7;
      simp add: aes_sbox_def AES_SBOX_def wb_def upt_rec cong: bind_weak_cong)

lemma wb_byte: "wb x = [bit x 0, bit x 1, bit x 2, bit x 3, bit x 4, bit x 5, bit x 6, bit x 7]" for x :: "8 word"
  by (simp add: wb_def numeral_eq_Suc)

lemma aes_sbox_wb: "aes_sbox bool_ctx (wb x) = ret (wb (ref_sbox x))" for x :: "8 word"
proof -
  have "bits_val [bit x 0, bit x 1, bit x 2, bit x 3, bit x 4, bit x 5, bit x 6, bit x 7] = unat x"
    using bits_val_wb [of x] unfolding wb_byte .
  then show ?thesis unfolding ref_sbox_def wb_byte [of x] aes_sbox_table by simp
qed

section \<open>Meaning on truth values\<close>

lemma byte_at_wb [simp]:
  assumes "b < length bs"
  shows "byte_at (concat (map wb bs)) b = ret (wb (bs ! b :: 8 word))"
proof -
  have "rd (concat (map wb bs)) (b * 8 + k) = ret (bit (bs ! b) k)" if "k < 8" for k
    using byte_index_less [OF assms that] nth_concat_bytes [OF assms that] by (simp add: mult.commute)
  then have "byte_at (concat (map wb bs)) b = ret (map (bit (bs ! b)) [0..<8])"
    unfolding byte_at_def by (intro map_gm_ret) simp
  then show ?thesis by (simp add: wb_def)
qed

lemma aes_xtime_wb [simp]: "aes_xtime bool_ctx (wb x) = ret (wb (ref_xtime x))"
  by (simp add: aes_xtime_def wb_byte bit_ref_xtime numeral_2_eq_2 numeral_3_eq_3)

lemma bv_xor_wb [simp]: "bv_xor bool_ctx (wb x) (wb y) = ret (wb (x XOR y))" for x y :: "8 word"
  by (simp add: bv_xor_def)

lemma aes_sub_bytes_wb:
  assumes "length st = 16"
  shows "aes_sub_bytes bool_ctx (concat (map wb st)) = ret (concat (map wb (ref_sub_bytes st)))"
proof -
  have "map_gm (\<lambda>b. bind (byte_at (concat (map wb st)) b) (aes_sbox bool_ctx)) [0..<16] = ret (map (\<lambda>b. wb (ref_sbox (st ! b))) [0..<16])"
    using assms by (intro map_gm_ret) (simp add: aes_sbox_wb)
  moreover have "map (\<lambda>b. wb (ref_sbox (st ! b))) [0..<16] = map wb (ref_sub_bytes st)"
    using assms by (intro nth_equalityI) (simp_all add: ref_sub_bytes_def)
  ultimately show ?thesis by (simp add: aes_sub_bytes_def)
qed

lemma aes_shift_rows_wb:
  assumes "length st = 16"
  shows "aes_shift_rows (concat (map wb st)) = ret (concat (map wb (ref_shift_rows st)))"
  using assms by (simp add: aes_shift_rows_def ref_shift_rows_def four)

lemma aes_mix_sums_wb:
  "aes_mix_sums bool_ctx (wb a) (wb b) (wb c) (wb d) = ret (map (\<lambda>k.
     (bit (a XOR b XOR c XOR d) k, bit (a XOR b) k, bit (b XOR c) k, bit (c XOR d) k, bit (d XOR a) k)) [0..<8])"
  for a b c d :: "8 word"
  unfolding aes_mix_sums_def by (rule map_gm_ret) (auto simp: wb_def bit_xor_iff)

lemma aes_mix_out_wb: "k < 8 \<Longrightarrow> aes_mix_out bool_ctx (wb x) (wb t) (wb y) k = ret (bit (x XOR (t XOR y)) k)" for x t y :: "8 word"
  by (auto simp: aes_mix_out_def wb_def bit_xor_iff)

lemma aes_mix_column_wb:
  assumes "length st = 16" and "c < 4"
  shows "aes_mix_column bool_ctx (concat (map wb st)) c =
    ret (concat (map wb (ref_mix_column (st ! (4 * c)) (st ! (4 * c + 1)) (st ! (4 * c + 2)) (st ! (4 * c + 3)))))"
proof -
  have wbs: "map (\<lambda>k. bit x k) [0..<8] = wb x" for x :: "8 word" by (simp add: wb_def)
  have "map_gm (\<lambda>k. bind (aes_mix_out bool_ctx (wb a) (wb t) (wb p) k) (\<lambda>na. bind (aes_mix_out bool_ctx (wb b) (wb t) (wb q) k) (\<lambda>nb.
      bind (aes_mix_out bool_ctx (wb e) (wb t) (wb r) k) (\<lambda>nc. bind (aes_mix_out bool_ctx (wb d) (wb t) (wb s) k) (\<lambda>nd.
      ret (na, nb, nc, nd)))))) [0..<8] =
    ret (map (\<lambda>k. (bit (a XOR (t XOR p)) k, bit (b XOR (t XOR q)) k, bit (e XOR (t XOR r)) k, bit (d XOR (t XOR s)) k)) [0..<8])"
    for a b e d t p q r s :: "8 word"
    by (rule map_gm_ret) (simp add: aes_mix_out_wb)
  then show ?thesis using assms
    by (simp add: aes_mix_column_def aes_mix_sums_wb comp_def wbs Let_def ref_mix_column_def ref_gmul_small ref_xtime_xor xor_ac
        del: upt_rec_numeral)
qed

lemma aes_mix_columns_wb:
  assumes "length st = 16"
  shows "aes_mix_columns bool_ctx (concat (map wb st)) = ret (concat (map wb (ref_mix_columns st)))"
  using aes_mix_column_wb [OF assms] by (simp add: aes_mix_columns_def ref_mix_columns_def four)

lemma concat_wb_xor:
  "length xs = length ys \<Longrightarrow> map2 (\<lambda>a b. a = (\<not> b)) (concat (map wb xs)) (concat (map wb ys)) = concat (map wb (ref_xor xs ys))"
  for xs ys :: "8 word list"
  by (induction xs ys rule: list_induct2) (simp_all add: ref_xor_def)

text \<open>Gate by gate over a range of wires is bit by bit.\<close>

lemma xor_range:
  assumes "i + n \<le> length xs" and "j + n \<le> length ys"
  shows "map_gm (\<lambda>k. bind (rd xs (i + k)) (\<lambda>x. bind (rd ys (j + k)) (\<lambda>y. xor_gate bool_ctx x y))) [0..<n] =
    ret (map2 (\<lambda>a b. a = (\<not> b)) (take n (drop i xs)) (take n (drop j ys)))"
proof -
  have "map_gm (\<lambda>k. bind (rd xs (i + k)) (\<lambda>x. bind (rd ys (j + k)) (\<lambda>y. xor_gate bool_ctx x y))) [0..<n] =
      ret (map (\<lambda>k. xs ! (i + k) = (\<not> ys ! (j + k))) [0..<n])"
    using assms by (intro map_gm_ret) simp
  moreover have "map (\<lambda>k. xs ! (i + k) = (\<not> ys ! (j + k))) [0..<n] = map2 (\<lambda>a b. a = (\<not> b)) (take n (drop i xs)) (take n (drop j ys))"
    using assms by (intro nth_equalityI) simp_all
  ultimately show ?thesis by simp
qed

lemma concat_wb_slice: "take (8 * n) (drop (8 * m) (concat (map wb bs))) = concat (map wb (take n (drop m bs)))" for bs :: "8 word list"
proof -
  have d: "drop (8 * m) (concat (map wb bs)) = concat (map wb (drop m bs))" for m and bs :: "8 word list"
  proof (induction m arbitrary: bs)
    case (Suc m)
    then show ?case by (cases bs) (simp_all add: add.commute flip: drop_drop)
  qed simp
  have t: "take (8 * n) (concat (map wb bs)) = concat (map wb (take n bs))" for n and bs :: "8 word list"
  proof (induction n arbitrary: bs)
    case (Suc n)
    then show ?case by (cases bs) (simp_all add: take_append)
  qed simp
  show ?thesis by (simp add: d t)
qed

lemma xor_bytes:
  assumes "m + n \<le> length xs" and "l + n \<le> length ys" and "i = 8 * m" and "j = 8 * l" and "w = 8 * n"
  shows "map_gm (\<lambda>k. bind (rd (concat (map wb xs)) (i + k)) (\<lambda>x. bind (rd (concat (map wb ys)) (j + k)) (\<lambda>y. xor_gate bool_ctx x y))) [0..<w] =
    ret (concat (map wb (ref_xor (take n (drop m xs)) (take n (drop l ys)))))"
  using assms by (subst xor_range) (simp_all add: concat_wb_slice concat_wb_xor)

lemma aes_add_round_key_wb:
  assumes "length st = 16" and "16 * r + 16 \<le> length K"
  shows "aes_add_round_key bool_ctx (concat (map wb K)) r (concat (map wb st)) =
    ret (concat (map wb (ref_xor st (take 16 (drop (16 * r) K)))))"
proof -
  have "0 + 16 \<le> length st" "(0 :: nat) = 8 * 0" "r * 128 = 8 * (16 * r)" "(128 :: nat) = 8 * 16" using assms(1) by simp_all
  from xor_bytes [OF this(1) assms(2) this(2-4)] show ?thesis
    unfolding aes_add_round_key_def add_0 drop0 using assms(1) by (simp only: take_all order.refl)
qed

lemma rcon_flips:
  fixes c x :: "8 word"
  assumes "n \<le> 8"
  shows "fold_gm (\<lambda>k tmp. if bit c k then bind (rd tmp k) (\<lambda>x. bind (not_gate bool_ctx x) (wr tmp k)) else ret tmp) [0..<n] (wb x @ rest) =
    ret (map (\<lambda>i. bit x i \<noteq> (i < n \<and> bit c i)) [0..<8] @ rest)"
  using assms
proof (induction n)
  case 0
  then show ?case by (simp add: wb_def)
next
  case (Suc n)
  have "(map (\<lambda>i. bit x i \<noteq> (i < n \<and> bit c i)) [0..<8])[n := \<not> bit x n] = map (\<lambda>i. bit x i \<noteq> (i < Suc n \<and> bit c i)) [0..<8]" if "bit c n"
    using Suc.prems that by (intro nth_equalityI) (auto simp: nth_list_update less_Suc_eq)
  moreover have "map (\<lambda>i. bit x i \<noteq> (i < n \<and> bit c i)) [0..<8] = map (\<lambda>i. bit x i \<noteq> (i < Suc n \<and> bit c i)) [0..<8]" if "\<not> bit c n"
    using that by (auto simp: less_Suc_eq)
  ultimately show ?case using Suc
    by (cases "bit c n") (simp_all add: fold_gm_append list_update_append nth_append)
qed

lemma aes_Rcon_powers:
  assumes "1 \<le> r" and "r < 11"
  shows "aes_Rcon ! r = (ref_xtime ^^ (r - 1)) 1"
proof -
  have "map (\<lambda>t. (ref_xtime ^^ t) 1) [0..<10] = tl aes_Rcon"
    unfolding iterates_eq [symmetric] by (simp add: iterates_numeral aes_Rcon_def ref_xtime_def)
  then have "map (\<lambda>t. (ref_xtime ^^ t) 1) [0..<10] ! (r - 1) = tl aes_Rcon ! (r - 1)" by simp
  then show ?thesis using assms by (simp add: nth_tl aes_Rcon_def)
qed

lemma key_word_xor:
  assumes "length zs = 4 * w" and "1 \<le> w" and "4 * w + 4 \<le> length ys"
  shows "map_gm (\<lambda>k. bind (rd (concat (map wb zs)) ((w - 1) * 32 + k)) (\<lambda>x.
      bind (rd (concat (map wb ys)) (w * 32 + k)) (\<lambda>p. xor_gate bool_ctx x p))) [0..<32] =
    ret (concat (map wb (ref_xor (drop (4 * (w - 1)) zs) (take 4 (drop (4 * w) ys)))))"
proof -
  have len: "4 * (w - 1) + 4 \<le> length zs" "length (drop (4 * (w - 1)) zs) \<le> 4" using assms by (cases w; simp)+
  have "(w - 1) * 32 = 8 * (4 * (w - 1))" "w * 32 = 8 * (4 * w)" "(32 :: nat) = 8 * 4" by simp_all
  from xor_bytes [OF len(1) assms(3) this] show ?thesis using len(2) by (simp only: take_all)
qed

lemma rcon_byte:
  "fold_gm (\<lambda>k tmp. if drop_bit k c AND 1 = 1 then bind (rd tmp k) (\<lambda>x. bind (not_gate bool_ctx x) (wr tmp k)) else ret tmp)
    [0..<8] (wb x @ rest) = ret (wb (x XOR c) @ rest)" for c x :: "8 word"
proof -
  have "map (\<lambda>i. bit x i \<noteq> (i < 8 \<and> bit c i)) [0..<8] = wb (x XOR c)" by (rule wb_eqI) (simp_all add: bit_simps)
  then show ?thesis using rcon_flips [of 8 c x rest] unfolding bit_test by simp
qed

lemma aes_next_key_wb:
  assumes "length k = 16" and "1 \<le> r" and "r < 11"
  shows "aes_next_key bool_ctx r (concat (map wb k)) = ret (concat (map wb (ref_next_key r k)))"
proof -
  let ?P = "concat (map wb k)" and ?c = "(ref_xtime ^^ (r - 1)) 1" and ?w = "\<lambda>i. take 4 (drop (4 * i) k)"
  define temp where "temp = ref_xor (map ref_sbox (rotate1 (?w 3))) [?c, 0, 0, 0]"
  define w0 where "w0 = ref_xor (?w 0) temp"
  have "?w 3 = [k ! 12, k ! 13, k ! 14, k ! 15]"
    using assms(1) by (intro nth_equalityI) (auto simp: less_Suc_eq numeral_eq_Suc)
  then have temp: "temp = [ref_sbox (k ! 13) XOR ?c, ref_sbox (k ! 14), ref_sbox (k ! 15), ref_sbox (k ! 12)]"
    unfolding temp_def by (simp add: ref_xor_def)
  have w0: "length w0 = 4" using assms(1) by (simp add: w0_def temp)
  have tmp: "bind (map_gm (\<lambda>b. byte_at ?P (12 + (b + 1) mod 4)) [0..<4]) (map_gm (aes_sbox bool_ctx)) =
      ret [wb (ref_sbox (k ! 13)), wb (ref_sbox (k ! 14)), wb (ref_sbox (k ! 15)), wb (ref_sbox (k ! 12))]"
    using assms(1) by (simp add: four aes_sbox_wb)
  have rcon: "fold_gm (\<lambda>i tmp. if drop_bit i (aes_Rcon ! r) AND 1 = 1
        then bind (rd tmp i) (\<lambda>x. bind (not_gate bool_ctx x) (wr tmp i)) else ret tmp) [0..<8]
      (concat [wb (ref_sbox (k ! 13)), wb (ref_sbox (k ! 14)), wb (ref_sbox (k ! 15)), wb (ref_sbox (k ! 12))]) =
      ret (concat (map wb temp))"
    by (simp add: rcon_byte temp aes_Rcon_powers [OF assms(2,3)])
  have first: "map_gm (\<lambda>i. bind (rd ?P i) (\<lambda>p. bind (rd (concat (map wb temp)) i) (\<lambda>t. xor_gate bool_ctx p t))) [0..<32] =
      ret (concat (map wb w0))"
    using xor_bytes [of 0 4 k 0 temp 0 0 32] assms(1) unfolding w0_def by (simp add: temp)
  have "fold_gm (\<lambda>w cur. bind (map_gm (\<lambda>i. bind (rd cur ((w - 1) * 32 + i)) (\<lambda>x. bind (rd ?P (w * 32 + i)) (\<lambda>p. xor_gate bool_ctx x p)))
      [0..<32]) (\<lambda>word. ret (cur @ word))) [1..<4] (concat (map wb w0)) =
    ret (concat (map wb (fold (\<lambda>w zs. zs @ ref_xor (drop (4 * (w - 1)) zs) (?w w)) [1..<4] w0))) \<and>
    length (fold (\<lambda>w zs. zs @ ref_xor (drop (4 * (w - 1)) zs) (?w w)) [1..<4] w0) = 4 * 4"
    by (rule fold_gm_upt [where rep = "\<lambda>zs. concat (map wb zs)" and I = "\<lambda>w zs. length zs = 4 * w"])
      ((subst key_word_xor; use assms(1) w0 in simp), use w0 in simp_all)
  moreover have "fold (\<lambda>w zs. zs @ ref_xor (drop (4 * (w - 1)) zs) (?w w)) [1..<4] w0 = ref_next_key r k"
    unfolding ref_next_key_def Let_def temp_def [symmetric] w0_def [symmetric] using w0 assms(1) by (simp add: upt_rec)
  ultimately show ?thesis
    unfolding aes_next_key_def using tmp rcon first by (simp only: bind_assoc [symmetric] bind_ret)
qed

text \<open>The bytes of the first \<open>n\<close> round keys.\<close>

definition round_keys :: "8 word list \<Rightarrow> nat \<Rightarrow> 8 word list" where
  "round_keys key n = concat (map (ref_round_key key) [0..<n])"

lemma round_keys_simps:
  assumes "length key = 16"
  shows "length (round_keys key n) = 16 * n" and "round_keys key (Suc n) = round_keys key n @ ref_round_key key n"
    and "r < n \<Longrightarrow> take 16 (drop (16 * r) (round_keys key n)) = ref_round_key key r"
proof -
  show len: "length (round_keys key n) = 16 * n" for n
    unfolding round_keys_def by (subst length_concat_uniform [of _ 16]) (auto simp: assms)
  show "round_keys key (Suc n) = round_keys key n @ ref_round_key key n" by (simp add: round_keys_def)
  assume "r < n"
  then show "take 16 (drop (16 * r) (round_keys key n)) = ref_round_key key r"
  proof (induction n)
    case (Suc n)
    have "16 * r + 16 \<le> 16 * n" if "r < n" using that by simp
    with Suc len [of n] assms show ?case by (cases "r = n") (auto simp: round_keys_def less_Suc_eq)
  qed simp
qed

lemma read_key:
  fixes K :: "8 word list"
  assumes "16 * r + 16 \<le> length K"
  shows "map_gm (\<lambda>i. rd (concat (map wb K)) (r * 128 + i)) [0..<128] = ret (concat (map wb (take 16 (drop (16 * r) K))))"
proof -
  have "map_gm (\<lambda>i. rd (concat (map wb K)) (r * 128 + i)) [0..<128] = ret (map (\<lambda>i. concat (map wb K) ! (r * 128 + i)) [0..<128])"
    using assms by (intro map_gm_ret) simp
  moreover have "map (\<lambda>i. concat (map wb K) ! (r * 128 + i)) [0..<128] = take (8 * 16) (drop (8 * (16 * r)) (concat (map wb K)))"
    using assms by (intro nth_equalityI) (simp_all add: mult.commute)
  ultimately show ?thesis unfolding concat_wb_slice by simp
qed

lemma aes128_key_schedule_wb:
  assumes "length key = 16"
  shows "aes128_key_schedule bool_ctx (concat (map wb key)) = ret (concat (map wb (round_keys key 11)))"
proof -
  have "fold_gm (\<lambda>r expanded. bind (map_gm (\<lambda>i. rd expanded ((r - 1) * 128 + i)) [0..<128]) (\<lambda>prev.
        bind (aes_next_key bool_ctx r prev) (\<lambda>cur. ret (expanded @ cur)))) [1..<Suc n] (concat (map wb key)) =
      ret (concat (map wb (round_keys key (Suc n))))" if "n \<le> 10" for n
    using that
  proof (induction n)
    case 0
    then show ?case by (simp add: round_keys_def)
  next
    case (Suc n)
    let ?K = "round_keys key (Suc n)"
    have "map_gm (\<lambda>i. rd (concat (map wb ?K)) (n * 128 + i)) [0..<128] = (ret (concat (map wb (ref_round_key key n))) :: (unit, _) gm)"
      using read_key [of n ?K] round_keys_simps [OF assms] assms by simp
    moreover have "aes_next_key bool_ctx (Suc n) (concat (map wb (ref_round_key key n))) = ret (concat (map wb (ref_round_key key (Suc n))))"
      using aes_next_key_wb [of "ref_round_key key n" "Suc n"] Suc.prems assms by simp
    moreover have "[1..<Suc (Suc n)] = [1..<Suc n] @ [Suc n]" by simp
    ultimately show ?case
      using Suc round_keys_simps(2) [OF assms, of "Suc n"] by (simp only: fold_gm_append) (simp del: upt_Suc ref_round_key.simps)
  qed
  from this [of 10] show ?thesis using assms by (simp add: aes128_key_schedule_def map_gm_rd)
qed

lemma aes128_encrypt_block_wb:
  assumes "length key = 16" and "length m = 16"
  shows "aes128_encrypt_block bool_ctx (concat (map wb m)) (concat (map wb (round_keys key 11))) = ret (concat (map wb (AES128 key m)))"
    and "length (AES128 key m) = 16"
proof -
  note keys = round_keys_simps [OF assms(1)]
  have key: "aes_add_round_key bool_ctx (concat (map wb (round_keys key 11))) r (concat (map wb st)) =
      ret (concat (map wb (ref_xor st (ref_round_key key r))))" if "r < 11" "length st = 16" for r st
    using aes_add_round_key_wb [OF that(2), of r "round_keys key 11"] keys that by simp
  have "aes128_encrypt_block bool_ctx (concat (map wb m)) (concat (map wb (round_keys key 11))) = ret (concat (map wb (AES128 key m))) \<and>
      length (AES128 key m) = 16"
    unfolding aes128_encrypt_block_def AES128_def key [OF zero_less_numeral assms(2)] bind_ret
    by (rule fold_gm_upt [where rep = "\<lambda>zs. concat (map wb zs)" and I = "\<lambda>_ st. length st = 16"])
      (use assms in \<open>auto simp: aes_sub_bytes_wb aes_shift_rows_wb aes_mix_columns_wb key Let_def\<close>)
  then show "aes128_encrypt_block bool_ctx (concat (map wb m)) (concat (map wb (round_keys key 11))) = ret (concat (map wb (AES128 key m)))"
    and "length (AES128 key m) = 16" by auto
qed

section \<open>Counter mode\<close>

lemma length_ref_counter [simp]: "length iv = 16 \<Longrightarrow> length (ref_counter iv n) = 16"
  by (simp add: ref_counter_def)

lemma ref_counter_add: "length iv = 16 \<Longrightarrow> ref_counter (ref_counter iv a) b = ref_counter iv (a + b)"
  by (simp add: ref_counter_def add.assoc)

lemma counter_bit:
  assumes "length iv = 16" and "b < 8" and "k < 8"
  shows "concat (map wb (ref_counter iv n)) ! ((15 - b) * 8 + k) = wb (be_word (drop 8 iv) + n) ! (b * 8 + k)"
proof -
  let ?ys = "ref_counter iv n" and ?w = "be_word (drop 8 iv) + n"
  have b: "15 - b < 16" "\<not> 15 - b < 8" "15 - b - 8 = 7 - b" using assms(2) by simp_all
  have "concat (map wb ?ys) ! (8 * (15 - b) + k) = bit (?ys ! (15 - b)) k"
    using b assms by (intro nth_concat_bytes) simp_all
  also have "?ys ! (15 - b) = be_bytes ?w ! (7 - b)" using b assms(1) unfolding ref_counter_def by (simp add: nth_append)
  also have "bit \<dots> k = bit ?w (8 * b + k)" using assms by (simp add: bit_be_bytes)
  finally show ?thesis using byte_index_less [OF assms(2,3)] by (simp add: mult.commute)
qed

lemma write_counter:
  fixes iv :: "8 word list" and n :: "64 word"
  assumes "length iv = 16"
  shows "fold_gm (\<lambda>b. fold_gm (\<lambda>k block. bind (rd (wb (be_word (drop 8 iv) + n)) (b * 8 + k)) (wr block ((15 - b) * 8 + k))) [0..<8]) [0..<8]
      (concat (map wb iv)) = ret (concat (map wb (ref_counter iv n)))" (is "?l = ret (concat (map wb ?ys))")
proof -
  let ?ks = "List.product [0..<8] [0..<8::nat]" and ?w = "be_word (drop 8 iv) + n"
  let ?q = "\<lambda>(b, k). (15 - b) * 8 + k" and ?v = "\<lambda>(b, k). wb ?w ! (b * 8 + k)"
  have "?l = fold_gm (\<lambda>x block. wr block (?q x) (?v x)) ?ks (concat (map wb iv))"
    unfolding fold_gm_product
    by (rule fold_gm_cong) (auto simp: byte_index_less [of _ 8, simplified] mult.commute)
  also have "\<dots> = ret (concat (map wb ?ys))"
  proof (rule fill)
    show "\<forall>x \<in> set ?ks. ?q x < length (concat (map wb ?ys)) \<and> ?v x = concat (map wb ?ys) ! ?q x"
      using counter_bit [OF assms] assms byte_index_less [of "15 - b" 16 k for b k] by (auto simp: mult.commute)
    show "\<forall>p < length (concat (map wb ?ys)). (\<exists>x \<in> set ?ks. ?q x = p) \<or> concat (map wb iv) ! p = concat (map wb ?ys) ! p"
    proof (intro allI impI)
      fix p
      assume "p < length (concat (map wb ?ys))"
      then have p: "p div 8 < 16" "p mod 8 < 8" "8 * (p div 8) + p mod 8 = p" using assms by simp_all
      show "(\<exists>x \<in> set ?ks. ?q x = p) \<or> concat (map wb iv) ! p = concat (map wb ?ys) ! p"
      proof (cases "p div 8 < 8")
        case True
        then have "iv ! (p div 8) = ?ys ! (p div 8)" using assms by (simp add: nth_append ref_counter_def)
        then show ?thesis using nth_concat_bytes [of "p div 8" iv "p mod 8"] nth_concat_bytes [of "p div 8" ?ys "p mod 8"] p assms by simp
      next
        case False
        have "(15 - (15 - p div 8)) * 8 + p mod 8 = p" using p by simp
        then show ?thesis using False p by (intro disjI1 bexI [of _ "(15 - p div 8, p mod 8)"]) auto
      qed
    qed
  qed (use assms in simp)
  finally show ?thesis .
qed

lemma ctr_inc_be64_wb:
  assumes "length iv = 16"
  shows "ctr_inc_be64 bool_ctx (concat (map wb iv)) delta = ret (concat (map wb (ref_counter iv delta)))"
proof (cases "delta = 0")
  case True
  then show ?thesis using assms by (simp add: ctr_inc_be64_def ref_counter_def)
next
  case False
  have "map (\<lambda>b. wb (iv ! (15 - b))) [0..<8] = map wb (rev (drop 8 iv))"
    using assms by (intro nth_equalityI) (simp_all add: rev_nth)
  then have ctr: "map_gm (\<lambda>b. byte_at (concat (map wb iv)) (15 - b)) [0..<8] = (ret (map wb (rev (drop 8 iv))) :: (unit, _) gm)"
    using assms by (subst map_gm_ret [where g = "\<lambda>b. wb (iv ! (15 - b))"]) simp_all
  have word: "concat (map wb (rev (drop 8 iv))) = wb (be_word (drop 8 iv) :: 64 word)"
    unfolding be_word_def using assms by simp
  have const: "uint_constant bool_ctx 64 delta = ret (wb delta)" using uint_constant_wb [where 'a = 64, of delta] by simp
  show ?thesis using False write_counter [OF assms] unfolding ctr_inc_be64_def
    by (simp only: ctr word const uint_wb bind_ret if_False)
qed

lemma ctr_blk:
  assumes "d < n"
  shows "ctr_blk n d \<le> 128" and "d + ctr_blk n d \<le> n" and "d + ctr_blk n d < n \<longleftrightarrow> d + 128 < n"
    and "length xs = n \<Longrightarrow> take (d + 128) xs = take d xs @ take (ctr_blk n d) (drop d xs)"
  using assms by (auto simp: ctr_blk_def take_add)

lemma AES128_CTR_chunk:
  assumes "length key = 16" and "length iv = 16" and "128 * i < length m"
  defines "blk \<equiv> ctr_blk (length m) (128 * i)"
  shows "take (128 * Suc i) (AES128_CTR key iv start m) = take (128 * i) (AES128_CTR key iv start m) @
    map2 (\<lambda>a b. a = (\<not> b)) (take blk (drop (128 * i) m)) (take blk (concat (map wb (AES128 key (ref_counter iv (start + of_nat i))))))"
proof -
  let ?R = "AES128_CTR key iv start m" and ?n = "(length m + 127) div 128"
  let ?ks = "\<lambda>i. concat (map wb (AES128 key (ref_counter iv (start + of_nat i))))"
  have ks: "length (?ks j) = 128" for j using aes128_encrypt_block_wb(2) [OF assms(1), of "ref_counter iv (start + of_nat j)"] assms(2) by simp
  have kss: "\<forall>xs \<in> set (map ?ks [0..<?n]). length xs = 128" using ks by auto
  have n: "length m \<le> 128 * ?n" "i < ?n" using assms(3) by simp_all
  have len: "length ?R = length m" using n length_concat_uniform [OF kss] by (simp add: AES128_CTR_def)
  have R: "?R ! (128 * i + j) = (m ! (128 * i + j) \<noteq> ?ks i ! j)" if "j < 128" "128 * i + j < length m" for j
  proof -
    have "concat (map ?ks [0..<?n]) ! (128 * i + j) = map ?ks [0..<?n] ! i ! j"
      using nth_concat_uniform [OF kss, of "128 * i + j"] that n by simp
    moreover have "128 * i + j < length (concat (map ?ks [0..<?n]))" using length_concat_uniform [OF kss] that n by simp
    ultimately show ?thesis using that n(2) unfolding AES128_CTR_def by (simp del: length_concat)
  qed
  have "take (128 * Suc i) ?R = take (128 * i) ?R @ take blk (drop (128 * i) ?R)"
    using ctr_blk(4) [OF assms(3) len] by (simp add: blk_def add.commute)
  moreover have "take blk (drop (128 * i) ?R) = map2 (\<lambda>a b. a = (\<not> b)) (take blk (drop (128 * i) m)) (take blk (?ks i))"
  proof (rule nth_equalityI)
    have blk: "blk \<le> 128" "128 * i + blk \<le> length m" using ctr_blk(1,2) [OF assms(3)] by (simp_all add: blk_def)
    then show "length (take blk (drop (128 * i) ?R)) = length (map2 (\<lambda>a b. a = (\<not> b)) (take blk (drop (128 * i) m)) (take blk (?ks i)))"
      using len ks by simp
    fix j
    assume "j < length (take blk (drop (128 * i) ?R))"
    then have "j < blk" by simp
    then have "j < 128" "128 * i + j < length m" using blk by simp_all
    with R [OF this] blk len ks \<open>j < blk\<close> show "take blk (drop (128 * i) ?R) ! j = map2 (\<lambda>a b. a = (\<not> b)) (take blk (drop (128 * i) m)) (take blk (?ks i)) ! j"
      by simp
  qed
  ultimately show ?thesis by simp
qed

lemma aes128_ctr_bool:
  assumes "length key = 16" and "length iv = 16"
  shows "aes128_ctr bool_ctx (concat (map wb key)) (concat (map wb iv)) m start = ret (AES128_CTR key iv start m)"
proof -
  let ?R = "AES128_CTR key iv start m" and ?n = "(length m + 127) div 128"
  let ?K = "concat (map wb (round_keys key 11))" and ?c = "\<lambda>i. ref_counter iv (start + of_nat i)"
  let ?blk = "\<lambda>i. ctr_blk (length m) (128 * i)"
  let ?body = "\<lambda>i (outp, counter). bind (aes128_encrypt_block bool_ctx counter ?K) (\<lambda>ks.
      bind (map_gm (\<lambda>j. bind (rd m (128 * i + j)) (\<lambda>x. bind (rd ks j) (\<lambda>k. xor_gate bool_ctx x k))) [0..<?blk i]) (\<lambda>ys.
      bind (if 128 * i + ?blk i < length m then ctr_inc_be64 bool_ctx counter 1 else ret counter) (\<lambda>counter. ret (outp @ ys, counter))))"
  have "\<exists>c. fold_gm ?body [0..<n] ([], concat (map wb (?c 0))) = ret (take (128 * n) ?R, c) \<and>
      (n < ?n \<longrightarrow> c = concat (map wb (?c n)))" if "n \<le> ?n" for n
    using that
  proof (induction n)
    case (Suc i)
    then have i: "128 * i < length m" "i < ?n" by simp_all
    with Suc obtain c where c: "fold_gm ?body [0..<i] ([], concat (map wb (?c 0))) = ret (take (128 * i) ?R, c)"
      "c = concat (map wb (?c i))" by auto
    let ?ks = "concat (map wb (AES128 key (?c i)))"
    have enc: "aes128_encrypt_block bool_ctx c ?K = ret ?ks" "length ?ks = 128"
      unfolding c(2) using aes128_encrypt_block_wb [OF assms(1), of "?c i"] assms(2) by simp_all
    have xor: "map_gm (\<lambda>j. bind (rd m (128 * i + j)) (\<lambda>x. bind (rd ?ks j) (\<lambda>k. xor_gate bool_ctx x k))) [0..<?blk i] =
        ret (map2 (\<lambda>a b. a = (\<not> b)) (take (?blk i) (drop (128 * i) m)) (take (?blk i) ?ks))"
      using xor_range [of "128 * i" "?blk i" m 0 ?ks] ctr_blk [OF i(1)] enc(2) by simp
    have inc: "ctr_inc_be64 bool_ctx c 1 = ret (concat (map wb (?c (Suc i))))"
      unfolding c(2) using ctr_inc_be64_wb [of "?c i" 1] assms(2) by (simp add: ref_counter_add ac_simps)
    have more: "128 * i + ?blk i < length m \<longleftrightarrow> Suc i < ?n" using ctr_blk(3) [OF i(1)] by auto
    have step: "?body i (take (128 * i) ?R, c) = ret (take (128 * Suc i) ?R, if Suc i < ?n then concat (map wb (?c (Suc i))) else c)"
      unfolding split enc(1) bind_ret xor more inc AES128_CTR_chunk [OF assms i(1)] by simp
    have "fold_gm ?body [0..<Suc i] ([], concat (map wb (?c 0))) = ?body i (take (128 * i) ?R, c)"
      by (simp only: upt_Suc_append le0 fold_gm_snoc c(1) bind_ret)
    then show ?case unfolding step by auto
  qed simp
  from this [of ?n] obtain c where "fold_gm ?body [0..<?n] ([], concat (map wb (?c 0))) = ret (take (128 * ?n) ?R, c)" by auto
  moreover have "take (128 * ?n) ?R = ?R" by (simp add: AES128_CTR_def)
  ultimately show ?thesis
    using assms by (simp add: aes128_ctr_def aes128_key_schedule_wb map_gm_rd ctr_inc_be64_wb Let_def cong: if_cong)
qed

section \<open>Properties\<close>

text \<open>
  (C21) The AES-128 circuit, run on the plaintext wires of a block and a key, returns the wires of the FIPS 197
  encryption of the block; its S-box is the affine image of inversion in the field with 256 elements.
\<close>

theorem aes128_encrypt_correct:
  assumes "length m = 16" and "length key = 16"
  shows "aes128_encrypt ClearCtx (clear_bits (concat (map wb m))) (clear_bits (concat (map wb key))) =
      ret (clear_bits (concat (map wb (AES128 key m)))) \<and>
    (\<forall>x. \<exists>y. aes_sbox ClearCtx (clear_bits (wb x)) = ret (clear_bits (wb (ref_affine y))) \<and>
      (if x = 0 then y = 0 else ref_gmul x y = 1))"
proof (intro conjI allI)
  have "aes128_encrypt bool_ctx (concat (map wb m)) (concat (map wb key)) = ret (concat (map wb (AES128 key m)))"
    by (simp add: aes128_encrypt_def aes128_key_schedule_wb aes128_encrypt_block_wb assms)
  then show "aes128_encrypt ClearCtx (clear_bits (concat (map wb m))) (clear_bits (concat (map wb key))) =
      ret (clear_bits (concat (map wb (AES128 key m))))"
    by (rule clear_binop [OF bool_clear.aes128_encrypt_transfer])
  show "\<exists>y. aes_sbox ClearCtx (clear_bits (wb x)) = ret (clear_bits (wb (ref_affine y))) \<and>
      (if x = 0 then y = 0 else ref_gmul x y = 1)" for x
    using clear_unop [OF bool_clear.aes_sbox_transfer aes_sbox_wb] ref_sbox_affine_inverse by metis
qed

theorem aes128_encrypt_correct_witness:
  "aes128_encrypt ClearCtx
     (clear_bits (concat (map wb [0x00 :: 8 word, 0x11, 0x22, 0x33, 0x44, 0x55, 0x66, 0x77, 0x88, 0x99, 0xAA, 0xBB, 0xCC, 0xDD, 0xEE, 0xFF])))
     (clear_bits (concat (map wb [0x00 :: 8 word, 0x01, 0x02, 0x03, 0x04, 0x05, 0x06, 0x07, 0x08, 0x09, 0x0A, 0x0B, 0x0C, 0x0D, 0x0E, 0x0F]))) =
   ret (clear_bits (concat (map wb [0x69 :: 8 word, 0xC4, 0xE0, 0xD8, 0x6A, 0x7B, 0x04, 0x30, 0xD8, 0xCD, 0xB7, 0x80, 0x70, 0xB4, 0xC5, 0x5A])))"
  using aes128_encrypt_correct [of "[0x00, 0x11, 0x22, 0x33, 0x44, 0x55, 0x66, 0x77, 0x88, 0x99, 0xAA, 0xBB, 0xCC, 0xDD, 0xEE, 0xFF]"
      "[0x00, 0x01, 0x02, 0x03, 0x04, 0x05, 0x06, 0x07, 0x08, 0x09, 0x0A, 0x0B, 0x0C, 0x0D, 0x0E, 0x0F]"]
  unfolding AES128_example by simp

text \<open>
  (C23) Counter mode encrypts a message of any number of bits, a partial last block included, under the key
  stream of the counter blocks \<open>start\<close>, \<open>start + 1\<close>, ... with a 64-bit big-endian counter that wraps.
\<close>

theorem aes128_ctr_correct:
  assumes "length key = 16" and "length iv = 16"
  shows "aes128_ctr ClearCtx (clear_bits (concat (map wb key))) (clear_bits (concat (map wb iv))) (clear_bits m) start =
    ret (clear_bits (AES128_CTR key iv start m))"
proof -
  have "rel_fun bool_clear.Ws (rel_fun bool_clear.Ws (bool_clear.S bool_clear.Ws))
      (\<lambda>k m. aes128_ctr bool_ctx k (concat (map wb iv)) m start) (\<lambda>k m. aes128_ctr ClearCtx k (clear_bits (concat (map wb iv))) m start)"
    using bool_clear.aes128_ctr_transfer by (auto simp: rel_fun_def clear_bits_rel)
  from clear_binop [OF this aes128_ctr_bool [OF assms]] show ?thesis .
qed

theorem aes128_ctr_correct_witness:
  "aes128_ctr ClearCtx (clear_bits (concat (map wb (replicate 16 (7 :: 8 word))))) (clear_bits (concat (map wb (replicate 16 (255 :: 8 word)))))
     (clear_bits (replicate 200 True)) 1 = ret (clear_bits (AES128_CTR (replicate 16 7) (replicate 16 255) 1 (replicate 200 True)))"
  by (rule aes128_ctr_correct) simp_all

end
