(* ===== verification/Spec2Isabelle.thy ===== *)
theory Spec2Isabelle
  imports Transform Empbc Analysis Simd Prg Trace_Io Test_Mode Frontend Sha256 Keccak Aes
begin

text \<open>
  \<^bold>\<open>emp-tool: verification development.\<close> File names are relative to \<open>src/emp-tool/\<close>.

  \<^bold>\<open>The program.\<close> emp-tool is the base library of a family of secure-computation protocols. It has two halves.
  The circuit half builds Boolean circuits: typed values (\<open>circuits/\<close>) are templates over a \<^emph>\<open>Boolean context\<close> that
  supplies the gates; running them on a recording context gives a program of the intermediate representation
  (\<open>ir/program.h\<close>), which is validated, analysed, compacted, saved, loaded and replayed on other contexts. The runtime
  half supplies blocks, bit packing, batched AES, the hashes and generators built on it, garbling of single gates,
  and the channels over which two parties talk.

  \<^bold>\<open>Conventions\<close> (theory \<open>Prelude\<close>). Every fatal \<open>expecting(cond, message)\<close> is a constructor of \<open>error\<close>; an access the
  C++ program must not make is the error \<open>UndefinedBehaviour\<close>, and the theorems about operations that return show that
  it is not reached. A computation that may exit is \<open>'a res\<close>; one that also has state is \<open>('s, 'a) gm\<close>, where the state
  is that of a Boolean context, an output buffer, or a transport. Machine integers keep their width where it
  matters (\<open>8 word\<close> to \<open>128 word\<close>); wire ids and counts are \<open>nat\<close> with the reductions of the code written out. A local
  array that the code does not initialise is an argument (\<open>junk\<close>) over which the theorems quantify. A choice made at
  compile time (AVX2 or SSE packing, the AES tier, debug checks) is an argument too, so that the theorems hold of
  every build.

  \<^bold>\<open>Intermediate representation.\<close>
  \<^item> \<open>Program\<close> (\<open>ir/program.h\<close>, \<open>ir/visit.h\<close>): gates, programs, the gate walk.
  \<^item> \<open>Validate\<close> (\<open>ir/validate.h\<close>): validation decides the structural contract \<open>wf_program\<close>; of what is documented
    for dense programs it leaves out the order of the ids.
  \<^item> \<open>Context\<close>, \<open>Recording\<close> (\<open>ir/context/\<close>): contexts as records of gate operations; the clear, recording, counting and
    digest contexts. The locale \<open>ctx_sim\<close> is a simulation between two contexts; its interpretations say that
    recording, counting and hashing a circuit describe the circuit that evaluation computes.
  \<^item> \<open>Execute\<close> (\<open>ir/execute.h\<close>): replay of valid programs stays inside its buffer, does not depend on what the reused
    buffer held, and computes the Boolean function \<open>program_fun\<close> that the gate list denotes: a valuation of wire ids
    by truth tables, defined without the replay code.
  \<^item> \<open>Passes\<close>, \<open>Analysis\<close> (\<open>ir/passes.h\<close>, \<open>ir/analysis.h\<close>): the passes and the statistics against set-level definitions.
  \<^item> \<open>Transform\<close> (\<open>ir/transform.h\<close>): compaction as register allocation; it and its inverse preserve the meaning of a
    program on every context.
  \<^item> \<open>Schedule\<close>, \<open>Simd\<close> (\<open>ir/schedule.h\<close>, \<open>ir/simd.h\<close>): replay by AND-depth levels, and on 128 instances at a time, equals
    scalar replay.
  \<^item> \<open>Empbc\<close> (\<open>ir/empbc.h\<close>): the file format. Loading inverts saving, and only valid programs load.

  \<^bold>\<open>Circuits.\<close>
  \<^item> \<open>Kernels\<close>, \<open>Loops\<close>, \<open>Values\<close>, \<open>Unsigned\<close>, \<open>Signed\<close>, \<open>Words\<close> (\<open>circuits/numeric_kernels.h\<close>, \<open>bit.h\<close>, \<open>bitvec.h\<close>,
    \<open>unsigned_int.h\<close>, \<open>signed_int.h\<close>): every operator preserves simulations of contexts and computes the intended
    arithmetic on truth values.
  \<^item> \<open>Gate_Cost\<close>: bounds on the gate calls of the operators, hence on the wire ids that recording them takes.
  \<^item> \<open>Frontend\<close> (\<open>circuits/frontend/circuit_fn.h\<close>, \<open>ir/artifact.h\<close>): compiling a circuit function whose gate calls fit the
    id space succeeds, with a valid program that computes the function; this is proved in the locales \<open>circuit_source\<close>
    and \<open>budgeted_source\<close> and instantiated for the operators.
  \<^item> \<open>Sha256\<close>, \<open>Keccak\<close>, \<open>Fips197\<close>, \<open>Aes\<close> (\<open>circuits/crypto/\<close>): the circuits compute the functions of FIPS 180-4, FIPS 202
    and FIPS 197, which are written out independently of the circuits, constants included (roots of primes, the
    feedback register of Keccak, the inverse in the field of AES).

  \<^bold>\<open>Runtime.\<close>
  \<^item> \<open>Packing\<close>, \<open>Block\<close> (\<open>runtime/core/utils.hpp\<close>, \<open>block.hpp\<close>): packing of bools in both SIMD forms, and blocks.
  \<^item> \<open>Aes_Tiles\<close>, \<open>Aes_Kernels\<close> (\<open>runtime/crypto/aes.hpp\<close>, \<open>runtime/core/simd_tier.h\<close>): batched AES on every tier, in place or
    not, is FIPS 197 on each block. The locales \<open>aes_lane\<close>, \<open>mem_tile\<close> and \<open>plain_tile\<close> are the contracts of a vector lane
    and of a tile kernel; every lane and tile of the code interprets them.
  \<^item> \<open>Mitccrh\<close>, \<open>Garble\<close> (\<open>runtime/crypto/mitccrh.h\<close>, \<open>runtime/execution/\<close>): the multi-instance hash with its cached key
    schedules, and half-gates and privacy-free garbling of an AND gate, correct for parties with different builds.
    The locale \<open>gate_hash\<close> is what garbling needs of a hash.
  \<^item> \<open>Prg\<close> (\<open>runtime/crypto/prg.h\<close>, \<open>prp.h\<close>, \<open>ccrh.h\<close>): every way of drawing from a generator reads one AES keystream.
  \<^item> \<open>Io_Channel\<close>, \<open>Io_Bools\<close>, \<open>Net_Io\<close>, \<open>Trace_Io\<close> (\<open>runtime/io/io_channel.h\<close>, \<open>net_io_channel.h\<close>, \<open>trace_io.h\<close>): the channel base
    class over a transport, the buffered network transport and the tracing adapter. The locale \<open>byte_stream\<close> is the
    contract between them. Two endpoints and two wires form the step relation \<open>link_step\<close>; its invariant gives the
    agreement of the Fiat-Shamir transcripts, the delivery of everything sent, and the contents of trace files.
  \<^item> \<open>Test_Mode\<close> (\<open>runtime/core/test_mode.h\<close>): seeds by lane and ordinal as a transition system over threads, one step per
    access to a shared atomic.

  \<^bold>\<open>Termination and bounds.\<close> There is no fuel: every loop is a structural recursion, a fold over an index range, or a
  \<open>function\<close> with a termination proof, so every definition is total and a theorem that an operation returns is an
  equation with \<open>Inr\<close>. Hypotheses on sizes are those of the code: wire ids below \<open>2 ^ 32\<close>, byte counts and
  counters below \<open>2 ^ 64\<close>, and fewer than \<open>2 ^ 31 - 1\<close> AND gates where the code keeps AND-depths in a signed \<open>int\<close> (an
  overflow there is undefined behaviour in the model). The socket of \<open>Net_Io\<close> is a list of decisions (how many bytes a
  call takes or gives, an interruption, a failure), after which calls move all they can. \<open>net_alive\<close> excludes failures
  and is assumed where an operation is shown to succeed; \<open>net_flushes_ok\<close>, which excludes failures of \<open>fflush\<close> only, is
  assumed by the invariants, because the code does not notice such a failure. In \<open>Test_Mode\<close> the tokens of the threads
  are assumed distinct, the epoch and the ordinals not to wrap, resets not to overlap draws or other resets, and
  scopes not to be on lane 0; runs that break one of the last two and repeat a seed are given.

  \<^bold>\<open>Parameters.\<close> The hash of a transcript (OpenSSL or BLAKE3), the hash of a thread id, kernel entropy, and the contents
  of uninitialised memory are arguments of the definitions that use them. Intrinsics are written out with their
  documented meaning.

  \<^bold>\<open>Not modelled.\<close> Connection set-up and TLS (\<open>tcp_socket.h\<close>, \<open>tls_io_channel.h\<close>), elliptic curves (\<open>ec.cpp\<close>) and the transfer of
  points over a channel, and the digest wrappers: they are calls into the operating system and OpenSSL. The bit-matrix
  transposes and the field \<open>GF(2 ^ 128)\<close> (\<open>transpose.hpp\<close>, \<open>f2k.hpp\<close>): written in further instruction sets whose intrinsics
  have no model here. Sessions (\<open>ir/session/\<close>): protocol drivers around reference-counted wire handles. Composition of
  artifacts, floating point, sorting, the asset lookup, the command-line tool, benchmarks and tests: not reached,
  generated, or printing.

  \<^bold>\<open>Findings\<close> that came out of the proofs, each with a lemma or noted at its definition.
  \<^item> Validation accepts dense programs whose ids are not in emission order (\<open>Validate.swapped_ids\<close>), and \<open>uncompact\<close> is not
    the identity on these (\<open>Transform.uncompact_dense_not_identity\<close>).
  \<^item> Padding bytes of a gate record are not checked (\<open>Empbc.load_empbc_ignores_padding\<close>).
  \<^item> \<open>mod_exp\<close> wraps for large moduli (\<open>Unsigned.uint_mod_exp_wraps\<close>), and a zero exponent gives 1 also modulo 1
    (\<open>Unsigned.uint_mod_exp_zero_exponent\<close>).
  \<^item> The layout pass follows the first operand of constant gates (\<open>Analysis.layout_follows_constant_operand\<close>), and the
    schedule pass keeps AND-depths in an \<open>int\<close> (\<open>Passes.int_add\<close>).
  \<^item> \<open>PRG::reseed\<close> keeps words already buffered by \<open>operator()\<close> (\<open>Prg.reseed_keeps_buffered_words\<close>).
  \<^item> A failed \<open>fflush\<close> of a NetIO is not noticed (\<open>Net_Io.failed_flush_is_silent\<close>).
  \<^item> A reset of the test seeds that overlaps a draw, and a scope on lane 0, repeat a seed without an abort
    (\<open>Test_Mode.reset_race_repeats_seed\<close>, \<open>Test_Mode.lane0_scope_repeats_seed\<close>).
\<close>

end
